(* ===== verification/Prelude.thy ===== *)
theory Prelude
  imports Main "HOL-Library.Word" "HOL-Library.Sublist"
begin

text \<open>
  The shared vocabulary of the development: machine integers as the sources use them
  (\<open>u8\<close>, \<open>u32\<close>, \<open>u64\<close> as words; \<open>i64\<close> as a 64 bit word under the signed order), the
  saturating operations of Rust's standard library, the \<open>Result\<close> type with its \<open>?\<close>
  operator, and the facts about them that the component theories have in common.
\<close>

unbundle bit_operations_syntax

named_theorems i64_simps \<open>reading the results of machine arithmetic as mathematical integers\<close>
named_theorems le_bytes_simps \<open>little endian encodings and their lengths\<close>

section \<open>Results and errors\<close>

type_synonym ('e, 'a) result = "'e + 'a"

abbreviation Ok :: "'a \<Rightarrow> ('e, 'a) result" where
  "Ok \<equiv> Inr"

abbreviation Err :: "'e \<Rightarrow> ('e, 'a) result" where
  "Err \<equiv> Inl"

text \<open>Rust's \<open>?\<close>: return early with the error, continue with the value.\<close>

fun try_bind :: "('e, 'a) result \<Rightarrow> ('a \<Rightarrow> ('e, 'b) result) \<Rightarrow> ('e, 'b) result" where
  "try_bind (Inl e) f = Inl e"
| "try_bind (Inr a) f = f a"

lemma try_bind_Ok_iff: "try_bind r f = Inr b \<longleftrightarrow> (\<exists>a. r = Inr a \<and> f a = Inr b)"
  by (cases r) auto

lemma try_bind_Err_iff:
  "try_bind r f = Inl e \<longleftrightarrow> r = Inl e \<or> (\<exists>a. r = Inr a \<and> f a = Inl e)"
  by (cases r) auto

definition ok_or :: "'a option \<Rightarrow> 'e \<Rightarrow> ('e, 'a) result" where
  "ok_or x e = (case x of None \<Rightarrow> Inl e | Some a \<Rightarrow> Inr a)"

lemma ok_or_simps [simp]:
  "ok_or None e = Inl e"
  "ok_or (Some a) e = Inr a"
  by (simp_all add: ok_or_def)

section \<open>Machine integers\<close>

type_synonym u8 = "8 word"
type_synonym u16 = "16 word"
type_synonym u32 = "32 word"
type_synonym u64 = "64 word"
type_synonym u128 = "128 word"

text \<open>
  A signed 64 bit integer: the same bits as a \<open>u64\<close>, read as two's complement and ordered
  as signed. The wrapper gives it its own order, so that \<open>sorted\<close>, \<open>sort_key\<close>, \<open>min\<close>
  and \<open>max\<close> are the ones of the source.
\<close>

datatype i64 = I64 (i64_bits: "64 word")

definition ival :: "i64 \<Rightarrow> int" where
  "ival a = sint (i64_bits a)"

definition i64_of_int :: "int \<Rightarrow> i64" where
  "i64_of_int k = I64 (word_of_int k)"

abbreviation i64_min :: int where
  "i64_min \<equiv> - 9223372036854775808"

abbreviation i64_max :: int where
  "i64_max \<equiv> 9223372036854775807"

definition in_i64 :: "int \<Rightarrow> bool" where
  "in_i64 k \<longleftrightarrow> i64_min \<le> k \<and> k \<le> i64_max"

definition i64_MIN :: i64 where
  "i64_MIN = I64 0x8000000000000000"

definition i64_MAX :: i64 where
  "i64_MAX = I64 0x7FFFFFFFFFFFFFFF"

lemma ival_range: "i64_min \<le> ival a" "ival a \<le> i64_max"
  using sint_range_size [of "i64_bits a"] by (auto simp: ival_def word_size)

lemma in_i64_ival [simp]: "in_i64 (ival a)"
  using ival_range [of a] by (simp add: in_i64_def)

lemma ival_inject: "ival a = ival b \<longleftrightarrow> a = b"
  by (cases a; cases b) (auto simp: ival_def intro: signed_word_eqI)

lemma ival_of_int [i64_simps]: "in_i64 k \<Longrightarrow> ival (i64_of_int k) = k"
  by (auto simp: ival_def i64_of_int_def in_i64_def signed_of_int intro!: signed_take_bit_int_eq_self)

lemma i64_of_int_ival [simp]: "i64_of_int (ival a) = a"
  by (cases a) (simp add: ival_def i64_of_int_def)

lemma ival_MIN [i64_simps, simp]: "ival i64_MIN = i64_min"
  by (simp add: ival_def i64_MIN_def)

lemma ival_MAX [i64_simps, simp]: "ival i64_MAX = i64_max"
  by (simp add: ival_def i64_MAX_def)

instantiation i64 :: linorder
begin

definition less_eq_i64 :: "i64 \<Rightarrow> i64 \<Rightarrow> bool" where
  "less_eq_i64 a b \<longleftrightarrow> ival a \<le> ival b"

definition less_i64 :: "i64 \<Rightarrow> i64 \<Rightarrow> bool" where
  "less_i64 a b \<longleftrightarrow> ival a < ival b"

instance
  by standard (auto simp: less_eq_i64_def less_i64_def ival_inject)

end

lemma i64_MIN_le [simp]: "i64_MIN \<le> a"
  using ival_range [of a] by (simp add: less_eq_i64_def)

lemma le_i64_MAX [simp]: "a \<le> i64_MAX"
  using ival_range [of a] by (simp add: less_eq_i64_def)

text \<open>Saturating and wrapping arithmetic of \<open>i64\<close>.\<close>

definition sat_i64 :: "int \<Rightarrow> i64" where
  "sat_i64 k = i64_of_int (max i64_min (min i64_max k))"

lemma ival_sat [i64_simps]: "ival (sat_i64 k) = max i64_min (min i64_max k)"
  unfolding sat_i64_def by (rule ival_of_int) (simp add: in_i64_def)

definition saturating_add :: "i64 \<Rightarrow> i64 \<Rightarrow> i64" where
  "saturating_add a b = sat_i64 (ival a + ival b)"

definition saturating_sub :: "i64 \<Rightarrow> i64 \<Rightarrow> i64" where
  "saturating_sub a b = sat_i64 (ival a - ival b)"

definition saturating_mul :: "i64 \<Rightarrow> i64 \<Rightarrow> i64" where
  "saturating_mul a b = sat_i64 (ival a * ival b)"

lemma ival_saturating_add [i64_simps]:
  "ival (saturating_add a b) = max i64_min (min i64_max (ival a + ival b))"
  by (simp add: saturating_add_def ival_sat)

lemma ival_saturating_sub [i64_simps]:
  "ival (saturating_sub a b) = max i64_min (min i64_max (ival a - ival b))"
  by (simp add: saturating_sub_def ival_sat)

lemma ival_saturating_mul [i64_simps]:
  "ival (saturating_mul a b) = max i64_min (min i64_max (ival a * ival b))"
  by (simp add: saturating_mul_def ival_sat)

definition abs_diff :: "i64 \<Rightarrow> i64 \<Rightarrow> u64" where
  "abs_diff a b = word_of_int \<bar>ival a - ival b\<bar>"

lemma uint_abs_diff [i64_simps]: "uint (abs_diff a b) = \<bar>ival a - ival b\<bar>"
  using ival_range [of a] ival_range [of b]
  by (simp add: abs_diff_def uint_word_of_int_eq take_bit_int_eq_self)

text \<open>
  \<open>i64::midpoint\<close> rounds towards zero, \<open>div_euclid\<close> by a positive divisor towards minus
  infinity; HOL's \<open>div\<close> on \<open>int\<close> is the latter.
\<close>

definition midpoint_i64 :: "i64 \<Rightarrow> i64 \<Rightarrow> i64" where
  "midpoint_i64 a b =
     (let s = ival a + ival b in i64_of_int (if 0 \<le> s then s div 2 else - ((- s) div 2)))"

lemma ival_midpoint_i64 [i64_simps]:
  "ival (midpoint_i64 a b) =
     (if 0 \<le> ival a + ival b then (ival a + ival b) div 2 else - ((- (ival a + ival b)) div 2))"
  unfolding midpoint_i64_def Let_def
  using ival_range [of a] ival_range [of b] by (intro ival_of_int) (auto simp: in_i64_def)

lemma midpoint_between:
  assumes "a \<le> b" shows "a \<le> midpoint_i64 a b" and "midpoint_i64 a b \<le> b"
  using assms by (auto simp: less_eq_i64_def ival_midpoint_i64)

end
