(* ===== verification/Bytes.thy ===== *)
theory Bytes
  imports Prelude
begin

text \<open>
  Fixed width byte encodings of unsigned integers, as \<open>to_le_bytes\<close>, \<open>from_le_bytes\<close>,
  \<open>to_be_bytes\<close> and \<open>from_be_bytes\<close> of Rust's standard library define them. The frame
  headers of the log format are little endian, identifiers are big endian.
\<close>

fun le_nat :: "u8 list \<Rightarrow> nat" where
  "le_nat [] = 0"
| "le_nat (b # bs) = unat b + 256 * le_nat bs"

fun nat_le :: "nat \<Rightarrow> nat \<Rightarrow> u8 list" where
  "nat_le 0 k = []"
| "nat_le (Suc n) k = word_of_nat (k mod 256) # nat_le n (k div 256)"

definition to_le_bytes :: "nat \<Rightarrow> 'a::len word \<Rightarrow> u8 list" where
  "to_le_bytes n w = nat_le n (unat w)"

definition from_le_bytes :: "u8 list \<Rightarrow> 'a::len word" where
  "from_le_bytes bs = word_of_nat (le_nat bs)"

definition to_be_bytes :: "nat \<Rightarrow> 'a::len word \<Rightarrow> u8 list" where
  "to_be_bytes n w = rev (nat_le n (unat w))"

definition from_be_bytes :: "u8 list \<Rightarrow> 'a::len word" where
  "from_be_bytes bs = word_of_nat (le_nat (rev bs))"

lemma length_nat_le [simp]: "length (nat_le n k) = n"
  by (induction n arbitrary: k) auto

lemma length_le_bytes [simp, le_bytes_simps]: "length (to_le_bytes n w) = n"
  by (simp add: to_le_bytes_def)

lemma length_be_bytes [simp, le_bytes_simps]: "length (to_be_bytes n w) = n"
  by (simp add: to_be_bytes_def)

lemma le_nat_less: "le_nat bs < 256 ^ length bs"
proof (induction bs)
  case (Cons b bs)
  have "unat b < 256" using unsigned_less [of b, where 'a = nat] by simp
  then have "le_nat (b # bs) < 256 + 256 * le_nat bs" by simp
  also have "256 + 256 * le_nat bs = 256 * Suc (le_nat bs)" by simp
  also have "\<dots> \<le> 256 * 256 ^ length bs" using Cons by (intro mult_le_mono2) simp
  finally show ?case by simp
qed simp

lemma le_nat_nat_le: "k < 256 ^ n \<Longrightarrow> le_nat (nat_le n k) = k"
proof (induction n arbitrary: k)
  case (Suc n)
  then have "k div 256 < 256 ^ n"
    by (simp add: less_mult_imp_div_less mult.commute)
  then have "le_nat (nat_le n (k div 256)) = k div 256" by (rule Suc.IH)
  moreover have "unat (word_of_nat (k mod 256) :: u8) = k mod 256"
    by (simp add: unat_of_nat)
  ultimately show ?case by simp
qed simp

lemma nat_le_le_nat: "nat_le (length bs) (le_nat bs) = bs"
proof (induction bs)
  case (Cons b bs)
  have "unat b < 256" using unsigned_less [of b, where 'a = nat] by simp
  with Cons show ?case by simp
qed simp

lemma nat_le_eq: "length bs = n \<Longrightarrow> nat_le n (le_nat bs) = bs"
  using nat_le_le_nat by auto

text \<open>The round trips, for words whose width is exactly the number of bytes.\<close>

lemma from_to_le_bytes:
  "LENGTH('a) = 8 * n \<Longrightarrow> from_le_bytes (to_le_bytes n w) = (w :: 'a::len word)"
  using unsigned_less [of w, where 'a = nat]
  by (simp add: from_le_bytes_def to_le_bytes_def le_nat_nat_le power_mult)

lemma to_from_le_bytes:
  assumes "LENGTH('a) = 8 * n" "length bs = n"
  shows "to_le_bytes n (from_le_bytes bs :: 'a::len word) = bs"
proof -
  have "le_nat bs < 2 ^ LENGTH('a)"
    using le_nat_less [of bs] assms by (simp add: power_mult)
  then have "unat (word_of_nat (le_nat bs) :: 'a word) = le_nat bs"
    by (simp add: unat_of_nat)
  then show ?thesis
    using assms by (simp add: from_le_bytes_def to_le_bytes_def nat_le_eq)
qed

lemma from_to_be_bytes:
  "LENGTH('a) = 8 * n \<Longrightarrow> from_be_bytes (to_be_bytes n w) = (w :: 'a::len word)"
  using from_to_le_bytes [of n w]
  by (simp add: from_le_bytes_def to_le_bytes_def from_be_bytes_def to_be_bytes_def)

lemma to_from_be_bytes:
  assumes "LENGTH('a) = 8 * n" "length bs = n"
  shows "to_be_bytes n (from_be_bytes bs :: 'a::len word) = bs"
  using to_from_le_bytes [of n "rev bs", where 'a = 'a] assms
  by (simp add: from_le_bytes_def to_le_bytes_def from_be_bytes_def to_be_bytes_def)

lemma from_to_le_bytes_width [simp, le_bytes_simps]:
  "from_le_bytes (to_le_bytes 2 w2) = (w2 :: 16 word)"
  "from_le_bytes (to_le_bytes 4 w4) = (w4 :: 32 word)"
  "from_le_bytes (to_le_bytes 8 w8) = (w8 :: 64 word)"
  by (simp_all add: from_to_le_bytes)

lemma from_to_be_bytes_width [simp]:
  "from_be_bytes (to_be_bytes 8 w8) = (w8 :: 64 word)"
  "from_be_bytes (to_be_bytes 16 w16) = (w16 :: 128 word)"
  by (simp_all add: from_to_be_bytes)

lemma to_from_be_bytes_8: "length bs = 8 \<Longrightarrow> to_be_bytes 8 (from_be_bytes bs :: 64 word) = bs"
  by (rule to_from_be_bytes) simp_all

lemma to_from_be_bytes_16: "length bs = 16 \<Longrightarrow> to_be_bytes 16 (from_be_bytes bs :: 128 word) = bs"
  by (rule to_from_be_bytes) simp_all

lemma to_le_bytes_inject:
  "LENGTH('a) = 8 * n \<Longrightarrow> to_le_bytes n v = to_le_bytes n w \<longleftrightarrow> v = (w :: 'a::len word)"
  by (metis from_to_le_bytes)

text \<open>Big endian bytes compare like the numbers they encode.\<close>

lemma le_nat_append: "le_nat (as @ bs) = le_nat as + 256 ^ length as * le_nat bs"
  by (induction as) (auto simp: algebra_simps)

lemma be_nat_Cons: "le_nat (rev (b # bs)) = le_nat (rev bs) + 256 ^ length bs * unat b"
  by (simp add: le_nat_append)

lemma digit_compare:
  fixes m :: nat
  assumes "r < m" "s < m" shows "r + m * x < s + m * y \<longleftrightarrow> x < y \<or> x = y \<and> r < s"
proof (cases x y rule: linorder_cases)
  case less
  then have "m * Suc x \<le> m * y" by (intro mult_le_mono2) simp
  then have "r + m * x < s + m * y" using assms by simp
  then show ?thesis using less by simp
next
  case greater
  then have "m * Suc y \<le> m * x" by (intro mult_le_mono2) simp
  then have "\<not> r + m * x < s + m * y" using assms by simp
  then show ?thesis using greater by simp
qed simp

end
