(* ===== verification/Spans.thy ===== *)
theory Spans
  imports Prelude
begin

text \<open>
  \<open>Span\<close> (\<open>src/crates/utils/dl_span/src/lib.rs\<close>): a start and a length, so that the length can
  never be negative. Modelled at the width the log format uses it (\<open>u64\<close>), with the
  additions and multiplications that overflow: \<open>None\<close> with overflow checks, wrapping without.
\<close>

record Span =
  span_start :: u64
  span_len :: u64

definition from_start_len :: "u64 \<Rightarrow> u64 \<Rightarrow> Span" where
  "from_start_len start len = \<lparr>span_start = start, span_len = len\<rparr>"

text \<open>In debug builds \<open>start > end\<close> panics; in release builds the difference wraps.\<close>

definition from_start_end :: "bool \<Rightarrow> u64 \<Rightarrow> u64 \<Rightarrow> Span option" where
  "from_start_end debug start en =
     (if debug \<and> \<not> start \<le> en then None else Some \<lparr>span_start = start, span_len = en - start\<rparr>)"

definition checked_add :: "bool \<Rightarrow> u64 \<Rightarrow> u64 \<Rightarrow> u64 option" where
  "checked_add overflow_checks a b = (if overflow_checks \<and> a + b < a then None else Some (a + b))"

definition checked_mul :: "bool \<Rightarrow> u64 \<Rightarrow> u64 \<Rightarrow> u64 option" where
  "checked_mul overflow_checks a b =
     (if overflow_checks \<and> 2 ^ 64 \<le> unat a * unat b then None else Some (a * b))"

definition span_end :: "bool \<Rightarrow> Span \<Rightarrow> u64 option" where
  "span_end overflow_checks s = checked_add overflow_checks (span_start s) (span_len s)"

definition span_range :: "bool \<Rightarrow> Span \<Rightarrow> (u64 \<times> u64) option" where
  "span_range overflow_checks s =
     map_option (\<lambda>e. (span_start s, e)) (checked_add overflow_checks (span_start s) (span_len s))"

text \<open>\<open>try_cast\<close> to \<open>u32\<close>: both fields must fit.\<close>

definition try_cast_u32 :: "Span \<Rightarrow> (u32 \<times> u32) option" where
  "try_cast_u32 s =
     (if unat (span_start s) < 2 ^ 32 \<and> unat (span_len s) < 2 ^ 32
      then Some (ucast (span_start s), ucast (span_len s)) else None)"

definition span_mul :: "bool \<Rightarrow> Span \<Rightarrow> u64 \<Rightarrow> Span option" where
  "span_mul overflow_checks s k =
     (case (checked_mul overflow_checks k (span_start s), checked_mul overflow_checks k (span_len s)) of
        (Some a, Some b) \<Rightarrow> Some \<lparr>span_start = a, span_len = b\<rparr>
      | _ \<Rightarrow> None)"

lemma no_overflow_iff: "a + b < a \<longleftrightarrow> 2 ^ 64 \<le> unat a + unat (b :: u64)"
  using unsigned_less [of a, where 'a = nat] unsigned_less [of b, where 'a = nat]
  by (auto simp: word_less_nat_alt unat_word_ariths mod_if)

lemma unat_checked_add:
  "unat a + unat b < 2 ^ 64 \<Longrightarrow> \<exists>c. checked_add oc a b = Some c \<and> unat c = unat a + unat b"
  using no_overflow_iff [of a b] by (auto simp: checked_add_def unat_word_ariths)

lemma span_start_end_round_trip:
  assumes "start \<le> en"
  shows "\<exists>s. from_start_end debug start en = Some s \<and> span_range oc s = Some (start, en)"
proof -
  have "unat (en - start) = unat en - unat start"
    using assms by (simp add: unat_sub)
  then have "\<not> (start + (en - start) < start)"
    using assms by simp
  then show ?thesis
    using assms by (simp add: from_start_end_def span_range_def checked_add_def)
qed

end
