(* ===== verification/Crate_Version.thy ===== *)
theory Crate_Version
  imports Prelude "HOL-Library.Product_Lexorder"
begin

text \<open>
  \<open>CrateVersion\<close> (\<open>src/crates/build/dl_build_info/src/crate_version.rs\<close>): the version that every
  log stream carries in its header. The theory models the 32 bit encoding, the order used for
  compatibility decisions, the hand written parser (a \<open>const fn\<close> over bytes) and the printer,
  and shows the two round trips.
\<close>

section \<open>Versions\<close>

datatype Meta =
    Rc u8
  | Alpha u8
  | DevAlpha u8 "string option"

record CrateVersion =
  major :: u8
  minor :: u8
  patch :: u8
  meta :: "Meta option"

text \<open>\<open>Ord\<close> ignores the metadata: versions that differ only there compare as equal.\<close>

definition version_key :: "CrateVersion \<Rightarrow> u8 \<times> u8 \<times> u8" where
  "version_key v = (major v, minor v, patch v)"

definition version_less :: "CrateVersion \<Rightarrow> CrateVersion \<Rightarrow> bool" where
  "version_less a b \<longleftrightarrow> version_key a < version_key b"

definition version_le :: "CrateVersion \<Rightarrow> CrateVersion \<Rightarrow> bool" where
  "version_le a b \<longleftrightarrow> version_key a \<le> version_key b"

abbreviation meta_RC :: u8 where "meta_RC \<equiv> 0x40"
abbreviation meta_ALPHA :: u8 where "meta_ALPHA \<equiv> 0x80"
abbreviation meta_DEV_ALPHA :: u8 where "meta_DEV_ALPHA \<equiv> 0xC0"
abbreviation meta_TAG_MASK :: u8 where "meta_TAG_MASK \<equiv> 0xC0"
abbreviation meta_VALUE_MASK :: u8 where "meta_VALUE_MASK \<equiv> 0x3F"

fun meta_to_byte :: "Meta \<Rightarrow> u8" where
  "meta_to_byte (Rc build) = build OR meta_RC"
| "meta_to_byte (Alpha build) = build OR meta_ALPHA"
| "meta_to_byte (DevAlpha build commit) = build OR meta_DEV_ALPHA"

definition meta_from_byte :: "u8 \<Rightarrow> Meta option" where
  "meta_from_byte v =
     (let tag = v AND meta_TAG_MASK; build = v AND meta_VALUE_MASK in
      if tag = meta_RC then Some (Rc build)
      else if tag = meta_ALPHA then Some (Alpha build)
      else if tag = meta_DEV_ALPHA then Some (DevAlpha build None)
      else None)"

definition version_new :: "u8 \<Rightarrow> u8 \<Rightarrow> u8 \<Rightarrow> CrateVersion" where
  "version_new a b c = \<lparr>major = a, minor = b, patch = c, meta = None\<rparr>"

definition is_release :: "CrateVersion \<Rightarrow> bool" where
  "is_release v \<longleftrightarrow> meta v = None"

definition is_dev :: "CrateVersion \<Rightarrow> bool" where
  "is_dev v \<longleftrightarrow> (case meta v of Some (DevAlpha _ _) \<Rightarrow> True | _ \<Rightarrow> False)"

definition is_alpha :: "CrateVersion \<Rightarrow> bool" where
  "is_alpha v \<longleftrightarrow> (case meta v of Some (Alpha _) \<Rightarrow> True | Some (DevAlpha _ _) \<Rightarrow> True | _ \<Rightarrow> False)"

definition is_rc :: "CrateVersion \<Rightarrow> bool" where
  "is_rc v \<longleftrightarrow> (case meta v of Some (Rc _) \<Rightarrow> True | _ \<Rightarrow> False)"

definition version_to_bytes :: "CrateVersion \<Rightarrow> u8 list" where
  "version_to_bytes v =
     [major v, minor v, patch v, case meta v of None \<Rightarrow> 0 | Some m \<Rightarrow> meta_to_byte m]"

text \<open>The argument is a \<open>[u8; 4]\<close>; other lengths cannot occur.\<close>

fun version_from_bytes :: "u8 list \<Rightarrow> CrateVersion" where
  "version_from_bytes [a, b, c, m] = \<lparr>major = a, minor = b, patch = c, meta = meta_from_byte m\<rparr>"
| "version_from_bytes _ = version_new 0 0 0"

text \<open>
  \<open>latest_stable\<close>: the subtraction from the major version panics (\<open>None\<close>) for a development
  build of \<open>0.0.0\<close> when overflow checks are on.
\<close>

definition latest_stable :: "bool \<Rightarrow> CrateVersion \<Rightarrow> CrateVersion option" where
  "latest_stable overflow_checks v =
     (if is_dev v then
        if patch v = 0 then
          if minor v = 0 then
            if overflow_checks \<and> major v = 0 then None
            else Some (version_new (major v - 1) 0 0)
          else Some (version_new (major v) (minor v - 1) 0)
        else Some (version_new (major v) (minor v) (patch v - 1))
      else Some v)"

definition is_compatible_with :: "CrateVersion \<Rightarrow> CrateVersion \<Rightarrow> bool" where
  "is_compatible_with v other =
     (let numbers = (if major v = 0 then (major v, minor v) = (major other, minor other)
                     else major v = major other)
      in case (meta v, meta other) of
           (Some (Rc _), Some (Rc _)) \<Rightarrow> numbers
         | (Some (Rc _), None) \<Rightarrow> numbers
         | (None, Some (Rc _)) \<Rightarrow> numbers
         | (this, that) \<Rightarrow> if this \<noteq> that then False else numbers)"

section \<open>Parser\<close>

text \<open>
  The errors are the messages of the source. \<open>ArithOverflow\<close> is the panic of the 64 bit
  accumulator when overflow checks are on; otherwise it wraps.
\<close>

datatype version_error =
    ExpectedNumber string
  | ExpectedDot string
  | LeadingZero
  | DigitTooLarge
  | BuildTooLarge string
  | ExpectedAlphaOrRc
  | ExpectedDev
  | UnexpectedRcWithDev
  | UnexpectedDevWithoutAlpha
  | ExpectedEnd
  | ArithOverflow

definition is_ascii_digit :: "char \<Rightarrow> bool" where
  "is_ascii_digit c \<longleftrightarrow> (48 :: nat) \<le> of_char c \<and> of_char c \<le> (57 :: nat)"

definition maybe :: "string \<Rightarrow> char \<Rightarrow> string option" where
  "maybe s c = (case s of x # xs \<Rightarrow> if x = c then Some xs else None | [] \<Rightarrow> None)"

definition maybe_token :: "string \<Rightarrow> string \<Rightarrow> string option" where
  "maybe_token s token =
     (if length s < length token then None
      else if take (length token) s = token then Some (drop (length token) s) else None)"

definition eat :: "string \<Rightarrow> char \<Rightarrow> string \<Rightarrow> (version_error, string) result" where
  "eat s c msg = (case maybe s c of None \<Rightarrow> Err (ExpectedDot msg) | Some r \<Rightarrow> Ok r)"

fun eat_digits :: "bool \<Rightarrow> u64 \<Rightarrow> string \<Rightarrow> (version_error, u64 \<times> string) result" where
  "eat_digits oc num [] = Ok (num, [])"
| "eat_digits oc num (c # cs) =
     (if is_ascii_digit c then
        if oc \<and> 2 ^ 64 \<le> unat num * 10 + (of_char c - 48) then Err ArithOverflow
        else eat_digits oc (num * 10 + word_of_nat (of_char c - 48)) cs
      else Ok (num, c # cs))"

definition eat_u8 :: "bool \<Rightarrow> string \<Rightarrow> string \<Rightarrow> (version_error, u8 \<times> string) result" where
  "eat_u8 oc s msg =
     (if s = [] then Err (ExpectedNumber msg)
      else if length s > 1 \<and> is_ascii_digit (s ! 1) \<and> s ! 0 = CHR ''0'' then Err LeadingZero
      else try_bind (eat_digits oc 0 s) (\<lambda>(num, rest).
        if num > 255 then Err DigitTooLarge else Ok (ucast num, rest)))"

definition parse_build ::
  "bool \<Rightarrow> string \<Rightarrow> string \<Rightarrow> (u8 \<Rightarrow> Meta) \<Rightarrow> (version_error, Meta \<times> string) result"
where
  "parse_build oc s tag mk =
     try_bind (eat s (CHR ''.'') tag) (\<lambda>s.
     try_bind (eat_u8 oc s tag) (\<lambda>(build, s).
       if build > meta_VALUE_MASK then Err (BuildTooLarge tag) else Ok (mk build, s)))"

definition parse_pre :: "bool \<Rightarrow> string \<Rightarrow> (version_error, Meta option \<times> string) result" where
  "parse_pre oc s =
     (case maybe s (CHR ''-'') of
        None \<Rightarrow> Ok (None, s)
      | Some s \<Rightarrow>
          (case maybe_token s ''alpha'' of
             Some r \<Rightarrow> try_bind (parse_build oc r ''-alpha'' Alpha) (\<lambda>(m, s). Ok (Some m, s))
           | None \<Rightarrow>
               (case maybe_token s ''rc'' of
                  Some r \<Rightarrow> try_bind (parse_build oc r ''-rc'' Rc) (\<lambda>(m, s). Ok (Some m, s))
                | None \<Rightarrow> Err ExpectedAlphaOrRc)))"

definition parse_dev :: "Meta option \<Rightarrow> string \<Rightarrow> (version_error, Meta option \<times> string) result" where
  "parse_dev m s =
     (case maybe s (CHR ''+'') of
        None \<Rightarrow> Ok (m, s)
      | Some s \<Rightarrow>
          (case m of
             Some (Alpha build) \<Rightarrow>
               (case maybe_token s ''dev'' of
                  Some r \<Rightarrow> Ok (Some (DevAlpha build None), r)
                | None \<Rightarrow> if s = [] then Err ExpectedDev
                          else Ok (Some (DevAlpha build (Some s)), []))
           | Some _ \<Rightarrow> Err UnexpectedRcWithDev
           | None \<Rightarrow> Err UnexpectedDevWithoutAlpha))"

definition try_parse :: "bool \<Rightarrow> string \<Rightarrow> (version_error, CrateVersion) result" where
  "try_parse oc s =
     try_bind (eat_u8 oc s ''major'') (\<lambda>(a, s).
     try_bind (eat s (CHR ''.'') ''major'') (\<lambda>s.
     try_bind (eat_u8 oc s ''minor'') (\<lambda>(b, s).
     try_bind (eat s (CHR ''.'') ''minor'') (\<lambda>s.
     try_bind (eat_u8 oc s ''patch'') (\<lambda>(c, s).
     try_bind (parse_pre oc s) (\<lambda>(m, s).
     try_bind (parse_dev m s) (\<lambda>(m, s).
       if s \<noteq> [] then Err ExpectedEnd
       else Ok \<lparr>major = a, minor = b, patch = c, meta = m\<rparr>)))))))"

section \<open>Printer\<close>

fun utf8_valid :: "nat list \<Rightarrow> bool" where
  "utf8_valid [] = True"
| "utf8_valid (b # bs) =
     (let cont = (\<lambda>c. 0x80 \<le> c \<and> c \<le> 0xBF) in
      if b < 0x80 then utf8_valid bs
      else if 0xC2 \<le> b \<and> b \<le> 0xDF then
        (case bs of c # r \<Rightarrow> cont c \<and> utf8_valid r | _ \<Rightarrow> False)
      else if 0xE0 \<le> b \<and> b \<le> 0xEF then
        (case bs of c # d # r \<Rightarrow>
            cont c \<and> cont d \<and> (b = 0xE0 \<longrightarrow> 0xA0 \<le> c) \<and> (b = 0xED \<longrightarrow> c \<le> 0x9F) \<and> utf8_valid r
         | _ \<Rightarrow> False)
      else if 0xF0 \<le> b \<and> b \<le> 0xF4 then
        (case bs of c # d # e # r \<Rightarrow>
            cont c \<and> cont d \<and> cont e \<and> (b = 0xF0 \<longrightarrow> 0x90 \<le> c) \<and> (b = 0xF4 \<longrightarrow> c \<le> 0x8F) \<and> utf8_valid r
         | _ \<Rightarrow> False)
      else False)"

text \<open>Decimal printing of a \<open>u8\<close>: at most three digits, no leading zeros.\<close>

definition digit_char :: "nat \<Rightarrow> char" where
  "digit_char d = char_of (48 + d)"

definition u8_to_string :: "u8 \<Rightarrow> string" where
  "u8_to_string w = (let k = unat w in
     if k < 10 then [digit_char k]
     else if k < 100 then [digit_char (k div 10), digit_char (k mod 10)]
     else [digit_char (k div 100), digit_char (k div 10 mod 10), digit_char (k mod 10)])"

fun meta_to_string :: "Meta \<Rightarrow> string" where
  "meta_to_string (Rc build) = ''-rc.'' @ u8_to_string build"
| "meta_to_string (Alpha build) = ''-alpha.'' @ u8_to_string build"
| "meta_to_string (DevAlpha build commit) =
     ''-alpha.'' @ u8_to_string build @
     (case commit of
        Some c \<Rightarrow> if utf8_valid (map of_char c) then ''+'' @ c else ''+dev''
      | None \<Rightarrow> ''+dev'')"

definition version_to_string :: "CrateVersion \<Rightarrow> string" where
  "version_to_string v =
     u8_to_string (major v) @ ''.'' @ u8_to_string (minor v) @ ''.'' @ u8_to_string (patch v) @
     (case meta v of None \<Rightarrow> [] | Some m \<Rightarrow> meta_to_string m)"

section \<open>Printing and parsing\<close>

lemma digit_char_simps:
  assumes "d < 10"
  shows "of_char (digit_char d) = 48 + d" "is_ascii_digit (digit_char d)"
    "digit_char d = CHR ''0'' \<longleftrightarrow> d = 0"
proof -
  have "(48 + d) mod 256 = 48 + d" using assms by simp
  then show v: "of_char (digit_char d) = 48 + d" by (simp add: digit_char_def)
  then show "is_ascii_digit (digit_char d)" using assms by (simp add: is_ascii_digit_def)
  have "digit_char d = CHR ''0'' \<longleftrightarrow> of_char (digit_char d) = (of_char CHR ''0'' :: nat)"
    using of_char_eq_iff by blast
  then show "digit_char d = CHR ''0'' \<longleftrightarrow> d = 0" unfolding v by simp
qed

lemma eat_digits_digit:
  assumes "d < 10" "a < 1000"
  shows "eat_digits oc (word_of_nat a) (digit_char d # cs) = eat_digits oc (word_of_nat (a * 10 + d)) cs"
  using assms by (simp add: digit_char_simps unat_of_nat)

definition no_digit :: "string \<Rightarrow> bool" where
  "no_digit s \<longleftrightarrow> (case s of [] \<Rightarrow> True | c # _ \<Rightarrow> \<not> is_ascii_digit c)"

lemma eat_digits_stop: "no_digit s \<Longrightarrow> eat_digits oc n s = Ok (n, s)"
  by (cases s) (simp_all add: no_digit_def)

lemma u8_to_string_obtain:
  obtains "unat w < 10" "u8_to_string w = [digit_char (unat w)]"
  | "10 \<le> unat w" "unat w < 100" "u8_to_string w = [digit_char (unat w div 10), digit_char (unat w mod 10)]"
  | "100 \<le> unat w"
    "u8_to_string w = [digit_char (unat w div 100), digit_char (unat w div 10 mod 10), digit_char (unat w mod 10)]"
  unfolding u8_to_string_def Let_def by (meson not_le)

lemma eat_digits_u8:
  assumes "no_digit s"
  shows "eat_digits oc 0 (u8_to_string w @ s) = Ok (word_of_nat (unat w), s)"
proof -
  have first: "eat_digits oc 0 (digit_char d # cs) = eat_digits oc (word_of_nat d) cs" if "d < 10" for d cs
    using eat_digits_digit [OF that, of 0 oc cs] by (simp del: eat_digits.simps)
  note d = first eat_digits_digit eat_digits_stop [OF assms]
  have w: "unat w < 256" using unsigned_less [of w, where 'a = nat] by simp
  show ?thesis
  proof (cases w rule: u8_to_string_obtain)
    case 1
    then show ?thesis by (simp add: d del: eat_digits.simps of_nat_unat)
  next
    case 2
    then have "unat w div 10 < 10" by simp
    with 2 show ?thesis by (simp add: d del: eat_digits.simps of_nat_unat)
  next
    case 3
    have "unat w div 100 < 10" "unat w div 10 mod 10 < 10" using w by simp_all
    moreover have b: "unat w div 100 * 10 + unat w div 10 mod 10 = unat w div 10"
      using div_mult2_eq [of "unat w" 10 10] by (simp add: mult.commute)
    moreover have "(unat w div 10) * 10 + unat w mod 10 = unat w" by simp
    moreover have "unat w div 10 < 1000" using w by simp
    ultimately show ?thesis using 3 by (simp add: d del: eat_digits.simps of_nat_unat)
  qed
qed

lemma u8_to_string_ne [simp]: "u8_to_string w \<noteq> []"
  by (simp add: u8_to_string_def Let_def)

lemma u8_no_leading_zero:
  assumes "no_digit s"
  shows "\<not> (length (u8_to_string w @ s) > 1 \<and> is_ascii_digit ((u8_to_string w @ s) ! 1) \<and>
            (u8_to_string w @ s) ! 0 = CHR ''0'')"
proof -
  have w: "unat w < 256" using unsigned_less [of w, where 'a = nat] by simp
  show ?thesis
  proof (cases w rule: u8_to_string_obtain)
    case 1
    then show ?thesis using assms by (cases s) (simp_all add: no_digit_def)
  next
    case 2
    then have "unat w div 10 \<noteq> 0" "unat w div 10 < 10" by auto
    with 2 show ?thesis by (simp add: digit_char_simps)
  next
    case 3
    then have "unat w div 100 \<noteq> 0" "unat w div 100 < 10" using w by auto
    with 3 show ?thesis by (simp add: digit_char_simps)
  qed
qed

lemma eat_u8_print:
  assumes "no_digit s" shows "eat_u8 oc (u8_to_string w @ s) msg = Ok (w, s)"
proof -
  have "unat w < 256" using unsigned_less [of w, where 'a = nat] by simp
  then have "\<not> (word_of_nat (unat w) > (255 :: u64))"
    by (simp add: word_less_nat_alt unat_of_nat del: of_nat_unat)
  moreover have "ucast (word_of_nat (unat w) :: u64) = w"
    by (rule bit_word_eqI) (simp add: bit_simps bit_unsigned_iff [symmetric])
  ultimately show ?thesis
    using u8_no_leading_zero [OF assms, of w]
    by (simp add: eat_u8_def eat_digits_u8 [OF assms] del: of_nat_unat)
qed

lemma maybe_simps [simp]:
  "maybe [] c = None" "maybe (x # xs) c = (if x = c then Some xs else None)"
  by (simp_all add: maybe_def)

lemma maybe_token_append [simp]: "maybe_token (t @ s) t = Some s"
  by (simp add: maybe_token_def)

lemma no_digit_simps [simp]:
  "no_digit []" "no_digit (CHR ''.'' # s)" "no_digit (CHR ''-'' # s)" "no_digit (CHR ''+'' # s)"
  by (simp_all add: no_digit_def is_ascii_digit_def)

fun meta_ok :: "Meta \<Rightarrow> bool" where
  "meta_ok (Rc b) \<longleftrightarrow> b \<le> meta_VALUE_MASK"
| "meta_ok (Alpha b) \<longleftrightarrow> b \<le> meta_VALUE_MASK"
| "meta_ok (DevAlpha b c) \<longleftrightarrow> b \<le> meta_VALUE_MASK \<and>
     (case c of None \<Rightarrow> True
      | Some h \<Rightarrow> h \<noteq> [] \<and> utf8_valid (map of_char h) \<and> maybe_token h ''dev'' = None)"

lemma parse_build_print:
  "b \<le> meta_VALUE_MASK \<Longrightarrow> no_digit s \<Longrightarrow>
   parse_build oc (CHR ''.'' # u8_to_string b @ s) tag mk = Ok (mk b, s)"
  by (simp add: parse_build_def eat_def eat_u8_print not_less)

lemma parse_pre_alpha:
  "b \<le> meta_VALUE_MASK \<Longrightarrow> no_digit s \<Longrightarrow>
   parse_pre oc (''-alpha.'' @ u8_to_string b @ s) = Ok (Some (Alpha b), s)"
  using parse_build_print [of b s oc "''-alpha''" Alpha] maybe_token_append [of "''alpha''" "CHR ''.'' # u8_to_string b @ s"]
  by (simp add: parse_pre_def)

lemma parse_pre_rc:
  "b \<le> meta_VALUE_MASK \<Longrightarrow> no_digit s \<Longrightarrow>
   parse_pre oc (''-rc.'' @ u8_to_string b @ s) = Ok (Some (Rc b), s)"
  using parse_build_print [of b s oc "''-rc''" Rc] maybe_token_append [of "''rc''" "CHR ''.'' # u8_to_string b @ s"]
  by (simp add: parse_pre_def) (simp add: maybe_token_def)

lemma no_digit_meta: "no_digit (meta_to_string x)"
  by (cases x) simp_all

lemma parse_meta_print:
  assumes "case m of None \<Rightarrow> True | Some x \<Rightarrow> meta_ok x"
  defines "txt \<equiv> (case m of None \<Rightarrow> [] | Some x \<Rightarrow> meta_to_string x)"
  shows "no_digit txt" and "try_bind (parse_pre oc txt) (\<lambda>(m, s). parse_dev m s) = Ok (m, [])"
proof -
  show "no_digit txt"
    unfolding txt_def by (cases m) (auto simp: no_digit_meta)
  show "try_bind (parse_pre oc txt) (\<lambda>(m, s). parse_dev m s) = Ok (m, [])"
  proof (cases m)
    case None
    then show ?thesis by (simp add: txt_def parse_pre_def parse_dev_def)
  next
    case (Some x)
    show ?thesis
    proof (cases x)
      case (Rc b)
      then show ?thesis
        using Some assms(1) parse_pre_rc [of b "[]" oc] by (simp add: txt_def parse_dev_def)
    next
      case (Alpha b)
      then show ?thesis
        using Some assms(1) parse_pre_alpha [of b "[]" oc] by (simp add: txt_def parse_dev_def)
    next
      case (DevAlpha b c)
      then show ?thesis
        using Some assms(1) parse_pre_alpha [of b "''+dev''" oc] maybe_token_append [of "''dev''" "[]"]
          parse_pre_alpha [of b "''+'' @ the c" oc]
        by (cases c) (auto simp: txt_def parse_dev_def split: option.splits)
    qed
  qed
qed

lemma mask_disjoint:
  fixes b :: u8
  assumes "b \<le> 0x3F"
  shows "(b OR t) AND 0xC0 = t AND 0xC0" "(b OR t) AND 0x3F = b OR (t AND 0x3F)"
proof -
  have "unat b < 2 ^ 6" using assms by (simp add: word_le_nat_alt)
  then have "take_bit 6 b = b"
    by (simp add: word_eq_iff_unsigned [where 'a = nat] unsigned_take_bit_eq take_bit_nat_eq_self)
  then have bit: "bit b n \<Longrightarrow> n < 6" for n by (metis bit_take_bit_iff)
  have "(0x3F :: u8) = mask 6" by (simp add: mask_eq_exp_minus_1)
  then have m: "bit (0x3F :: u8) n \<longleftrightarrow> n < 6" for n by (simp only: bit_mask_iff) auto
  have "(0xC0 :: u8) = NOT (mask 6)" by (simp add: mask_eq_exp_minus_1)
  then have c: "bit (0xC0 :: u8) n \<longleftrightarrow> 6 \<le> n \<and> n < 8" for n
    by (simp only: bit_not_iff bit_mask_iff) auto
  show "(b OR t) AND 0xC0 = t AND 0xC0"
    by (rule bit_word_eqI) (auto simp only: bit_and_iff bit_or_iff c dest: bit)
  show "(b OR t) AND 0x3F = b OR (t AND 0x3F)"
    by (rule bit_word_eqI) (auto simp only: bit_and_iff bit_or_iff m dest: bit)
qed

lemma meta_byte_round_trip:
  "meta_from_byte (b OR meta_RC) = Some (Rc b)"
  "meta_from_byte (b OR meta_ALPHA) = Some (Alpha b)"
  "meta_from_byte (b OR meta_DEV_ALPHA) = Some (DevAlpha b None)"
  if "b \<le> meta_VALUE_MASK"
  using mask_disjoint [OF that, of meta_RC] mask_disjoint [OF that, of meta_ALPHA]
    mask_disjoint [OF that, of meta_DEV_ALPHA]
  by (simp_all add: meta_from_byte_def Let_def)

section \<open>Properties\<close>

text \<open>
  C19. Parsing the text of a version gives the version back (metadata numbers at most 63 and a
  commit hash that is non-empty UTF-8 not starting with \<open>dev\<close>), and so does decoding its four
  bytes, except that the commit hash is dropped.
\<close>

theorem version_round_trips:
  assumes "case meta v of None \<Rightarrow> True | Some m \<Rightarrow> meta_ok m"
  shows "try_parse oc (version_to_string v) = Ok v \<and>
         version_from_bytes (version_to_bytes v) =
           v\<lparr>meta := (case meta v of Some (DevAlpha b c) \<Rightarrow> Some (DevAlpha b None) | m \<Rightarrow> m)\<rparr>"
proof
  let ?t = "case meta v of None \<Rightarrow> [] | Some m \<Rightarrow> meta_to_string m"
  have "try_bind (parse_pre oc ?t) (\<lambda>(m, s). parse_dev m s) = Ok (meta v, [])"
    by (rule parse_meta_print [OF assms])
  then obtain m1 s1 where "parse_pre oc ?t = Ok (m1, s1)" "parse_dev m1 s1 = Ok (meta v, [])"
    by (auto simp: try_bind_Ok_iff)
  then show "try_parse oc (version_to_string v) = Ok v"
    using parse_meta_print(1) [OF assms]
    by (simp add: try_parse_def version_to_string_def eat_u8_print eat_def)
  have "meta_from_byte 0 = None" by (simp add: meta_from_byte_def Let_def)
  then show "version_from_bytes (version_to_bytes v) =
      v\<lparr>meta := (case meta v of Some (DevAlpha b c) \<Rightarrow> Some (DevAlpha b None) | m \<Rightarrow> m)\<rparr>"
    using assms by (cases "meta v"; simp add: version_to_bytes_def)
      (auto simp: meta_byte_round_trip split: Meta.split)
qed

theorem version_round_trips_witness:
  "try_parse True ''0.23.1-alpha.5+dev'' = Ok \<lparr>major = 0, minor = 23, patch = 1, meta = Some (DevAlpha 5 None)\<rparr>"
proof -
  let ?v = "\<lparr>major = 0, minor = 23, patch = 1, meta = Some (DevAlpha 5 None)\<rparr>"
  have "version_to_string ?v = ''0.23.1-alpha.5+dev''" by code_simp
  then show ?thesis using version_round_trips [of ?v True] by simp
qed

end
