(* ===== verification/Dlr_Frames.thy ===== *)
theory Dlr_Frames
  imports Bytes Spans Crate_Version
begin

text \<open>
  The frames of a log stream (\<open>src/crates/store/dl_log_encoding/src/dlr/frames.rs\<close>, with the
  magic numbers of \<open>dlr/mod.rs\<close> and the errors of \<open>dlr/errors.rs\<close>): encoding options, stream
  header, stream footer and message header, each with its \<open>to_dlr_bytes\<close> and
  \<open>from_dlr_bytes\<close>. The locale \<open>frame_codec\<close> states what a frame promises (fixed size, round
  trip) and derives prefix freeness; it is interpreted for every frame.
\<close>

section \<open>Errors\<close>

datatype OptionsError =
    UnknownReservedBytes
  | UnknownCompression u8
  | RemovedMsgPackSerializer
  | UnknownSerializer u8

text \<open>The text of \<open>FrameDecoding\<close> is represented by the data it is formatted from.\<close>

datatype frame_failure =
    InvalidLength nat nat
  | InvalidFourCC "u8 list"
  | InvalidIdentifier "u8 list"
  | UnknownKind u64

text \<open>
  \<open>CodecError\<close>: the variants the framing code raises or inspects. Those of the protobuf,
  Arrow and compression layers are carried as values of the type parameter.
\<close>

datatype 'x codec_error =
    InvalidOptions OptionsError
  | IncompatibleDalaranVersion CrateVersion CrateVersion
  | NotAnRrd "u8 list" "u8 list"
  | OldRrdVersion
  | FrameDecoding frame_failure
  | StoreIdMissingApplicationId
  | OtherCodecError 'x

section \<open>Encoding options\<close>

datatype Compression = Compression_Off | LZ4
datatype Serializer = Protobuf

record EncodingOptions =
  compression :: Compression
  serializer :: Serializer

definition PROTOBUF_COMPRESSED :: EncodingOptions where
  "PROTOBUF_COMPRESSED = \<lparr>compression = LZ4, serializer = Protobuf\<rparr>"

definition PROTOBUF_UNCOMPRESSED :: EncodingOptions where
  "PROTOBUF_UNCOMPRESSED = \<lparr>compression = Compression_Off, serializer = Protobuf\<rparr>"

fun compression_byte :: "Compression \<Rightarrow> u8" where
  "compression_byte Compression_Off = 0"
| "compression_byte LZ4 = 1"

fun serializer_byte :: "Serializer \<Rightarrow> u8" where
  "serializer_byte Protobuf = 2"

text \<open>
  The encoders append to \<open>out\<close> and return the number of bytes written; \<open>None\<close> is the failure
  of the final \<open>assert_eq\<close> on that number.
\<close>

definition finish_encode :: "nat \<Rightarrow> u8 list \<Rightarrow> u8 list \<Rightarrow> (u8 list \<times> nat) option" where
  "finish_encode expected before out =
     (let n = length out - length before in if expected = n then Some (out, n) else None)"

definition options_to_dlr_bytes :: "EncodingOptions \<Rightarrow> u8 list \<Rightarrow> (u8 list \<times> nat) option" where
  "options_to_dlr_bytes opts out =
     finish_encode 4 out
       (out @ [compression_byte (compression opts), serializer_byte (serializer opts), 0, 0])"

definition options_from_dlr_bytes :: "u8 list \<Rightarrow> ('x codec_error, EncodingOptions) result" where
  "options_from_dlr_bytes data =
     (case data of
        [c, s, r0, r1] \<Rightarrow>
          if r0 = 0 \<and> r1 = 0 then
            try_bind
              (if c = 0 then Ok Compression_Off else if c = 1 then Ok LZ4
               else Err (InvalidOptions (UnknownCompression c)))
              (\<lambda>compression.
            try_bind
              (if s = 1 then Err (InvalidOptions RemovedMsgPackSerializer)
               else if s = 2 then Ok Protobuf
               else Err (InvalidOptions (UnknownSerializer s)))
              (\<lambda>serializer.
            Ok \<lparr>compression = compression, serializer = serializer\<rparr>))
          else Err (InvalidOptions UnknownReservedBytes)
      | _ \<Rightarrow> Err (InvalidOptions UnknownReservedBytes))"

section \<open>Stream header\<close>

definition DLR_FOURCC :: "u8 list" where
  "DLR_FOURCC = [0x52, 0x52, 0x46, 0x32]"

definition OLD_DLR_FOURCC :: "u8 list list" where
  "OLD_DLR_FOURCC = [[0x52, 0x52, 0x46, 0x30], [0x52, 0x52, 0x46, 0x31]]"

record StreamHeader =
  header_fourcc :: "u8 list"
  header_version :: "u8 list"
  header_options :: EncodingOptions

text \<open>\<open>local\<close> is \<open>CrateVersion::LOCAL\<close>, the version of the build.\<close>

definition to_version_and_options ::
  "CrateVersion \<Rightarrow> StreamHeader \<Rightarrow> ('x codec_error, CrateVersion \<times> EncodingOptions) result"
where
  "to_version_and_options local h =
     (let encoded_version = (if header_version h = [0, 0, 0, 0] then version_new 0 2 0
                             else version_from_bytes (header_version h));
          is_ancient_upstream_file = (major encoded_version = 0 \<and> minor encoded_version < 23 \<and>
                                      version_less local encoded_version)
      in if is_ancient_upstream_file then Err (IncompatibleDalaranVersion encoded_version local)
         else Ok (version_from_bytes (header_version h), header_options h))"

definition header_to_dlr_bytes :: "StreamHeader \<Rightarrow> u8 list \<Rightarrow> (u8 list \<times> nat) option" where
  "header_to_dlr_bytes h out =
     (case options_to_dlr_bytes (header_options h) [] of
        None \<Rightarrow> None
      | Some (options_out, _) \<Rightarrow>
          finish_encode 12 out (out @ header_fourcc h @ header_version h @ options_out))"

definition header_from_dlr_bytes :: "u8 list \<Rightarrow> ('x codec_error, StreamHeader) result" where
  "header_from_dlr_bytes data =
     (if length data \<noteq> 12 then Err (FrameDecoding (InvalidLength 12 (length data)))
      else let fourcc = take 4 data in
        if fourcc \<in> set OLD_DLR_FOURCC then Err OldRrdVersion
        else if fourcc \<noteq> DLR_FOURCC then Err (NotAnRrd DLR_FOURCC fourcc)
        else let version = take 4 (drop 4 data) in
          try_bind (options_from_dlr_bytes (drop 8 data)) (\<lambda>options.
            Ok \<lparr>header_fourcc = fourcc, header_version = version, header_options = options\<rparr>))"

section \<open>Stream footer\<close>

record StreamFooterEntry =
  footer_span :: Span
  footer_crc :: u32

record StreamFooter =
  footer_fourcc :: "u8 list"
  footer_identifier :: "u8 list"
  footer_entries :: "StreamFooterEntry list"

definition DLR_IDENTIFIER :: "u8 list" where
  "DLR_IDENTIFIER = [0x46, 0x4F, 0x4F, 0x54]"

definition CRC_SEED :: u32 where
  "CRC_SEED = 7850921"

definition footer_new :: "Span \<Rightarrow> u32 \<Rightarrow> StreamFooter" where
  "footer_new span crc =
     \<lparr>footer_fourcc = DLR_FOURCC, footer_identifier = DLR_IDENTIFIER,
      footer_entries = [\<lparr>footer_span = span, footer_crc = crc\<rparr>]\<rparr>"

text \<open>\<open>xxh32\<close> is the hash function of the \<open>xxhash_rust\<close> crate.\<close>

definition compute_crc :: "(u8 list \<Rightarrow> u32 \<Rightarrow> u32) \<Rightarrow> u8 list \<Rightarrow> u32" where
  "compute_crc xxh32 bytes = xxh32 bytes CRC_SEED"

definition from_dlr_footer_bytes :: "(u8 list \<Rightarrow> u32 \<Rightarrow> u32) \<Rightarrow> u64 \<Rightarrow> u8 list \<Rightarrow> StreamFooter" where
  "from_dlr_footer_bytes xxh32 offset bytes =
     footer_new (from_start_len offset (word_of_nat (length bytes))) (compute_crc xxh32 bytes)"

definition entry_bytes :: "StreamFooterEntry \<Rightarrow> u8 list" where
  "entry_bytes e = to_le_bytes 8 (span_start (footer_span e)) @ to_le_bytes 8 (span_len (footer_span e)) @
                   to_le_bytes 4 (footer_crc e)"

definition footer_to_dlr_bytes :: "StreamFooter \<Rightarrow> u8 list \<Rightarrow> (u8 list \<times> nat) option" where
  "footer_to_dlr_bytes f out =
     finish_encode 32 out
       (out @ concat (map entry_bytes (footer_entries f)) @ footer_fourcc f @ footer_identifier f @
        to_le_bytes 4 (word_of_nat (length (footer_entries f)) :: u32))"

text \<open>Slicing \<open>data[i..j]\<close> panics (\<open>None\<close>) out of range.\<close>

definition slice :: "u8 list \<Rightarrow> nat \<Rightarrow> nat \<Rightarrow> u8 list option" where
  "slice data i j = (if i \<le> j \<and> j \<le> length data then Some (take (j - i) (drop i data)) else None)"

fun read_entries :: "u8 list \<Rightarrow> nat \<Rightarrow> nat \<Rightarrow> StreamFooterEntry list option" where
  "read_entries dynamic_data pos 0 = Some []"
| "read_entries dynamic_data pos (Suc n) =
     (case (slice dynamic_data pos (pos + 8), slice dynamic_data (pos + 8) (pos + 16),
            slice dynamic_data (pos + 16) (pos + 20)) of
        (Some a, Some b, Some c) \<Rightarrow>
          map_option ((#) \<lparr>footer_span = \<lparr>span_start = from_le_bytes a, span_len = from_le_bytes b\<rparr>,
                           footer_crc = from_le_bytes c\<rparr>)
            (read_entries dynamic_data (pos + 20) n)
      | _ \<Rightarrow> None)"

text \<open>The outer option is the panic of an out of range slice.\<close>

definition footer_from_dlr_bytes :: "u8 list \<Rightarrow> ('x codec_error, StreamFooter) result option" where
  "footer_from_dlr_bytes data =
     (if length data < 32 then Some (Err (FrameDecoding (InvalidLength 32 (length data))))
      else
        let fixed_data = drop (length data - 12) data;
            fourcc = take 4 fixed_data;
            identifier = take 4 (drop 4 fixed_data)
        in if fourcc \<noteq> DLR_FOURCC then Some (Err (FrameDecoding (InvalidFourCC fourcc)))
           else if identifier \<noteq> DLR_IDENTIFIER then Some (Err (FrameDecoding (InvalidIdentifier identifier)))
           else
             let num_dlr_footers = from_le_bytes (take 4 (drop 8 fixed_data)) :: u32;
                 dynamic_data = drop (length data - 32) data
             in map_option
                  (\<lambda>entries. Ok \<lparr>footer_fourcc = fourcc, footer_identifier = identifier,
                                 footer_entries = entries\<rparr>)
                  (read_entries dynamic_data 0 (unat num_dlr_footers)))"

section \<open>Message header\<close>

datatype MessageKind = End | SetStoreInfo | ArrowMsg | BlueprintActivationCommand

fun kind_u64 :: "MessageKind \<Rightarrow> u64" where
  "kind_u64 End = 0"
| "kind_u64 SetStoreInfo = 1"
| "kind_u64 ArrowMsg = 2"
| "kind_u64 BlueprintActivationCommand = 3"

record MessageHeader =
  msg_kind :: MessageKind
  msg_len :: u64

definition msg_to_dlr_bytes :: "MessageHeader \<Rightarrow> u8 list \<Rightarrow> (u8 list \<times> nat) option" where
  "msg_to_dlr_bytes h out =
     finish_encode 16 out (out @ to_le_bytes 8 (kind_u64 (msg_kind h)) @ to_le_bytes 8 (msg_len h))"

definition msg_from_dlr_bytes :: "u8 list \<Rightarrow> ('x codec_error, MessageHeader) result" where
  "msg_from_dlr_bytes data =
     (if length data \<noteq> 16 then Err (FrameDecoding (InvalidLength 16 (length data)))
      else
        let kind = from_le_bytes (take 8 data) :: u64 in
        try_bind
          (if kind = 0 then Ok End else if kind = 1 then Ok SetStoreInfo
           else if kind = 2 then Ok ArrowMsg else if kind = 3 then Ok BlueprintActivationCommand
           else Err (FrameDecoding (UnknownKind kind)))
          (\<lambda>k. Ok \<lparr>msg_kind = k, msg_len = from_le_bytes (drop 8 data)\<rparr>))"

section \<open>What a frame promises\<close>

locale frame_codec =
  fixes valid :: "'a \<Rightarrow> bool"
    and enc :: "'a \<Rightarrow> u8 list \<Rightarrow> (u8 list \<times> nat) option"
    and dec :: "u8 list \<Rightarrow> ('x codec_error, 'a) result option"
    and sz :: nat
  assumes enc_total: "valid x \<Longrightarrow> \<exists>bs. length bs = sz \<and> (\<forall>out. enc x out = Some (out @ bs, sz))"
    and dec_enc: "valid x \<Longrightarrow> enc x [] = Some (bs, n) \<Longrightarrow> dec bs = Some (Inr x)"
begin

lemma encoded:
  "valid x \<Longrightarrow> \<exists>bs. (\<forall>out. enc x out = Some (out @ bs, sz)) \<and> length bs = sz \<and> dec bs = Some (Inr x)"
  using enc_total [of x] dec_enc by fastforce

lemma prefix_free:
  assumes "valid x" "valid y" "enc x [] = Some (bs, m)" "enc y [] = Some (cs, n)" "bs @ r = cs @ s"
  shows "x = y \<and> r = s"
proof -
  have "length bs = length cs"
    using enc_total [OF assms(1)] enc_total [OF assms(2)] assms(3,4) by auto
  then have "bs = cs" "r = s" using assms(5) by auto
  then show ?thesis using dec_enc [OF assms(1,3)] dec_enc [OF assms(2,4)] by simp
qed

end

text \<open>A canonical frame has one encoding only: decoding loses nothing.\<close>

locale canonical_codec = frame_codec +
  assumes dec_valid: "dec bs = Some (Inr x) \<Longrightarrow> valid x \<and> enc x [] = Some (bs, sz)"
begin

lemma dec_inject: "dec bs = Some (Inr x) \<Longrightarrow> dec cs = Some (Inr x) \<Longrightarrow> bs = cs"
  using dec_valid [of bs x] dec_valid [of cs x] by simp

lemma dec_length: "dec bs = Some (Inr x) \<Longrightarrow> length bs = sz"
  using dec_valid [of bs x] enc_total [of x] by fastforce

end

lemma finish_encode_append: "finish_encode n out (out @ bs) = (if length bs = n then Some (out @ bs, n) else None)"
  by (auto simp: finish_encode_def Let_def)

definition options_bytes :: "EncodingOptions \<Rightarrow> u8 list" where
  "options_bytes opts = [compression_byte (compression opts), serializer_byte (serializer opts), 0, 0]"

lemma length_options_bytes [simp]: "length (options_bytes opts) = 4"
  by (simp add: options_bytes_def)

lemma options_enc: "options_to_dlr_bytes opts out = Some (out @ options_bytes opts, 4)"
  by (simp add: options_to_dlr_bytes_def finish_encode_append options_bytes_def)

lemma options_dec: "options_from_dlr_bytes (options_bytes opts) = Ok opts"
  by (cases "compression opts"; cases "serializer opts")
    (simp_all add: options_from_dlr_bytes_def options_bytes_def)

lemma options_dec_canonical:
  "options_from_dlr_bytes bs = Ok opts \<Longrightarrow> bs = options_bytes opts"
  by (auto simp: options_from_dlr_bytes_def options_bytes_def try_bind_Ok_iff split: list.splits if_splits)

interpretation options_codec: canonical_codec "\<lambda>_. True" options_to_dlr_bytes "\<lambda>bs. Some (options_from_dlr_bytes bs)" 4
  by unfold_locales (auto simp: options_enc options_dec intro: exI [of _ "options_bytes _"] dest: options_dec_canonical)

definition header_ok :: "StreamHeader \<Rightarrow> bool" where
  "header_ok h \<longleftrightarrow> header_fourcc h = DLR_FOURCC \<and> length (header_version h) = 4"

definition header_bytes :: "StreamHeader \<Rightarrow> u8 list" where
  "header_bytes h = header_fourcc h @ header_version h @ options_bytes (header_options h)"

lemma length_fourcc [simp]: "length DLR_FOURCC = 4" "length DLR_IDENTIFIER = 4"
  by (simp_all add: DLR_FOURCC_def DLR_IDENTIFIER_def)

lemma fourcc_not_old: "DLR_FOURCC \<notin> set OLD_DLR_FOURCC"
  by (simp add: DLR_FOURCC_def OLD_DLR_FOURCC_def)

lemma header_enc: "header_ok h \<Longrightarrow> header_to_dlr_bytes h out = Some (out @ header_bytes h, 12)"
  by (simp add: header_to_dlr_bytes_def options_enc finish_encode_append header_ok_def header_bytes_def)

lemma header_dec: "header_ok h \<Longrightarrow> header_from_dlr_bytes (header_bytes h) = Ok h"
  by (simp add: header_from_dlr_bytes_def header_bytes_def header_ok_def fourcc_not_old options_dec)

lemma header_dec_canonical:
  assumes "header_from_dlr_bytes bs = Ok h" shows "header_ok h" "bs = header_bytes h"
proof -
  have len: "length bs = 12" and four: "take 4 bs = DLR_FOURCC"
    and h: "h = \<lparr>header_fourcc = take 4 bs, header_version = take 4 (drop 4 bs), header_options = header_options h\<rparr>"
    and o: "options_from_dlr_bytes (drop 8 bs) = (Ok (header_options h) :: ('a codec_error, _) result)"
    using assms by (auto simp: header_from_dlr_bytes_def Let_def try_bind_Ok_iff split: if_splits)
  show "header_ok h" using len four by (subst h) (simp add: header_ok_def)
  have "bs = take 4 bs @ take 4 (drop 4 bs) @ drop 8 bs"
    by (metis append_take_drop_id drop_drop numeral_Bit0 add.commute)
  then show "bs = header_bytes h"
    using options_dec_canonical [OF o] by (subst h) (simp add: header_bytes_def)
qed

interpretation header_codec: canonical_codec header_ok header_to_dlr_bytes "\<lambda>bs. Some (header_from_dlr_bytes bs)" 12
proof unfold_locales
  fix x assume "header_ok x"
  then show "\<exists>bs. length bs = 12 \<and> (\<forall>out. header_to_dlr_bytes x out = Some (out @ bs, 12))"
    by (intro exI [of _ "header_bytes x"]) (simp add: header_enc, simp add: header_bytes_def header_ok_def)
qed (use header_dec_canonical in \<open>auto simp: header_enc header_dec eq_commute\<close>)

definition msg_bytes :: "MessageHeader \<Rightarrow> u8 list" where
  "msg_bytes h = to_le_bytes 8 (kind_u64 (msg_kind h)) @ to_le_bytes 8 (msg_len h)"

lemma msg_enc: "msg_to_dlr_bytes h out = Some (out @ msg_bytes h, 16)"
  by (simp add: msg_to_dlr_bytes_def finish_encode_append msg_bytes_def)

lemma msg_dec: "msg_from_dlr_bytes (msg_bytes h) = Ok h"
  by (cases "msg_kind h") (simp_all add: msg_from_dlr_bytes_def msg_bytes_def)

lemma msg_dec_canonical: "msg_from_dlr_bytes bs = Ok h \<Longrightarrow> bs = msg_bytes h"
proof -
  assume a: "msg_from_dlr_bytes bs = Ok h"
  then have len: "length bs = 16"
    and k: "from_le_bytes (take 8 bs) = kind_u64 (msg_kind h)" and l: "from_le_bytes (drop 8 bs) = msg_len h"
    by (auto simp: msg_from_dlr_bytes_def Let_def try_bind_Ok_iff split: if_splits)
  have "bs = take 8 bs @ drop 8 bs" by simp
  also have "take 8 bs = to_le_bytes 8 (kind_u64 (msg_kind h))"
    unfolding k [symmetric] using len by (intro to_from_le_bytes [symmetric]) simp_all
  also have "drop 8 bs = to_le_bytes 8 (msg_len h)"
    unfolding l [symmetric] using len by (intro to_from_le_bytes [symmetric]) simp_all
  finally show ?thesis by (simp add: msg_bytes_def)
qed

interpretation msg_codec: canonical_codec "\<lambda>_. True" msg_to_dlr_bytes "\<lambda>bs. Some (msg_from_dlr_bytes bs)" 16
proof unfold_locales
  fix x
  show "\<exists>bs. length bs = 16 \<and> (\<forall>out. msg_to_dlr_bytes x out = Some (out @ bs, 16))"
    by (intro exI [of _ "msg_bytes x"]) (simp add: msg_enc, simp add: msg_bytes_def)
qed (auto simp: msg_enc msg_dec dest: msg_dec_canonical)

definition footer_ok :: "StreamFooter \<Rightarrow> bool" where
  "footer_ok f \<longleftrightarrow> footer_fourcc f = DLR_FOURCC \<and> footer_identifier f = DLR_IDENTIFIER \<and>
                  length (footer_entries f) = 1"

definition footer_bytes :: "StreamFooter \<Rightarrow> u8 list" where
  "footer_bytes f = concat (map entry_bytes (footer_entries f)) @ footer_fourcc f @ footer_identifier f @
        to_le_bytes 4 (word_of_nat (length (footer_entries f)) :: u32)"

lemma length_entry_bytes [simp]: "length (entry_bytes e) = 20"
  by (simp add: entry_bytes_def)

lemma footer_enc: "footer_ok f \<Longrightarrow> footer_to_dlr_bytes f out = Some (out @ footer_bytes f, 32)"
  by (cases "footer_entries f")
    (auto simp: footer_to_dlr_bytes_def finish_encode_append footer_ok_def footer_bytes_def)

lemma read_entry: "read_entries (entry_bytes e @ r) 0 1 = Some [e]"
  by (simp add: slice_def entry_bytes_def)

lemma footer_dec: "footer_ok f \<Longrightarrow> footer_from_dlr_bytes (footer_bytes f) = Some (Ok f)"
proof -
  assume ok: "footer_ok f"
  then obtain e where e: "footer_entries f = [e]"
    by (auto simp: footer_ok_def length_Suc_conv)
  then have f: "footer_bytes f = entry_bytes e @ DLR_FOURCC @ DLR_IDENTIFIER @ to_le_bytes 4 (1 :: u32)"
    using ok by (simp add: footer_bytes_def footer_ok_def)
  have d: "drop 20 (footer_bytes f) = DLR_FOURCC @ DLR_IDENTIFIER @ to_le_bytes 4 (1 :: u32)"
    and l: "length (footer_bytes f) = 32"
    by (simp_all add: f)
  have "footer_from_dlr_bytes (footer_bytes f) = map_option (\<lambda>entries.
      Ok \<lparr>footer_fourcc = DLR_FOURCC, footer_identifier = DLR_IDENTIFIER, footer_entries = entries\<rparr>)
      (read_entries (footer_bytes f) 0 1)"
    by (simp add: footer_from_dlr_bytes_def l d Let_def)
  also have "read_entries (footer_bytes f) 0 1 = Some [e]"
    unfolding f by (rule read_entry)
  finally show ?thesis
    using ok e by (cases f) (simp add: footer_ok_def)
qed

interpretation footer_codec: frame_codec footer_ok footer_to_dlr_bytes footer_from_dlr_bytes 32
proof unfold_locales
  fix x assume ok: "footer_ok x"
  then have "length (footer_bytes x) = 32"
    by (auto simp: footer_bytes_def footer_ok_def length_Suc_conv)
  then show "\<exists>bs. length bs = 32 \<and> (\<forall>out. footer_to_dlr_bytes x out = Some (out @ bs, 32))"
    using footer_enc [OF ok] by blast
qed (auto simp: footer_enc footer_dec)

lemma read_entries_out_of_range:
  "pos + 20 * n > length d \<Longrightarrow> pos \<le> length d \<Longrightarrow> read_entries d pos n = None"
proof (induction n arbitrary: pos)
  case (Suc n)
  show ?case
  proof (cases "pos + 20 \<le> length d")
    case True
    then have "read_entries d (pos + 20) n = None"
      using Suc.prems by (intro Suc.IH) simp_all
    then show ?thesis by (simp split: option.splits)
  next
    case False
    then have "slice d (pos + 16) (pos + 20) = None" by (simp add: slice_def)
    then show ?thesis by (simp split: option.splits)
  qed
qed simp

lemma read_entries_in_range:
  "pos + 20 * n \<le> length d \<Longrightarrow> \<exists>es. read_entries d pos n = Some es \<and> length es = n"
proof (induction n arbitrary: pos)
  case (Suc n)
  then have "(pos + 20) + 20 * n \<le> length d" by simp
  then obtain es where "read_entries d (pos + 20) n = Some es" "length es = n"
    using Suc.IH by blast
  then show ?case using Suc.prems by (simp add: slice_def)
qed simp

section \<open>Properties\<close>

text \<open>
  C7. Round trip of the three frames: encoding a stream header, a message header or a stream
  footer with one entry appends exactly 12, 16 and 32 bytes to the output, never trips the
  size assertion, and decoding these bytes gives the frame back.
\<close>

theorem frames_round_trip:
  assumes "header_ok h" "footer_ok f"
  shows "(\<exists>bs. (\<forall>out. header_to_dlr_bytes h out = Some (out @ bs, 12)) \<and> length bs = 12 \<and>
            header_from_dlr_bytes bs = Ok h) \<and>
         (\<exists>bs. (\<forall>out. msg_to_dlr_bytes m out = Some (out @ bs, 16)) \<and> length bs = 16 \<and>
            msg_from_dlr_bytes bs = Ok m) \<and>
         (\<exists>bs. (\<forall>out. footer_to_dlr_bytes f out = Some (out @ bs, 32)) \<and> length bs = 32 \<and>
            footer_from_dlr_bytes bs = Some (Ok f))"
  using header_codec.encoded [OF assms(1)] msg_codec.encoded [of m] footer_codec.encoded [OF assms(2)]
  by simp

theorem frames_round_trip_witness:
  "\<exists>bs. footer_to_dlr_bytes (footer_new \<lparr>span_start = 12, span_len = 7\<rparr> 9) [] = Some (bs, 32) \<and>
     footer_from_dlr_bytes bs = Some (Ok (footer_new \<lparr>span_start = 12, span_len = 7\<rparr> 9) :: (unit codec_error, _) result)"
  using frames_round_trip [of "\<lparr>header_fourcc = DLR_FOURCC, header_version = [0, 23, 0, 0], header_options = PROTOBUF_COMPRESSED\<rparr>"
      "footer_new \<lparr>span_start = 12, span_len = 7\<rparr> 9" undefined]
  by (fastforce simp: header_ok_def footer_ok_def footer_new_def)

text \<open>
  Stream and message headers are canonical: bytes that decode to a header are exactly its
  encoding, so two different byte strings never decode to the same header and no decoded
  header carries hidden bytes.
\<close>

theorem headers_are_canonical:
  "(header_from_dlr_bytes bs = (Ok h :: ('x codec_error, _) result) \<longleftrightarrow> header_ok h \<and> header_to_dlr_bytes h [] = Some (bs, 12)) \<and>
   (msg_from_dlr_bytes bs = (Ok m :: ('x codec_error, _) result) \<longleftrightarrow> msg_to_dlr_bytes m [] = Some (bs, 16))"
  using header_codec.dec_valid [of bs h] header_codec.dec_enc [of h bs 12]
    msg_codec.dec_valid [of bs m] msg_codec.dec_enc [of m bs 16]
  by auto

text \<open>
  C8. Decoding a 32 byte stream footer with the right magic numbers: it panics on an out of
  range slice exactly when the frame announces more than one entry, and otherwise returns
  that many entries. The comments on the reads claim that they cannot fail.
\<close>

theorem footer_decode_panics_iff:
  fixes r :: "('x codec_error, StreamFooter) result option"
  assumes r: "r = footer_from_dlr_bytes data"
    and "length data = 32" "take 4 (drop 20 data) = DLR_FOURCC" "take 4 (drop 24 data) = DLR_IDENTIFIER"
    and n: "n = unat (from_le_bytes (drop 28 data) :: u32)"
  shows "(r = None \<longleftrightarrow> 32 < 20 * n) \<and>
         (20 * n \<le> 32 \<longrightarrow> (\<exists>f. r = Some (Ok f) \<and> length (footer_entries f) = n))"
proof -
  have e: "r = map_option (\<lambda>entries.
      Ok \<lparr>footer_fourcc = DLR_FOURCC, footer_identifier = DLR_IDENTIFIER, footer_entries = entries\<rparr>)
      (read_entries data 0 n)"
    using assms by (simp add: footer_from_dlr_bytes_def)
  show ?thesis
  proof (cases "32 < 20 * n")
    case True
    then have "read_entries data 0 n = None"
      using assms(2) by (intro read_entries_out_of_range) auto
    then show ?thesis using True e by simp
  next
    case False
    then obtain es where "read_entries data 0 n = Some es" "length es = n"
      using read_entries_in_range [of 0 n data] assms(2) by auto
    then have "r = Some (Ok \<lparr>footer_fourcc = DLR_FOURCC,
        footer_identifier = DLR_IDENTIFIER, footer_entries = es\<rparr>)" "length es = n"
      using e by simp_all
    then show ?thesis using False by fastforce
  qed
qed

theorem footer_decode_panics_iff_witness:
  "footer_from_dlr_bytes (replicate 20 0 @ DLR_FOURCC @ DLR_IDENTIFIER @ [2, 0, 0, 0]) =
     (None :: (unit codec_error, _) result option)"
proof -
  have "unat (from_le_bytes [2, 0, 0, 0] :: u32) = 2" by (simp add: from_le_bytes_def)
  then show ?thesis
    using footer_decode_panics_iff [OF refl, of "replicate 20 0 @ DLR_FOURCC @ DLR_IDENTIFIER @ [2, 0, 0, 0]" 2]
    by simp
qed

end
