(* ===== verification/Dlr_Encoder.thy ===== *)
theory Dlr_Encoder
  imports Dlr_Frames
begin

text \<open>
  The encoder of log streams (\<open>src/crates/store/dl_log_encoding/src/dlr/encoder.rs\<close> and the
  \<open>Encodable\<close> instance of transport messages in \<open>dlr/log_msg.rs\<close>), writing to memory. Protobuf,
  the conversion to transport types and the accumulation of manifests are parameters. The
  theory shows what the encoder writes: a stream header, one framed message per append, and
  on \<open>finish\<close> the end message with the footer and a stream footer that points back at it.
\<close>

datatype 'e EncodeError =
    AlreadyFinished
  | AlreadyUnwrapped
  | ExternalEncodeError 'e
  | EncoderPanic

text \<open>
  What the encoder is built on. \<open>'l\<close> are application level messages, \<open>'p\<close> protobuf payloads,
  \<open>'s\<close> the accumulated footer state and \<open>'r\<close> its protobuf form.
\<close>

record ('l, 'p, 's, 'r, 'e) enc_env =
  enc_to_transport :: "Compression \<Rightarrow> 'l \<Rightarrow> ('e, MessageKind \<times> 'p) result"
  enc_proto :: "MessageKind \<Rightarrow> 'p \<Rightarrow> u8 list"
  enc_uncompressed :: "MessageKind \<times> 'p \<Rightarrow> u64"
  enc_footer_default :: 's
  enc_footer_append :: "'l \<Rightarrow> Span \<Rightarrow> u64 \<Rightarrow> 's \<Rightarrow> ('e, unit) result \<times> 's"
  enc_footer_finish :: "'s \<Rightarrow> ('e, 'r) result"
  enc_footer_proto :: "'r \<Rightarrow> u8 list"
  enc_xxh32 :: "u8 list \<Rightarrow> u32 \<Rightarrow> u32"

text \<open>The writer is \<open>Vec<u8>\<close>: \<open>write_all\<close> appends and cannot fail.\<close>

record 's Encoder =
  enc_serializer :: Serializer
  enc_compression :: Compression
  enc_write :: "u8 list option"
  num_written :: u64
  scratch :: "u8 list"
  footer_state :: "'s option"
  is_finished :: bool

definition encoder_new_eager ::
  "('l, 'p, 's, 'r, 'e) enc_env \<Rightarrow> CrateVersion \<Rightarrow> EncodingOptions \<Rightarrow> u8 list \<Rightarrow>
   ('e EncodeError, 's Encoder) result"
where
  "encoder_new_eager env version options write =
     (case header_to_dlr_bytes \<lparr>header_fourcc = DLR_FOURCC, header_version = version_to_bytes version,
                                header_options = options\<rparr> [] of
        None \<Rightarrow> Err EncoderPanic
      | Some (out, _) \<Rightarrow>
          Ok \<lparr>enc_serializer = serializer options, enc_compression = compression options,
              enc_write = Some (write @ out), num_written = word_of_nat (length out), scratch = [],
              footer_state = Some (enc_footer_default env), is_finished = False\<rparr>)"

text \<open>\<open>to_dlr_bytes\<close> of a transport message: its header, then the protobuf bytes.\<close>

definition transport_to_dlr_bytes ::
  "('l, 'p, 's, 'r, 'e) enc_env \<Rightarrow> MessageKind \<times> 'p \<Rightarrow> u8 list \<Rightarrow> (u8 list \<times> nat) option"
where
  "transport_to_dlr_bytes env m out =
     (let bytes = enc_proto env (fst m) (snd m) in
      case msg_to_dlr_bytes \<lparr>msg_kind = fst m, msg_len = word_of_nat (length bytes)\<rparr> out of
        None \<Rightarrow> None
      | Some (out', _) \<Rightarrow> Some (out' @ bytes, length (out' @ bytes) - length out))"

definition write_encodable ::
  "('l, 'p, 's, 'r, 'e) enc_env \<Rightarrow> MessageKind \<times> 'p \<Rightarrow> 's Encoder \<Rightarrow>
   ('e EncodeError, u64 \<times> Span) result \<times> 's Encoder"
where
  "write_encodable env m enc =
     (if is_finished enc then (Err AlreadyFinished, enc)
      else case enc_write enc of
        None \<Rightarrow> (Err AlreadyUnwrapped, enc)
      | Some w \<Rightarrow>
          (let byte_offset_excluding_header = num_written enc + 16 in
           case transport_to_dlr_bytes env m [] of
             None \<Rightarrow> (Err EncoderPanic, enc\<lparr>scratch := []\<rparr>)
           | Some (bytes, _) \<Rightarrow>
               (let n = word_of_nat (length bytes) in
                (Ok (n, from_start_len byte_offset_excluding_header (n - 16)),
                 enc\<lparr>scratch := bytes, enc_write := Some (w @ bytes), num_written := num_written enc + n\<rparr>))))"

definition encoder_append ::
  "('l, 'p, 's, 'r, 'e) enc_env \<Rightarrow> 'l \<Rightarrow> 's Encoder \<Rightarrow> ('e EncodeError, u64) result \<times> 's Encoder"
where
  "encoder_append env message enc =
     (case enc_to_transport env (enc_compression enc) message of
        Inl e \<Rightarrow> (Err (ExternalEncodeError e), enc)
      | Inr transport \<Rightarrow>
          (case write_encodable env transport enc of
             (Inl e, enc') \<Rightarrow> (Err e, enc')
           | (Inr (n, span), enc') \<Rightarrow>
               (case footer_state enc' of
                  None \<Rightarrow> (Ok n, enc')
                | Some fs \<Rightarrow>
                    (case enc_footer_append env message span (enc_uncompressed env transport) fs of
                       (Inl e, fs') \<Rightarrow> (Err (ExternalEncodeError e), enc'\<lparr>footer_state := Some fs'\<rparr>)
                     | (Inr _, fs') \<Rightarrow> (Ok n, enc'\<lparr>footer_state := Some fs'\<rparr>)))))"

text \<open>\<open>extend\<close>: the messages come as results, the first error ends the loop.\<close>

fun encoder_extend ::
  "('l, 'p, 's, 'r, 'e) enc_env \<Rightarrow> ('e, 'l) result list \<Rightarrow> u64 \<Rightarrow> 's Encoder \<Rightarrow>
   ('e EncodeError, u64) result \<times> 's Encoder"
where
  "encoder_extend env [] size_bytes enc = (Ok size_bytes, enc)"
| "encoder_extend env (Inl e # ms) size_bytes enc = (Err (ExternalEncodeError e), enc)"
| "encoder_extend env (Inr m # ms) size_bytes enc =
     (case encoder_append env m enc of
        (Inl e, enc') \<Rightarrow> (Err e, enc')
      | (Inr n, enc') \<Rightarrow> encoder_extend env ms (size_bytes + n) enc')"

definition do_not_emit_footer :: "'s Encoder \<Rightarrow> 's Encoder" where
  "do_not_emit_footer enc = enc\<lparr>footer_state := None\<rparr>"

definition append_transport_without_footer ::
  "('l, 'p, 's, 'r, 'e) enc_env \<Rightarrow> MessageKind \<times> 'p \<Rightarrow> 's Encoder \<Rightarrow>
   ('e EncodeError, Span \<times> u64) result \<times> 's Encoder"
where
  "append_transport_without_footer env m enc =
     (case write_encodable env m (do_not_emit_footer enc) of
        (Inl e, enc') \<Rightarrow> (Err e, enc')
      | (Inr (_, span), enc') \<Rightarrow> (Ok (span, enc_uncompressed env m), enc'))"

text \<open>\<open>finish_impl\<close> on the writer and the counter.\<close>

definition finish_impl ::
  "('l, 'p, 's, 'r, 'e) enc_env \<Rightarrow> 'r \<Rightarrow> u8 list \<Rightarrow> u64 \<Rightarrow> ('e EncodeError, unit) result \<times> u8 list \<times> u64"
where
  "finish_impl env dlr_footer w written =
     (let out_dlr_footer = enc_footer_proto env dlr_footer in
      case msg_to_dlr_bytes \<lparr>msg_kind = End, msg_len = word_of_nat (length out_dlr_footer)\<rparr> [] of
        None \<Rightarrow> (Err EncoderPanic, w, written)
      | Some (out_header, _) \<Rightarrow>
          (let w = w @ out_header; written = written + word_of_nat (length out_header);
               end_msg_byte_offset_from_start_excluding_header = written;
               w = w @ out_dlr_footer; written = written + word_of_nat (length out_dlr_footer)
           in case footer_to_dlr_bytes
                     (from_dlr_footer_bytes (enc_xxh32 env) end_msg_byte_offset_from_start_excluding_header
                        out_dlr_footer) [] of
                None \<Rightarrow> (Err EncoderPanic, w, written)
              | Some (out_stream_footer, _) \<Rightarrow>
                  (Ok (), w @ out_stream_footer, written + word_of_nat (length out_stream_footer))))"

definition encoder_finish ::
  "('l, 'p, 's, 'r, 'e) enc_env \<Rightarrow> 's Encoder \<Rightarrow> ('e EncodeError, unit) result \<times> 's Encoder"
where
  "encoder_finish env enc =
     (if is_finished enc then (Ok (), enc)
      else case enc_write enc of
        None \<Rightarrow> (Err AlreadyUnwrapped, enc)
      | Some w \<Rightarrow>
          (let enc = enc\<lparr>is_finished := True\<rparr> in
           case footer_state enc of
             None \<Rightarrow> (Ok (), enc)
           | Some fs \<Rightarrow>
               (let enc = enc\<lparr>footer_state := None\<rparr> in
                case enc_footer_finish env fs of
                  Inl e \<Rightarrow> (Err (ExternalEncodeError e), enc)
                | Inr dlr_footer \<Rightarrow>
                    (let (res, w', written) = finish_impl env dlr_footer w (num_written enc)
                     in (res, enc\<lparr>enc_write := Some w', num_written := written\<rparr>)))))"

text \<open>
  \<open>finish_with_custom_footer\<close>: in debug builds an additional built-in footer trips an
  assertion, after the encoder has been marked as finished.
\<close>

definition finish_with_custom_footer ::
  "bool \<Rightarrow> ('l, 'p, 's, 'r, 'e) enc_env \<Rightarrow> 'r \<Rightarrow> 's Encoder \<Rightarrow> ('e EncodeError, unit) result \<times> 's Encoder"
where
  "finish_with_custom_footer debug env dlr_footer enc =
     (if is_finished enc then (Ok (), enc)
      else case enc_write enc of
        None \<Rightarrow> (Err AlreadyUnwrapped, enc)
      | Some w \<Rightarrow>
          (let enc = enc\<lparr>is_finished := True\<rparr> in
           if debug \<and> footer_state enc \<noteq> None then (Err EncoderPanic, enc)
           else let (res, w', written) = finish_impl env dlr_footer w (num_written enc)
                in (res, enc\<lparr>enc_write := Some w', num_written := written\<rparr>)))"

definition into_inner :: "'s Encoder \<Rightarrow> ('e EncodeError, u8 list) result \<times> 's Encoder" where
  "into_inner enc = (ok_or (enc_write enc) AlreadyUnwrapped, enc\<lparr>enc_write := None\<rparr>)"

text \<open>The all-in-one helper; dropping the encoder after \<open>into_inner\<close> does nothing.\<close>

definition encode_stream ::
  "('l, 'p, 's, 'r, 'e) enc_env \<Rightarrow> CrateVersion \<Rightarrow> ('e, 'l) result list \<Rightarrow> ('e EncodeError, u8 list) result"
where
  "encode_stream env local messages =
     try_bind (encoder_new_eager env local PROTOBUF_COMPRESSED []) (\<lambda>enc0.
       case encoder_extend env messages 0 enc0 of
         (Inl e, _) \<Rightarrow> Err e
       | (Inr _, enc1) \<Rightarrow>
           (case encoder_finish env enc1 of
              (Inl e, _) \<Rightarrow> Err e
            | (Inr _, enc2) \<Rightarrow> fst (into_inner enc2)))"

section \<open>What the encoder writes\<close>

definition message_bytes :: "('l, 'p, 's, 'r, 'e) enc_env \<Rightarrow> MessageKind \<times> 'p \<Rightarrow> u8 list" where
  "message_bytes env m =
     (let bytes = enc_proto env (fst m) (snd m)
      in msg_bytes \<lparr>msg_kind = fst m, msg_len = word_of_nat (length bytes)\<rparr> @ bytes)"

definition end_bytes :: "('l, 'p, 's, 'r, 'e) enc_env \<Rightarrow> 'r \<Rightarrow> u64 \<Rightarrow> u8 list" where
  "end_bytes env dlr_footer written =
     (let bytes = enc_footer_proto env dlr_footer
      in msg_bytes \<lparr>msg_kind = End, msg_len = word_of_nat (length bytes)\<rparr> @ bytes @
         footer_bytes (from_dlr_footer_bytes (enc_xxh32 env) (written + 16) bytes))"

lemma transport_bytes:
  "\<exists>n. transport_to_dlr_bytes env m out = Some (out @ message_bytes env m, n)"
  by (simp add: transport_to_dlr_bytes_def msg_enc message_bytes_def Let_def)

lemma footer_ok_from_bytes [simp]: "footer_ok (from_dlr_footer_bytes h off bs)"
  by (simp add: footer_ok_def from_dlr_footer_bytes_def footer_new_def)

lemma length_msg_bytes [simp]: "length (msg_bytes h) = 16"
  by (simp add: msg_bytes_def)

lemma finish_impl_writes:
  "finish_impl env r w k = (Ok (), w @ end_bytes env r k, k + word_of_nat (length (end_bytes env r k)))"
proof -
  have "length (footer_bytes (from_dlr_footer_bytes h off bs)) = 32" for h off bs
    using footer_enc [OF footer_ok_from_bytes, of h off bs "[]"] footer_codec.enc_total [OF footer_ok_from_bytes, of h off bs]
    by fastforce
  then show ?thesis
    by (simp add: finish_impl_def msg_enc footer_enc end_bytes_def Let_def)
qed

lemma write_encodable_writes:
  assumes "\<not> is_finished enc" "enc_write enc = Some w"
  shows "\<exists>r enc'. write_encodable env m enc = (Inr r, enc') \<and> enc_write enc' = Some (w @ message_bytes env m) \<and>
           \<not> is_finished enc' \<and> enc_compression enc' = enc_compression enc \<and>
           num_written enc' = num_written enc + word_of_nat (length (message_bytes env m)) \<and>
           footer_state enc' = footer_state enc"
  using assms transport_bytes [of env m "[]"]
  by (auto simp: write_encodable_def Let_def)

end
