(* ===== verification/Byte_Buffer.thy ===== *)
theory Byte_Buffer
  imports Prelude
begin

text \<open>
  \<open>ByteChunkBuffer\<close> (\<open>dl_log_encoding/src/dlr/decoder/state_machine.rs\<close>): the queue of byte
  chunks from which the push based decoder reads exactly \<open>n\<close> bytes at a time, with a scratch
  buffer that survives incomplete reads. The locale \<open>byte_source\<close> states the contract (the
  reader behaves like one flat list of pending bytes) and derives that chunk boundaries are
  invisible; it is interpreted for the buffer.
\<close>

section \<open>The buffer\<close>

text \<open>A \<open>Cursor<Vec<u8>>\<close> is the bytes and the position.\<close>

type_synonym ByteChunk = "u8 list \<times> nat"

record ByteChunkBuffer =
  queue :: "ByteChunk list"
  buffer :: "u8 list"
  buffer_fill :: nat
  num_read :: nat

definition buffer_new :: ByteChunkBuffer where
  "buffer_new = \<lparr>queue = [], buffer = [], buffer_fill = 0, num_read = 0\<rparr>"

definition push :: "u8 list \<Rightarrow> ByteChunkBuffer \<Rightarrow> ByteChunkBuffer" where
  "push byte_chunk b = (if byte_chunk = [] then b else b\<lparr>queue := queue b @ [(byte_chunk, 0)]\<rparr>)"

definition is_byte_chunk_empty :: "ByteChunk \<Rightarrow> bool" where
  "is_byte_chunk_empty c \<longleftrightarrow> snd c \<ge> length (fst c)"

definition vec_resize :: "nat \<Rightarrow> u8 list \<Rightarrow> u8 list" where
  "vec_resize n v = take n v @ replicate (n - length v) 0"

text \<open>\<open>Cursor::read\<close> into the part of the buffer from \<open>fill\<close> on.\<close>

definition cursor_read :: "ByteChunk \<Rightarrow> u8 list \<Rightarrow> nat \<Rightarrow> ByteChunk \<times> u8 list \<times> nat" where
  "cursor_read c buf fill =
     (let m = min (length (fst c) - snd c) (length buf - fill)
      in ((fst c, snd c + m), take fill buf @ take m (drop (snd c) (fst c)) @ drop (fill + m) buf, fill + m))"

text \<open>
  The loop of \<open>try_read\<close>. At this point the buffer has been resized to \<open>n\<close>, so its length is
  the \<open>n\<close> of the condition, and the fill never exceeds it.
\<close>

function fill_buffer :: "ByteChunk list \<Rightarrow> u8 list \<Rightarrow> nat \<Rightarrow> ByteChunk list \<times> u8 list \<times> nat" where
  "fill_buffer q buf fill =
     (if fill \<ge> length buf then (q, buf, fill)
      else case q of
        [] \<Rightarrow> (q, buf, fill)
      | c # rest \<Rightarrow>
          (let (c', buf', fill') = cursor_read c buf fill
           in if is_byte_chunk_empty c' then fill_buffer rest buf' fill'
              else fill_buffer (c' # rest) buf' fill'))"
  by pat_completeness auto

termination
  by (relation "measure (\<lambda>(q, buf, fill). (\<Sum>(d, p) \<leftarrow> q. length d - p) + length q)")
    (auto simp: cursor_read_def is_byte_chunk_empty_def Let_def min_def split: if_splits)

declare fill_buffer.simps [simp del]

text \<open>
  \<open>try_read\<close>: the outer option is the failure of the \<open>assert_eq\<close> on an incomplete read of a
  different size.
\<close>

definition buffer_try_read :: "nat \<Rightarrow> ByteChunkBuffer \<Rightarrow> (u8 list option \<times> ByteChunkBuffer) option" where
  "buffer_try_read n b =
     (if length (buffer b) \<noteq> n \<and> buffer_fill b \<noteq> 0 then None
      else
        let b1 = (if length (buffer b) \<noteq> n
                  then b\<lparr>buffer := vec_resize n (buffer b), buffer_fill := 0\<rparr> else b);
            (q, buf, fill) = fill_buffer (queue b1) (buffer b1) (buffer_fill b1)
        in if fill = n
           then Some (Some buf, b1\<lparr>queue := q, buffer := [], buffer_fill := 0, num_read := num_read b1 + n\<rparr>)
           else Some (None, b1\<lparr>queue := q, buffer := buf, buffer_fill := fill\<rparr>))"

text \<open>\<open>try_peek\<close> into an output of \<open>target_len\<close> bytes: the bytes written to it, in order.\<close>

fun peek_queue :: "nat \<Rightarrow> ByteChunk list \<Rightarrow> u8 list \<Rightarrow> u8 list" where
  "peek_queue target_len [] out = out"
| "peek_queue target_len (c # cs) out =
     (if length out = target_len then out
      else peek_queue target_len cs (out @ take (target_len - length out) (drop (snd c) (fst c))))"

definition buffer_try_peek :: "nat \<Rightarrow> ByteChunkBuffer \<Rightarrow> u8 list" where
  "buffer_try_peek target_len b =
     peek_queue target_len (queue b)
       (if target_len = length (buffer b) then take (buffer_fill b) (buffer b) else [])"

section \<open>The contract\<close>

locale byte_source =
  fixes pending :: "'s \<Rightarrow> u8 list"
    and ready :: "nat \<Rightarrow> 's \<Rightarrow> bool"
    and feed1 :: "u8 list \<Rightarrow> 's \<Rightarrow> 's"
    and read :: "nat \<Rightarrow> 's \<Rightarrow> (u8 list option \<times> 's) option"
    and peek :: "nat \<Rightarrow> 's \<Rightarrow> u8 list"
  assumes feed_pending: "pending (feed1 c s) = pending s @ c"
    and feed_ready: "ready n (feed1 c s) = ready n s"
    and read_enough: "ready n s \<Longrightarrow> n \<le> length (pending s) \<Longrightarrow>
        \<exists>s'. read n s = Some (Some (take n (pending s)), s') \<and> pending s' = drop n (pending s) \<and>
             (\<forall>m. ready m s')"
    and read_short: "ready n s \<Longrightarrow> length (pending s) < n \<Longrightarrow>
        \<exists>s'. read n s = Some (None, s') \<and> pending s' = pending s \<and> ready n s'"
    and peek_pending: "ready n s \<Longrightarrow> peek n s = take n (pending s)"
begin

lemma feed_all: "pending (fold feed1 cs s) = pending s @ concat cs"
  by (induction cs arbitrary: s) (simp_all add: feed_pending)

lemma ready_all: "ready n (fold feed1 cs s) = ready n s"
  by (induction cs arbitrary: s) (simp_all add: feed_ready)

text \<open>Chunk boundaries are invisible to a reader.\<close>

lemma chunking:
  assumes "ready n s" "concat cs = concat ds"
  shows "map_option fst (read n (fold feed1 cs s)) = map_option fst (read n (fold feed1 ds s))"
proof (cases "n \<le> length (pending s @ concat ds)")
  case True
  then show ?thesis
    using read_enough [of n "fold feed1 cs s"] read_enough [of n "fold feed1 ds s"] assms
    by (auto simp: feed_all ready_all)
next
  case False
  then show ?thesis
    using read_short [of n "fold feed1 cs s"] read_short [of n "fold feed1 ds s"] assms
    by (auto simp: feed_all ready_all)
qed

text \<open>A read that was short succeeds with the same bytes once enough have arrived.\<close>

lemma resume:
  assumes "ready n s" "length (pending s) < n" "n \<le> length (pending s @ c)"
  shows "\<exists>s1 s2. read n s = Some (None, s1) \<and>
           read n (feed1 c s1) = Some (Some (take n (pending s @ c)), s2) \<and>
           pending s2 = drop n (pending s @ c)"
proof -
  obtain s1 where s1: "read n s = Some (None, s1)" "pending s1 = pending s" "ready n s1"
    using read_short assms by blast
  then obtain s2 where "read n (feed1 c s1) = Some (Some (take n (pending s @ c)), s2)"
      "pending s2 = drop n (pending s @ c)"
    using read_enough [of n "feed1 c s1"] assms(3) by (auto simp: feed_pending feed_ready)
  with s1 show ?thesis by blast
qed

end

section \<open>The buffer meets the contract\<close>

definition cursor_rest :: "ByteChunk \<Rightarrow> u8 list" where
  "cursor_rest c = drop (snd c) (fst c)"

lemma cursor_rest_pair [simp]: "cursor_rest (d, p) = drop p d"
  by (simp add: cursor_rest_def)

definition buffer_pending :: "ByteChunkBuffer \<Rightarrow> u8 list" where
  "buffer_pending b = take (buffer_fill b) (buffer b) @ concat (map cursor_rest (queue b))"

definition buffer_ready :: "nat \<Rightarrow> ByteChunkBuffer \<Rightarrow> bool" where
  "buffer_ready n b \<longleftrightarrow> buffer_fill b = 0 \<or> length (buffer b) = n \<and> buffer_fill b \<le> n"

lemma fill_buffer_spec:
  assumes "fill \<le> length buf" "fill_buffer q buf fill = (q', buf', fill')"
  shows "length buf' = length buf \<and> fill' = min (length buf) (fill + length (concat (map cursor_rest q))) \<and>
         take fill' buf' @ concat (map cursor_rest q') = take fill buf @ concat (map cursor_rest q)"
  using assms
proof (induction q arbitrary: buf fill q' buf' fill')
  case Nil
  have "fill_buffer [] buf fill = ([], buf, fill)" by (subst fill_buffer.simps) auto
  then show ?case using Nil by auto
next
  case (Cons c rest)
  show ?case
  proof (cases "fill \<ge> length buf")
    case True
    then have "fill_buffer (c # rest) buf fill = (c # rest, buf, fill)" by (subst fill_buffer.simps) auto
    then show ?thesis using Cons.prems True by auto
  next
    case False
    obtain d p where c: "c = (d, p)" by (cases c)
    define m where "m = min (length d - p) (length buf - fill)"
    define b1 where "b1 = take fill buf @ take m (drop p d) @ drop (fill + m) buf"
    have cr: "cursor_read c buf fill = ((d, p + m), b1, fill + m)"
      by (simp add: cursor_read_def c Let_def m_def b1_def)
    have lb: "length b1 = length buf" "fill + m \<le> length b1"
      using False by (auto simp: b1_def m_def)
    have tk: "take (fill + m) b1 = take fill buf @ take m (drop p d)"
      using False by (simp add: b1_def m_def min_def)
    have unf: "fill_buffer (c # rest) buf fill = (if is_byte_chunk_empty (d, p + m)
        then fill_buffer rest b1 (fill + m) else fill_buffer ((d, p + m) # rest) b1 (fill + m))"
      using False by (subst fill_buffer.simps) (simp add: cr)
    show ?thesis
    proof (cases "is_byte_chunk_empty (d, p + m)")
      case True
      then have all: "take m (drop p d) = drop p d" "length (drop p d) = m"
        by (auto simp: is_byte_chunk_empty_def m_def)
      have "fill_buffer rest b1 (fill + m) = (q', buf', fill')"
        using Cons.prems(2) unf True by simp
      from Cons.IH [OF lb(2) this] show ?thesis
        unfolding tk all lb(1) by (elim conjE) (simp add: c all(2) [simplified] add.assoc)
    next
      case nonempty: False
      then have full: "fill + m = length b1"
        using False lb by (auto simp: is_byte_chunk_empty_def m_def)
      have "fill_buffer ((d, p + m) # rest) b1 (fill + m) = ((d, p + m) # rest, b1, fill + m)"
        by (subst fill_buffer.simps) (simp add: full)
      then have r: "q' = (d, p + m) # rest" "buf' = b1" "fill' = fill + m"
        using Cons.prems(2) unf nonempty by auto
      have "length buf \<le> fill + length (drop p d)"
        using full lb by (auto simp: m_def)
      moreover have "take m (drop p d) @ drop (p + m) d = drop p d"
        by (metis append_take_drop_id drop_drop add.commute)
      moreover have "length buf - fill = m" using full lb by simp
      ultimately have "length buf' = length buf \<and>
          fill' = min (length buf) (fill + length (concat (map cursor_rest (c # rest))))"
        and "take fill' buf' @ concat (map cursor_rest q') =
          take fill buf @ (take m (drop p d) @ drop (p + m) d) @ concat (map cursor_rest rest)"
        unfolding r c using tk lb full by (simp_all del: append_take_drop_id)
      then show ?thesis
        using \<open>take m (drop p d) @ drop (p + m) d = drop p d\<close> by (simp add: c)
    qed
  qed
qed

lemma peek_queue_spec:
  "length out \<le> n \<Longrightarrow> peek_queue n q out = take n (out @ concat (map cursor_rest q))"
proof (induction n q out rule: peek_queue.induct)
  case (2 n c cs out)
  show ?case
  proof (cases "length out = n")
    case False
    then have "length out + length (take (n - length out) (drop (snd c) (fst c))) \<le> n"
      using 2 by simp
    then have "peek_queue n (c # cs) out =
        take n ((out @ take (n - length out) (drop (snd c) (fst c))) @ concat (map cursor_rest cs))"
      using 2 False by simp
    also have "\<dots> = take n (out @ concat (map cursor_rest (c # cs)))"
      by (cases "length (fst c) - snd c \<le> n - length out") (simp_all add: cursor_rest_def min_def)
    finally show ?thesis .
  qed simp
qed simp

lemma buffer_push_pending: "buffer_pending (push c b) = buffer_pending b @ c"
  by (simp add: buffer_pending_def push_def cursor_rest_def)

lemma buffer_try_read_spec:
  assumes "buffer_ready n b"
  shows "if n \<le> length (buffer_pending b)
    then \<exists>b'. buffer_try_read n b = Some (Some (take n (buffer_pending b)), b') \<and>
           buffer_pending b' = drop n (buffer_pending b) \<and> buffer_fill b' = 0 \<and> num_read b' = num_read b + n
    else \<exists>b'. buffer_try_read n b = Some (None, b') \<and> buffer_pending b' = buffer_pending b \<and>
           buffer_ready n b' \<and> num_read b' = num_read b"
proof -
  define b1 where "b1 = (if length (buffer b) \<noteq> n
     then b\<lparr>buffer := vec_resize n (buffer b), buffer_fill := 0\<rparr> else b)"
  obtain q buf fill where f: "fill_buffer (queue b1) (buffer b1) (buffer_fill b1) = (q, buf, fill)"
    by (metis prod_cases3)
  have b1: "length (buffer b1) = n" "buffer_fill b1 \<le> n" "queue b1 = queue b" "num_read b1 = num_read b"
    using assms by (auto simp: b1_def vec_resize_def buffer_ready_def)
  have p1: "buffer_pending b = take (buffer_fill b1) (buffer b1) @ concat (map cursor_rest (queue b1))"
    using assms by (auto simp: b1_def buffer_pending_def buffer_ready_def)
  note s = fill_buffer_spec [OF _ f]
  have len: "length buf = n" "fill = min n (length (buffer_pending b))"
    and rest: "take fill buf @ concat (map cursor_rest q) = buffer_pending b"
    using s b1 p1 by auto
  have r: "buffer_try_read n b = (if fill = n
      then Some (Some buf, b1\<lparr>queue := q, buffer := [], buffer_fill := 0, num_read := num_read b1 + n\<rparr>)
      else Some (None, b1\<lparr>queue := q, buffer := buf, buffer_fill := fill\<rparr>))"
    using assms f b1_def by (auto simp: buffer_try_read_def buffer_ready_def Let_def)
  show ?thesis
  proof (cases "n \<le> length (buffer_pending b)")
    case True
    then have "fill = n" using len by simp
    moreover from this have "buf = take n (buffer_pending b)" "concat (map cursor_rest q) = drop n (buffer_pending b)"
      using rest len(1) by (metis append_eq_conv_conj take_all_iff order_refl)+
    ultimately show ?thesis using True r b1(4) by (simp add: buffer_pending_def)
  next
    case False
    then have "fill \<noteq> n" "fill \<le> n" using len by auto
    then show ?thesis using False r rest len(1) b1(4)
      by (simp add: buffer_pending_def buffer_ready_def)
  qed
qed

interpretation chunk_buffer: byte_source buffer_pending buffer_ready push buffer_try_read buffer_try_peek
proof unfold_locales
  fix n b assume "buffer_ready n b"
  then show "buffer_try_peek n b = take n (buffer_pending b)"
    by (auto simp: buffer_try_peek_def buffer_pending_def buffer_ready_def peek_queue_spec)
next
  fix n b assume "buffer_ready n b" "n \<le> length (buffer_pending b)"
  then show "\<exists>b'. buffer_try_read n b = Some (Some (take n (buffer_pending b)), b') \<and>
      buffer_pending b' = drop n (buffer_pending b) \<and> (\<forall>m. buffer_ready m b')"
    using buffer_try_read_spec [of n b] by (auto simp: buffer_ready_def)
next
  fix n b assume "buffer_ready n b" "length (buffer_pending b) < n"
  then show "\<exists>b'. buffer_try_read n b = Some (None, b') \<and> buffer_pending b' = buffer_pending b \<and> buffer_ready n b'"
    using buffer_try_read_spec [of n b] by auto
qed (simp_all add: buffer_push_pending, simp add: buffer_ready_def push_def)

end
