(* ===== verification/Dlr_Decoder.thy ===== *)
theory Dlr_Decoder
  imports Dlr_Frames Byte_Buffer
begin

text \<open>
  The push based decoder of log streams
  (\<open>src/crates/store/dl_log_encoding/src/dlr/decoder/state_machine.rs\<close>): the states of the machine,
  one definition per arm of \<open>try_read_impl\<close>, the loop \<open>try_read\<close> and the drain loop of its
  users. A second, abstract machine works on one flat list of bytes; the decoder is shown to
  refine it, to always return, and to yield the same results however the bytes are cut into
  chunks.
\<close>

section \<open>The machine\<close>

datatype DecoderState =
    WaitingForStreamHeader
  | WaitingForMessageHeader
  | WaitingForMessagePayload MessageHeader
  | WaitingForStreamFooter
  | Aborted

text \<open>The places where the decoder can panic.\<close>

datatype panic = IncompleteReadAssert | PeekThenReadExpect | FooterSlice | SpanOverflow

text \<open>
  \<open>'c\<close> is the application id cache, \<open>'f\<close> the manifests of a decoded footer. \<open>crashed\<close> records
  a panic, after which the decoder does nothing.
\<close>

record ('c, 'f) Decoder =
  dec_version :: "CrateVersion option"
  dec_options :: EncodingOptions
  byte_chunks :: ByteChunkBuffer
  dec_state :: DecoderState
  app_id_cache :: 'c
  dlr_manifests :: "'f list"
  crashed :: "panic option"

text \<open>
  What the decoder is built on: the version of the build, the message decoder \<open>T::decode\<close> and
  the footer decoder, which are protobuf, and whether overflow checks are on. A message
  decoder may change the cache even when it fails.
\<close>

record ('c, 'f, 'm, 'x) env =
  env_local :: CrateVersion
  env_decode :: "u8 list \<Rightarrow> Span \<Rightarrow> MessageKind \<Rightarrow> 'c \<Rightarrow> CrateVersion option \<Rightarrow>
                 ('x codec_error, 'm option) result \<times> 'c"
  env_footer :: "u8 list \<Rightarrow> ('x codec_error, 'f list) result"
  env_overflow_checks :: bool

definition decoder_new :: "'c \<Rightarrow> ('c, 'f) Decoder" where
  "decoder_new cache =
     \<lparr>dec_version = None, dec_options = PROTOBUF_UNCOMPRESSED, byte_chunks = buffer_new,
      dec_state = WaitingForStreamHeader, app_id_cache = cache, dlr_manifests = [], crashed = None\<rparr>"

definition push_byte_chunk :: "u8 list \<Rightarrow> ('c, 'f) Decoder \<Rightarrow> ('c, 'f) Decoder" where
  "push_byte_chunk c d = d\<lparr>byte_chunks := push c (byte_chunks d)\<rparr>"

text \<open>
  How an arm of \<open>try_read_impl\<close> ends: with a return value, with the tail call
  \<open>return self.try_read()\<close>, or with a panic.
\<close>

datatype ('m, 'x) outcome =
    Return "('x codec_error, 'm option) result"
  | Again
  | Panic panic

definition crash :: "panic \<Rightarrow> ('c, 'f) Decoder \<Rightarrow> ('m, 'x) outcome \<times> ('c, 'f) Decoder" where
  "crash p d = (Panic p, d\<lparr>crashed := Some p\<rparr>)"

definition read_stream_header ::
  "('c, 'f, 'm, 'x) env \<Rightarrow> ('c, 'f) Decoder \<Rightarrow> ('m, 'x) outcome \<times> ('c, 'f) Decoder"
where
  "read_stream_header env d =
     (let is_first_header = (num_read (byte_chunks d) = 0) in
      case buffer_try_read 12 (byte_chunks d) of
        None \<Rightarrow> crash IncompleteReadAssert d
      | Some (None, b) \<Rightarrow> (Return (Ok None), d\<lparr>byte_chunks := b\<rparr>)
      | Some (Some header_data, b) \<Rightarrow>
          (let d = d\<lparr>byte_chunks := b\<rparr> in
           case try_bind (header_from_dlr_bytes header_data) (to_version_and_options (env_local env)) of
             Inl err \<Rightarrow>
               if is_first_header then (Return (Err err), d)
               else (Return (Ok None), d\<lparr>dec_state := Aborted\<rparr>)
           | Inr (version, options) \<Rightarrow>
               (Again, d\<lparr>dec_version := Some version, dec_options := options,
                         dec_state := WaitingForMessageHeader\<rparr>)))"

definition read_message_header ::
  "('c, 'f, 'm, 'x) env \<Rightarrow> ('c, 'f) Decoder \<Rightarrow> ('m, 'x) outcome \<times> ('c, 'f) Decoder"
where
  "read_message_header env d =
     (let peeked = buffer_try_peek 16 (byte_chunks d) in
      if length peeked = 16 then
        case msg_from_dlr_bytes peeked of
          Inl (FrameDecoding _) \<Rightarrow> (Again, d\<lparr>dec_state := WaitingForStreamHeader\<rparr>)
        | Inl err \<Rightarrow> (Return (Err err), d)
        | Inr header \<Rightarrow>
            (case buffer_try_read 16 (byte_chunks d) of
               None \<Rightarrow> crash IncompleteReadAssert d
             | Some (None, b) \<Rightarrow> crash PeekThenReadExpect (d\<lparr>byte_chunks := b\<rparr>)
             | Some (Some _, b) \<Rightarrow>
                 (Again, d\<lparr>byte_chunks := b, dec_state := WaitingForMessagePayload header\<rparr>))
      else (Return (Ok None), d))"

definition read_message_payload ::
  "('c, 'f, 'm, 'x) env \<Rightarrow> MessageHeader \<Rightarrow> ('c, 'f) Decoder \<Rightarrow> ('m, 'x) outcome \<times> ('c, 'f) Decoder"
where
  "read_message_payload env header d =
     (let start_offset = word_of_nat (num_read (byte_chunks d)) in
      case buffer_try_read (unat (msg_len header)) (byte_chunks d) of
        None \<Rightarrow> crash IncompleteReadAssert d
      | Some (None, b) \<Rightarrow> (Return (Ok None), d\<lparr>byte_chunks := b\<rparr>)
      | Some (Some bytes, b) \<Rightarrow>
          (let byte_span = from_start_len start_offset (word_of_nat (length bytes));
               (res, cache) = env_decode env bytes byte_span (msg_kind header) (app_id_cache d) (dec_version d);
               d = d\<lparr>byte_chunks := b, app_id_cache := cache\<rparr>
           in case res of
                Inl err \<Rightarrow> (Return (Err err), d\<lparr>dec_state := WaitingForMessageHeader\<rparr>)
              | Inr (Some message) \<Rightarrow> (Return (Ok (Some message)), d\<lparr>dec_state := WaitingForMessageHeader\<rparr>)
              | Inr None \<Rightarrow>
                  if bytes \<noteq> [] then
                    case env_footer env bytes of
                      Inl err \<Rightarrow> (Return (Err err), d)
                    | Inr manifests \<Rightarrow>
                        (Again, d\<lparr>dlr_manifests := dlr_manifests d @ manifests,
                                  dec_state := WaitingForStreamFooter\<rparr>)
                  else (Again, d\<lparr>dec_state := WaitingForStreamFooter\<rparr>)))"

text \<open>
  The entries of a footer are only checked for logging, but computing the end of their span
  can overflow.
\<close>

definition footer_spans_ok :: "bool \<Rightarrow> StreamFooter \<Rightarrow> bool" where
  "footer_spans_ok oc f \<longleftrightarrow> list_all (\<lambda>e. span_end oc (footer_span e) \<noteq> None) (footer_entries f)"

definition read_stream_footer ::
  "('c, 'f, 'm, 'x) env \<Rightarrow> ('c, 'f) Decoder \<Rightarrow> ('m, 'x) outcome \<times> ('c, 'f) Decoder"
where
  "read_stream_footer env d =
     (case buffer_try_read 32 (byte_chunks d) of
        None \<Rightarrow> crash IncompleteReadAssert d
      | Some (None, b) \<Rightarrow> (Return (Ok None), d\<lparr>byte_chunks := b\<rparr>)
      | Some (Some bytes, b) \<Rightarrow>
          (let d = d\<lparr>byte_chunks := b\<rparr> in
           case (footer_from_dlr_bytes bytes :: ('x codec_error, StreamFooter) result option) of
             None \<Rightarrow> crash FooterSlice d
           | Some (Inr footer) \<Rightarrow>
               if footer_spans_ok (env_overflow_checks env) footer
               then (Again, d\<lparr>dec_state := WaitingForStreamHeader\<rparr>)
               else crash SpanOverflow d
           | Some (Inl err) \<Rightarrow> (Return (Ok None), d\<lparr>dec_state := Aborted\<rparr>)))"

definition try_read_impl ::
  "('c, 'f, 'm, 'x) env \<Rightarrow> ('c, 'f) Decoder \<Rightarrow> ('m, 'x) outcome \<times> ('c, 'f) Decoder"
where
  "try_read_impl env d =
     (if crashed d \<noteq> None then (Return (Ok None), d)
      else case dec_state d of
        WaitingForStreamHeader \<Rightarrow> read_stream_header env d
      | WaitingForMessageHeader \<Rightarrow> read_message_header env d
      | WaitingForMessagePayload header \<Rightarrow> read_message_payload env header d
      | WaitingForStreamFooter \<Rightarrow> read_stream_footer env d
      | Aborted \<Rightarrow> (Return (Ok None), d))"

text \<open>
  \<open>try_read\<close>: messages without application id are dropped and the loop goes on. The tail
  calls inside \<open>try_read_impl\<close> are this same loop. Not returning would be the value \<open>None\<close>.
\<close>

partial_function (option) try_read ::
  "('c, 'f, 'm, 'x) env \<Rightarrow> ('c, 'f) Decoder \<Rightarrow> (('m, 'x) outcome \<times> ('c, 'f) Decoder) option"
where
  "try_read env d =
     (case try_read_impl env d of
        (Again, d') \<Rightarrow> try_read env d'
      | (Return (Inl StoreIdMissingApplicationId), d') \<Rightarrow> try_read env d'
      | (res, d') \<Rightarrow> Some (res, d'))"

text \<open>The users' loop: read until there is nothing left to read, collecting the results.\<close>

partial_function (option) drain ::
  "('c, 'f, 'm, 'x) env \<Rightarrow> ('c, 'f) Decoder \<Rightarrow> (('m, 'x) outcome list \<times> ('c, 'f) Decoder) option"
where
  "drain env d =
     Option.bind (try_read env d) (\<lambda>(res, d').
       if res = Return (Ok None) then Some ([], d')
       else Option.bind (drain env d') (\<lambda>(rs, d''). Some (res # rs, d'')))"

fun feed ::
  "('c, 'f, 'm, 'x) env \<Rightarrow> u8 list list \<Rightarrow> ('c, 'f) Decoder \<Rightarrow> (('m, 'x) outcome list \<times> ('c, 'f) Decoder) option"
where
  "feed env [] d = Some ([], d)"
| "feed env (c # cs) d =
     Option.bind (drain env (push_byte_chunk c d)) (\<lambda>(rs, d').
     Option.bind (feed env cs d') (\<lambda>(rs', d''). Some (rs @ rs', d'')))"

section \<open>The abstract machine\<close>

text \<open>
  The same machine on one flat list of pending bytes. An event is what a step lets the
  outside see: nothing, a dropped message, a result, or a panic.
\<close>

record ('c, 'f) flat =
  flat_version :: "CrateVersion option"
  flat_options :: EncodingOptions
  flat_bytes :: "u8 list"
  flat_read :: nat
  flat_state :: DecoderState
  flat_cache :: 'c
  flat_manifests :: "'f list"
  flat_crashed :: "panic option"

definition flatten :: "('c, 'f) Decoder \<Rightarrow> ('c, 'f) flat" where
  "flatten d =
     \<lparr>flat_version = dec_version d, flat_options = dec_options d,
      flat_bytes = buffer_pending (byte_chunks d), flat_read = num_read (byte_chunks d),
      flat_state = dec_state d, flat_cache = app_id_cache d, flat_manifests = dlr_manifests d,
      flat_crashed = crashed d\<rparr>"

definition consume :: "nat \<Rightarrow> ('c, 'f) flat \<Rightarrow> ('c, 'f) flat" where
  "consume n a = a\<lparr>flat_bytes := drop n (flat_bytes a), flat_read := flat_read a + n\<rparr>"

definition append_bytes :: "u8 list \<Rightarrow> ('c, 'f) flat \<Rightarrow> ('c, 'f) flat" where
  "append_bytes c a = a\<lparr>flat_bytes := flat_bytes a @ c\<rparr>"

text \<open>How many bytes a state needs before it can take a step.\<close>

fun needed :: "DecoderState \<Rightarrow> nat" where
  "needed WaitingForStreamHeader = 12"
| "needed WaitingForMessageHeader = 16"
| "needed (WaitingForMessagePayload h) = unat (msg_len h)"
| "needed WaitingForStreamFooter = 32"
| "needed Aborted = 0"

definition flat_header :: "('c, 'f, 'm, 'x) env \<Rightarrow> ('c, 'f) flat \<Rightarrow> ('m, 'x) outcome \<times> ('c, 'f) flat" where
  "flat_header env a =
     (case try_bind (header_from_dlr_bytes (take 12 (flat_bytes a))) (to_version_and_options (env_local env)) of
        Inl err \<Rightarrow> if flat_read a = 0 then (Return (Err err), consume 12 a)
                   else (Return (Ok None), (consume 12 a)\<lparr>flat_state := Aborted\<rparr>)
      | Inr (v, opts) \<Rightarrow>
          (Again, (consume 12 a)\<lparr>flat_version := Some v, flat_options := opts,
                                flat_state := WaitingForMessageHeader\<rparr>))"

definition flat_message :: "('c, 'f, 'm, 'x) env \<Rightarrow> ('c, 'f) flat \<Rightarrow> ('m, 'x) outcome \<times> ('c, 'f) flat" where
  "flat_message env a =
     (case (msg_from_dlr_bytes (take 16 (flat_bytes a)) :: ('x codec_error, MessageHeader) result) of
        Inl err \<Rightarrow> (Again, a\<lparr>flat_state := WaitingForStreamHeader\<rparr>)
      | Inr header \<Rightarrow> (Again, (consume 16 a)\<lparr>flat_state := WaitingForMessagePayload header\<rparr>))"

definition flat_payload ::
  "('c, 'f, 'm, 'x) env \<Rightarrow> MessageHeader \<Rightarrow> ('c, 'f) flat \<Rightarrow> ('m, 'x) outcome \<times> ('c, 'f) flat"
where
  "flat_payload env header a =
     (let n = unat (msg_len header);
          bytes = take n (flat_bytes a);
          (res, cache) = env_decode env bytes (from_start_len (word_of_nat (flat_read a)) (word_of_nat n))
                           (msg_kind header) (flat_cache a) (flat_version a);
          a = (consume n a)\<lparr>flat_cache := cache\<rparr>
      in case res of
           Inl err \<Rightarrow> (Return (Err err), a\<lparr>flat_state := WaitingForMessageHeader\<rparr>)
         | Inr (Some m) \<Rightarrow> (Return (Ok (Some m)), a\<lparr>flat_state := WaitingForMessageHeader\<rparr>)
         | Inr None \<Rightarrow>
             if bytes \<noteq> [] then
               case env_footer env bytes of
                 Inl err \<Rightarrow> (Return (Err err), a)
               | Inr ms \<Rightarrow> (Again, a\<lparr>flat_manifests := flat_manifests a @ ms, flat_state := WaitingForStreamFooter\<rparr>)
             else (Again, a\<lparr>flat_state := WaitingForStreamFooter\<rparr>))"

definition flat_footer :: "('c, 'f, 'm, 'x) env \<Rightarrow> ('c, 'f) flat \<Rightarrow> ('m, 'x) outcome \<times> ('c, 'f) flat" where
  "flat_footer env a =
     (case (footer_from_dlr_bytes (take 32 (flat_bytes a)) :: ('x codec_error, StreamFooter) result option) of
        None \<Rightarrow> (Panic FooterSlice, (consume 32 a)\<lparr>flat_crashed := Some FooterSlice\<rparr>)
      | Some (Inr footer) \<Rightarrow>
          if footer_spans_ok (env_overflow_checks env) footer
          then (Again, (consume 32 a)\<lparr>flat_state := WaitingForStreamHeader\<rparr>)
          else (Panic SpanOverflow, (consume 32 a)\<lparr>flat_crashed := Some SpanOverflow\<rparr>)
      | Some (Inl err) \<Rightarrow> (Return (Ok None), (consume 32 a)\<lparr>flat_state := Aborted\<rparr>))"

definition idle :: "('c, 'f) flat \<Rightarrow> bool" where
  "idle a \<longleftrightarrow> flat_crashed a \<noteq> None \<or> flat_state a = Aborted \<or> length (flat_bytes a) < needed (flat_state a)"

definition flat_step :: "('c, 'f, 'm, 'x) env \<Rightarrow> ('c, 'f) flat \<Rightarrow> ('m, 'x) outcome \<times> ('c, 'f) flat" where
  "flat_step env a =
     (if idle a then (Return (Ok None), a)
      else case flat_state a of
        WaitingForStreamHeader \<Rightarrow> flat_header env a
      | WaitingForMessageHeader \<Rightarrow> flat_message env a
      | WaitingForMessagePayload h \<Rightarrow> flat_payload env h a
      | WaitingForStreamFooter \<Rightarrow> flat_footer env a
      | Aborted \<Rightarrow> (Return (Ok None), a))"

section \<open>Refinement of single steps\<close>

text \<open>
  The invariant behind the assertion in \<open>ByteChunkBuffer::try_read\<close>: an incomplete read is
  always of the size that the current state asks for, and none is under way while the
  decoder waits for a message header, the only state that merely peeks.
\<close>

definition dec_inv :: "('c, 'f) Decoder \<Rightarrow> bool" where
  "dec_inv d \<longleftrightarrow> (crashed d = None \<longrightarrow>
     (case dec_state d of
        Aborted \<Rightarrow> True
      | WaitingForMessageHeader \<Rightarrow> buffer_fill (byte_chunks d) = 0
      | s \<Rightarrow> buffer_ready (needed s) (byte_chunks d)))"

lemma flatten_simps [simp]:
  "flat_version (flatten d) = dec_version d" "flat_options (flatten d) = dec_options d"
  "flat_bytes (flatten d) = buffer_pending (byte_chunks d)" "flat_read (flatten d) = num_read (byte_chunks d)"
  "flat_state (flatten d) = dec_state d" "flat_cache (flatten d) = app_id_cache d"
  "flat_manifests (flatten d) = dlr_manifests d" "flat_crashed (flatten d) = crashed d"
  by (simp_all add: flatten_def)

lemma consume_simps [simp]:
  "flat_bytes (consume n a) = drop n (flat_bytes a)" "flat_read (consume n a) = flat_read a + n"
  "flat_state (consume n a) = flat_state a" "flat_cache (consume n a) = flat_cache a"
  "flat_crashed (consume n a) = flat_crashed a" "flat_version (consume n a) = flat_version a"
  "flat_options (consume n a) = flat_options a" "flat_manifests (consume n a) = flat_manifests a"
  by (simp_all add: consume_def)

lemma ready_fill_0: "buffer_fill b = 0 \<Longrightarrow> buffer_ready n b"
  by (simp add: buffer_ready_def)

text \<open>Reading from the buffer, seen from the flat machine.\<close>

lemma try_read_enough:
  assumes "buffer_ready n (byte_chunks d)" "n \<le> length (buffer_pending (byte_chunks d))"
  obtains b d1 where "buffer_try_read n (byte_chunks d) = Some (Some (take n (buffer_pending (byte_chunks d))), b)"
    "d\<lparr>byte_chunks := b\<rparr> = d1" "flatten d1 = consume n (flatten d)"
    "buffer_fill (byte_chunks d1) = 0" "crashed d1 = crashed d" "dec_state d1 = dec_state d"
    "app_id_cache d1 = app_id_cache d" "dec_version d1 = dec_version d" "dlr_manifests d1 = dlr_manifests d"
  using buffer_try_read_spec [OF assms(1)] assms(2)
  by (fastforce simp: flatten_def consume_def)

lemma try_read_short:
  assumes "buffer_ready n (byte_chunks d)" "length (buffer_pending (byte_chunks d)) < n"
  obtains b d1 where "buffer_try_read n (byte_chunks d) = Some (None, b)"
    "d\<lparr>byte_chunks := b\<rparr> = d1" "flatten d1 = flatten d" "buffer_ready n (byte_chunks d1)"
    "crashed d1 = crashed d" "dec_state d1 = dec_state d"
  using buffer_try_read_spec [OF assms(1)] assms(2)
  by (fastforce simp: flatten_def)

lemma flatten_update:
  "flatten (d\<lparr>dec_state := st\<rparr>) = (flatten d)\<lparr>flat_state := st\<rparr>"
  "flatten (d\<lparr>dec_version := v\<rparr>) = (flatten d)\<lparr>flat_version := v\<rparr>"
  "flatten (d\<lparr>dec_options := ops\<rparr>) = (flatten d)\<lparr>flat_options := ops\<rparr>"
  "flatten (d\<lparr>app_id_cache := cch\<rparr>) = (flatten d)\<lparr>flat_cache := cch\<rparr>"
  "flatten (d\<lparr>dlr_manifests := ms\<rparr>) = (flatten d)\<lparr>flat_manifests := ms\<rparr>"
  "flatten (d\<lparr>crashed := cr\<rparr>) = (flatten d)\<lparr>flat_crashed := cr\<rparr>"
  by (simp_all add: flatten_def)

text \<open>
  Each arm refines the flat step: stated of the pair it returns.
\<close>

definition refines ::
  "('c, 'f, 'm, 'x) env \<Rightarrow> ('c, 'f) Decoder \<Rightarrow> ('m, 'x) outcome \<times> ('c, 'f) Decoder \<Rightarrow> bool"
where
  "refines env d res \<longleftrightarrow> flat_step env (flatten d) = (fst res, flatten (snd res)) \<and> dec_inv (snd res)"

lemma refines_pair [simp]:
  "refines env d (r, d') \<longleftrightarrow> flat_step env (flatten d) = (r, flatten d') \<and> dec_inv d'"
  by (simp add: refines_def)

lemma refine_header:
  assumes inv: "dec_inv d" and st: "crashed d = None" "dec_state d = WaitingForStreamHeader"
  shows "refines env d (read_stream_header env d)"
proof (cases "12 \<le> length (buffer_pending (byte_chunks d))")
  have rd: "buffer_ready 12 (byte_chunks d)" using assms by (simp add: dec_inv_def)
  case True
  obtain b d1 where b: "buffer_try_read 12 (byte_chunks d) = Some (Some (take 12 (buffer_pending (byte_chunks d))), b)"
    and d1: "d\<lparr>byte_chunks := b\<rparr> = d1" "flatten d1 = consume 12 (flatten d)"
      "buffer_fill (byte_chunks d1) = 0" "crashed d1 = crashed d" "dec_state d1 = dec_state d"
      "app_id_cache d1 = app_id_cache d" "dec_version d1 = dec_version d" "dlr_manifests d1 = dlr_manifests d"
    using try_read_enough [OF rd True] by metis
  have step: "flat_step env (flatten d) = flat_header env (flatten d)"
    using st True by (simp add: flat_step_def idle_def)
  show ?thesis
  proof (cases "try_bind (header_from_dlr_bytes (take 12 (buffer_pending (byte_chunks d))))
      (to_version_and_options (env_local env)) :: ('d codec_error, _) result")
    case (Inl e)
    then show ?thesis
      unfolding read_stream_header_def Let_def
      using st d1 by (simp add: b step flat_header_def flatten_update dec_inv_def ready_fill_0)
  next
    case (Inr p)
    obtain v opts where "p = (v, opts)" by (cases p)
    with Inr show ?thesis
      unfolding read_stream_header_def Let_def
      using st d1 by (simp add: b step flat_header_def flatten_update dec_inv_def ready_fill_0)
  qed
next
  have rd: "buffer_ready 12 (byte_chunks d)" using assms by (simp add: dec_inv_def)
  case False
  then obtain b d1 where "buffer_try_read 12 (byte_chunks d) = Some (None, b)"
      "d\<lparr>byte_chunks := b\<rparr> = d1" "flatten d1 = flatten d" "buffer_ready 12 (byte_chunks d1)"
      "crashed d1 = crashed d" "dec_state d1 = dec_state d"
    using try_read_short [OF rd] by (metis not_le)
  then show ?thesis
    using False st by (simp add: read_stream_header_def flat_step_def idle_def Let_def dec_inv_def)
qed

lemma refine_footer:
  assumes inv: "dec_inv d" and st: "crashed d = None" "dec_state d = WaitingForStreamFooter"
  shows "refines env d (read_stream_footer env d)"
proof (cases "32 \<le> length (buffer_pending (byte_chunks d))")
  have rd: "buffer_ready 32 (byte_chunks d)" using assms by (simp add: dec_inv_def)
  case True
  obtain b d1 where b: "buffer_try_read 32 (byte_chunks d) = Some (Some (take 32 (buffer_pending (byte_chunks d))), b)"
    and d1: "d\<lparr>byte_chunks := b\<rparr> = d1" "flatten d1 = consume 32 (flatten d)"
      "buffer_fill (byte_chunks d1) = 0" "crashed d1 = crashed d" "dec_state d1 = dec_state d"
      "app_id_cache d1 = app_id_cache d" "dec_version d1 = dec_version d" "dlr_manifests d1 = dlr_manifests d"
    using try_read_enough [OF rd True] by metis
  have step: "flat_step env (flatten d) = flat_footer env (flatten d)"
    using st True by (simp add: flat_step_def idle_def)
  show ?thesis
    unfolding read_stream_footer_def Let_def
    using st d1
    by (auto simp: b step flat_footer_def flatten_update dec_inv_def ready_fill_0 crash_def
        split: option.split sum.split)
next
  have rd: "buffer_ready 32 (byte_chunks d)" using assms by (simp add: dec_inv_def)
  case False
  then obtain b d1 where "buffer_try_read 32 (byte_chunks d) = Some (None, b)"
      "d\<lparr>byte_chunks := b\<rparr> = d1" "flatten d1 = flatten d" "buffer_ready 32 (byte_chunks d1)"
      "crashed d1 = crashed d" "dec_state d1 = dec_state d"
    using try_read_short [OF rd] by (metis not_le)
  then show ?thesis
    using False st by (simp add: read_stream_footer_def flat_step_def idle_def Let_def dec_inv_def)
qed

lemma refine_payload:
  assumes inv: "dec_inv d" and st: "crashed d = None" "dec_state d = WaitingForMessagePayload h"
  shows "refines env d (read_message_payload env h d)"
proof (cases "unat (msg_len h) \<le> length (buffer_pending (byte_chunks d))")
  have rd: "buffer_ready (unat (msg_len h)) (byte_chunks d)" using assms by (simp add: dec_inv_def)
  case True
  obtain b d1 where b: "buffer_try_read (unat (msg_len h)) (byte_chunks d) = Some (Some (take (unat (msg_len h)) (buffer_pending (byte_chunks d))), b)"
    and d1: "d\<lparr>byte_chunks := b\<rparr> = d1" "flatten d1 = consume (unat (msg_len h)) (flatten d)"
      "buffer_fill (byte_chunks d1) = 0" "crashed d1 = crashed d" "dec_state d1 = dec_state d"
      "app_id_cache d1 = app_id_cache d" "dec_version d1 = dec_version d" "dlr_manifests d1 = dlr_manifests d"
    using try_read_enough [OF rd True] by metis
  let ?n = "unat (msg_len h)" and ?bytes = "take (unat (msg_len h)) (buffer_pending (byte_chunks d))"
  have len: "length ?bytes = ?n" using True by simp
  have step: "flat_step env (flatten d) = flat_payload env h (flatten d)"
    using st True by (simp add: flat_step_def idle_def)
  obtain res cache where dec: "env_decode env ?bytes (from_start_len (word_of_nat (num_read (byte_chunks d))) (msg_len h))
      (msg_kind h) (app_id_cache d) (dec_version d) = (res, cache)"
    by (cases "env_decode env ?bytes (from_start_len (word_of_nat (num_read (byte_chunks d))) (msg_len h))
      (msg_kind h) (app_id_cache d) (dec_version d)")
  define d2 where "d2 = d1\<lparr>app_id_cache := cache\<rparr>"
  have d2: "d\<lparr>byte_chunks := b, app_id_cache := cache\<rparr> = d2"
    "flatten d2 = (consume ?n (flatten d))\<lparr>flat_cache := cache\<rparr>" "buffer_fill (byte_chunks d2) = 0"
    "crashed d2 = None" "dec_state d2 = WaitingForMessagePayload h" "dlr_manifests d2 = dlr_manifests d"
    using d1 st by (simp_all add: d2_def flatten_update)
  show ?thesis
    unfolding read_message_payload_def flat_payload_def refines_def step Let_def
    by (simp add: b len dec d2 del: length_take take_eq_Nil)
      (auto simp: d2 flatten_update dec_inv_def ready_fill_0 split: sum.split option.split)
next
  have rd: "buffer_ready (unat (msg_len h)) (byte_chunks d)" using assms by (simp add: dec_inv_def)
  case False
  then obtain b d1 where "buffer_try_read (unat (msg_len h)) (byte_chunks d) = Some (None, b)"
      "d\<lparr>byte_chunks := b\<rparr> = d1" "flatten d1 = flatten d" "buffer_ready (unat (msg_len h)) (byte_chunks d1)"
      "crashed d1 = crashed d" "dec_state d1 = dec_state d"
    using try_read_short [OF rd] by (metis not_le)
  then show ?thesis
    using False st by (simp add: read_message_payload_def flat_step_def idle_def Let_def dec_inv_def)
qed

lemma msg_decode_error:
  assumes "length bs = 16" "msg_from_dlr_bytes bs = Err e" shows "\<exists>k. e = FrameDecoding (UnknownKind k)"
  using assms by (auto simp: msg_from_dlr_bytes_def Let_def split: if_splits)

lemma refine_message:
  assumes inv: "dec_inv d" and st: "crashed d = None" "dec_state d = WaitingForMessageHeader"
  shows "refines env d (read_message_header env d)"
proof -
  have f0: "buffer_fill (byte_chunks d) = 0" using assms by (simp add: dec_inv_def)
  note rd = ready_fill_0 [OF f0]
  have peek: "buffer_try_peek 16 (byte_chunks d) = take 16 (buffer_pending (byte_chunks d))"
    by (rule chunk_buffer.peek_pending [OF rd])
  show ?thesis
  proof (cases "16 \<le> length (buffer_pending (byte_chunks d))")
  case True
  obtain b d1 where b: "buffer_try_read 16 (byte_chunks d) = Some (Some (take 16 (buffer_pending (byte_chunks d))), b)"
    and d1: "d\<lparr>byte_chunks := b\<rparr> = d1" "flatten d1 = consume 16 (flatten d)"
      "buffer_fill (byte_chunks d1) = 0" "crashed d1 = crashed d" "dec_state d1 = dec_state d"
      "app_id_cache d1 = app_id_cache d" "dec_version d1 = dec_version d" "dlr_manifests d1 = dlr_manifests d"
    using try_read_enough [OF rd True] by metis
  have step: "flat_step env (flatten d) = flat_message env (flatten d)"
    using st True by (simp add: flat_step_def idle_def)
  show ?thesis
  proof (cases "msg_from_dlr_bytes (take 16 (buffer_pending (byte_chunks d))) :: ('d codec_error, _) result")
    case (Inl e)
    then obtain k where "e = FrameDecoding k" using msg_decode_error [OF _ Inl] True by auto
    then show ?thesis
      unfolding read_message_header_def Let_def
      using Inl st f0 True
      by (simp add: peek step flat_message_def flatten_update dec_inv_def ready_fill_0)
  next
    case (Inr h)
    have "d\<lparr>byte_chunks := b, dec_state := WaitingForMessagePayload h\<rparr> = d1\<lparr>dec_state := WaitingForMessagePayload h\<rparr>"
      using d1(1) by simp
    with Inr show ?thesis
      unfolding read_message_header_def Let_def
      using st d1 True
      by (simp add: peek b step flat_message_def flatten_update dec_inv_def ready_fill_0)
  qed
  next
    case False
    then show ?thesis
      using st f0 by (simp add: read_message_header_def flat_step_def idle_def Let_def peek dec_inv_def)
  qed
qed

lemma step_refines:
  assumes "dec_inv d" "try_read_impl env d = (r, d')"
  shows "flat_step env (flatten d) = (r, flatten d') \<and> dec_inv d'"
proof (cases "crashed d = None \<and> dec_state d \<noteq> Aborted")
  case True
  then have "refines env d (try_read_impl env d)"
    using assms(1) refine_header refine_message refine_payload refine_footer
    by (cases "dec_state d") (simp_all add: try_read_impl_def)
  then show ?thesis using assms(2) by simp
next
  case False
  then show ?thesis
    using assms by (auto simp: try_read_impl_def flat_step_def idle_def split: if_splits)
qed

section \<open>Every step that is not idle makes progress\<close>

fun rank :: "DecoderState \<Rightarrow> nat" where
  "rank (WaitingForMessagePayload h) = 3"
| "rank WaitingForMessageHeader = 2"
| "rank WaitingForStreamFooter = 1"
| "rank WaitingForStreamHeader = 0"
| "rank Aborted = 0"

definition work :: "('c, 'f) flat \<Rightarrow> nat" where
  "work a = 4 * length (flat_bytes a) + rank (flat_state a)"

lemma flat_step_idle: "idle a \<Longrightarrow> flat_step env a = (Return (Ok None), a)"
  by (simp add: flat_step_def)

lemma work_decreases:
  assumes "\<not> idle a" "flat_step env a = (r, a')" shows "work a' < work a"
proof (cases "flat_state a")
  case WaitingForStreamHeader
  then have "12 \<le> length (flat_bytes a)" using assms(1) by (simp add: idle_def)
  with WaitingForStreamHeader show ?thesis
    using assms by (auto simp: flat_step_def flat_header_def work_def split: sum.splits if_splits)
next
  case WaitingForMessageHeader
  then have "16 \<le> length (flat_bytes a)" using assms(1) by (simp add: idle_def)
  with WaitingForMessageHeader show ?thesis
    using assms by (auto simp: flat_step_def flat_message_def work_def split: sum.splits)
next
  case (WaitingForMessagePayload h)
  then have "unat (msg_len h) \<le> length (flat_bytes a)" using assms(1) by (simp add: idle_def)
  with WaitingForMessagePayload show ?thesis
    using assms
    by (auto simp: flat_step_def flat_payload_def work_def Let_def unat_gt_0
        split: sum.splits if_splits option.splits prod.splits)
next
  case WaitingForStreamFooter
  then have "32 \<le> length (flat_bytes a)" using assms(1) by (simp add: idle_def)
  with WaitingForStreamFooter show ?thesis
    using assms by (auto simp: flat_step_def flat_footer_def work_def split: sum.splits if_splits option.splits)
next
  case Aborted
  then show ?thesis using assms by (simp add: idle_def)
qed

text \<open>A result is \<open>silent\<close> when the loop of \<open>try_read\<close> goes on after it.\<close>

definition silent :: "('m, 'x) outcome \<Rightarrow> bool" where
  "silent r \<longleftrightarrow> r = Again \<or> r = Return (Err StoreIdMissingApplicationId)"

lemma silent_simps [simp]:
  "silent Again" "silent (Return (Err StoreIdMissingApplicationId))"
  "\<not> silent (Return (Ok m))" "\<not> silent (Panic p)"
  by (simp_all add: silent_def)

lemma not_idle_unless: "flat_step env a = (r, a') \<Longrightarrow> r \<noteq> Return (Ok None) \<Longrightarrow> \<not> idle a"
  by (auto simp: flat_step_def)

lemma silent_not_idle: "flat_step env a = (r, a') \<Longrightarrow> silent r \<Longrightarrow> \<not> idle a"
  by (auto simp: flat_step_def)

function flat_try_read :: "('c, 'f, 'm, 'x) env \<Rightarrow> ('c, 'f) flat \<Rightarrow> ('m, 'x) outcome \<times> ('c, 'f) flat" where
  "flat_try_read env a =
     (let (r, a') = flat_step env a in if silent r then flat_try_read env a' else (r, a'))"
  by pat_completeness auto

termination
  by (relation "measure (work \<circ> snd)") (simp, metis comp_apply in_measure silent_not_idle snd_conv work_decreases)

declare flat_try_read.simps [simp del]

function flat_drain :: "('c, 'f, 'm, 'x) env \<Rightarrow> ('c, 'f) flat \<Rightarrow> ('m, 'x) outcome list \<times> ('c, 'f) flat" where
  "flat_drain env a =
     (if idle a then ([], a)
      else let (r, a') = flat_step env a; (rs, a'') = flat_drain env a'
           in (if silent r \<or> r = Return (Ok None) then rs else r # rs, a''))"
  by pat_completeness auto

termination
  by (relation "measure (work \<circ> snd)") (auto intro: work_decreases dest: sym)

declare flat_drain.simps [simp del]

lemma flat_drain_idle: "idle a \<Longrightarrow> flat_drain env a = ([], a)"
  by (subst flat_drain.simps) simp

lemma flat_drain_step:
  "\<not> idle a \<Longrightarrow> flat_step env a = (r, a') \<Longrightarrow> flat_drain env a' = (rs, a'') \<Longrightarrow>
   flat_drain env a = (if silent r \<or> r = Return (Ok None) then rs else r # rs, a'')"
  by (subst flat_drain.simps) simp

lemma return_none_idle:
  assumes "flat_step env a = (Return (Ok None), a')" shows "idle a'"
proof (cases "idle a")
  case True
  then show ?thesis using assms by (simp add: flat_step_idle)
next
  case False
  then show ?thesis
    using assms
    by (cases "flat_state a")
      (auto simp: flat_step_def flat_header_def flat_message_def flat_payload_def flat_footer_def idle_def Let_def
        split: sum.splits if_splits option.splits prod.splits)
qed

lemma flat_drain_try_read:
  assumes "flat_try_read env a = (r, a')"
  shows "(r = Return (Ok None) \<longrightarrow> flat_drain env a = ([], a') \<and> idle a') \<and>
         (r \<noteq> Return (Ok None) \<longrightarrow> \<not> silent r \<and> work a' < work a \<and>
            (\<forall>rs b. flat_drain env a' = (rs, b) \<longrightarrow> flat_drain env a = (r # rs, b)))"
  using assms
proof (induction env a arbitrary: r a' rule: flat_try_read.induct)
  case (1 env a)
  obtain r1 a1 where s: "flat_step env a = (r1, a1)" by (cases "flat_step env a")
  show ?case
  proof (cases "silent r1")
    case True
    then have "\<not> idle a" by (rule silent_not_idle [OF s])
    note dec = work_decreases [OF this s] and step = flat_drain_step [OF this s]
    have rec: "flat_try_read env a1 = (r, a')"
      using 1(2) s True by (subst (asm) flat_try_read.simps) simp
    have ih: "(r = Return (Ok None) \<longrightarrow> flat_drain env a1 = ([], a') \<and> idle a') \<and>
         (r \<noteq> Return (Ok None) \<longrightarrow> \<not> silent r \<and> work a' < work a1 \<and>
            (\<forall>rs b. flat_drain env a' = (rs, b) \<longrightarrow> flat_drain env a1 = (r # rs, b)))"
      by (rule 1(1) [OF s [symmetric] refl True rec])
    show ?thesis
    proof (cases "r = Return (Ok None)")
      case none: True
      then show ?thesis using ih step [of "[]" a'] True by simp
    next
      case some: False
      then show ?thesis using ih dec step True by auto
    qed
  next
    case False
    then have "r = r1" "a' = a1"
      using 1(2) s by (subst (asm) flat_try_read.simps, simp)+
    then show ?thesis
      using s False return_none_idle [of env a a1] not_idle_unless [OF s] work_decreases [OF _ s]
        flat_drain_step [OF _ s] flat_drain_idle [of a env] flat_drain_idle [of a1 env] flat_step_idle [of a env]
      by (cases "idle a") auto
  qed
qed

section \<open>Bytes that arrive later\<close>

lemma append_bytes_simps [simp]:
  "flat_bytes (append_bytes c a) = flat_bytes a @ c" "flat_read (append_bytes c a) = flat_read a"
  "flat_state (append_bytes c a) = flat_state a" "flat_cache (append_bytes c a) = flat_cache a"
  "flat_crashed (append_bytes c a) = flat_crashed a" "flat_version (append_bytes c a) = flat_version a"
  "flat_manifests (append_bytes c a) = flat_manifests a"
  by (simp_all add: append_bytes_def)

lemma append_append: "append_bytes c (append_bytes b a) = append_bytes (b @ c) a"
  by (simp add: append_bytes_def)

lemma consume_append: "n \<le> length (flat_bytes a) \<Longrightarrow> consume n (append_bytes c a) = append_bytes c (consume n a)"
  by (simp add: consume_def append_bytes_def)

lemma append_update:
  "append_bytes c (a\<lparr>flat_state := st\<rparr>) = (append_bytes c a)\<lparr>flat_state := st\<rparr>"
  "append_bytes c (a\<lparr>flat_version := v\<rparr>) = (append_bytes c a)\<lparr>flat_version := v\<rparr>"
  "append_bytes c (a\<lparr>flat_options := ops\<rparr>) = (append_bytes c a)\<lparr>flat_options := ops\<rparr>"
  "append_bytes c (a\<lparr>flat_cache := cch\<rparr>) = (append_bytes c a)\<lparr>flat_cache := cch\<rparr>"
  "append_bytes c (a\<lparr>flat_manifests := ms\<rparr>) = (append_bytes c a)\<lparr>flat_manifests := ms\<rparr>"
  "append_bytes c (a\<lparr>flat_crashed := cr\<rparr>) = (append_bytes c a)\<lparr>flat_crashed := cr\<rparr>"
  by (simp_all add: append_bytes_def)

lemma not_idle_append: "\<not> idle a \<Longrightarrow> \<not> idle (append_bytes c a)"
  by (auto simp: idle_def)

lemma flat_step_append:
  assumes "\<not> idle a" "flat_step env a = (r, a')"
  shows "flat_step env (append_bytes c a) = (r, append_bytes c a')"
proof -
  have n: "needed (flat_state a) \<le> length (flat_bytes a)"
    and ni: "\<not> idle (append_bytes c a)" using assms(1) not_idle_append by (auto simp: idle_def)
  show ?thesis
    using assms n ni
    by (cases "flat_state a")
      (auto simp: flat_step_def flat_header_def flat_message_def flat_payload_def flat_footer_def Let_def
        consume_append append_update simp del: take_eq_Nil2 take_eq_Nil
        split: sum.splits if_splits option.splits prod.splits)
qed

lemma flat_drain_append:
  assumes "flat_drain env a = (rs, b)" "flat_drain env (append_bytes c b) = (rs', b')"
  shows "flat_drain env (append_bytes c a) = (rs @ rs', b')"
  using assms
proof (induction env a arbitrary: rs b rule: flat_drain.induct)
  case (1 env a)
  show ?case
  proof (cases "idle a")
    case True
    then show ?thesis using 1(2,3) by (simp add: flat_drain_idle)
  next
    case False
    obtain r a1 where s: "flat_step env a = (r, a1)" by (cases "flat_step env a")
    obtain rs1 b1 where d: "flat_drain env a1 = (rs1, b1)" by (cases "flat_drain env a1")
    have e: "rs = (if silent r \<or> r = Return (Ok None) then rs1 else r # rs1)" "b = b1"
      using 1(2) flat_drain_step [OF False s d] by simp_all
    have "flat_drain env (append_bytes c a1) = (rs1 @ rs', b')"
      using 1(1) [OF False s [symmetric] refl d] 1(3) e by simp
    from flat_drain_step [OF not_idle_append [OF False] flat_step_append [OF False s] this]
    show ?thesis by (simp add: e)
  qed
qed

lemma flat_drain_ends_idle: "flat_drain env a = (rs, b) \<Longrightarrow> idle b"
proof (induction env a arbitrary: rs b rule: flat_drain.induct)
  case (1 env a)
  show ?case
  proof (cases "idle a")
    case True
    then show ?thesis using 1(2) by (simp add: flat_drain_idle)
  next
    case False
    obtain r a1 where s: "flat_step env a = (r, a1)" by (cases "flat_step env a")
    obtain rs1 b1 where d: "flat_drain env a1 = (rs1, b1)" by (cases "flat_drain env a1")
    show ?thesis
      using 1(1) [OF False s [symmetric] refl d] 1(2) flat_drain_step [OF False s d] by simp
  qed
qed

lemma work_append: "work (append_bytes c a) = work a + 4 * length c"
  by (simp add: work_def)

lemma flat_try_read_work: "flat_try_read env a = (r, a') \<Longrightarrow> work a' \<le> work a"
proof (induction env a arbitrary: r a' rule: flat_try_read.induct)
  case (1 env a)
  obtain r1 a1 where s: "flat_step env a = (r1, a1)" by (cases "flat_step env a")
  have le: "work a1 \<le> work a"
    using work_decreases [OF _ s] s by (cases "idle a") (auto simp: flat_step_idle)
  show ?case
  proof (cases "silent r1")
    case True
    then have "flat_try_read env a1 = (r, a')"
      using 1(2) s by (subst (asm) flat_try_read.simps) simp
    then show ?thesis using 1(1) [OF s [symmetric] refl True] le by fastforce
  next
    case False
    then show ?thesis using 1(2) s le by (subst (asm) flat_try_read.simps) simp
  qed
qed

section \<open>The decoder refines the flat machine\<close>

lemma try_read_refines:
  assumes "dec_inv d"
  shows "\<exists>r d'. try_read env d = Some (r, d') \<and> flat_try_read env (flatten d) = (r, flatten d') \<and> dec_inv d'"
  using assms
proof (induction "work (flatten d)" arbitrary: d rule: less_induct)
  case less
  obtain r d1 where s: "try_read_impl env d = (r, d1)" by (cases "try_read_impl env d")
  note ref = step_refines [OF less.prems s]
  show ?case
  proof (cases "silent r")
    case True
    then have "\<not> idle (flatten d)" using ref silent_not_idle by blast
    then have "work (flatten d1) < work (flatten d)" using ref work_decreases by blast
    then obtain r' d' where "try_read env d1 = Some (r', d')" "flat_try_read env (flatten d1) = (r', flatten d')"
        "dec_inv d'"
      using less.hyps ref by blast
    moreover have "try_read env d = try_read env d1"
      using s True by (subst try_read.simps) (auto simp: silent_def)
    moreover have "flat_try_read env (flatten d) = flat_try_read env (flatten d1)"
      using ref True by (subst flat_try_read.simps) simp
    ultimately show ?thesis by auto
  next
    case False
    have "try_read env d = Some (r, d1)"
      using s False by (subst try_read.simps)
        (auto simp: silent_def split: outcome.split sum.split codec_error.split)
    moreover have "flat_try_read env (flatten d) = (r, flatten d1)"
      using ref False by (subst flat_try_read.simps) simp
    ultimately show ?thesis using ref by blast
  qed
qed

lemma drain_refines:
  assumes "dec_inv d"
  shows "\<exists>rs d'. drain env d = Some (rs, d') \<and> flat_drain env (flatten d) = (rs, flatten d') \<and> dec_inv d'"
  using assms
proof (induction "work (flatten d)" arbitrary: d rule: less_induct)
  case less
  obtain r d1 where t: "try_read env d = Some (r, d1)" "flat_try_read env (flatten d) = (r, flatten d1)" "dec_inv d1"
    using try_read_refines [OF less.prems] by blast
  note fd = flat_drain_try_read [OF t(2)]
  show ?case
  proof (cases "r = Return (Ok None)")
    case True
    then show ?thesis using fd t by (subst drain.simps) simp
  next
    case False
    then obtain rs d' where "drain env d1 = Some (rs, d')" "flat_drain env (flatten d1) = (rs, flatten d')" "dec_inv d'"
      using fd less.hyps t(3) by blast
    then show ?thesis using fd t False by (subst drain.simps) simp
  qed
qed

lemma push_refines:
  "flatten (push_byte_chunk c d) = append_bytes c (flatten d)"
  "dec_inv (push_byte_chunk c d) = dec_inv d"
proof -
  show "flatten (push_byte_chunk c d) = append_bytes c (flatten d)"
    by (simp add: push_byte_chunk_def flatten_def append_bytes_def buffer_push_pending) (simp add: push_def)
  show "dec_inv (push_byte_chunk c d) = dec_inv d"
    by (simp add: push_byte_chunk_def dec_inv_def push_def buffer_ready_def split: DecoderState.split)
qed

lemma feed_refines:
  assumes "dec_inv d" "idle (flatten d)"
  shows "\<exists>rs d'. feed env cs d = Some (rs, d') \<and>
           flat_drain env (append_bytes (concat cs) (flatten d)) = (rs, flatten d') \<and> dec_inv d'"
  using assms
proof (induction cs arbitrary: d)
  case Nil
  moreover have "append_bytes [] (flatten d) = flatten d" by (simp add: append_bytes_def)
  ultimately show ?case by (simp add: flat_drain_idle)
next
  case (Cons c cs)
  obtain rs d1 where d: "drain env (push_byte_chunk c d) = Some (rs, d1)"
      "flat_drain env (append_bytes c (flatten d)) = (rs, flatten d1)" "dec_inv d1"
    using drain_refines [of "push_byte_chunk c d" env] Cons.prems(1) by (auto simp: push_refines)
  have "idle (flatten d1)" using flat_drain_ends_idle [OF d(2)] .
  then obtain rs' d' where f: "feed env cs d1 = Some (rs', d')"
      "flat_drain env (append_bytes (concat cs) (flatten d1)) = (rs', flatten d')" "dec_inv d'"
    using Cons.IH d(3) by blast
  have "flat_drain env (append_bytes (concat (c # cs)) (flatten d)) = (rs @ rs', flatten d')"
    using flat_drain_append [OF d(2) f(2)] by (simp add: append_append)
  then show ?case using d f by simp
qed

end
