(* ===== verification/Dlr_Stream.thy ===== *)
theory Dlr_Stream
  imports Dlr_Encoder Dlr_Decoder
begin

text \<open>
  Encoder and decoder together. The transport level message decoder
  (\<open>dl_log_encoding/src/dlr/decoder/mod.rs\<close>) is modelled over the protobuf decoders; then what
  one component writes is exactly what the other reads back, message by message, through any
  cutting into chunks and for concatenated streams.
\<close>

section \<open>Transport messages\<close>

text \<open>
  \<open>DecoderEntrypoint for Msg\<close>: the payload is decoded according to the kind; an end message
  yields \<open>None\<close>. \<open>pd\<close> is the protobuf decoder of each kind.
\<close>

definition transport_decode ::
  "(MessageKind \<Rightarrow> u8 list \<Rightarrow> ('x codec_error, 'p) result) \<Rightarrow>
   u8 list \<Rightarrow> Span \<Rightarrow> MessageKind \<Rightarrow> 'c \<Rightarrow> CrateVersion option \<Rightarrow>
   ('x codec_error, (MessageKind \<times> 'p) option) result \<times> 'c"
where
  "transport_decode pd data span kind cache version =
     (case kind of
        End \<Rightarrow> (Ok None, cache)
      | k \<Rightarrow> (try_bind (pd k data) (\<lambda>p. Ok (Some (k, p))), cache))"

definition transport_env ::
  "CrateVersion \<Rightarrow> (MessageKind \<Rightarrow> u8 list \<Rightarrow> ('x codec_error, 'p) result) \<Rightarrow>
   (u8 list \<Rightarrow> ('x codec_error, 'f list) result) \<Rightarrow> bool \<Rightarrow> ('c, 'f, MessageKind \<times> 'p, 'x) env"
where
  "transport_env local pd pf oc =
     \<lparr>env_local = local, env_decode = transport_decode pd, env_footer = pf, env_overflow_checks = oc\<rparr>"

section \<open>The encoder's output\<close>

lemma encoder_append_writes:
  assumes "\<not> is_finished enc" "enc_write enc = Some w" "footer_state enc = Some fs"
    and "enc_to_transport env (enc_compression enc) m = Ok t"
    and "\<And>span k fs. fst (enc_footer_append env m span k fs) = Ok ()"
  shows "\<exists>n enc' fs'. encoder_append env m enc = (Ok n, enc') \<and> \<not> is_finished enc' \<and>
           enc_write enc' = Some (w @ message_bytes env t) \<and> footer_state enc' = Some fs' \<and>
           enc_compression enc' = enc_compression enc \<and>
           num_written enc' = num_written enc + word_of_nat (length (message_bytes env t))"
proof -
  obtain n span enc1 where w: "write_encodable env t enc = (Inr (n, span), enc1)"
      "enc_write enc1 = Some (w @ message_bytes env t)" "\<not> is_finished enc1"
      "enc_compression enc1 = enc_compression enc"
      "num_written enc1 = num_written enc + word_of_nat (length (message_bytes env t))"
      "footer_state enc1 = footer_state enc"
    using write_encodable_writes [OF assms(1,2), of env t] by auto
  obtain fs' where f: "enc_footer_append env m span (enc_uncompressed env t) fs = (Ok (), fs')"
    using assms(5) [of span "enc_uncompressed env t" fs] by (metis prod.collapse)
  show ?thesis
    using w f assms(3,4) by (simp add: encoder_append_def)
qed

lemma encoder_extend_writes:
  assumes "\<not> is_finished enc" "enc_write enc = Some w" "footer_state enc = Some fs"
    and "\<And>m. m \<in> set ms \<Longrightarrow> enc_to_transport env (enc_compression enc) m = Ok (tr m)"
    and "\<And>m span k fs. m \<in> set ms \<Longrightarrow> fst (enc_footer_append env m span k fs) = Ok ()"
  shows "\<exists>n enc' fs'. encoder_extend env (map Inr ms) s0 enc = (Ok n, enc') \<and> \<not> is_finished enc' \<and>
           enc_write enc' = Some (w @ concat (map (\<lambda>m. message_bytes env (tr m)) ms)) \<and> footer_state enc' = Some fs' \<and>
           num_written enc' = num_written enc + word_of_nat (length (concat (map (\<lambda>m. message_bytes env (tr m)) ms)))"
  using assms
proof (induction ms arbitrary: enc w fs s0)
  case (Cons m ms)
  obtain n enc1 fs1 where e: "encoder_append env m enc = (Ok n, enc1)" "\<not> is_finished enc1"
      "enc_write enc1 = Some (w @ message_bytes env (tr m))" "footer_state enc1 = Some fs1"
      "enc_compression enc1 = enc_compression enc"
      "num_written enc1 = num_written enc + word_of_nat (length (message_bytes env (tr m)))"
    using encoder_append_writes [OF Cons.prems(1-3), of env m "tr m"] Cons.prems(4,5) by auto
  obtain n' enc' fs' where "encoder_extend env (map Inr ms) (s0 + n) enc1 = (Ok n', enc')" "\<not> is_finished enc'"
      "enc_write enc' = Some ((w @ message_bytes env (tr m)) @ concat (map (\<lambda>m. message_bytes env (tr m)) ms))"
      "footer_state enc' = Some fs'"
      "num_written enc' = num_written enc1 + word_of_nat (length (concat (map (\<lambda>m. message_bytes env (tr m)) ms)))"
    using Cons.IH [OF e(2,3,4), of "s0 + n"] Cons.prems(4,5) e(5) by auto
  then show ?case using e by simp
qed simp

definition stream_header_bytes :: "CrateVersion \<Rightarrow> u8 list" where
  "stream_header_bytes v = header_bytes \<lparr>header_fourcc = DLR_FOURCC, header_version = version_to_bytes v,
                                        header_options = PROTOBUF_COMPRESSED\<rparr>"

lemma stream_header_ok [simp]:
  "header_ok \<lparr>header_fourcc = DLR_FOURCC, header_version = version_to_bytes v, header_options = opts\<rparr>"
  by (simp add: header_ok_def version_to_bytes_def)

lemma length_stream_header [simp]: "length (stream_header_bytes v) = 12"
  by (simp add: stream_header_bytes_def header_bytes_def version_to_bytes_def)

lemma encode_stream_writes:
  fixes v :: CrateVersion
  assumes "\<And>m. m \<in> set ms \<Longrightarrow> enc_to_transport env LZ4 m = Ok (tr m)"
    and "\<And>m span k fs. m \<in> set ms \<Longrightarrow> fst (enc_footer_append env m span k fs) = Ok ()"
    and "\<And>fs. \<exists>r. enc_footer_finish env fs = Ok r"
  defines "body \<equiv> stream_header_bytes v @ concat (map (\<lambda>m. message_bytes env (tr m)) ms)"
  shows "\<exists>r. encode_stream env v (map Inr ms) = Ok (body @ end_bytes env r (word_of_nat (length body)))"
proof -
  obtain enc0 where e0: "encoder_new_eager env v PROTOBUF_COMPRESSED [] = Ok enc0" "\<not> is_finished enc0"
      "enc_write enc0 = Some (stream_header_bytes v)" "footer_state enc0 = Some (enc_footer_default env)"
      "num_written enc0 = 12" "enc_compression enc0 = LZ4"
    by (simp add: encoder_new_eager_def header_enc stream_header_bytes_def PROTOBUF_COMPRESSED_def)
      (simp add: header_bytes_def version_to_bytes_def)
  obtain n enc1 fs where e1: "encoder_extend env (map Inr ms) 0 enc0 = (Ok n, enc1)" "\<not> is_finished enc1"
      "enc_write enc1 = Some body" "footer_state enc1 = Some fs"
      "num_written enc1 = 12 + word_of_nat (length (concat (map (\<lambda>m. message_bytes env (tr m)) ms)))"
    using encoder_extend_writes [OF e0(2-4), of ms env tr 0] assms(1,2) e0(5,6) by (auto simp: body_def)
  obtain r where r: "enc_footer_finish env fs = Ok r" using assms(3) by blast
  have n: "num_written enc1 = word_of_nat (length body)"
    by (simp add: e1 body_def)
  show ?thesis
    using e0(1) e1 r
    by (intro exI [of _ r])
      (simp add: encode_stream_def encoder_finish_def finish_impl_writes into_inner_def Let_def n [symmetric])
qed

section \<open>Reading it back\<close>

lemma to_version_ok:
  assumes "\<not> (major v = 0 \<and> minor v < 23 \<and> version_less local v)" "version_to_bytes v \<noteq> [0, 0, 0, 0]"
  shows "\<exists>v'. to_version_and_options local \<lparr>header_fourcc = DLR_FOURCC, header_version = version_to_bytes v,
            header_options = opts\<rparr> = Ok (v', opts)"
proof -
  have "major (version_from_bytes (version_to_bytes v)) = major v"
    "minor (version_from_bytes (version_to_bytes v)) = minor v"
    "version_key (version_from_bytes (version_to_bytes v)) = version_key v"
    by (simp_all add: version_to_bytes_def version_key_def)
  then show ?thesis
    using assms by (simp add: to_version_and_options_def Let_def version_less_def)
qed

lemma drain_silent: "flat_step env a = (Again, a') \<Longrightarrow> flat_drain env a = flat_drain env a'"
  using silent_not_idle [of env a Again a'] flat_drain_step [of a env Again a']
  by (cases "flat_drain env a'") simp

lemma drain_result:
  "flat_step env a = (Return (Ok (Some m)), a') \<Longrightarrow>
   flat_drain env a = (Return (Ok (Some m)) # fst (flat_drain env a'), snd (flat_drain env a'))"
  using not_idle_unless [of env a "Return (Ok (Some m))" a'] flat_drain_step [of a env "Return (Ok (Some m))" a']
  by (cases "flat_drain env a'") simp

lemma drain_header:
  fixes env :: "('c, 'f, 'm, 'x) env"
  assumes "flat_crashed a = None" "flat_state a = WaitingForStreamHeader"
    and "flat_bytes a = stream_header_bytes v @ rest"
    and "\<not> (major v = 0 \<and> minor v < 23 \<and> version_less (env_local env) v)" "version_to_bytes v \<noteq> [0, 0, 0, 0]"
  shows "\<exists>v' opts. flat_drain env a = flat_drain env
     (a\<lparr>flat_bytes := rest, flat_read := flat_read a + 12, flat_version := v', flat_options := opts,
        flat_state := WaitingForMessageHeader\<rparr>)"
proof -
  obtain v' where v': "to_version_and_options (env_local env) \<lparr>header_fourcc = DLR_FOURCC,
      header_version = version_to_bytes v, header_options = PROTOBUF_COMPRESSED\<rparr> =
        (Ok (v', PROTOBUF_COMPRESSED) :: ('x codec_error, _) result)"
    using to_version_ok [OF assms(4,5)] by blast
  have ni: "\<not> idle a" using assms by (simp add: idle_def)
  have h: "header_from_dlr_bytes (stream_header_bytes v) = (Ok \<lparr>header_fourcc = DLR_FOURCC,
      header_version = version_to_bytes v, header_options = PROTOBUF_COMPRESSED\<rparr> :: ('x codec_error, _) result)"
    unfolding stream_header_bytes_def by (rule header_dec) simp
  have "flat_step env a = (Again, (consume 12 a)\<lparr>flat_version := Some v', flat_options := PROTOBUF_COMPRESSED,
      flat_state := WaitingForMessageHeader\<rparr>)"
    using ni assms(2,3) h v' by (simp add: flat_step_def flat_header_def)
  from drain_silent [OF this] show ?thesis
    by (intro exI [of _ "Some v'"] exI [of _ PROTOBUF_COMPRESSED]) (simp add: consume_def assms(3))
qed

lemma drain_message_header:
  assumes "flat_crashed a = None" "flat_state a = WaitingForMessageHeader"
    and "flat_bytes a = msg_bytes h @ rest"
  shows "flat_drain env a = flat_drain env
     (a\<lparr>flat_bytes := rest, flat_read := flat_read a + 16, flat_state := WaitingForMessagePayload h\<rparr>)"
proof -
  have "flat_step env a = (Again, (consume 16 a)\<lparr>flat_state := WaitingForMessagePayload h\<rparr>)"
    using assms by (simp add: flat_step_def idle_def flat_message_def msg_dec)
  from drain_silent [OF this] show ?thesis by (simp add: consume_def assms(3))
qed

lemma drain_message:
  assumes "flat_crashed a = None" "flat_state a = WaitingForMessageHeader"
    and "flat_bytes a = message_bytes eenv m @ rest"
    and env: "env = transport_env local pd pf oc"
    and pd: "pd (fst m) (enc_proto eenv (fst m) (snd m)) = Ok (snd m)" "fst m \<noteq> End"
    and len: "length (enc_proto eenv (fst m) (snd m)) < 2 ^ 64"
  shows "\<exists>a'. flat_drain env a = (Return (Ok (Some m)) # fst (flat_drain env a'), snd (flat_drain env a')) \<and>
           a' = a\<lparr>flat_bytes := rest, flat_read := flat_read a + length (message_bytes eenv m)\<rparr>"
proof -
  let ?p = "enc_proto eenv (fst m) (snd m)"
  let ?h = "\<lparr>msg_kind = fst m, msg_len = word_of_nat (length ?p)\<rparr> :: MessageHeader"
  let ?a1 = "a\<lparr>flat_bytes := ?p @ rest, flat_read := flat_read a + 16, flat_state := WaitingForMessagePayload ?h\<rparr>"
  have n: "unat (word_of_nat (length ?p) :: u64) = length ?p" using len by (simp add: unat_of_nat)
  have "flat_drain env a = flat_drain env ?a1"
    using assms(1-3) by (intro drain_message_header) (simp_all add: message_bytes_def Let_def)
  moreover have "flat_step env ?a1 = (Return (Ok (Some m)), (consume (length ?p) ?a1)\<lparr>flat_state := WaitingForMessageHeader\<rparr>)"
    using assms(1) pd n
    by (cases "fst m") (simp_all add: flat_step_def idle_def flat_payload_def env transport_env_def transport_decode_def
        Let_def, simp_all add: prod_eq_iff)
  moreover have "(consume (length ?p) ?a1)\<lparr>flat_state := WaitingForMessageHeader\<rparr> =
      a\<lparr>flat_bytes := rest, flat_read := flat_read a + length (message_bytes eenv m)\<rparr>"
    using assms(2) by (simp add: consume_def message_bytes_def Let_def)
  ultimately show ?thesis using drain_result [of env ?a1 m] by simp
qed

lemma drain_messages:
  assumes "flat_crashed a = None" "flat_state a = WaitingForMessageHeader"
    and "flat_bytes a = concat (map (message_bytes eenv) ms) @ rest"
    and env: "env = transport_env local pd pf oc"
    and pd: "\<And>m. m \<in> set ms \<Longrightarrow> pd (fst m) (enc_proto eenv (fst m) (snd m)) = Ok (snd m) \<and> fst m \<noteq> End \<and>
                length (enc_proto eenv (fst m) (snd m)) < 2 ^ 64"
  shows "\<exists>k. let a' = a\<lparr>flat_bytes := rest, flat_read := flat_read a + k\<rparr> in
           flat_drain env a = (map (\<lambda>m. Return (Ok (Some m))) ms @ fst (flat_drain env a'), snd (flat_drain env a'))"
  using assms(1-3) pd
proof (induction ms arbitrary: a)
  case Nil
  then have "a\<lparr>flat_bytes := rest, flat_read := flat_read a + 0\<rparr> = a" by simp
  then show ?case unfolding Let_def by (intro exI [of _ 0]) simp
next
  case (Cons m ms)
  let ?r = "concat (map (message_bytes eenv) ms) @ rest"
  define a1 where "a1 = a\<lparr>flat_bytes := ?r, flat_read := flat_read a + length (message_bytes eenv m)\<rparr>"
  have m: "flat_drain env a = (Return (Ok (Some m)) # fst (flat_drain env a1), snd (flat_drain env a1))"
    using drain_message [OF Cons.prems(1,2) _ env, of eenv m ?r] Cons.prems(3,4) by (auto simp: a1_def)
  obtain k where "let a' = a1\<lparr>flat_bytes := rest, flat_read := flat_read a1 + k\<rparr> in
      flat_drain env a1 = (map (\<lambda>m. Return (Ok (Some m))) ms @ fst (flat_drain env a'), snd (flat_drain env a'))"
    using Cons.IH [of a1] Cons.prems by (auto simp: a1_def)
  moreover have "a1\<lparr>flat_bytes := rest, flat_read := flat_read a1 + k\<rparr> =
      a\<lparr>flat_bytes := rest, flat_read := flat_read a + (length (message_bytes eenv m) + k)\<rparr>"
    by (simp add: a1_def add.assoc)
  ultimately show ?case
    unfolding Let_def by (intro exI [of _ "length (message_bytes eenv m) + k"]) (simp add: m)
qed

lemma drain_footer:
  assumes "flat_crashed a = None" "flat_state a = WaitingForStreamFooter"
    and "flat_bytes a = footer_bytes f @ rest" "footer_ok f" "footer_spans_ok (env_overflow_checks env) f"
  shows "flat_drain env a = flat_drain env
     (a\<lparr>flat_bytes := rest, flat_read := flat_read a + 32, flat_state := WaitingForStreamHeader\<rparr>)"
proof -
  have len: "length (footer_bytes f) = 32"
    using footer_enc [OF assms(4), of "[]"] footer_codec.enc_total [OF assms(4)] by fastforce
  then have "flat_step env a = (Again, (consume 32 a)\<lparr>flat_state := WaitingForStreamHeader\<rparr>)"
    using assms by (simp add: flat_step_def idle_def flat_footer_def footer_dec)
  from drain_silent [OF this] show ?thesis using len by (simp add: consume_def assms(3))
qed

lemma drain_end:
  assumes "flat_crashed a = None" "flat_state a = WaitingForMessageHeader"
    and "flat_bytes a = end_bytes eenv r k @ rest"
    and env: "env = transport_env local pd pf oc"
    and pf: "pf (enc_footer_proto eenv r) = Ok ms"
    and len: "unat k + 16 + length (enc_footer_proto eenv r) < 2 ^ 64"
  shows "\<exists>n. flat_drain env a = flat_drain env
     (a\<lparr>flat_bytes := rest, flat_read := flat_read a + 16 + n, flat_state := WaitingForStreamHeader,
        flat_manifests := flat_manifests a @ (if enc_footer_proto eenv r = [] then [] else ms)\<rparr>)"
proof -
  let ?p = "enc_footer_proto eenv r"
  let ?h = "\<lparr>msg_kind = End, msg_len = word_of_nat (length ?p)\<rparr> :: MessageHeader"
  let ?f = "from_dlr_footer_bytes (enc_xxh32 eenv) (k + 16) ?p"
  let ?a1 = "a\<lparr>flat_bytes := ?p @ footer_bytes ?f @ rest, flat_read := flat_read a + 16,
               flat_state := WaitingForMessagePayload ?h\<rparr>"
  let ?a2 = "?a1\<lparr>flat_bytes := footer_bytes ?f @ rest, flat_read := flat_read a + 16 + length ?p,
               flat_state := WaitingForStreamFooter,
               flat_manifests := flat_manifests a @ (if ?p = [] then [] else ms)\<rparr>"
  have n: "unat (word_of_nat (length ?p) :: u64) = length ?p" using len by (simp add: unat_of_nat)
  have "flat_drain env a = flat_drain env ?a1"
    using assms(1-3) by (intro drain_message_header) (simp_all add: end_bytes_def Let_def)
  also have "flat_step env ?a1 = (Again, ?a2)"
    using assms(1) pf n
    by (simp add: flat_step_def idle_def flat_payload_def env transport_env_def transport_decode_def Let_def consume_def)
  then have "flat_drain env ?a1 = flat_drain env ?a2" by (rule drain_silent)
  also have "unat (k + 16) = unat k + 16" using len by (simp add: unat_word_ariths)
  then have so: "footer_spans_ok (env_overflow_checks env) ?f"
    using unat_checked_add [of "k + 16" "word_of_nat (length ?p)" oc] len n
    by (auto simp: footer_spans_ok_def from_dlr_footer_bytes_def footer_new_def from_start_len_def span_end_def
        env transport_env_def)
  have "flat_drain env ?a2 = flat_drain env
     (?a2\<lparr>flat_bytes := rest, flat_read := flat_read ?a2 + 32, flat_state := WaitingForStreamHeader\<rparr>)"
    using assms(1) so by (intro drain_footer) simp_all
  also have "?a2\<lparr>flat_bytes := rest, flat_read := flat_read ?a2 + 32, flat_state := WaitingForStreamHeader\<rparr> =
     a\<lparr>flat_bytes := rest, flat_read := flat_read a + 16 + (length ?p + 32), flat_state := WaitingForStreamHeader,
        flat_manifests := flat_manifests a @ (if ?p = [] then [] else ms)\<rparr>"
    by (simp add: add.assoc)
  finally show ?thesis by blast
qed

section \<open>Whole streams\<close>

text \<open>
  What the protobuf layer and the footer builder promise for a list of messages: every message
  has a transport form \<open>tr m\<close>, decoding undoes encoding, and the footer can be built.
\<close>

definition transport_laws ::
  "('l, 'p, 's, 'r, 'e) enc_env \<Rightarrow> (MessageKind \<Rightarrow> u8 list \<Rightarrow> ('x codec_error, 'p) result) \<Rightarrow>
   (u8 list \<Rightarrow> ('x codec_error, 'f list) result) \<Rightarrow> ('l \<Rightarrow> MessageKind \<times> 'p) \<Rightarrow> 'l list \<Rightarrow> bool"
where
  "transport_laws eenv pd pf tr ms \<longleftrightarrow>
     (\<forall>m \<in> set ms. enc_to_transport eenv LZ4 m = Ok (tr m) \<and> fst (tr m) \<noteq> End \<and>
        (\<forall>span k fs. fst (enc_footer_append eenv m span k fs) = Ok ()) \<and>
        pd (fst (tr m)) (enc_proto eenv (fst (tr m)) (snd (tr m))) = Ok (snd (tr m))) \<and>
     (\<forall>fs. \<exists>r. enc_footer_finish eenv fs = Ok r) \<and> (\<forall>r. \<exists>mf. pf (enc_footer_proto eenv r) = Ok mf)"

lemma length_message_bytes: "length (message_bytes eenv m) = 16 + length (enc_proto eenv (fst m) (snd m))"
  by (simp add: message_bytes_def Let_def)

lemma member_length: "x \<in> set xs \<Longrightarrow> length (f x) \<le> length (concat (map f xs))"
  by (induction xs) auto

lemma drain_stream:
  assumes "flat_crashed a = None" "flat_state a = WaitingForStreamHeader"
    and laws: "transport_laws eenv pd pf tr ms" and env: "env = transport_env local pd pf oc"
    and v: "version_to_bytes local \<noteq> [0, 0, 0, 0]"
    and bs: "encode_stream eenv local (map Inr ms) = Ok bs" "length bs < 2 ^ 64"
    and a: "flat_bytes a = bs @ rest"
  shows "\<exists>a'. flat_drain env a = (map (\<lambda>m. Return (Ok (Some (tr m)))) ms @ fst (flat_drain env a'), snd (flat_drain env a')) \<and>
           flat_crashed a' = None \<and> flat_state a' = WaitingForStreamHeader \<and> flat_bytes a' = rest"
proof -
  let ?msgs = "concat (map (\<lambda>m. message_bytes eenv (tr m)) ms)"
  let ?body = "stream_header_bytes local @ ?msgs"
  obtain r where r: "bs = ?body @ end_bytes eenv r (word_of_nat (length ?body))"
    using encode_stream_writes [of ms eenv tr local] laws bs(1) by (auto simp: transport_laws_def)
  obtain mf where mf: "pf (enc_footer_proto eenv r) = Ok mf" using laws unfolding transport_laws_def by blast
  have lb: "length ?body + (16 + length (enc_footer_proto eenv r)) \<le> length bs"
    by (simp add: r end_bytes_def Let_def)
  have short: "length (enc_proto eenv (fst (tr m)) (snd (tr m))) < 2 ^ 64" if "m \<in> set ms" for m
    using member_length [OF that, of "\<lambda>m. message_bytes eenv (tr m)"] lb bs(2)
    by (simp add: length_message_bytes)
  define e where "e = end_bytes eenv r (word_of_nat (length ?body))"
  obtain v' opts where h: "flat_drain env a = flat_drain env (a\<lparr>flat_bytes := ?msgs @ e @ rest,
      flat_read := flat_read a + 12, flat_version := v', flat_options := opts, flat_state := WaitingForMessageHeader\<rparr>)"
    using drain_header [OF assms(1,2), of local "?msgs @ e @ rest" env] v a
    by (auto simp: env transport_env_def version_less_def r e_def)
  define a1 where "a1 = a\<lparr>flat_bytes := ?msgs @ e @ rest,
      flat_read := flat_read a + 12, flat_version := v', flat_options := opts, flat_state := WaitingForMessageHeader\<rparr>"
  have a1: "flat_crashed a1 = None" "flat_state a1 = WaitingForMessageHeader"
    "flat_bytes a1 = concat (map (message_bytes eenv) (map tr ms)) @ e @ rest"
    using assms(1) by (simp_all add: a1_def comp_def)
  have pdl: "pd (fst m) (enc_proto eenv (fst m) (snd m)) = Ok (snd m) \<and> fst m \<noteq> End \<and>
      length (enc_proto eenv (fst m) (snd m)) < 2 ^ 64" if "m \<in> set (map tr ms)" for m
    using that laws short unfolding transport_laws_def by auto
  obtain k where k: "let a' = a1\<lparr>flat_bytes := e @ rest, flat_read := flat_read a1 + k\<rparr> in
      flat_drain env a1 = (map (\<lambda>m. Return (Ok (Some m))) (map tr ms) @ fst (flat_drain env a'), snd (flat_drain env a'))"
    using drain_messages [OF a1 env pdl] by blast
  define a2 where "a2 = a1\<lparr>flat_bytes := e @ rest, flat_read := flat_read a1 + k\<rparr>"
  have a2: "flat_crashed a2 = None" "flat_state a2 = WaitingForMessageHeader"
    "flat_bytes a2 = end_bytes eenv r (word_of_nat (length ?body)) @ rest"
    using assms(1) by (simp_all add: a2_def a1_def e_def)
  have "unat (word_of_nat (length ?body) :: u64) + 16 + length (enc_footer_proto eenv r) < 2 ^ 64"
    using lb bs(2) by (simp add: unat_of_nat del: length_append)
  then obtain n where n: "flat_drain env a2 = flat_drain env
     (a2\<lparr>flat_bytes := rest, flat_read := flat_read a2 + 16 + n, flat_state := WaitingForStreamHeader,
        flat_manifests := flat_manifests a2 @ (if enc_footer_proto eenv r = [] then [] else mf)\<rparr>)"
    using drain_end [OF a2 env mf] by blast
  show ?thesis
    using h k n a2(1) unfolding a1_def [symmetric] a2_def [symmetric] Let_def
    by (intro exI [of _ "a2\<lparr>flat_bytes := rest, flat_read := flat_read a2 + 16 + n, flat_state := WaitingForStreamHeader,
        flat_manifests := flat_manifests a2 @ (if enc_footer_proto eenv r = [] then [] else mf)\<rparr>"])
      (simp add: comp_def)
qed

lemma drain_streams:
  assumes "flat_crashed a = None" "flat_state a = WaitingForStreamHeader"
    and env: "env = transport_env local pd pf oc" and v: "version_to_bytes local \<noteq> [0, 0, 0, 0]"
    and "\<And>ms. ms \<in> set mss \<Longrightarrow> transport_laws eenv pd pf tr ms"
    and "list_all2 (\<lambda>ms bs. encode_stream eenv local (map Inr ms) = Ok bs \<and> length bs < 2 ^ 64) mss bss"
    and "flat_bytes a = concat bss"
  shows "\<exists>a'. flat_drain env a = (map (\<lambda>m. Return (Ok (Some (tr m)))) (concat mss), a') \<and>
           flat_crashed a' = None \<and> flat_state a' = WaitingForStreamHeader \<and> flat_bytes a' = []"
  using assms(1,2,5,6,7)
proof (induction mss arbitrary: bss a)
  case Nil
  then have "idle a" by (simp add: idle_def)
  then show ?case using Nil by (simp add: flat_drain_idle)
next
  case (Cons ms mss)
  then obtain bs bss' where b: "bss = bs # bss'" "encode_stream eenv local (map Inr ms) = Ok bs" "length bs < 2 ^ 64"
      "list_all2 (\<lambda>ms bs. encode_stream eenv local (map Inr ms) = Ok bs \<and> length bs < 2 ^ 64) mss bss'"
    by (auto simp: list_all2_Cons1)
  have laws: "transport_laws eenv pd pf tr ms" and bytes: "flat_bytes a = bs @ concat bss'"
    using Cons.prems(3,5) b(1) by simp_all
  obtain a' where a': "flat_drain env a = (map (\<lambda>m. Return (Ok (Some (tr m)))) ms @ fst (flat_drain env a'), snd (flat_drain env a'))"
      "flat_crashed a' = None" "flat_state a' = WaitingForStreamHeader" "flat_bytes a' = concat bss'"
    using drain_stream [OF Cons.prems(1,2) laws env v b(2,3) bytes] by blast
  obtain a'' where "flat_drain env a' = (map (\<lambda>m. Return (Ok (Some (tr m)))) (concat mss), a'')"
      "flat_crashed a'' = None" "flat_state a'' = WaitingForStreamHeader" "flat_bytes a'' = []"
    using Cons.IH [OF a'(2,3) _ b(4) a'(4)] Cons.prems(3) by auto
  then show ?case using a'(1) by simp
qed

lemma decoder_new_inv: "dec_inv (decoder_new c)" "idle (flatten (decoder_new c))"
  by (simp_all add: dec_inv_def decoder_new_def buffer_ready_def buffer_new_def idle_def buffer_pending_def)

section \<open>The decoding iterator\<close>

text \<open>
  \<open>DecoderIterator::next\<close>. The reader is the list of the non-empty slices that \<open>fill_buf\<close> will
  return, the empty list being the end of file; interrupted and failing reads are left out.
  The item is what \<open>next\<close> returns (\<open>None\<close> at the end), or the panic that leaves it.
\<close>

fun iterator_loop ::
  "('c, 'f, 'm, 'x) env \<Rightarrow> ('c, 'f) Decoder \<Rightarrow> u8 list list \<Rightarrow>
   (('m, 'x) outcome option \<times> ('c, 'f) Decoder \<times> u8 list list) option"
where
  "iterator_loop env d reader =
     Option.bind (try_read env d) (\<lambda>(res, d').
       if res \<noteq> Return (Ok None) then Some (Some res, d', reader)
       else case reader of
              [] \<Rightarrow> Option.bind (try_read env d') (\<lambda>(res, d'').
                      Some (if res \<noteq> Return (Ok None) then Some res else None, d'', []))
            | buf # rest \<Rightarrow> iterator_loop env (push_byte_chunk buf d') rest)"

record ('c, 'f, 'm) DecoderIterator =
  it_decoder :: "('c, 'f) Decoder"
  it_reader :: "u8 list list"
  first_msg :: "'m option"

definition decode_lazy :: "'c \<Rightarrow> u8 list list \<Rightarrow> ('c, 'f, 'm) DecoderIterator" where
  "decode_lazy cache reader = \<lparr>it_decoder = decoder_new cache, it_reader = reader, first_msg = None\<rparr>"

definition iterator_next ::
  "('c, 'f, 'm, 'x) env \<Rightarrow> ('c, 'f, 'm) DecoderIterator \<Rightarrow>
   (('m, 'x) outcome option \<times> ('c, 'f, 'm) DecoderIterator) option"
where
  "iterator_next env it =
     (case first_msg it of
        Some m \<Rightarrow> Some (Some (Return (Ok (Some m))), it\<lparr>first_msg := None\<rparr>)
      | None \<Rightarrow> map_option (\<lambda>(item, d, reader). (item, it\<lparr>it_decoder := d, it_reader := reader\<rparr>))
                  (iterator_loop env (it_decoder it) (it_reader it)))"

text \<open>Iterating until \<open>None\<close>.\<close>

partial_function (option) iterator_collect ::
  "('c, 'f, 'm, 'x) env \<Rightarrow> ('c, 'f, 'm) DecoderIterator \<Rightarrow> ('m, 'x) outcome list option"
where
  "iterator_collect env it =
     Option.bind (iterator_next env it) (\<lambda>(item, it').
       case item of
         None \<Rightarrow> Some []
       | Some r \<Rightarrow> Option.bind (iterator_collect env it') (\<lambda>rs. Some (r # rs)))"

declare iterator_loop.simps [simp del]

lemma iterator_loop_spec:
  assumes "dec_inv d"
  shows "\<exists>item d' reader'. iterator_loop env d reader = Some (item, d', reader') \<and> dec_inv d' \<and>
    (case flat_drain env (append_bytes (concat reader) (flatten d)) of
       ([], b) \<Rightarrow> item = None
     | (r # rs, b) \<Rightarrow> item = Some r \<and>
         flat_drain env (append_bytes (concat reader') (flatten d')) = (rs, b) \<and>
         work (append_bytes (concat reader') (flatten d')) < work (append_bytes (concat reader) (flatten d)))"
  using assms
proof (induction reader arbitrary: d)
  case Nil
  have nil: "append_bytes [] a = a" for a :: "('a, 'b) flat" by (simp add: append_bytes_def)
  obtain r d1 where t: "try_read env d = Some (r, d1)" "flat_try_read env (flatten d) = (r, flatten d1)" "dec_inv d1"
    using try_read_refines [OF Nil] by blast
  note fd = flat_drain_try_read [OF t(2)]
  show ?case
  proof (cases "r = Return (Ok None)")
    case True
    then have idle: "idle (flatten d1)" "flat_drain env (flatten d) = ([], flatten d1)" using fd by auto
    obtain r2 d2 where t2: "try_read env d1 = Some (r2, d2)" "flat_try_read env (flatten d1) = (r2, flatten d2)" "dec_inv d2"
      using try_read_refines [OF t(3)] by blast
    have "r2 = Return (Ok None)"
      using flat_drain_try_read [OF t2(2)] flat_drain_idle [OF idle(1), of env]
      by (cases "flat_drain env (flatten d2)") auto
    then show ?thesis
      using t t2 True idle by (subst iterator_loop.simps) (simp add: nil)
  next
    case False
    obtain rs b where "flat_drain env (flatten d1) = (rs, b)" by (cases "flat_drain env (flatten d1)")
    then show ?thesis
      using t False fd by (subst iterator_loop.simps) (simp add: nil)
  qed
next
  case (Cons c cs)
  obtain r d1 where t: "try_read env d = Some (r, d1)" "flat_try_read env (flatten d) = (r, flatten d1)" "dec_inv d1"
    using try_read_refines [OF Cons.prems] by blast
  note fd = flat_drain_try_read [OF t(2)]
  show ?case
  proof (cases "r = Return (Ok None)")
    case True
    then have "flat_drain env (flatten d) = ([], flatten d1)" using fd by simp
    then have eq: "flat_drain env (append_bytes (concat (c # cs)) (flatten d)) =
        flat_drain env (append_bytes (concat cs) (flatten (push_byte_chunk c d1)))"
      using flat_drain_append [of env "flatten d" "[]" "flatten d1" "concat (c # cs)"]
      by (cases "flat_drain env (append_bytes (concat (c # cs)) (flatten d1))") (simp add: push_refines append_append)
    have w: "work (append_bytes (concat cs) (flatten (push_byte_chunk c d1))) \<le> work (append_bytes (concat (c # cs)) (flatten d))"
      using flat_try_read_work [OF t(2)] by (simp add: push_refines append_append work_append)
    have "iterator_loop env d (c # cs) = iterator_loop env (push_byte_chunk c d1) cs"
      using t True by (subst iterator_loop.simps) simp
    then show ?thesis
      using Cons.IH [of "push_byte_chunk c d1"] t(3) eq w
      by (fastforce simp: push_refines(2) split: list.splits prod.splits)
  next
    case False
    obtain rs b where d: "flat_drain env (flatten d1) = (rs, b)" by (cases "flat_drain env (flatten d1)")
    then have dd: "flat_drain env (flatten d) = (r # rs, b)" using fd False by simp
    obtain rs' b' where e: "flat_drain env (append_bytes (concat (c # cs)) b) = (rs', b')"
      by (cases "flat_drain env (append_bytes (concat (c # cs)) b)")
    show ?thesis
      using t False fd flat_drain_append [OF d e] flat_drain_append [OF dd e]
      by (subst iterator_loop.simps) (simp add: work_append)
  qed
qed

lemma iterator_collect_spec:
  assumes "dec_inv (it_decoder it)" "first_msg it = None"
  shows "iterator_collect env it =
     Some (fst (flat_drain env (append_bytes (concat (it_reader it)) (flatten (it_decoder it)))))"
  using assms
proof (induction "work (append_bytes (concat (it_reader it)) (flatten (it_decoder it)))" arbitrary: it rule: less_induct)
  case less
  obtain item d' reader' where l: "iterator_loop env (it_decoder it) (it_reader it) = Some (item, d', reader')" "dec_inv d'"
    and c: "case flat_drain env (append_bytes (concat (it_reader it)) (flatten (it_decoder it))) of
       ([], b) \<Rightarrow> item = None
     | (r # rs, b) \<Rightarrow> item = Some r \<and>
         flat_drain env (append_bytes (concat reader') (flatten d')) = (rs, b) \<and>
         work (append_bytes (concat reader') (flatten d')) < work (append_bytes (concat (it_reader it)) (flatten (it_decoder it)))"
    using iterator_loop_spec [OF less.prems(1), of env "it_reader it"] by (elim exE conjE) (rule that)
  let ?it = "it\<lparr>it_decoder := d', it_reader := reader'\<rparr>"
  have n: "iterator_next env it = Some (item, ?it)"
    using l less.prems(2) by (simp add: iterator_next_def)
  obtain rs b where d: "flat_drain env (append_bytes (concat (it_reader it)) (flatten (it_decoder it))) = (rs, b)"
    by (cases "flat_drain env (append_bytes (concat (it_reader it)) (flatten (it_decoder it)))")
  show ?case
  proof (cases rs)
    case Nil
    then show ?thesis using c d n by (subst iterator_collect.simps) simp
  next
    case (Cons r rs')
    then have "iterator_collect env ?it = Some rs'"
      using less.hyps [of ?it] c d l(2) less.prems(2) by simp
    then show ?thesis using Cons c d n by (subst iterator_collect.simps) simp
  qed
qed

section \<open>Properties\<close>

text \<open>
  C1. Encode, cut, concatenate, decode: any number of recordings written by the encoder,
  concatenated and handed to the decoder in any chunks whatsoever, decode to exactly the
  messages of all recordings in order, without an error, a panic or a dropped message, and
  the decoder ends ready for another stream.
\<close>

theorem encode_decode_round_trip:
  fixes c :: 'c and pf :: "u8 list \<Rightarrow> ('x codec_error, 'f list) result"
  assumes "version_to_bytes local \<noteq> [0, 0, 0, 0]"
    and "\<And>ms. ms \<in> set mss \<Longrightarrow> transport_laws eenv pd pf tr ms"
    and "list_all2 (\<lambda>ms bs. encode_stream eenv local (map Inr ms) = Ok bs \<and> length bs < 2 ^ 64) mss bss"
    and "concat cs = concat bss"
  shows "\<exists>d. feed (transport_env local pd pf oc) cs (decoder_new c) =
               Some (map (\<lambda>m. Return (Ok (Some (tr m)))) (concat mss), d) \<and>
             dec_state d = WaitingForStreamHeader \<and> crashed d = None \<and>
             iterator_collect (transport_env local pd pf oc) (decode_lazy c cs) =
               Some (map (\<lambda>m. Return (Ok (Some (tr m)))) (concat mss))"
proof -
  define env :: "('c, 'f, _, 'x) env" where "env = transport_env local pd pf oc"
  let ?d0 = "decoder_new c :: ('c, 'f) Decoder"
  obtain rs d where f: "feed env cs ?d0 = Some (rs, d)"
      "flat_drain env (append_bytes (concat cs) (flatten ?d0)) = (rs, flatten d)"
    using feed_refines [OF decoder_new_inv, of env cs] by metis
  have "flat_bytes (append_bytes (concat cs) (flatten ?d0)) = concat bss"
    using assms(4) by (simp add: decoder_new_def buffer_new_def buffer_pending_def)
  then obtain a' where "flat_drain env (append_bytes (concat cs) (flatten ?d0)) = (map (\<lambda>m. Return (Ok (Some (tr m)))) (concat mss), a')"
      "flat_crashed a' = None" "flat_state a' = WaitingForStreamHeader"
    using drain_streams [OF _ _ env_def assms(1-3), of "append_bytes (concat cs) (flatten ?d0)"]
    by (auto simp: decoder_new_def)
  moreover from this have "iterator_collect env (decode_lazy c cs) = Some (map (\<lambda>m. Return (Ok (Some (tr m)))) (concat mss))"
    using iterator_collect_spec [of "decode_lazy c cs" env] by (simp add: decode_lazy_def decoder_new_inv)
  ultimately show ?thesis using f unfolding env_def by (intro exI [of _ d]) auto
qed

text \<open>
  A small instance: the payload is its own protobuf encoding.
\<close>

definition identity_env :: "(u8 list, u8 list, unit, unit, unit) enc_env" where
  "identity_env = \<lparr>enc_to_transport = (\<lambda>_ l. Ok (ArrowMsg, l)), enc_proto = (\<lambda>_ p. p), enc_uncompressed = (\<lambda>m. 0),
     enc_footer_default = (), enc_footer_append = (\<lambda>_ _ _ s. (Ok (), s)), enc_footer_finish = (\<lambda>_. Ok ()),
     enc_footer_proto = (\<lambda>_. []), enc_xxh32 = (\<lambda>_ _. 0)\<rparr>"

theorem encode_decode_round_trip_witness:
  "\<exists>bs. encode_stream identity_env (version_new 0 1 0) (map Inr [[1, 2], [3]]) = Ok bs \<and>
     (\<exists>d. feed (transport_env (version_new 0 1 0) (\<lambda>_. Inr) (\<lambda>_. Ok ([] :: unit list)) True)
             [take 5 bs, drop 5 bs @ bs] (decoder_new ()) =
           Some (map (\<lambda>m. Return (Ok (Some (ArrowMsg, m))) :: (_, unit) outcome) [[1, 2], [3], [1, 2], [3]], d))"
proof -
  let ?v = "version_new 0 1 0" and ?ms = "[[1, 2], [3]] :: u8 list list" and ?tr = "\<lambda>l :: u8 list. (ArrowMsg, l)"
  let ?body = "stream_header_bytes ?v @ concat (map (\<lambda>m. message_bytes identity_env (?tr m)) ?ms)"
  have laws: "transport_laws identity_env (\<lambda>_. Inr :: _ \<Rightarrow> (unit codec_error, _) result) (\<lambda>_. Ok ([] :: unit list)) ?tr ms" for ms
    by (simp add: transport_laws_def identity_env_def)
  obtain r where e: "encode_stream identity_env ?v (map Inr ?ms) = Ok (?body @ end_bytes identity_env r (word_of_nat (length ?body)))"
    using encode_stream_writes [of ?ms identity_env ?tr ?v] laws [of ?ms] unfolding transport_laws_def by blast
  let ?bs = "?body @ end_bytes identity_env r (word_of_nat (length ?body))"
  have "length (footer_bytes (from_dlr_footer_bytes h off p)) = 32" for h off p
    using footer_enc [OF footer_ok_from_bytes, of h off p "[]"] footer_codec.enc_total [OF footer_ok_from_bytes, of h off p]
    by fastforce
  then have "length ?bs = 12 + (18 + 17) + (16 + 32)"
    by (simp add: length_message_bytes end_bytes_def Let_def) (simp add: identity_env_def)
  then have len: "length ?bs < 2 ^ 64" by simp
  have v: "version_to_bytes ?v \<noteq> [0, 0, 0, 0]" by (simp add: version_to_bytes_def version_new_def)
  have la: "list_all2 (\<lambda>ms bs. encode_stream identity_env ?v (map Inr ms) = Ok bs \<and> length bs < 2 ^ 64) [?ms, ?ms] [?bs, ?bs]"
    using e len by simp
  have "concat [take 5 ?bs, drop 5 ?bs @ ?bs] = concat [?bs, ?bs]"
    by (metis append_assoc append_take_drop_id concat.simps append_Nil2)
  from encode_decode_round_trip [OF v laws la this, of True "()"] e
  show ?thesis by (auto simp del: append_assoc)
qed

text \<open>
  C2. Chunk boundaries are invisible and the decoder always returns: however the same bytes
  are cut, feeding and draining a new decoder terminates, yields the same results in the same
  order, and leaves it in the same observable state, for every message decoder.
\<close>

theorem decoder_chunking_independent:
  assumes "concat cs = concat ds"
  shows "\<exists>rs d1 d2. feed env cs (decoder_new c) = Some (rs, d1) \<and> feed env ds (decoder_new c) = Some (rs, d2) \<and>
           flatten d1 = flatten d2"
  using feed_refines [OF decoder_new_inv, of env cs] feed_refines [OF decoder_new_inv, of env ds] assms
  by (metis prod.inject)

theorem decoder_chunking_independent_witness:
  "\<exists>rs d1 d2. feed (transport_env (version_new 0 1 0) (\<lambda>_. Inr) (\<lambda>_. Ok ([] :: unit list)) True)
       [[1, 2, 3], [4]] (decoder_new ()) = Some (rs :: (_, unit) outcome list, d1) \<and>
     feed (transport_env (version_new 0 1 0) (\<lambda>_. Inr) (\<lambda>_. Ok ([] :: unit list)) True)
       [[1], [], [2, 3, 4]] (decoder_new ()) = Some (rs, d2) \<and> flatten d1 = flatten d2"
  by (rule decoder_chunking_independent) simp

text \<open>
  C6. The assertion of \<open>ByteChunkBuffer::try_read\<close> and the \<open>expect\<close> after peeking never fire:
  whatever bytes are fed, in whatever chunks, the only panics a decoder can run into come
  from a corrupt stream footer.
\<close>

theorem decoder_asserts_never_fire:
  "\<exists>rs d. feed env cs (decoder_new c) = Some (rs, d) \<and>
     Panic IncompleteReadAssert \<notin> set rs \<and> Panic PeekThenReadExpect \<notin> set rs"
proof -
  have step: "fst (flat_step env a) \<noteq> Panic IncompleteReadAssert \<and> fst (flat_step env a) \<noteq> Panic PeekThenReadExpect" for a
    by (auto simp: flat_step_def flat_header_def flat_message_def flat_payload_def flat_footer_def Let_def
        split: DecoderState.split sum.split option.split prod.split)
  have drain: "Panic IncompleteReadAssert \<notin> set (fst (flat_drain env a)) \<and> Panic PeekThenReadExpect \<notin> set (fst (flat_drain env a))" for a
  proof (induction "work a" arbitrary: a rule: less_induct)
    case less
    show ?case
    proof (cases "idle a")
      case False
      obtain r a' where s: "flat_step env a = (r, a')" by (cases "flat_step env a")
      obtain rs b where d: "flat_drain env a' = (rs, b)" by (cases "flat_drain env a'")
      show ?thesis
        using less [OF work_decreases [OF False s]] step [of a] s d flat_drain_step [OF False s d] by auto
    qed (simp add: flat_drain_idle)
  qed
  show ?thesis
    using feed_refines [OF decoder_new_inv, of env cs] drain by (metis fst_conv)
qed

end
