(* ===== verification/Non_Min.thy ===== *)
theory Non_Min
  imports Prelude
begin

text \<open>
  \<open>NonMinI64\<close> (\<open>src/crates/store/dl_log_types/src/index/non_min_i64.rs\<close>): an \<open>i64\<close> that is not
  \<open>i64::MIN\<close>, stored as a \<open>NonZeroI64\<close> that holds the value with its sign bit flipped. The
  theory models the encoding bit by bit and shows that \<open>new\<close>/\<open>get\<close> are inverse, that the
  order is the one of the values, and where the arithmetic keeps the invariant.
\<close>

section \<open>The representation\<close>

definition xor_i64 :: "i64 \<Rightarrow> i64 \<Rightarrow> i64" where
  "xor_i64 a b = I64 (i64_bits a XOR i64_bits b)"

definition and_i64 :: "i64 \<Rightarrow> i64 \<Rightarrow> i64" where
  "and_i64 a b = I64 (i64_bits a AND i64_bits b)"

lemma xor_i64_cancel [simp]: "xor_i64 (xor_i64 a b) b = a"
  by (cases a) (simp add: xor_i64_def ac_simps)

lemma xor_i64_eq_0: "xor_i64 a b = I64 0 \<longleftrightarrow> a = b"
proof
  assume "xor_i64 a b = I64 0"
  then have "xor_i64 (xor_i64 a b) b = xor_i64 (I64 0) b" by simp
  then have "a = xor_i64 (I64 0) b" by (simp only: xor_i64_cancel)
  then show "a = b" by (cases b) (simp add: xor_i64_def)
qed (cases a; simp add: xor_i64_def)

text \<open>The field is the inner value of the \<open>NonZeroI64\<close>; \<open>nonmin_ok\<close> is its validity invariant.\<close>

datatype NonMinI64 = NonMinI64 (inner: i64)

definition nonmin_ok :: "NonMinI64 \<Rightarrow> bool" where
  "nonmin_ok n \<longleftrightarrow> inner n \<noteq> I64 0"

datatype try_from_int_error = TryFromIntError

definition nm_new_unchecked :: "i64 \<Rightarrow> NonMinI64" where
  "nm_new_unchecked value = NonMinI64 (xor_i64 value i64_MIN)"

definition nm_new :: "i64 \<Rightarrow> NonMinI64 option" where
  "nm_new value = (let x = xor_i64 value i64_MIN in if x = I64 0 then None else Some (NonMinI64 x))"

definition nm_get :: "NonMinI64 \<Rightarrow> i64" where
  "nm_get n = xor_i64 (inner n) i64_MIN"

definition nm_ZERO :: NonMinI64 where "nm_ZERO = nm_new_unchecked (i64_of_int 0)"
definition nm_ONE :: NonMinI64 where "nm_ONE = nm_new_unchecked (i64_of_int 1)"
definition nm_MIN :: NonMinI64 where "nm_MIN = nm_new_unchecked (i64_of_int (i64_min + 1))"
definition nm_MAX :: NonMinI64 where "nm_MAX = nm_new_unchecked i64_MAX"

definition saturating_from_i64 :: "i64 \<Rightarrow> NonMinI64" where
  "saturating_from_i64 value = (case nm_new value of None \<Rightarrow> nm_MIN | Some n \<Rightarrow> n)"

text \<open>\<open>value.min(MAX as u128) as i64\<close>: the minimum fits, so the cast keeps the value.\<close>

definition saturating_from_u128 :: "u128 \<Rightarrow> NonMinI64" where
  "saturating_from_u128 value = nm_new_unchecked (i64_of_int (min (uint value) (ival (nm_get nm_MAX))))"

definition nm_try_from :: "i64 \<Rightarrow> (try_from_int_error, NonMinI64) result" where
  "nm_try_from value = ok_or (nm_new value) TryFromIntError"

text \<open>
  \<open>midpoint\<close> unwraps the result of \<open>new\<close>: \<open>None\<close> stands for that panic.
\<close>

definition nm_midpoint :: "NonMinI64 \<Rightarrow> NonMinI64 \<Rightarrow> NonMinI64 option" where
  "nm_midpoint a b = nm_new (midpoint_i64 (nm_get a) (nm_get b))"

text \<open>
  \<open>Neg\<close> negates the inner \<open>NonZeroI64\<close>. With overflow checks on (debug builds) negating an
  inner \<open>i64::MIN\<close> panics (\<open>None\<close>); without them it wraps.
\<close>

definition nm_neg :: "bool \<Rightarrow> NonMinI64 \<Rightarrow> NonMinI64 option" where
  "nm_neg overflow_checks n =
     (if overflow_checks \<and> inner n = i64_MIN then None
      else Some (NonMinI64 (I64 (- i64_bits (inner n)))))"

definition nm_bitand :: "NonMinI64 \<Rightarrow> NonMinI64 \<Rightarrow> NonMinI64" where
  "nm_bitand a b = nm_new_unchecked (and_i64 (nm_get a) (nm_get b))"

section \<open>The encoding is a bijection away from the minimum\<close>

lemma get_new_unchecked [simp]: "nm_get (nm_new_unchecked v) = v"
  by (simp add: nm_get_def nm_new_unchecked_def)

lemma new_unchecked_get [simp]: "nm_new_unchecked (nm_get n) = n"
  by (simp add: nm_get_def nm_new_unchecked_def)

lemma get_inject [simp]: "nm_get a = nm_get b \<longleftrightarrow> a = b"
  by (metis new_unchecked_get)

lemma nonmin_ok_iff: "nonmin_ok n \<longleftrightarrow> nm_get n \<noteq> i64_MIN"
  by (metis nm_get_def nonmin_ok_def xor_i64_cancel xor_i64_eq_0)

lemma nm_new_alt: "nm_new v = (if v = i64_MIN then None else Some (nm_new_unchecked v))"
  by (simp add: nm_new_def nm_new_unchecked_def xor_i64_eq_0)

lemma new_Some_iff: "nm_new v = Some n \<longleftrightarrow> v \<noteq> i64_MIN \<and> nm_get n = v"
  by (auto simp: nm_new_alt)

lemma new_get: "nonmin_ok n \<Longrightarrow> nm_new (nm_get n) = Some n"
  by (simp add: nm_new_alt nonmin_ok_iff)

lemma nonmin_ok_new: "nm_new v = Some n \<Longrightarrow> nonmin_ok n"
  by (auto simp: nonmin_ok_iff new_Some_iff)

lemma nonmin_lower: "nonmin_ok n \<Longrightarrow> i64_min + 1 \<le> ival (nm_get n)"
  using ival_range [of "nm_get n"] ival_inject [of "nm_get n" i64_MIN]
  by (simp add: nonmin_ok_iff)

lemma nonmin_ok_ival: "nonmin_ok n \<longleftrightarrow> ival (nm_get n) \<noteq> i64_min"
  using ival_inject [of "nm_get n" i64_MIN] by (simp add: nonmin_ok_iff)

lemma get_consts [simp]:
  "nm_get nm_ZERO = i64_of_int 0" "nm_get nm_ONE = i64_of_int 1"
  "nm_get nm_MIN = i64_of_int (i64_min + 1)" "nm_get nm_MAX = i64_MAX"
  by (simp_all add: nm_ZERO_def nm_ONE_def nm_MIN_def nm_MAX_def)

lemma ival_consts [simp]:
  "ival (i64_of_int 0) = 0" "ival (i64_of_int 1) = 1" "ival (i64_of_int (i64_min + 1)) = i64_min + 1"
  by (simp_all add: ival_of_int in_i64_def)

lemma ival_of_int_min1 [simp]: "ival (i64_of_int (- 9223372036854775807)) = - 9223372036854775807"
  by (simp add: ival_of_int in_i64_def)

lemma nonmin_ok_consts [simp]:
  "nonmin_ok nm_ZERO" "nonmin_ok nm_ONE" "nonmin_ok nm_MIN" "nonmin_ok nm_MAX"
  by (simp_all add: nonmin_ok_ival)

instantiation NonMinI64 :: linorder
begin

definition less_eq_NonMinI64 :: "NonMinI64 \<Rightarrow> NonMinI64 \<Rightarrow> bool" where
  "less_eq_NonMinI64 a b \<longleftrightarrow> nm_get a \<le> nm_get b"

definition less_NonMinI64 :: "NonMinI64 \<Rightarrow> NonMinI64 \<Rightarrow> bool" where
  "less_NonMinI64 a b \<longleftrightarrow> nm_get a < nm_get b"

instance
  by standard (auto simp: less_eq_NonMinI64_def less_NonMinI64_def less_le)

end

lemma nm_MIN_le: "nonmin_ok n \<Longrightarrow> nm_MIN \<le> n"
  using nonmin_lower [of n] by (simp add: less_eq_NonMinI64_def less_eq_i64_def)

lemma le_nm_MAX [simp]: "n \<le> nm_MAX"
  by (simp add: less_eq_NonMinI64_def)

section \<open>Operations that keep the invariant\<close>

lemma nonmin_ok_saturating_from_i64 [simp]: "nonmin_ok (saturating_from_i64 v)"
  by (auto simp: saturating_from_i64_def nonmin_ok_new split: option.splits)

lemma ival_saturating_from_i64:
  "ival (nm_get (saturating_from_i64 v)) = max (i64_min + 1) (ival v)"
proof (cases "v = i64_MIN")
  case True
  then show ?thesis by (simp add: saturating_from_i64_def nm_new_alt)
next
  case False
  then have "ival v \<noteq> i64_min" using ival_inject [of v i64_MIN] by simp
  then show ?thesis using False ival_range [of v] by (simp add: saturating_from_i64_def nm_new_alt)
qed

lemma saturating_from_u128_value:
  "ival (nm_get (saturating_from_u128 v)) = min (uint v) i64_max"
proof -
  have "i64_min \<le> uint v" by (rule order_trans [OF _ uint_ge_0]) simp
  then have "in_i64 (min (uint v) i64_max)" by (simp add: in_i64_def min_def)
  then show ?thesis by (simp add: saturating_from_u128_def ival_of_int)
qed

lemma nonmin_ok_saturating_from_u128 [simp]: "nonmin_ok (saturating_from_u128 v)"
proof -
  have "uint v \<noteq> i64_min" using uint_ge_0 [of v] by linarith
  then show ?thesis by (simp add: nonmin_ok_ival saturating_from_u128_value min_def)
qed

lemma nm_midpoint_total:
  assumes "nonmin_ok a" "nonmin_ok b"
  shows "\<exists>m. nm_midpoint a b = Some m \<and> nonmin_ok m \<and> nm_get m = midpoint_i64 (nm_get a) (nm_get b)"
proof -
  have "ival (midpoint_i64 (nm_get a) (nm_get b)) \<noteq> i64_min"
    using nonmin_lower [OF assms(1)] nonmin_lower [OF assms(2)]
    by (auto simp: ival_midpoint_i64)
  then have "midpoint_i64 (nm_get a) (nm_get b) \<noteq> i64_MIN"
    by auto
  then show ?thesis
    by (simp add: nm_midpoint_def nm_new_alt nonmin_ok_iff)
qed

lemma xor_sign_bit: "w XOR 0x8000000000000000 = w + (0x8000000000000000 :: 64 word)"
proof -
  let ?s = "0x8000000000000000 :: 64 word"
  have "?s = push_bit 63 1" by simp
  then have bs: "bit ?s n \<longleftrightarrow> n = 63" for n
    by (simp only: bit_push_bit_iff bit_1_iff) auto
  have disj: "v + ?s = v XOR ?s" if "\<not> bit v 63" for v :: "64 word"
  proof (rule disjunctive_add_eq_xor)
    show "v AND ?s = 0"
    proof (rule bit_word_eqI)
      fix n
      show "bit (v AND ?s) n = bit (0 :: 64 word) n"
        using that by (cases "n = 63") (simp_all only: bit_and_iff bs bit_0_eq bot_apply simp_thms, simp_all)
    qed
  qed
  show ?thesis
  proof (cases "bit w 63")
    case False
    then show ?thesis by (simp add: disj)
  next
    case True
    then have "\<not> bit (w XOR ?s) 63" by (simp add: bit_xor_iff)
    then have "(w XOR ?s) + ?s = (w XOR ?s) XOR ?s" by (rule disj)
    also have "\<dots> = w XOR (?s XOR ?s)" by (rule xor.assoc)
    finally have eq: "(w XOR ?s) + ?s = w" by simp
    have "w XOR ?s = (w XOR ?s) + (?s + ?s)" by simp
    also have "\<dots> = ((w XOR ?s) + ?s) + ?s" by (rule add.assoc [symmetric])
    also have "\<dots> = w + ?s" by (simp only: eq)
    finally show ?thesis .
  qed
qed

lemma get_bits: "i64_bits (nm_get n) = i64_bits (inner n) + 0x8000000000000000"
  by (simp add: nm_get_def xor_i64_def i64_MIN_def xor_sign_bit)

lemma sint_uminus_64: "sint w \<noteq> i64_min \<Longrightarrow> sint (- w) = - sint (w :: 64 word)"
proof -
  assume "sint w \<noteq> i64_min"
  then have "in_i64 (- sint w)" using ival_range [of "I64 w"] by (simp add: in_i64_def ival_def)
  then have "sint (word_of_int (- sint w) :: 64 word) = - sint w"
    using ival_of_int [of "- sint w"] by (simp add: ival_def i64_of_int_def)
  then show ?thesis by simp
qed

lemma neg_value:
  assumes "nonmin_ok n" "nm_neg checks n = Some m"
  shows "nonmin_ok m" and "ival (nm_get m) = - ival (nm_get n)"
proof -
  have m: "m = NonMinI64 (I64 (- i64_bits (inner n)))"
    using assms(2) by (simp add: nm_neg_def split: if_splits)
  then have "i64_bits (nm_get m) = - i64_bits (nm_get n)"
    by (simp add: get_bits)
  then show v: "ival (nm_get m) = - ival (nm_get n)"
    using assms(1) by (simp add: ival_def sint_uminus_64 nonmin_ok_ival)
  show "nonmin_ok m"
    using v ival_range [of "nm_get n"] by (simp add: nonmin_ok_ival)
qed

lemma neg_panics_iff: "nm_neg True n = None \<longleftrightarrow> n = nm_ZERO"
proof -
  have "inner n = i64_MIN \<longleftrightarrow> n = nm_ZERO"
    by (cases n) (simp add: nm_ZERO_def nm_new_unchecked_def xor_i64_def i64_of_int_def i64_MIN_def)
  then show ?thesis by (simp add: nm_neg_def)
qed

end
