(* ===== verification/Time_Int.thy ===== *)
theory Time_Int
  imports Non_Min
begin

text \<open>
  \<open>TimeInt\<close> (\<open>index/time_int.rs\<close>), \<open>AbsoluteTimeRange\<close> (\<open>index/absolute_time_range.rs\<close>), the
  cursor relative boundaries of \<open>dl_types_core\<close> and \<open>Timeline\<close> (\<open>index/timeline.rs\<close>).
  A \<open>TimeInt\<close> is static (\<open>None\<close>) or a non-minimal 64 bit integer; every temporal operation
  saturates inside the temporal range and never produces the static value.
\<close>

section \<open>TimeInt\<close>

datatype TimeInt = TimeInt (time_repr: "NonMinI64 option")

definition STATIC :: TimeInt where "STATIC = TimeInt None"
definition time_MIN :: TimeInt where "time_MIN = TimeInt (Some nm_MIN)"
definition time_MAX :: TimeInt where "time_MAX = TimeInt (Some nm_MAX)"
definition time_ZERO :: TimeInt where "time_ZERO = TimeInt (Some nm_ZERO)"
definition time_ONE :: TimeInt where "time_ONE = TimeInt (Some nm_ONE)"

definition time_ok :: "TimeInt \<Rightarrow> bool" where
  "time_ok t \<longleftrightarrow> (case time_repr t of None \<Rightarrow> True | Some n \<Rightarrow> nonmin_ok n)"

definition is_static :: "TimeInt \<Rightarrow> bool" where
  "is_static t \<longleftrightarrow> t = STATIC"

definition new_temporal :: "i64 \<Rightarrow> TimeInt" where
  "new_temporal time = (case nm_new time of None \<Rightarrow> time_MIN | Some t \<Rightarrow> TimeInt (Some t))"

definition from_nanos :: "NonMinI64 \<Rightarrow> TimeInt" where
  "from_nanos nanos = TimeInt (Some nanos)"

definition from_millis :: "NonMinI64 \<Rightarrow> TimeInt" where
  "from_millis millis = new_temporal (saturating_mul (nm_get millis) (i64_of_int 1000000))"

definition from_sequence :: "NonMinI64 \<Rightarrow> TimeInt" where
  "from_sequence sequence = TimeInt (Some sequence)"

definition saturated_temporal_i64 :: "i64 \<Rightarrow> TimeInt" where
  "saturated_temporal_i64 value = TimeInt (Some (saturating_from_i64 value))"

definition as_i64 :: "TimeInt \<Rightarrow> i64" where
  "as_i64 t = (case time_repr t of Some n \<Rightarrow> nm_get n | None \<Rightarrow> i64_MIN)"

definition inc :: "TimeInt \<Rightarrow> TimeInt" where
  "inc t = (case time_repr t of
      Some n \<Rightarrow> new_temporal (saturating_add (nm_get n) (i64_of_int 1))
    | None \<Rightarrow> t)"

definition dec :: "TimeInt \<Rightarrow> TimeInt" where
  "dec t = (case time_repr t of
      Some n \<Rightarrow> new_temporal (saturating_sub (nm_get n) (i64_of_int 1))
    | None \<Rightarrow> t)"

text \<open>The outer option is the panic of \<open>NonMinI64::midpoint\<close>, which never happens.\<close>

definition time_midpoint :: "TimeInt \<Rightarrow> TimeInt \<Rightarrow> TimeInt option" where
  "time_midpoint a b = (case (time_repr a, time_repr b) of
      (Some l, Some r) \<Rightarrow> map_option (\<lambda>m. TimeInt (Some m)) (nm_midpoint l r)
    | _ \<Rightarrow> Some STATIC)"

text \<open>
  \<open>closest_multiple_of\<close>: \<open>None\<close> is a panic, which the \<open>debug_assert\<close> raises for a non-positive
  interval in debug builds, division by zero raises in every build, and the multiplication
  raises on overflow in debug builds (in release builds it wraps).
\<close>

definition tquot :: "int \<Rightarrow> int \<Rightarrow> int" where
  "tquot a b = sgn a * sgn b * (\<bar>a\<bar> div \<bar>b\<bar>)"

definition div_euclid :: "int \<Rightarrow> int \<Rightarrow> int" where
  "div_euclid a b = (if 0 < b then a div b else - (a div (- b)))"

definition closest_multiple_of :: "bool \<Rightarrow> TimeInt \<Rightarrow> i64 \<Rightarrow> TimeInt option" where
  "closest_multiple_of debug t snap_interval =
     (if debug \<and> \<not> 1 \<le> ival snap_interval then None
      else case time_repr t of
        None \<Rightarrow> Some STATIC
      | Some n \<Rightarrow>
         (let s = ival snap_interval;
              v = ival (saturating_add (nm_get n) (i64_of_int (tquot s 2)));
              q = div_euclid v s;
              snapped = q * s
          in if s = 0 \<or> \<not> in_i64 q then None
             else if debug \<and> \<not> in_i64 snapped then None
             else Some (new_temporal (i64_of_int snapped))))"

definition time_saturating_sub :: "TimeInt \<Rightarrow> i64 \<Rightarrow> TimeInt" where
  "time_saturating_sub t arg = (case time_repr t of
      Some n \<Rightarrow> new_temporal (saturating_sub (nm_get n) arg)
    | None \<Rightarrow> STATIC)"

definition time_try_from :: "i64 \<Rightarrow> (try_from_int_error, TimeInt) result" where
  "time_try_from t = (case nm_new t of None \<Rightarrow> Err TryFromIntError | Some n \<Rightarrow> Ok (TimeInt (Some n)))"

definition nonmin_of_time :: "TimeInt \<Rightarrow> NonMinI64" where
  "nonmin_of_time t = (case time_repr t of Some n \<Rightarrow> n | None \<Rightarrow> nm_MIN)"

definition time_neg :: "bool \<Rightarrow> TimeInt \<Rightarrow> TimeInt option" where
  "time_neg overflow_checks t = (case time_repr t of
      Some n \<Rightarrow> map_option (\<lambda>m. TimeInt (Some m)) (nm_neg overflow_checks n)
    | None \<Rightarrow> Some t)"

definition time_add :: "TimeInt \<Rightarrow> TimeInt \<Rightarrow> TimeInt" where
  "time_add a b = (case (time_repr a, time_repr b) of
      (Some l, Some r) \<Rightarrow>
        TimeInt (Some (case nm_new (saturating_add (nm_get l) (nm_get r)) of
                         None \<Rightarrow> nm_MIN | Some n \<Rightarrow> n))
    | _ \<Rightarrow> TimeInt None)"

definition time_sub :: "TimeInt \<Rightarrow> TimeInt \<Rightarrow> TimeInt" where
  "time_sub a b = (case (time_repr a, time_repr b) of
      (Some l, Some r) \<Rightarrow>
        TimeInt (Some (case nm_new (saturating_sub (nm_get l) (nm_get r)) of
                         None \<Rightarrow> nm_MIN | Some n \<Rightarrow> n))
    | _ \<Rightarrow> TimeInt None)"

text \<open>The derived order: static first, then the temporal values in their order.\<close>

instantiation TimeInt :: linorder
begin

fun less_eq_TimeInt :: "TimeInt \<Rightarrow> TimeInt \<Rightarrow> bool" where
  "less_eq_TimeInt (TimeInt None) b = True"
| "less_eq_TimeInt (TimeInt (Some x)) (TimeInt None) = False"
| "less_eq_TimeInt (TimeInt (Some x)) (TimeInt (Some y)) = (x \<le> y)"

definition less_TimeInt :: "TimeInt \<Rightarrow> TimeInt \<Rightarrow> bool" where
  "less_TimeInt a b \<longleftrightarrow> a \<le> b \<and> \<not> b \<le> (a :: TimeInt)"

instance
proof
  fix x y z :: TimeInt
  obtain a where x: "x = TimeInt a" by (cases x)
  obtain b where y: "y = TimeInt b" by (cases y)
  obtain c where z: "z = TimeInt c" by (cases z)
  show "x < y \<longleftrightarrow> x \<le> y \<and> \<not> y \<le> x" by (simp add: less_TimeInt_def)
  show "x \<le> x" unfolding x by (cases a) auto
  show "x \<le> z" if "x \<le> y" "y \<le> z"
    using that unfolding x y z by (cases a; cases b; cases c) auto
  show "x = y" if "x \<le> y" "y \<le> x"
    using that unfolding x y by (cases a; cases b) auto
  show "x \<le> y \<or> y \<le> x" unfolding x y by (cases a; cases b) auto
qed

end

definition saturated_temporal :: "(try_from_int_error, TimeInt) result \<Rightarrow> TimeInt" where
  "saturated_temporal value = max (case value of Inl e \<Rightarrow> time_MIN | Inr t \<Rightarrow> t) time_MIN"

section \<open>Reading times as integers\<close>

abbreviation tval :: "TimeInt \<Rightarrow> int" where
  "tval t \<equiv> ival (as_i64 t)"

lemma as_i64_simps [simp]:
  "as_i64 (TimeInt None) = i64_MIN" "as_i64 (TimeInt (Some n)) = nm_get n"
  by (simp_all add: as_i64_def)

lemma time_ok_simps [simp]:
  "time_ok (TimeInt None)" "time_ok (TimeInt (Some n)) = nonmin_ok n"
  by (simp_all add: time_ok_def)

lemma time_ok_consts [simp]:
  "time_ok STATIC" "time_ok time_MIN" "time_ok time_MAX" "time_ok time_ZERO" "time_ok time_ONE"
  by (simp_all add: STATIC_def time_MIN_def time_MAX_def time_ZERO_def time_ONE_def)

lemma tval_consts [simp]:
  "tval STATIC = i64_min" "tval time_MIN = i64_min + 1" "tval time_MAX = i64_max"
  "tval time_ZERO = 0" "tval time_ONE = 1"
  by (simp_all add: STATIC_def time_MIN_def time_MAX_def time_ZERO_def time_ONE_def)

lemma tval_static_iff: "time_ok t \<Longrightarrow> tval t = i64_min \<longleftrightarrow> t = STATIC"
proof (cases t)
  case (TimeInt r)
  then show "time_ok t \<Longrightarrow> tval t = i64_min \<longleftrightarrow> t = STATIC"
    by (cases r) (auto simp: STATIC_def nonmin_ok_ival)
qed

lemma tval_inject: "time_ok a \<Longrightarrow> time_ok b \<Longrightarrow> tval a = tval b \<longleftrightarrow> a = b"
proof (cases a; cases b)
  fix x y assume "time_ok a" "time_ok b" and e: "a = TimeInt x" "b = TimeInt y"
  then show "tval a = tval b \<longleftrightarrow> a = b"
    by (cases x; cases y) (auto simp: nonmin_ok_ival ival_inject)
qed

lemma time_le_iff: "time_ok a \<Longrightarrow> time_ok b \<Longrightarrow> a \<le> b \<longleftrightarrow> tval a \<le> tval b"
proof (cases a; cases b)
  fix x y assume ok: "time_ok a" "time_ok b" and e: "a = TimeInt x" "b = TimeInt y"
  show "a \<le> b \<longleftrightarrow> tval a \<le> tval b"
  proof (cases x; cases y)
    fix m assume m: "x = Some m" "y = None"
    then have "i64_min + 1 \<le> ival (nm_get m)" using ok e nonmin_lower by simp
    then show ?thesis using e m by simp
  qed (use e ival_range(1) in \<open>auto simp: less_eq_NonMinI64_def less_eq_i64_def\<close>)
qed

lemma time_less_iff: "time_ok a \<Longrightarrow> time_ok b \<Longrightarrow> a < b \<longleftrightarrow> tval a < tval b"
  by (auto simp: less_TimeInt_def time_le_iff)

lemma not_static_iff: "time_ok t \<Longrightarrow> t \<noteq> STATIC \<longleftrightarrow> i64_min + 1 \<le> tval t"
  using tval_static_iff [of t] ival_range(1) [of "as_i64 t"] by auto

lemma static_least [simp]: "STATIC \<le> t"
  by (cases t) (simp add: STATIC_def)

lemma time_MIN_le_iff: "time_ok t \<Longrightarrow> time_MIN \<le> t \<longleftrightarrow> t \<noteq> STATIC"
  by (auto simp: time_le_iff not_static_iff)

lemma le_time_MAX [simp]: "t \<le> time_MAX"
proof (cases t)
  case (TimeInt r)
  then show ?thesis by (cases r) (simp_all add: time_MAX_def)
qed

lemma new_temporal_alt: "new_temporal v = TimeInt (Some (saturating_from_i64 v))"
  by (auto simp: new_temporal_def saturating_from_i64_def time_MIN_def split: option.split)

lemma time_ok_new_temporal [simp]: "time_ok (new_temporal v)"
  by (simp add: new_temporal_alt)

lemma new_temporal_not_static [simp]: "new_temporal v \<noteq> STATIC"
  by (simp add: new_temporal_alt STATIC_def)

lemma tval_new_temporal [i64_simps]: "tval (new_temporal v) = max (i64_min + 1) (ival v)"
  by (simp add: new_temporal_alt ival_saturating_from_i64)

lemma new_temporal_as_i64: "time_ok t \<Longrightarrow> t \<noteq> STATIC \<Longrightarrow> new_temporal (as_i64 t) = t"
  using not_static_iff [of t] by (subst tval_inject [symmetric]) (auto simp: tval_new_temporal max_def)

lemma new_temporal_mono: "a \<le> b \<Longrightarrow> new_temporal a \<le> new_temporal b"
  by (auto simp: time_le_iff tval_new_temporal less_eq_i64_def)

end
