(* ===== verification/Time_Range.thy ===== *)
theory Time_Range
  imports Time_Int
begin

text \<open>
  \<open>AbsoluteTimeRange\<close> (\<open>dl_log_types/src/index/absolute_time_range.rs\<close>), the cursor relative
  boundaries it is resolved from (\<open>dl_types_core/src/datatypes/time_range_boundary_ext.rs\<close>,
  \<open>time_int_ext.rs\<close>) and \<open>Timeline\<close> (\<open>dl_log_types/src/index/timeline.rs\<close>). A range denotes
  the set of times it contains; the operations are shown to compute intersection, inclusion
  and hull of these sets.
\<close>

section \<open>Absolute ranges\<close>

record AbsoluteTimeRange =
  range_min :: TimeInt
  range_max :: TimeInt

definition range_EMPTY :: AbsoluteTimeRange where
  "range_EMPTY = \<lparr>range_min = time_MAX, range_max = time_MIN\<rparr>"

definition range_EVERYTHING :: AbsoluteTimeRange where
  "range_EVERYTHING = \<lparr>range_min = time_MIN, range_max = time_MAX\<rparr>"

text \<open>
  The arguments of \<open>new\<close>, \<open>point\<close> and the setters are the results of their \<open>try_into\<close>.
\<close>

definition range_new ::
  "(try_from_int_error, TimeInt) result \<Rightarrow> (try_from_int_error, TimeInt) result \<Rightarrow> AbsoluteTimeRange"
where
  "range_new mn mx = \<lparr>range_min = saturated_temporal mn, range_max = saturated_temporal mx\<rparr>"

definition range_point :: "(try_from_int_error, TimeInt) result \<Rightarrow> AbsoluteTimeRange" where
  "range_point time = (let t = saturated_temporal time in \<lparr>range_min = t, range_max = t\<rparr>)"

definition set_min :: "(try_from_int_error, TimeInt) result \<Rightarrow> AbsoluteTimeRange \<Rightarrow> AbsoluteTimeRange" where
  "set_min time r = r\<lparr>range_min := saturated_temporal time\<rparr>"

definition set_max :: "(try_from_int_error, TimeInt) result \<Rightarrow> AbsoluteTimeRange \<Rightarrow> AbsoluteTimeRange" where
  "set_max time r = r\<lparr>range_max := saturated_temporal time\<rparr>"

definition abs_length :: "AbsoluteTimeRange \<Rightarrow> u64" where
  "abs_length r = abs_diff (as_i64 (range_min r)) (as_i64 (range_max r))"

definition range_is_empty :: "AbsoluteTimeRange \<Rightarrow> bool" where
  "range_is_empty r \<longleftrightarrow> range_max r < range_min r"

definition range_center :: "AbsoluteTimeRange \<Rightarrow> TimeInt option" where
  "range_center r = time_midpoint (range_min r) (range_max r)"

definition range_contains :: "AbsoluteTimeRange \<Rightarrow> TimeInt \<Rightarrow> bool" where
  "range_contains r time \<longleftrightarrow> range_min r \<le> time \<and> time \<le> range_max r"

definition contains_range :: "AbsoluteTimeRange \<Rightarrow> AbsoluteTimeRange \<Rightarrow> bool" where
  "contains_range r other \<longleftrightarrow> range_min r \<le> range_min other \<and> range_max other \<le> range_max r"

definition intersects :: "AbsoluteTimeRange \<Rightarrow> AbsoluteTimeRange \<Rightarrow> bool" where
  "intersects r other \<longleftrightarrow> range_min r \<le> range_max other \<and> range_max r \<ge> range_min other"

definition intersection :: "AbsoluteTimeRange \<Rightarrow> AbsoluteTimeRange \<Rightarrow> AbsoluteTimeRange option" where
  "intersection r other =
     (if intersects r other
      then Some \<lparr>range_min = max (range_min r) (range_min other),
                 range_max = min (range_max r) (range_max other)\<rparr>
      else None)"

definition range_union :: "AbsoluteTimeRange \<Rightarrow> AbsoluteTimeRange \<Rightarrow> AbsoluteTimeRange" where
  "range_union r other = \<lparr>range_min = min (range_min r) (range_min other),
                          range_max = max (range_max r) (range_max other)\<rparr>"

section \<open>Relative ranges\<close>

text \<open>
  The plain \<open>TimeInt\<close> of the type definitions is a bare \<open>i64\<close> whose addition saturates.
\<close>

datatype TimeRangeBoundary = CursorRelative i64 | Absolute i64 | Infinite

definition AT_CURSOR :: TimeRangeBoundary where
  "AT_CURSOR = CursorRelative (i64_of_int 0)"

fun start_boundary_time :: "TimeRangeBoundary \<Rightarrow> i64 \<Rightarrow> i64" where
  "start_boundary_time (Absolute time) cursor = time"
| "start_boundary_time (CursorRelative time) cursor = saturating_add cursor time"
| "start_boundary_time Infinite cursor = i64_of_int (i64_min + 1)"

fun end_boundary_time :: "TimeRangeBoundary \<Rightarrow> i64 \<Rightarrow> i64" where
  "end_boundary_time (Absolute time) cursor = time"
| "end_boundary_time (CursorRelative time) cursor = saturating_add cursor time"
| "end_boundary_time Infinite cursor = i64_MAX"

record RelTimeRange =
  rel_start :: TimeRangeBoundary
  rel_end :: TimeRangeBoundary

definition from_relative_time_range :: "RelTimeRange \<Rightarrow> i64 \<Rightarrow> AbsoluteTimeRange" where
  "from_relative_time_range rng cursor =
     (let mn = start_boundary_time (rel_start rng) cursor;
          mx = end_boundary_time (rel_end rng) cursor;
          (lo, hi) = (if mn > mx then (mx, mn) else (mn, mx))
      in range_new (Ok (new_temporal lo)) (Ok (new_temporal hi)))"

section \<open>Timelines\<close>

datatype TimeType = Sequence | DurationNs | TimestampNs

record Timeline =
  timeline_name :: string
  timeline_typ :: TimeType

definition log_time :: Timeline where
  "log_time = \<lparr>timeline_name = ''log_time'', timeline_typ = TimestampNs\<rparr>"

definition log_tick :: Timeline where
  "log_tick = \<lparr>timeline_name = ''log_tick'', timeline_typ = Sequence\<rparr>"

definition is_builtin :: "Timeline \<Rightarrow> bool" where
  "is_builtin t \<longleftrightarrow> t = log_time \<or> t = log_tick"

definition timeline_priority :: "Timeline \<Rightarrow> nat" where
  "timeline_priority t =
     (if timeline_name t = ''message_log_time'' then 3
      else if t = log_tick then 0
      else if t = log_time then 1
      else 2)"

text \<open>\<open>Iterator::max_by\<close>: the last of the maximal elements.\<close>

fun max_by :: "('a \<Rightarrow> 'a \<Rightarrow> bool) \<Rightarrow> 'a list \<Rightarrow> 'a option" where
  "max_by gt [] = None"
| "max_by gt (x # xs) = Some (foldl (\<lambda>acc y. if gt acc y then acc else y) x xs)"

definition timeline_gt :: "(Timeline \<Rightarrow> u64) \<Rightarrow> Timeline \<Rightarrow> Timeline \<Rightarrow> bool" where
  "timeline_gt score a b \<longleftrightarrow>
     timeline_priority a > timeline_priority b \<or>
     (timeline_priority a = timeline_priority b \<and> score a > score b)"

definition pick_best_timeline :: "Timeline list \<Rightarrow> (Timeline \<Rightarrow> u64) \<Rightarrow> Timeline" where
  "pick_best_timeline timelines score =
     (case max_by (timeline_gt score) timelines of None \<Rightarrow> log_time | Some t \<Rightarrow> t)"

section \<open>Ranges as sets of times\<close>

definition range_set :: "AbsoluteTimeRange \<Rightarrow> TimeInt set" where
  "range_set r = {t. range_contains r t}"

definition range_ok :: "AbsoluteTimeRange \<Rightarrow> bool" where
  "range_ok r \<longleftrightarrow> time_ok (range_min r) \<and> time_ok (range_max r) \<and>
                range_min r \<noteq> STATIC \<and> range_max r \<noteq> STATIC"

lemma range_set_alt: "range_set r = {range_min r .. range_max r}"
  by (auto simp: range_set_def range_contains_def)

lemma saturated_temporal_ok:
  assumes "\<And>t. v = Inr t \<Longrightarrow> time_ok t"
  shows "time_ok (saturated_temporal v)" "saturated_temporal v \<noteq> STATIC"
proof -
  show "time_ok (saturated_temporal v)"
    using assms by (auto simp: saturated_temporal_def max_def split: sum.split)
  have "time_MIN \<le> saturated_temporal v" by (simp add: saturated_temporal_def)
  then show "saturated_temporal v \<noteq> STATIC"
    using time_MIN_le_iff [of STATIC] by auto
qed

lemma range_is_empty_iff: "range_is_empty r \<longleftrightarrow> range_set r = {}"
  by (auto simp: range_is_empty_def range_set_alt)

lemma saturated_temporal_new [simp]: "saturated_temporal (Inr (new_temporal v)) = new_temporal v"
proof -
  have "time_MIN \<le> new_temporal v" by (simp add: time_MIN_le_iff)
  then show ?thesis by (simp add: saturated_temporal_def max_def)
qed

lemma max_by_fold:
  assumes tr: "\<And>a b c. \<not> gt b a \<Longrightarrow> \<not> gt c b \<Longrightarrow> \<not> gt c a"
    and ref: "\<And>a. \<not> gt a a" and tot: "\<And>a b. gt a b \<Longrightarrow> \<not> gt b a"
  shows "(let m = foldl (\<lambda>acc y. if gt acc y then acc else y) x xs
          in m \<in> set (x # xs) \<and> (\<forall>y \<in> set (x # xs). \<not> gt y m))"
proof (induction xs rule: rev_induct)
  case (snoc y ys)
  let ?m = "foldl (\<lambda>acc y. if gt acc y then acc else y) x ys"
  show ?case
  proof (cases "gt ?m y")
    case True
    then show ?thesis using snoc tot by (auto simp: Let_def)
  next
    case False
    then have "\<not> gt z y" if "z \<in> set (x # ys)" for z
      using snoc that tr [of ?m y z] tr [of y ?m z] tr [where a = y and b = ?m and c = z]
      unfolding Let_def by blast
    then show ?thesis using False ref by (auto simp: Let_def)
  qed
qed (simp add: ref)

lemma timeline_gt_order:
  "\<not> timeline_gt s b a \<Longrightarrow> \<not> timeline_gt s c b \<Longrightarrow> \<not> timeline_gt s c a"
  "\<not> timeline_gt s a a" "timeline_gt s a b \<Longrightarrow> \<not> timeline_gt s b a"
  by (auto simp: timeline_gt_def)

lemma max_by_timeline:
  assumes "max_by (timeline_gt s) ts = Some m"
  shows "m \<in> set ts" and "\<And>t. t \<in> set ts \<Longrightarrow> \<not> timeline_gt s t m"
proof -
  from assms obtain x xs where ts: "ts = x # xs" by (cases ts) auto
  have "(let m = foldl (\<lambda>acc y. if timeline_gt s acc y then acc else y) x xs
          in m \<in> set (x # xs) \<and> (\<forall>y \<in> set (x # xs). \<not> timeline_gt s y m))"
    by (rule max_by_fold) (fact timeline_gt_order)+
  then show "m \<in> set ts" "\<And>t. t \<in> set ts \<Longrightarrow> \<not> timeline_gt s t m"
    using assms ts unfolding Let_def by auto
qed

section \<open>Saturating arithmetic\<close>

definition clamp_temporal :: "int \<Rightarrow> int" where
  "clamp_temporal k = max (i64_min + 1) (min i64_max k)"

lemma temporal_obtain:
  assumes "a \<noteq> STATIC" obtains x where "a = TimeInt (Some x)"
  using assms by (cases a) (auto simp: STATIC_def)

lemma sum_new_temporal:
  "time_add (TimeInt (Some x)) (TimeInt (Some y)) = new_temporal (saturating_add (nm_get x) (nm_get y))"
  "time_sub (TimeInt (Some x)) (TimeInt (Some y)) = new_temporal (saturating_sub (nm_get x) (nm_get y))"
  by (auto simp: time_add_def time_sub_def new_temporal_def time_MIN_def split: option.split)

lemma temporal_ops_value:
  assumes "a \<noteq> STATIC" "b \<noteq> STATIC"
  shows "tval (time_add a b) = clamp_temporal (tval a + tval b)"
    and "tval (time_sub a b) = clamp_temporal (tval a - tval b)"
    and "tval (inc a) = clamp_temporal (tval a + 1)" "tval (dec a) = clamp_temporal (tval a - 1)"
    and "tval (time_saturating_sub a k) = clamp_temporal (tval a - ival k)"
    and "tval (from_millis n) = clamp_temporal (ival (nm_get n) * ival (i64_of_int 1000000))"
  by (insert assms, erule_tac [!] temporal_obtain, erule_tac [!] temporal_obtain)
    (simp_all add: sum_new_temporal inc_def dec_def time_saturating_sub_def from_millis_def
      tval_new_temporal clamp_temporal_def ival_saturating_add ival_saturating_sub ival_saturating_mul)

lemma temporal_ops_ok:
  assumes "a \<noteq> STATIC" "b \<noteq> STATIC"
  shows "time_ok (time_add a b) \<and> time_add a b \<noteq> STATIC"
    and "time_ok (time_sub a b) \<and> time_sub a b \<noteq> STATIC"
    and "time_ok (inc a) \<and> inc a \<noteq> STATIC" "time_ok (dec a) \<and> dec a \<noteq> STATIC"
    and "time_ok (time_saturating_sub a k) \<and> time_saturating_sub a k \<noteq> STATIC"
    and "time_ok (from_millis n) \<and> from_millis n \<noteq> STATIC"
  by (insert assms, erule_tac [!] temporal_obtain, erule_tac [!] temporal_obtain)
    (simp_all add: sum_new_temporal inc_def dec_def time_saturating_sub_def from_millis_def)

lemma time_midpoint_between:
  assumes "time_ok a" "a \<noteq> STATIC" "time_ok b" "b \<noteq> STATIC"
  shows "\<exists>m. time_midpoint a b = Some m \<and> time_ok m \<and> m \<noteq> STATIC \<and> min a b \<le> m \<and> m \<le> max a b"
proof -
  obtain x y where ab: "a = TimeInt (Some x)" "b = TimeInt (Some y)"
    using assms by (metis temporal_obtain)
  obtain m where m: "nm_midpoint x y = Some m" "nonmin_ok m"
      "nm_get m = midpoint_i64 (nm_get x) (nm_get y)"
    using nm_midpoint_total [of x y] assms ab by auto
  have sym: "midpoint_i64 (nm_get x) (nm_get y) = midpoint_i64 (nm_get y) (nm_get x)"
    by (simp add: midpoint_i64_def add.commute)
  have "min a b \<le> TimeInt (Some m) \<and> TimeInt (Some m) \<le> max a b"
    using midpoint_between [of "nm_get x" "nm_get y"] midpoint_between [of "nm_get y" "nm_get x"]
    by (cases "x \<le> y") (auto simp: ab min_def max_def less_eq_NonMinI64_def m sym)
  then show ?thesis
    by (intro exI [of _ "TimeInt (Some m)"]) (simp add: ab time_midpoint_def m STATIC_def)
qed

lemma in_i64_factor: "in_i64 (q * s) \<Longrightarrow> 0 < s \<Longrightarrow> in_i64 q"
proof (cases "0 \<le> q")
  case True
  moreover assume "in_i64 (q * s)" "0 < s"
  moreover from this True have "q * 1 \<le> q * s" by (intro mult_left_mono) auto
  ultimately show ?thesis by (simp add: in_i64_def)
next
  case False
  moreover assume "in_i64 (q * s)" "0 < s"
  moreover from this False have "q * s \<le> q * 1" by (intro mult_left_mono_neg) auto
  ultimately show ?thesis unfolding in_i64_def by linarith
qed

lemma snap_bounds:
  fixes v h m s :: int
  assumes "0 \<le> m" "m < s" "2 * h \<le> s" "s \<le> 2 * h + 1"
  shows "- s \<le> 2 * (v - (v + h - m))" and "2 * (v - (v + h - m)) < s"
  using assms by auto

section \<open>Properties\<close>

text \<open>
  \<open>NonMinI64::new\<close> and \<open>get\<close> are inverse to each other away from \<open>i64::MIN\<close>, which \<open>new\<close>
  alone rejects; every encoded value satisfies the validity invariant of the inner
  \<open>NonZeroI64\<close>, and the order is the one of the values.
\<close>

theorem nonmin_encoding_exact:
  "nm_new v = (if v = i64_MIN then None else Some (nm_new_unchecked v)) \<and>
   (nonmin_ok n \<longleftrightarrow> nm_new (nm_get n) = Some n) \<and>
   (nm_new v = Some m \<longleftrightarrow> nonmin_ok m \<and> nm_get m = v) \<and>
   (a \<le> b \<longleftrightarrow> nm_get a \<le> nm_get b)"
  by (auto simp: nm_new_alt nonmin_ok_iff less_eq_NonMinI64_def)

text \<open>
  C22. Arithmetic on temporal \<open>TimeInt\<close>s saturates inside the temporal range and never yields
  the static value: \<open>+\<close>, \<open>-\<close>, \<open>inc\<close>, \<open>dec\<close>, \<open>saturating_sub\<close> and \<open>from_millis\<close> are the
  mathematical result clamped to \<open>[i64::MIN + 1, i64::MAX]\<close>, and \<open>midpoint\<close> never panics and
  lies between its arguments.
\<close>

theorem temporal_arithmetic_saturates:
  assumes "time_ok a" "a \<noteq> STATIC" "time_ok b" "b \<noteq> STATIC" "nonmin_ok n"
  shows "tval (time_add a b) = clamp_temporal (tval a + tval b) \<and>
    tval (time_sub a b) = clamp_temporal (tval a - tval b) \<and>
    tval (inc a) = clamp_temporal (tval a + 1) \<and> tval (dec a) = clamp_temporal (tval a - 1) \<and>
    tval (time_saturating_sub a k) = clamp_temporal (tval a - ival k) \<and>
    tval (from_millis n) = clamp_temporal (ival (nm_get n) * 1000000) \<and>
    list_all (\<lambda>t. time_ok t \<and> t \<noteq> STATIC)
      [time_add a b, time_sub a b, inc a, dec a, time_saturating_sub a k, from_millis n] \<and>
    (\<exists>m. time_midpoint a b = Some m \<and> time_ok m \<and> m \<noteq> STATIC \<and> min a b \<le> m \<and> m \<le> max a b)"
  using assms
  by (simp add: temporal_ops_value temporal_ops_ok time_midpoint_between ival_of_int in_i64_def)

theorem temporal_arithmetic_saturates_witness:
  "tval (time_add time_MAX time_ONE) = i64_max"
  using temporal_arithmetic_saturates [of time_MAX time_ONE nm_ONE]
  by (simp add: tval_static_iff [symmetric] clamp_temporal_def)

text \<open>
  \<open>closest_multiple_of\<close> snaps a temporal value to the nearest multiple of a positive
  interval, rounding ties up, whenever neither the rounding offset nor the product leaves the
  64 bit range; it then never panics.
\<close>

theorem closest_multiple_of_nearest:
  assumes "time_ok t" "t \<noteq> STATIC" and s: "0 < ival s"
    and room: "i64_min + ival s \<le> tval t" "tval t \<le> i64_max - ival s div 2"
  shows "\<exists>m. closest_multiple_of debug t s = Some m \<and> time_ok m \<and> m \<noteq> STATIC \<and>
           (\<exists>q. max (i64_min + 1) (q * ival s) = tval m \<and>
                - ival s \<le> 2 * (tval t - q * ival s) \<and> 2 * (tval t - q * ival s) < ival s)"
proof -
  obtain x where t: "t = TimeInt (Some x)"
    using assms by (cases t) (auto simp: STATIC_def)
  let ?v = "ival (nm_get x)" and ?s = "ival s"
  have h: "tquot ?s 2 = ?s div 2" using s by (simp add: tquot_def)
  have "0 \<le> ?s div 2" "?s div 2 \<le> ?s" using s by auto
  then have "in_i64 (?s div 2)" using ival_range [of s] by (simp add: in_i64_def)
  then have v: "ival (saturating_add (nm_get x) (i64_of_int (tquot ?s 2))) = ?v + ?s div 2"
    using room s ival_range [of "nm_get x"] by (simp add: ival_saturating_add ival_of_int h t)
  let ?q = "(?v + ?s div 2) div ?s"
  have mul: "?q * ?s = ?v + ?s div 2 - (?v + ?s div 2) mod ?s"
    by (simp add: minus_mod_eq_div_mult)
  have md: "0 \<le> (?v + ?s div 2) mod ?s" "(?v + ?s div 2) mod ?s < ?s"
    using s by auto
  have half: "2 * (?s div 2) \<le> ?s" "?s \<le> 2 * (?s div 2) + 1"
    by presburger+
  have prod: "in_i64 (?q * ?s)"
    using md room \<open>0 \<le> ?s div 2\<close> unfolding in_i64_def mul t as_i64_simps by linarith
  have q: "in_i64 ?q"
    using prod s by (rule in_i64_factor)
  have r: "closest_multiple_of debug t s = Some (new_temporal (i64_of_int (?q * ?s)))"
    using s prod q by (simp add: closest_multiple_of_def t v div_euclid_def Let_def)
  have "- ?s \<le> 2 * (?v - ?q * ?s)" "2 * (?v - ?q * ?s) < ?s"
    unfolding mul by (rule snap_bounds [OF md half])+
  then show ?thesis
    unfolding r using prod by (auto simp: tval_new_temporal ival_of_int t intro!: exI [of _ ?q])
qed

theorem closest_multiple_of_nearest_witness:
  "\<exists>m. closest_multiple_of True time_ONE (i64_of_int 1) = Some m \<and> m \<noteq> STATIC"
  using closest_multiple_of_nearest [of time_ONE "i64_of_int 1" True]
  by (auto simp: tval_static_iff [symmetric])

text \<open>
  C23. \<open>AbsoluteTimeRange\<close> operations compute on the sets of times they denote: \<open>intersection\<close> of
  two non-empty ranges is \<open>None\<close> exactly when the sets are disjoint and otherwise denotes their
  intersection; \<open>contains_range\<close> of a non-empty range is inclusion; \<open>union\<close> is the least range
  covering both.
\<close>

theorem range_operations_are_set_operations:
  assumes "\<not> range_is_empty r" "\<not> range_is_empty q"
  shows "(intersection r q = None \<longleftrightarrow> range_set r \<inter> range_set q = {}) \<and>
    (\<forall>i. intersection r q = Some i \<longrightarrow> range_set i = range_set r \<inter> range_set q \<and> \<not> range_is_empty i) \<and>
    (contains_range r q \<longleftrightarrow> range_set q \<subseteq> range_set r) \<and>
    range_set r \<union> range_set q \<subseteq> range_set (range_union r q) \<and>
    (\<forall>c. range_set r \<union> range_set q \<subseteq> range_set c \<longrightarrow> range_set (range_union r q) \<subseteq> range_set c)"
  using assms
  by (auto simp: range_is_empty_def range_set_alt intersection_def intersects_def contains_range_def
      range_union_def min_def max_def split: if_splits)

theorem range_operations_are_set_operations_witness:
  "intersection range_EVERYTHING (range_point (Ok time_ONE)) \<noteq> None"
proof -
  have one: "saturated_temporal (Ok time_ONE) = time_ONE"
    by (simp add: saturated_temporal_def max_def time_le_iff)
  then have pt: "range_point (Ok time_ONE) = \<lparr>range_min = time_ONE, range_max = time_ONE\<rparr>"
    by (simp add: range_point_def)
  have "time_ONE \<in> range_set range_EVERYTHING \<inter> range_set (range_point (Ok time_ONE))"
    by (simp add: range_set_alt range_EVERYTHING_def pt time_le_iff)
  moreover have "\<not> range_is_empty range_EVERYTHING" "\<not> range_is_empty (range_point (Ok time_ONE))"
    by (simp_all add: range_is_empty_def range_EVERYTHING_def pt time_less_iff)
  ultimately show ?thesis
    using range_operations_are_set_operations [of range_EVERYTHING "range_point (Ok time_ONE)"]
    by (metis emptyE)
qed

text \<open>
  Resolving a cursor relative range always gives a non-empty range that never includes the
  static time, whatever the boundaries and the cursor; a range relative to the cursor on both
  sides of it contains the cursor.
\<close>

theorem from_relative_time_range_temporal:
  "range_ok (from_relative_time_range r c) \<and> \<not> range_is_empty (from_relative_time_range r c) \<and>
   \<not> range_contains (from_relative_time_range r c) STATIC \<and>
   (ival lo \<le> 0 \<and> 0 \<le> ival hi \<longrightarrow>
      range_contains (from_relative_time_range \<lparr>rel_start = CursorRelative lo, rel_end = CursorRelative hi\<rparr> c)
        (new_temporal c))"
proof -
  have "\<exists>lo hi. lo \<le> hi \<and> from_relative_time_range r c = \<lparr>range_min = new_temporal lo, range_max = new_temporal hi\<rparr>"
    by (auto simp: from_relative_time_range_def range_new_def Let_def split: if_splits
        intro: less_imp_le leI)
  moreover have "\<not> new_temporal v \<le> STATIC" for v
    by (simp add: time_le_iff tval_new_temporal)
  moreover have "range_contains (from_relative_time_range
      \<lparr>rel_start = CursorRelative lo, rel_end = CursorRelative hi\<rparr> c) (new_temporal c)"
    if "ival lo \<le> 0 \<and> 0 \<le> ival hi"
  proof -
    have "saturating_add c lo \<le> c" "c \<le> saturating_add c hi"
      using that ival_range [of c] by (auto simp: less_eq_i64_def ival_saturating_add)
    then show ?thesis
      by (auto simp: from_relative_time_range_def range_new_def range_contains_def Let_def
          intro!: new_temporal_mono)
  qed
  ultimately show ?thesis
    using new_temporal_mono by (fastforce simp: range_ok_def range_is_empty_def range_contains_def)
qed

theorem from_relative_time_range_temporal_witness:
  "range_contains (from_relative_time_range
     \<lparr>rel_start = CursorRelative (i64_of_int 0), rel_end = CursorRelative (i64_of_int 1)\<rparr> i64_MAX)
     (new_temporal i64_MAX)"
  using from_relative_time_range_temporal [of undefined i64_MAX "i64_of_int 0" "i64_of_int 1"] by simp

end
