(* ===== verification/Tuid.thy ===== *)
theory Tuid
  imports Bytes "HOL-Library.List_Lexorder" "HOL-Library.Product_Lexorder"
begin

text \<open>
  Time based unique identifiers (\<open>src/crates/utils/dl_tuid/src/lib.rs\<close>) and the row
  identifiers built on them (\<open>src/crates/store/dl_types_core/src/row_id.rs\<close>). A \<open>Tuid\<close> is two big
  endian byte arrays compared lexicographically; the theory shows that this order is the one
  of the 128 bit number, that the conversions to numbers, bytes and strings are round trips,
  and that the thread local generator hands out strictly increasing identifiers.
\<close>

section \<open>Identifiers\<close>

datatype Tuid = Tuid (time_nanos: "u8 list") (tuid_inc_bytes: "u8 list")

definition tuid_ok :: "Tuid \<Rightarrow> bool" where
  "tuid_ok t \<longleftrightarrow> length (time_nanos t) = 8 \<and> length (tuid_inc_bytes t) = 8"

text \<open>The derived \<open>Ord\<close>: the fields in order, each array lexicographically.\<close>

instantiation Tuid :: linorder
begin

definition less_eq_Tuid :: "Tuid \<Rightarrow> Tuid \<Rightarrow> bool" where
  "less_eq_Tuid a b \<longleftrightarrow> (time_nanos a, tuid_inc_bytes a) \<le> (time_nanos b, tuid_inc_bytes b)"

definition less_Tuid :: "Tuid \<Rightarrow> Tuid \<Rightarrow> bool" where
  "less_Tuid a b \<longleftrightarrow> (time_nanos a, tuid_inc_bytes a) < (time_nanos b, tuid_inc_bytes b)"

instance
  by standard (auto simp: less_eq_Tuid_def less_Tuid_def Tuid.expand)

end

definition nanos_since_epoch :: "Tuid \<Rightarrow> u64" where
  "nanos_since_epoch t = from_be_bytes (time_nanos t)"

definition tuid_inc :: "Tuid \<Rightarrow> u64" where
  "tuid_inc t = from_be_bytes (tuid_inc_bytes t)"

definition from_nanos_and_inc :: "u64 \<Rightarrow> u64 \<Rightarrow> Tuid" where
  "from_nanos_and_inc nanos i = Tuid (to_be_bytes 8 nanos) (to_be_bytes 8 i)"

definition tuid_ZERO :: Tuid where
  "tuid_ZERO = Tuid (replicate 8 0) (replicate 8 0)"

definition tuid_MAX :: Tuid where
  "tuid_MAX = Tuid (to_be_bytes 8 (- 1 :: u64)) (to_be_bytes 8 (- 1 :: u64))"

definition from_u128 :: "u128 \<Rightarrow> Tuid" where
  "from_u128 i = from_nanos_and_inc (ucast (drop_bit 64 i)) (ucast (i AND drop_bit 64 (NOT 0)))"

definition as_u128 :: "Tuid \<Rightarrow> u128" where
  "as_u128 t = push_bit 64 (ucast (nanos_since_epoch t)) OR ucast (tuid_inc t)"

definition from_bytes :: "u8 list \<Rightarrow> Tuid" where
  "from_bytes bytes = from_u128 (from_be_bytes bytes)"

definition as_bytes :: "Tuid \<Rightarrow> u8 list" where
  "as_bytes t = to_be_bytes 16 (as_u128 t)"

definition tuid_next :: "Tuid \<Rightarrow> Tuid" where
  "tuid_next t = Tuid (time_nanos t) (to_be_bytes 8 ((from_be_bytes (tuid_inc_bytes t) :: u64) + 1))"

definition incremented_by :: "Tuid \<Rightarrow> u64 \<Rightarrow> Tuid" where
  "incremented_by t n = Tuid (time_nanos t) (to_be_bytes 8 ((from_be_bytes (tuid_inc_bytes t) :: u64) + n))"

text \<open>
  \<open>Tuid::new\<close> on the thread local \<open>LATEST_TUID\<close>: \<open>now\<close> is the reading of the monotonic clock.
  The result is the new identifier, which is also the new state. \<open>None\<close> is the panic of the
  addition on overflow, or of the assertion on the clock, both in debug builds only.
\<close>

definition tuid_init :: "u64 \<Rightarrow> u64 \<Rightarrow> Tuid" where
  "tuid_init now random = from_nanos_and_inc now (random AND NOT (push_bit 63 1))"

definition tuid_new :: "bool \<Rightarrow> u64 \<Rightarrow> Tuid \<Rightarrow> Tuid option" where
  "tuid_new debug now latest =
     (if debug \<and> tuid_inc latest = - 1 then None
      else let new = from_nanos_and_inc now (tuid_inc latest + 1)
           in if debug \<and> \<not> nanos_since_epoch latest \<le> nanos_since_epoch new then None
              else Some new)"

text \<open>A run of the generator on one thread: the readings of the clock, one per call.\<close>

fun tuid_run :: "bool \<Rightarrow> u64 list \<Rightarrow> Tuid \<Rightarrow> Tuid list option" where
  "tuid_run debug [] latest = Some []"
| "tuid_run debug (now # nows) latest = (case tuid_new debug now latest of
     None \<Rightarrow> None
   | Some t \<Rightarrow> map_option ((#) t) (tuid_run debug nows t))"

section \<open>Text\<close>

definition hex_digit :: "bool \<Rightarrow> nat \<Rightarrow> char" where
  "hex_digit upper d = (if d < 10 then char_of (48 + d) else if upper then char_of (55 + d) else char_of (87 + d))"

text \<open>\<open>{:016X}\<close> and \<open>{:016x}\<close>: a \<open>u64\<close> never needs more than the 16 padded digits.\<close>

fun hex_digits :: "bool \<Rightarrow> nat \<Rightarrow> nat \<Rightarrow> string" where
  "hex_digits upper 0 k = []"
| "hex_digits upper (Suc n) k = hex_digits upper n (k div 16) @ [hex_digit upper (k mod 16)]"

definition tuid_to_string :: "Tuid \<Rightarrow> string" where
  "tuid_to_string t = hex_digits True 16 (unat (nanos_since_epoch t)) @ hex_digits False 16 (unat (tuid_inc t))"

definition short_string :: "Tuid \<Rightarrow> string" where
  "short_string t = (let str = tuid_to_string t in drop (length str - 8) str)"

text \<open>\<open>u128::from_str_radix(_, 16)\<close> of the standard library.\<close>

datatype ParseIntError = IntEmpty | InvalidDigit | PosOverflow

definition hex_value :: "char \<Rightarrow> nat option" where
  "hex_value c = (let n = of_char c in
     if 48 \<le> n \<and> n \<le> 57 then Some (n - 48)
     else if 65 \<le> n \<and> n \<le> 70 then Some (n - 55)
     else if 97 \<le> n \<and> n \<le> 102 then Some (n - 87)
     else None)"

fun from_radix16 :: "nat \<Rightarrow> string \<Rightarrow> (ParseIntError, nat) result" where
  "from_radix16 acc [] = Ok acc"
| "from_radix16 acc (c # cs) = (case hex_value c of
     None \<Rightarrow> Err InvalidDigit
   | Some d \<Rightarrow> if acc * 16 + d < 2 ^ 128 then from_radix16 (acc * 16 + d) cs else Err PosOverflow)"

definition u128_from_str_radix16 :: "string \<Rightarrow> (ParseIntError, u128) result" where
  "u128_from_str_radix16 s =
     (if s = [] then Err IntEmpty
      else if s = ''+'' \<or> s = ''-'' then Err InvalidDigit
      else try_bind (from_radix16 0 (if hd s = CHR ''+'' then tl s else s)) (\<lambda>k. Ok (word_of_nat k)))"

definition tuid_from_str :: "string \<Rightarrow> (ParseIntError, Tuid) result" where
  "tuid_from_str s = try_bind (u128_from_str_radix16 s) (\<lambda>k. Ok (from_u128 k))"

section \<open>Row identifiers\<close>

type_synonym RowId = Tuid

datatype InvalidRowIdError = ExpectedRowPrefix string | InvalidTuid ParseIntError

definition row_id_to_string :: "RowId \<Rightarrow> string" where
  "row_id_to_string r = ''row_'' @ tuid_to_string r"

definition split_once :: "char \<Rightarrow> string \<Rightarrow> (string \<times> string) option" where
  "split_once c s = (if c \<in> set s then Some (takeWhile (\<lambda>x. x \<noteq> c) s, tl (dropWhile (\<lambda>x. x \<noteq> c) s)) else None)"

definition row_id_from_str :: "string \<Rightarrow> (InvalidRowIdError, RowId) result" where
  "row_id_from_str s =
     try_bind
       (case split_once (CHR ''_'') s of
          Some (namespace, tuid_str) \<Rightarrow>
            if namespace = ''row'' then Ok tuid_str else Err (ExpectedRowPrefix s)
        | None \<Rightarrow> Ok s)
       (\<lambda>tuid_str. case tuid_from_str tuid_str of Inl e \<Rightarrow> Err (InvalidTuid e) | Inr t \<Rightarrow> Ok t)"

section \<open>Numbers and bytes\<close>

lemma tuid_ok_from_nanos [simp]: "tuid_ok (from_nanos_and_inc n i)"
  by (simp add: tuid_ok_def from_nanos_and_inc_def)

lemma tuid_ok_from_u128 [simp]: "tuid_ok (from_u128 i)"
  by (simp add: from_u128_def)

lemma fields_from_nanos [simp]:
  "nanos_since_epoch (from_nanos_and_inc n i) = n" "tuid_inc (from_nanos_and_inc n i) = i"
  by (simp_all add: nanos_since_epoch_def tuid_inc_def from_nanos_and_inc_def)

lemma from_nanos_fields: "tuid_ok t \<Longrightarrow> from_nanos_and_inc (nanos_since_epoch t) (tuid_inc t) = t"
  by (simp add: tuid_ok_def from_nanos_and_inc_def nanos_since_epoch_def tuid_inc_def to_from_be_bytes_8)

lemma unat_less_64: "unat (w :: u64) < 2 ^ 64"
  using unsigned_less [of w, where 'a = nat] by simp

lemma take_bit_unat_128: "take_bit 128 (unat (w :: u64)) = unat w"
proof (rule take_bit_nat_eq_self)
  have "unat w < 2 ^ 64" by (rule unat_less_64)
  also have "(2 :: nat) ^ 64 < 2 ^ 128" by simp
  finally show "unat w < 2 ^ 128" .
qed

lemma unat_as_u128: "unat (as_u128 t) = unat (nanos_since_epoch t) * 2 ^ 64 + unat (tuid_inc t)"
proof -
  let ?n = "ucast (nanos_since_epoch t) :: u128" and ?i = "ucast (tuid_inc t) :: u128"
  have "push_bit 64 ?n AND ?i = 0"
    by (rule bit_word_eqI) (auto simp: bit_simps dest: bit_imp_le_length)
  then have "as_u128 t = push_bit 64 ?n + ?i"
    unfolding as_u128_def by (simp add: disjunctive_add_eq_or)
  moreover have u: "unat ?n = unat (nanos_since_epoch t)" "unat ?i = unat (tuid_inc t)"
    by (simp_all add: unsigned_ucast_eq take_bit_unat_128)
  moreover have "unat (push_bit 64 ?n) = unat (nanos_since_epoch t) * 2 ^ 64"
    using unsigned_less [of "nanos_since_epoch t", where 'a = nat]
    by (simp add: push_bit_eq_mult unat_word_ariths u)
  ultimately show ?thesis
    using unsigned_less [of "nanos_since_epoch t", where 'a = nat]
      unsigned_less [of "tuid_inc t", where 'a = nat]
    by (simp add: unat_word_ariths)
qed

lemma mask_64: "drop_bit 64 (NOT 0) = (mask 64 :: u128)"
  by (rule bit_word_eqI) (auto simp: bit_simps)

lemma from_u128_as_u128:
  assumes "tuid_ok t" shows "from_u128 (as_u128 t) = t"
proof -
  have "ucast (drop_bit 64 (as_u128 t)) = nanos_since_epoch t"
    by (rule bit_word_eqI) (auto simp: as_u128_def bit_simps dest: bit_imp_le_length)
  moreover have "ucast (as_u128 t AND drop_bit 64 (NOT 0)) = tuid_inc t"
    unfolding mask_64 by (rule bit_word_eqI) (auto simp: as_u128_def bit_simps dest: bit_imp_le_length)
  ultimately show ?thesis
    using assms by (simp add: from_u128_def from_nanos_fields)
qed

lemma as_u128_from_u128: "as_u128 (from_u128 k) = k"
  unfolding as_u128_def from_u128_def fields_from_nanos mask_64
  by (rule bit_word_eqI) (auto simp: bit_simps)

lemma be_bytes_less_iff:
  "length as = length bs \<Longrightarrow> as < bs \<longleftrightarrow> le_nat (rev as) < le_nat (rev (bs :: u8 list))"
proof (induction as bs rule: list_induct2)
  case (Cons x xs y ys)
  have "le_nat (rev (x # xs)) < le_nat (rev (y # ys)) \<longleftrightarrow>
      unat x < unat y \<or> unat x = unat y \<and> le_nat (rev xs) < le_nat (rev ys)"
    unfolding be_nat_Cons Cons(1)
    using le_nat_less [of "rev xs"] le_nat_less [of "rev ys"] Cons(1) by (intro digit_compare) simp_all
  then show ?case using Cons by (auto simp: word_less_nat_alt unsigned_word_eqI)
qed simp

lemma tuid_less_iff:
  assumes "tuid_ok a" "tuid_ok b"
  shows "a < b \<longleftrightarrow> as_u128 a < as_u128 b"
proof -
  have len: "length (time_nanos a) = 8" "length (time_nanos b) = 8"
    "length (tuid_inc_bytes a) = 8" "length (tuid_inc_bytes b) = 8"
    using assms by (auto simp: tuid_ok_def)
  have field: "bs < cs \<longleftrightarrow> unat (from_be_bytes bs :: u64) < unat (from_be_bytes cs :: u64)"
    if "length bs = 8" "length cs = 8" for bs cs :: "u8 list"
    using that be_bytes_less_iff [of bs cs] le_nat_less [of "rev bs"] le_nat_less [of "rev cs"]
    by (simp add: from_be_bytes_def unat_of_nat)
  have "a < b \<longleftrightarrow> unat (nanos_since_epoch a) < unat (nanos_since_epoch b) \<or>
     unat (nanos_since_epoch a) = unat (nanos_since_epoch b) \<and> unat (tuid_inc a) < unat (tuid_inc b)"
    using field [of "time_nanos a" "time_nanos b"] field [of "time_nanos b" "time_nanos a"]
      field [of "tuid_inc_bytes a" "tuid_inc_bytes b"] len
    by (auto simp: less_Tuid_def nanos_since_epoch_def tuid_inc_def less_prod_def)
  also have "\<dots> \<longleftrightarrow> unat (as_u128 a) < unat (as_u128 b)"
    unfolding unat_as_u128 add.commute [of "_ * _"] mult.commute [of _ "2 ^ 64"]
    by (rule digit_compare [symmetric]) (rule unat_less_64)+
  finally show ?thesis by (simp add: word_less_nat_alt)
qed

section \<open>Parsing what was printed\<close>

lemma hex_value_digit: "d < 16 \<Longrightarrow> hex_value (hex_digit u d) = Some d"
proof -
  assume "d < 16"
  then have "(48 + d) mod 256 = 48 + d" "(55 + d) mod 256 = 55 + d" "(87 + d) mod 256 = 87 + d"
    by simp_all
  with \<open>d < 16\<close> show ?thesis
    by (auto simp: hex_value_def hex_digit_def Let_def)
qed

lemma from_radix16_append:
  "from_radix16 acc (as @ bs) = try_bind (from_radix16 acc as) (\<lambda>a. from_radix16 a bs)"
  by (induction as arbitrary: acc) (auto split: option.split)

lemma from_radix16_digits:
  "k < 16 ^ n \<Longrightarrow> acc * 16 ^ n + k < 2 ^ 128 \<Longrightarrow>
   from_radix16 acc (hex_digits u n k) = Ok (acc * 16 ^ n + k)"
proof (induction n arbitrary: k)
  case (Suc n)
  have k: "16 * (k div 16) + k mod 16 = k" by simp
  have kd: "k div 16 < 16 ^ n" using Suc.prems(1) by (simp add: less_mult_imp_div_less mult.commute)
  have e: "(acc * 16 ^ n + k div 16) * 16 + k mod 16 = acc * 16 ^ Suc n + k"
    using k by (simp add: algebra_simps)
  have "acc * 16 ^ n + k div 16 \<le> (acc * 16 ^ n + k div 16) * 16 + k mod 16" by simp
  then have "acc * 16 ^ n + k div 16 < 2 ^ 128"
    unfolding e using Suc.prems(2) by (rule order_le_less_trans)
  then have "from_radix16 acc (hex_digits u n (k div 16)) = Ok (acc * 16 ^ n + k div 16)"
    using Suc.IH kd by simp
  then show ?case
    using Suc.prems(2) by (simp only: hex_digits.simps from_radix16_append try_bind.simps
        from_radix16.simps hex_value_digit option.simps e if_True mod_less_divisor zero_less_numeral)
qed simp

lemma hex_digit_not_sign: "d < 16 \<Longrightarrow> hex_digit u d \<noteq> CHR ''+'' \<and> hex_digit u d \<noteq> CHR ''-'' \<and> hex_digit u d \<noteq> CHR ''_''"
  using hex_value_digit [of d u] by (auto simp: hex_value_def)

lemma hex_digits_clean: "c \<in> set (hex_digits u n k) \<Longrightarrow> c \<noteq> CHR ''+'' \<and> c \<noteq> CHR ''-'' \<and> c \<noteq> CHR ''_''"
  by (induction n arbitrary: k) (use hex_digit_not_sign in auto)

lemma length_hex_digits [simp]: "length (hex_digits u n k) = n"
  by (induction n arbitrary: k) auto

lemma tuid_to_string_clean:
  "c \<in> set (tuid_to_string t) \<Longrightarrow> c \<noteq> CHR ''+'' \<and> c \<noteq> CHR ''-'' \<and> c \<noteq> CHR ''_''"
  by (auto simp: tuid_to_string_def dest: hex_digits_clean)

lemma length_tuid_to_string: "length (tuid_to_string t) = 32"
  by (simp add: tuid_to_string_def)

lemma from_radix16_tuid:
  "from_radix16 0 (tuid_to_string t) = Ok (unat (as_u128 t))"
proof -
  have h: "(16 :: nat) ^ 16 = 2 ^ 64" by simp
  have n: "unat (nanos_since_epoch t) < 16 ^ 16" "unat (tuid_inc t) < 16 ^ 16"
    unfolding h by (rule unat_less_64)+
  have a: "unat (as_u128 t) < 2 ^ 128"
    using unsigned_less [of "as_u128 t", where 'a = nat] by simp
  have "unat (nanos_since_epoch t) < 2 ^ 128"
    using n(1) by (rule order_less_trans) simp
  then have "from_radix16 0 (hex_digits True 16 (unat (nanos_since_epoch t))) = Ok (unat (nanos_since_epoch t))"
    using from_radix16_digits [of _ 16 0 True, OF n(1)] by simp
  moreover have "from_radix16 (unat (nanos_since_epoch t)) (hex_digits False 16 (unat (tuid_inc t))) = Ok (unat (as_u128 t))"
    using from_radix16_digits [OF n(2), of "unat (nanos_since_epoch t)" False] a
    unfolding unat_as_u128 h by simp
  ultimately show ?thesis
    by (simp add: tuid_to_string_def from_radix16_append)
qed

lemma tuid_from_to_string:
  assumes "tuid_ok t" shows "tuid_from_str (tuid_to_string t) = Ok t"
proof -
  have "tuid_to_string t \<noteq> []" "tuid_to_string t \<noteq> ''+''" "tuid_to_string t \<noteq> ''-''"
    using length_tuid_to_string [of t] by auto
  moreover from this have "hd (tuid_to_string t) \<noteq> CHR ''+''"
    using tuid_to_string_clean [of "hd (tuid_to_string t)" t] by simp
  ultimately show ?thesis
    using assms by (simp add: tuid_from_str_def u128_from_str_radix16_def from_radix16_tuid from_u128_as_u128)
qed

lemma split_once_row: "split_once (CHR ''_'') (''row_'' @ s) = Some (''row'', s)"
  by (simp add: split_once_def)

lemma tuid_next_power:
  "tuid_ok t \<Longrightarrow> (tuid_next ^^ n) t = incremented_by t (word_of_nat n)"
proof (induction n)
  case 0
  then show ?case by (cases t) (simp add: incremented_by_def tuid_ok_def to_from_be_bytes_8)
next
  case (Suc n)
  then show ?case by (simp add: tuid_next_def incremented_by_def add_ac)
qed

lemma tuid_new_increases:
  assumes "tuid_ok latest" "tuid_new debug now latest = Some t"
    and "nanos_since_epoch latest \<le> now" "tuid_inc latest \<noteq> - 1"
  shows "latest < t" "tuid_ok t" "nanos_since_epoch t = now"
proof -
  have t: "t = from_nanos_and_inc now (tuid_inc latest + 1)"
    using assms by (auto simp: tuid_new_def Let_def split: if_splits)
  then show ok: "tuid_ok t" and "nanos_since_epoch t = now" by simp_all
  have inc: "unat (tuid_inc latest + 1) = unat (tuid_inc latest) + 1"
  proof -
    have "1 + tuid_inc latest \<noteq> 0"
      using assms(4) by (metis add_eq_0_iff)
    then show ?thesis using unatSuc [of "tuid_inc latest"] by (simp add: add.commute)
  qed
  have "unat (nanos_since_epoch latest) * 2 ^ 64 \<le> unat now * 2 ^ 64"
    using assms(3) by (simp add: word_le_nat_alt)
  then have "unat (as_u128 latest) < unat (as_u128 t)"
    by (simp add: unat_as_u128 t inc)
  then show "latest < t"
    using assms(1) ok by (simp add: tuid_less_iff word_less_nat_alt)
qed

lemma tuid_new_total:
  assumes "nanos_since_epoch latest \<le> now" "tuid_inc latest \<noteq> - 1"
  shows "\<exists>t. tuid_new debug now latest = Some t"
  using assms by (simp add: tuid_new_def Let_def)

lemma unat_tuid_new:
  "tuid_new debug now latest = Some t \<Longrightarrow> unat (tuid_inc latest) + 1 < 2 ^ 64 \<Longrightarrow>
   unat (tuid_inc t) = unat (tuid_inc latest) + 1"
  by (auto simp: tuid_new_def Let_def unat_word_ariths split: if_splits)

lemma inc_not_max: "unat (w :: u64) + 1 < 2 ^ 64 \<Longrightarrow> w \<noteq> - 1"
proof
  assume "unat w + 1 < 2 ^ 64" "w = - 1"
  then have "mask 64 + 1 < (2 :: nat) ^ 64" by (simp add: unsigned_minus_1_eq_mask)
  then show False by (simp add: mask_eq_exp_minus_1)
qed

lemma tuid_run_sorted:
  assumes "tuid_ok latest" "sorted (nanos_since_epoch latest # nows)"
    and "unat (tuid_inc latest) + length nows < 2 ^ 64"
  shows "\<exists>ts. tuid_run debug nows latest = Some ts \<and> length ts = length nows \<and>
            sorted_wrt (<) (latest # ts) \<and> list_all tuid_ok ts"
  using assms
proof (induction nows arbitrary: latest)
  case (Cons now nows)
  have le: "nanos_since_epoch latest \<le> now" using Cons.prems by simp
  have room: "unat (tuid_inc latest) + 1 < 2 ^ 64" using Cons.prems(3) by simp
  obtain t where t: "tuid_new debug now latest = Some t"
    using tuid_new_total [OF le inc_not_max [OF room]] by blast
  note step = tuid_new_increases [OF Cons.prems(1) t le inc_not_max [OF room]]
  have "unat (tuid_inc t) + length nows < 2 ^ 64"
    using unat_tuid_new [OF t room] Cons.prems(3) by simp
  then obtain ts where "tuid_run debug nows t = Some ts" "length ts = length nows"
      "sorted_wrt (<) (t # ts)" "list_all tuid_ok ts"
    using Cons.IH [of t] step Cons.prems(2) by auto
  then show ?case
    using t step by (auto intro: order_less_trans)
qed simp

section \<open>Properties\<close>

text \<open>
  The derived lexicographic order on the bytes of a \<open>Tuid\<close> is the order of the 128 bit
  number it encodes (so raw bytes sort in time order), and identifiers compare by time first
  and by increment second.
\<close>

theorem tuid_order_is_numeric:
  assumes "tuid_ok a" "tuid_ok b"
  shows "(a < b \<longleftrightarrow> as_u128 a < as_u128 b) \<and> (a < b \<longleftrightarrow> as_bytes a < as_bytes b) \<and>
         (nanos_since_epoch a < nanos_since_epoch b \<longrightarrow> a < b)"
proof -
  have "as_bytes a < as_bytes b \<longleftrightarrow> as_u128 a < as_u128 b"
    using unsigned_less [of "as_u128 a", where 'a = nat] unsigned_less [of "as_u128 b", where 'a = nat]
    by (simp add: as_bytes_def be_bytes_less_iff) (simp add: to_be_bytes_def le_nat_nat_le word_less_nat_alt)
  moreover have "as_u128 a < as_u128 b" if "nanos_since_epoch a < nanos_since_epoch b"
    using that digit_compare [OF unat_less_64 unat_less_64, of "tuid_inc a" "unat (nanos_since_epoch a)"
        "tuid_inc b" "unat (nanos_since_epoch b)"]
    unfolding word_less_nat_alt unat_as_u128 by (simp add: algebra_simps)
  ultimately show ?thesis using tuid_less_iff [OF assms] by blast
qed

theorem tuid_order_is_numeric_witness:
  "as_bytes (from_nanos_and_inc 1 0xFFFF) < as_bytes (from_nanos_and_inc 2 0)"
proof -
  have "nanos_since_epoch (from_nanos_and_inc 1 0xFFFF) < nanos_since_epoch (from_nanos_and_inc 2 0)"
    by simp
  then show ?thesis
    using tuid_order_is_numeric [of "from_nanos_and_inc 1 0xFFFF" "from_nanos_and_inc 2 0"]
      tuid_ok_from_nanos by blast
qed

text \<open>
  C20. Round trips of identifiers: through the 128 bit number, through 16 big endian bytes,
  through the 32 character hex text, and through the prefixed text of a \<open>RowId\<close>, whose parser
  also accepts the text without a prefix and rejects every other namespace.
\<close>

theorem tuid_round_trips:
  assumes "tuid_ok t" "length bs = 16" "CHR ''_'' \<notin> set ns" "ns \<noteq> ''row''"
  shows "from_u128 (as_u128 t) = t \<and> as_u128 (from_u128 k) = k \<and>
         from_bytes (as_bytes t) = t \<and> as_bytes (from_bytes bs) = bs \<and>
         tuid_from_str (tuid_to_string t) = Ok t \<and>
         row_id_from_str (row_id_to_string t) = Ok t \<and>
         row_id_from_str (tuid_to_string t) = Ok t \<and>
         row_id_from_str (ns @ ''_'' @ tuid_to_string t) = Err (ExpectedRowPrefix (ns @ ''_'' @ tuid_to_string t))"
proof -
  have "split_once (CHR ''_'') (tuid_to_string t) = None"
    using tuid_to_string_clean [of "CHR ''_''" t] by (auto simp: split_once_def)
  moreover have "split_once (CHR ''_'') (ns @ ''_'' @ tuid_to_string t) = Some (ns, tuid_to_string t)"
  proof -
    have "\<forall>a \<in> set ns. a \<noteq> CHR ''_''" using assms(3) by auto
    then show ?thesis by (simp add: split_once_def takeWhile_append dropWhile_append)
  qed
  ultimately show ?thesis
    using assms by (simp add: from_u128_as_u128 as_u128_from_u128 from_bytes_def as_bytes_def to_from_be_bytes_16
        tuid_from_to_string row_id_from_str_def row_id_to_string_def split_once_row [simplified])
qed

theorem tuid_round_trips_witness:
  "row_id_from_str (row_id_to_string (from_nanos_and_inc 1 2)) = Ok (from_nanos_and_inc 1 2)"
  using tuid_round_trips [of "from_nanos_and_inc 1 2" "replicate 16 0" "''chunk''"] by simp

text \<open>
  C21. As long as the clock does not run backwards and the 64 bit increment has room, every run
  of the thread local generator succeeds and hands out strictly increasing, hence pairwise
  distinct, identifiers; \<open>incremented_by n\<close> is \<open>n\<close> times \<open>next\<close>, wrapping at 64 bits.
\<close>

theorem tuid_generator_strictly_increasing:
  assumes "tuid_ok latest" "sorted (nanos_since_epoch latest # nows)"
    and "unat (tuid_inc latest) + length nows < 2 ^ 64"
  shows "(\<exists>ts. tuid_run debug nows latest = Some ts \<and> length ts = length nows \<and>
            sorted_wrt (<) (latest # ts)) \<and>
         (tuid_next ^^ n) latest = incremented_by latest (word_of_nat n)"
  using tuid_run_sorted [OF assms] tuid_next_power [OF assms(1)] by blast

theorem tuid_generator_strictly_increasing_witness:
  "\<exists>ts. tuid_run True [5, 5, 7] (from_nanos_and_inc 4 9) = Some ts \<and> length ts = 3 \<and>
        sorted_wrt (<) (from_nanos_and_inc 4 9 # ts)"
proof -
  have "sorted (nanos_since_epoch (from_nanos_and_inc 4 9) # [5, 5, 7])"
    and "unat (tuid_inc (from_nanos_and_inc 4 9)) + length [5, 5, 7 :: u64] < 2 ^ 64" by simp_all
  from tuid_generator_strictly_increasing [OF tuid_ok_from_nanos this]
  show ?thesis by (metis length_Cons list.size(3) numeral_3_eq_3)
qed

end
