(* ===== verification/Path_Part.thy ===== *)
theory Path_Part
  imports Prelude
begin

text \<open>
  Entity path parts (\<open>src/crates/store/dl_log_types/src/path/entity_path_part.rs\<close>) over
  interned strings (\<open>src/crates/utils/dl_string_interner/src/lib.rs\<close>): escaping, the strict
  and the forgiving parser, and the exact condition under which a part survives printing and
  parsing.

  A \<open>char\<close> is its Unicode scalar value, a number, and a string the list of its characters.
  The Unicode tables behind \<open>is_alphanumeric\<close> and \<open>is_whitespace\<close> are parameters that are
  known on ASCII only; the string hash (the \<open>ahash\<close> crate) is a parameter as well.
\<close>

section \<open>Characters and the standard library\<close>

type_synonym ustr = "nat list"

definition ascii :: "string \<Rightarrow> ustr" where
  "ascii s = map of_char s"

record text_env =
  is_alphanumeric :: "nat \<Rightarrow> bool"
  is_whitespace :: "nat \<Rightarrow> bool"
  string_hash :: "ustr \<Rightarrow> u64"
  path_hash :: "u64 list \<Rightarrow> u64"

abbreviation ch_tab :: nat where "ch_tab \<equiv> 9"
abbreviation ch_newline :: nat where "ch_newline \<equiv> 10"
abbreviation ch_return :: nat where "ch_return \<equiv> 13"
abbreviation ch_space :: nat where "ch_space \<equiv> 32"
abbreviation ch_hash :: nat where "ch_hash \<equiv> 35"
abbreviation ch_plus :: nat where "ch_plus \<equiv> 43"
abbreviation ch_slash :: nat where "ch_slash \<equiv> 47"
abbreviation ch_colon :: nat where "ch_colon \<equiv> 58"
abbreviation ch_open :: nat where "ch_open \<equiv> 91"
abbreviation ch_backslash :: nat where "ch_backslash \<equiv> 92"
abbreviation ch_close :: nat where "ch_close \<equiv> 93"
abbreviation ch_n :: nat where "ch_n \<equiv> 110"
abbreviation ch_r :: nat where "ch_r \<equiv> 114"
abbreviation ch_t :: nat where "ch_t \<equiv> 116"
abbreviation ch_u :: nat where "ch_u \<equiv> 117"
abbreviation ch_lbrace :: nat where "ch_lbrace \<equiv> 123"
abbreviation ch_rbrace :: nat where "ch_rbrace \<equiv> 125"

text \<open>\<open>char::is_ascii_punctuation\<close>, \<open>char::len_utf8\<close>, \<open>char::from_u32\<close>.\<close>

definition is_ascii_punctuation :: "nat \<Rightarrow> bool" where
  "is_ascii_punctuation c \<longleftrightarrow>
     33 \<le> c \<and> c \<le> 47 \<or> 58 \<le> c \<and> c \<le> 64 \<or> 91 \<le> c \<and> c \<le> 96 \<or> 123 \<le> c \<and> c \<le> 126"

definition utf8_len :: "nat \<Rightarrow> nat" where
  "utf8_len c = (if c < 0x80 then 1 else if c < 0x800 then 2 else if c < 0x10000 then 3 else 4)"

definition is_scalar :: "nat \<Rightarrow> bool" where
  "is_scalar c \<longleftrightarrow> c < 0x110000 \<and> \<not> (0xD800 \<le> c \<and> c \<le> 0xDFFF)"

definition char_from_u32 :: "nat \<Rightarrow> nat option" where
  "char_from_u32 n = (if is_scalar n then Some n else None)"

text \<open>\<open>u32::from_str_radix(_, 16)\<close>: an optional plus sign, then at least one digit.\<close>

definition hex_value :: "nat \<Rightarrow> nat option" where
  "hex_value c =
     (if 48 \<le> c \<and> c \<le> 57 then Some (c - 48)
      else if 65 \<le> c \<and> c \<le> 70 then Some (c - 55)
      else if 97 \<le> c \<and> c \<le> 102 then Some (c - 87)
      else None)"

fun hex_loop :: "nat \<Rightarrow> ustr \<Rightarrow> nat option" where
  "hex_loop acc [] = Some acc"
| "hex_loop acc (c # cs) =
     (case hex_value c of
        None \<Rightarrow> None
      | Some d \<Rightarrow> if acc * 16 + d < 2 ^ 32 then hex_loop (acc * 16 + d) cs else None)"

definition u32_from_hex :: "ustr \<Rightarrow> nat option" where
  "u32_from_hex s =
     (case s of
        [] \<Rightarrow> None
      | c # cs \<Rightarrow> if c = ch_plus \<and> cs \<noteq> [] then hex_loop 0 cs else hex_loop 0 s)"

text \<open>The format \<open>{:04X}\<close>.\<close>

definition hex_char :: "nat \<Rightarrow> nat" where
  "hex_char d = (if d < 10 then 48 + d else 55 + d)"

fun upper_hex :: "nat \<Rightarrow> ustr" where
  "upper_hex n = (if n < 16 then [hex_char n] else upper_hex (n div 16) @ [hex_char (n mod 16)])"

declare upper_hex.simps [simp del]

definition fmt_04X :: "nat \<Rightarrow> ustr" where
  "fmt_04X n = (let s = upper_hex n in replicate (4 - length s) 48 @ s)"

section \<open>Interned strings\<close>

record InternedString =
  istr_hash :: u64
  istr_string :: ustr

text \<open>\<open>StringInterner::intern\<close>: the first string with a given hash is the one that is kept.\<close>

definition intern :: "text_env \<Rightarrow> (u64 \<rightharpoonup> ustr) \<Rightarrow> ustr \<Rightarrow> (u64 \<rightharpoonup> ustr) \<times> InternedString" where
  "intern u m s =
     (let k = string_hash u s in
      case m k of
        Some t \<Rightarrow> (m, \<lparr>istr_hash = k, istr_string = t\<rparr>)
      | None \<Rightarrow> (m(k \<mapsto> s), \<lparr>istr_hash = k, istr_string = s\<rparr>))"

text \<open>
  The result of interning when no other interned string has the same hash. The crate accepts
  the risk of collisions; the model of the paths is the collision free case.
\<close>

definition istr_new :: "text_env \<Rightarrow> ustr \<Rightarrow> InternedString" where
  "istr_new u s = \<lparr>istr_hash = string_hash u s, istr_string = s\<rparr>"

definition istr_eq :: "InternedString \<Rightarrow> InternedString \<Rightarrow> bool" where
  "istr_eq a b \<longleftrightarrow> istr_hash a = istr_hash b"

definition interner_ok :: "text_env \<Rightarrow> (u64 \<rightharpoonup> ustr) \<Rightarrow> bool" where
  "interner_ok u m \<longleftrightarrow> (\<forall>k t. m k = Some t \<longrightarrow> string_hash u t = k)"

text \<open>The nonempty newtypes (\<open>ComponentIdentifier\<close>) check one rule before interning.\<close>

datatype InvalidComponentIdentifierError = MustNotBeEmpty

definition component_identifier_try_new ::
  "text_env \<Rightarrow> ustr \<Rightarrow> (InvalidComponentIdentifierError, InternedString) result" where
  "component_identifier_try_new u s = (if s = [] then Err MustNotBeEmpty else Ok (istr_new u s))"

section \<open>Parts\<close>

datatype PathParseError =
    EmptyString
  | MissingPath
  | DoubleSlash
  | MissingSlash
  | TrailingSlash
  | EmptyPart
  | BadInstance ustr
  | UnexpectedInstance u64
  | UnexpectedComponent InternedString
  | MissingComponentIdentifier
  | InvalidComponentIdentifier InvalidComponentIdentifierError
  | TrailingColon
  | UnknownEscapeSequence nat
  | TrailingBackslash
  | MissingEscape nat
  | InvalidUnicodeEscape ustr

datatype EntityPathPart = EntityPathPart InternedString

definition part_new :: "text_env \<Rightarrow> ustr \<Rightarrow> EntityPathPart" where
  "part_new u s = EntityPathPart (istr_new u s)"

definition unescaped_str :: "EntityPathPart \<Rightarrow> ustr" where
  "unescaped_str p = (case p of EntityPathPart s \<Rightarrow> istr_string s)"

definition part_hash :: "EntityPathPart \<Rightarrow> u64" where
  "part_hash p = (case p of EntityPathPart s \<Rightarrow> istr_hash s)"

definition part_eq :: "EntityPathPart \<Rightarrow> EntityPathPart \<Rightarrow> bool" where
  "part_eq a b = (case (a, b) of (EntityPathPart s, EntityPathPart t) \<Rightarrow> istr_eq s t)"

definition RESERVED_NAMESPACE_PREFIX :: ustr where
  "RESERVED_NAMESPACE_PREFIX = ascii ''__''"

definition PROPERTIES_PART :: ustr where
  "PROPERTIES_PART = ascii ''__properties''"

definition part_properties :: "text_env \<Rightarrow> EntityPathPart" where
  "part_properties u = part_new u PROPERTIES_PART"

definition part_ui_string :: "EntityPathPart \<Rightarrow> ustr" where
  "part_ui_string p = unescaped_str p"

text \<open>
  \<open>parse_unicode_escape\<close>: take characters up to a closing brace or up to exactly six bytes,
  then require \<open>{XXXX}\<close>. It returns the character or the consumed characters, and the rest.
\<close>

fun take_escape :: "ustr \<Rightarrow> nat \<Rightarrow> ustr \<Rightarrow> ustr \<times> ustr" where
  "take_escape all_chars len [] = (all_chars, [])"
| "take_escape all_chars len (c # cs) =
     (let all_chars = all_chars @ [c]; len = len + utf8_len c in
      if c = ch_rbrace \<or> len = 6 then (all_chars, cs) else take_escape all_chars len cs)"

definition decode_escape :: "ustr \<Rightarrow> nat option" where
  "decode_escape all_chars =
     (case all_chars of
        [] \<Rightarrow> None
      | c # chars \<Rightarrow>
          if c \<noteq> ch_lbrace then None
          else if chars = [] \<or> last chars \<noteq> ch_rbrace then None
          else if sum_list (map utf8_len (butlast chars)) \<noteq> 4 then None
          else Option.bind (u32_from_hex (butlast chars)) char_from_u32)"

definition parse_unicode_escape :: "ustr \<Rightarrow> (ustr, nat) result \<times> ustr" where
  "parse_unicode_escape input =
     (case take_escape [] 0 input of
        (all_chars, rest) \<Rightarrow> (ok_or (decode_escape all_chars) all_chars, rest))"

lemma take_escape_length: "length (snd (take_escape acc n cs)) \<le> length cs"
  by (induction acc n cs rule: take_escape.induct) (auto simp: Let_def intro: le_SucI)

lemma take_escape_suffix: "set (snd (take_escape acc n cs)) \<subseteq> set cs"
  by (induction acc n cs rule: take_escape.induct) (auto simp: Let_def)

lemma parse_unicode_escape_length:
  "parse_unicode_escape cs = (r, rest) \<Longrightarrow> length rest \<le> length cs"
  using take_escape_length [of "[]" 0 cs]
  by (auto simp: parse_unicode_escape_def split: prod.splits)

definition print_as_is :: "text_env \<Rightarrow> nat \<Rightarrow> bool" where
  "print_as_is u c \<longleftrightarrow> is_alphanumeric u c \<or> c \<in> {95, 45, 46}"

function (sequential) parse_strict_chars :: "text_env \<Rightarrow> ustr \<Rightarrow> (PathParseError, ustr) result" where
  "parse_strict_chars u [] = Ok []"
| "parse_strict_chars u (c # cs) =
     (if c = ch_backslash then
        (case cs of
           [] \<Rightarrow> Err TrailingBackslash
         | e # cs' \<Rightarrow>
             if e = ch_n then try_bind (parse_strict_chars u cs') (\<lambda>out. Ok (ch_newline # out))
             else if e = ch_r then try_bind (parse_strict_chars u cs') (\<lambda>out. Ok (ch_return # out))
             else if e = ch_t then try_bind (parse_strict_chars u cs') (\<lambda>out. Ok (ch_tab # out))
             else if e = ch_u then
               (case parse_unicode_escape cs' of
                  (Inl s, rest) \<Rightarrow> Err (InvalidUnicodeEscape s)
                | (Inr x, rest) \<Rightarrow> try_bind (parse_strict_chars u rest) (\<lambda>out. Ok (x # out)))
             else if is_ascii_punctuation e \<or> e = ch_space then
               try_bind (parse_strict_chars u cs') (\<lambda>out. Ok (e # out))
             else Err (UnknownEscapeSequence e))
      else if print_as_is u c then try_bind (parse_strict_chars u cs) (\<lambda>out. Ok (c # out))
      else Err (MissingEscape c))"
  by pat_completeness auto
termination
  by (relation "measure (\<lambda>(u, cs). length cs)")
    (auto dest!: sym [of _ "parse_unicode_escape _"] parse_unicode_escape_length)

definition parse_strict :: "text_env \<Rightarrow> ustr \<Rightarrow> (PathParseError, EntityPathPart) result" where
  "parse_strict u input = try_bind (parse_strict_chars u input) (\<lambda>out. Ok (part_new u out))"

datatype path_warning = UnknownEscape nat | UnescapedWhitespace

text \<open>The output and the warnings, in the order in which they are pushed.\<close>

function (sequential) parse_forgiving_chars :: "text_env \<Rightarrow> ustr \<Rightarrow> ustr \<times> path_warning list" where
  "parse_forgiving_chars u [] = ([], [])"
| "parse_forgiving_chars u (c # cs) =
     (if c = ch_backslash then
        (case cs of
           [] \<Rightarrow> ([ch_backslash], [])
         | e # cs' \<Rightarrow>
             if e = ch_n then apfst ((#) ch_newline) (parse_forgiving_chars u cs')
             else if e = ch_r then apfst ((#) ch_return) (parse_forgiving_chars u cs')
             else if e = ch_t then apfst ((#) ch_tab) (parse_forgiving_chars u cs')
             else if e = ch_u then
               (case parse_unicode_escape cs' of
                  (Inl s, rest) \<Rightarrow> apfst ((@) ([ch_backslash, ch_u] @ s)) (parse_forgiving_chars u rest)
                | (Inr x, rest) \<Rightarrow> apfst ((#) x) (parse_forgiving_chars u rest))
             else if is_ascii_punctuation e \<or> e = ch_space then
               apfst ((#) e) (parse_forgiving_chars u cs')
             else map_prod ((#) e) ((#) (UnknownEscape e)) (parse_forgiving_chars u cs'))
      else if is_whitespace u c then
        map_prod ((#) c) ((#) UnescapedWhitespace) (parse_forgiving_chars u cs)
      else apfst ((#) c) (parse_forgiving_chars u cs))"
  by pat_completeness auto
termination
  by (relation "measure (\<lambda>(u, cs). length cs)")
    (auto dest!: sym [of _ "parse_unicode_escape _"] parse_unicode_escape_length)

definition parse_forgiving_with_warning ::
  "text_env \<Rightarrow> ustr \<Rightarrow> EntityPathPart \<times> path_warning list" where
  "parse_forgiving_with_warning u input =
     (case parse_forgiving_chars u input of (out, warnings) \<Rightarrow> (part_new u out, warnings))"

definition parse_forgiving :: "text_env \<Rightarrow> ustr \<Rightarrow> EntityPathPart" where
  "parse_forgiving u input = fst (parse_forgiving_with_warning u input)"

definition escape_char :: "text_env \<Rightarrow> nat \<Rightarrow> ustr" where
  "escape_char u c =
     (if print_as_is u c then [c]
      else if c = ch_newline then [ch_backslash, ch_n]
      else if c = ch_return then [ch_backslash, ch_r]
      else if c = ch_tab then [ch_backslash, ch_t]
      else if is_ascii_punctuation c \<or> c = ch_space then [ch_backslash, c]
      else [ch_backslash, ch_u, ch_lbrace] @ fmt_04X c @ [ch_rbrace])"

definition escape_str :: "text_env \<Rightarrow> ustr \<Rightarrow> ustr" where
  "escape_str u s = concat (map (escape_char u) s)"

definition escaped_string :: "text_env \<Rightarrow> EntityPathPart \<Rightarrow> ustr" where
  "escaped_string u p = escape_str u (unescaped_str p)"

text \<open>
  \<open>Ord for EntityPathPart\<close>: reserved parts last, otherwise the natural order of the strings,
  which the \<open>natord\<close> crate computes and which is a parameter.
\<close>

datatype Ordering = Less | Equal | Greater

definition starts_with_str :: "ustr \<Rightarrow> ustr \<Rightarrow> bool" where
  "starts_with_str s pre \<longleftrightarrow> take (length pre) s = pre"

definition part_cmp :: "(ustr \<Rightarrow> ustr \<Rightarrow> Ordering) \<Rightarrow> EntityPathPart \<Rightarrow> EntityPathPart \<Rightarrow> Ordering" where
  "part_cmp natural_compare p q =
     (let a = unescaped_str p; b = unescaped_str q in
      case (starts_with_str a RESERVED_NAMESPACE_PREFIX, starts_with_str b RESERVED_NAMESPACE_PREFIX) of
        (False, True) \<Rightarrow> Less
      | (True, False) \<Rightarrow> Greater
      | _ \<Rightarrow> natural_compare a b)"

section \<open>Properties of the standard library functions\<close>

text \<open>What is assumed of the Unicode tables: they are right on ASCII.\<close>

definition unicode_ok :: "text_env \<Rightarrow> bool" where
  "unicode_ok u \<longleftrightarrow>
     (\<forall>c < 128. is_alphanumeric u c \<longleftrightarrow>
        48 \<le> c \<and> c \<le> 57 \<or> 65 \<le> c \<and> c \<le> 90 \<or> 97 \<le> c \<and> c \<le> 122)"

lemma unicode_okD:
  "unicode_ok u \<Longrightarrow> c < 128 \<Longrightarrow>
     is_alphanumeric u c \<longleftrightarrow> 48 \<le> c \<and> c \<le> 57 \<or> 65 \<le> c \<and> c \<le> 90 \<or> 97 \<le> c \<and> c \<le> 122"
  by (simp add: unicode_ok_def)

lemma not_print_as_is:
  assumes "unicode_ok u" "c \<in> {ch_backslash, ch_slash, ch_colon, ch_hash, ch_open, ch_close}"
  shows "\<not> print_as_is u c"
  using assms(2) unicode_okD [OF assms(1), of c] by (auto simp: print_as_is_def)

lemma hex_value_char: "d < 16 \<Longrightarrow> hex_value (hex_char d) = Some d"
  by (auto simp: hex_value_def hex_char_def)

lemma hex_char_ascii: "d < 16 \<Longrightarrow> hex_char d < 0x80 \<and> hex_char d \<notin> {ch_plus, ch_rbrace}"
  by (auto simp: hex_char_def)

lemma upper_hex_small: "n < 16 \<Longrightarrow> upper_hex n = [hex_char n]"
  by (simp add: upper_hex.simps)

lemma upper_hex_step:
  "16 \<le> n \<Longrightarrow> upper_hex n = upper_hex (n div 16) @ [hex_char (n mod 16)]"
  by (subst upper_hex.simps) simp

lemma hex_char_0 [simp]: "hex_char 0 = 48"
  by (simp add: hex_char_def)

lemma fmt_04X_digits:
  assumes "c < 0x10000"
  shows "fmt_04X c = map hex_char [c div 4096, c div 256 mod 16, c div 16 mod 16, c mod 16]"
proof -
  have d: "c div 16 div 16 = c div 256" "c div 256 div 16 = c div 4096"
    by (simp_all flip: div_mult2_eq)
  have pad: "replicate 3 (48::nat) = [48, 48, 48]" "replicate 2 (48::nat) = [48, 48]"
    by (simp_all add: eval_nat_numeral)
  consider "c < 16" | "16 \<le> c" "c < 256" | "256 \<le> c" "c < 4096" | "4096 \<le> c"
    by linarith
  then show ?thesis
  proof cases
    case 1
    then show ?thesis by (simp add: fmt_04X_def upper_hex_small pad)
  next
    case 2
    then have "c div 16 < 16" by (simp add: less_mult_imp_div_less)
    with 2 show ?thesis
      by (simp add: fmt_04X_def upper_hex_small upper_hex_step pad)
  next
    case 3
    then have "c div 256 < 16" "16 \<le> c div 16"
      by (simp_all add: less_mult_imp_div_less less_eq_div_iff_mult_less_eq)
    with 3 show ?thesis
      by (simp add: fmt_04X_def upper_hex_small upper_hex_step d)
  next
    case 4
    then have "c div 4096 < 16" "16 \<le> c div 16" "16 \<le> c div 256"
      using assms by (simp_all add: less_mult_imp_div_less less_eq_div_iff_mult_less_eq)
    with 4 show ?thesis
      by (simp add: fmt_04X_def upper_hex_small upper_hex_step d)
  qed
qed

lemma hex_loop_digits:
  assumes "c < 0x10000"
  shows "hex_loop 0 (fmt_04X c) = Some c"
proof -
  have "c div 4096 < 16" using assms by (simp add: less_mult_imp_div_less)
  moreover have "((c div 4096 * 16 + c div 256 mod 16) * 16 + c div 16 mod 16) * 16 + c mod 16 = c"
  proof -
    have d: "c div 16 div 16 = c div 256" "c div 256 div 16 = c div 4096"
      by (simp_all flip: div_mult2_eq)
    have "c div 4096 * 16 + c div 256 mod 16 = c div 256"
      using div_mult_mod_eq [of "c div 256" 16] by (simp add: d)
    moreover have "c div 256 * 16 + c div 16 mod 16 = c div 16"
      using div_mult_mod_eq [of "c div 16" 16] by (simp add: d)
    moreover have "c div 16 * 16 + c mod 16 = c"
      by simp
    ultimately show ?thesis by simp
  qed
  moreover have "(c div 4096 * 16 + c div 256 mod 16) * 16 + c div 16 mod 16 < 2 ^ 32"
    "c div 4096 * 16 + c div 256 mod 16 < 2 ^ 32" "c < 2 ^ 32"
    using \<open>c div 4096 < 16\<close> assms mod_less_divisor [of 16 "c div 256"]
      mod_less_divisor [of 16 "c div 16"]
    by simp_all
  ultimately show ?thesis
    by (simp add: fmt_04X_digits [OF assms] hex_value_char)
qed

lemma take_escape_run:
  assumes "\<forall>c \<in> set cs. c < 0x80 \<and> c \<noteq> ch_rbrace" "n + length cs < 6"
  shows "take_escape acc n (cs @ rest) = take_escape (acc @ cs) (n + length cs) rest"
  using assms
  by (induction cs arbitrary: acc n) (auto simp: utf8_len_def)

lemma parse_unicode_escape_fmt:
  assumes "c < 0x10000" "is_scalar c"
  shows "parse_unicode_escape (ch_lbrace # fmt_04X c @ ch_rbrace # rest) = (Ok c, rest)"
proof -
  let ?h = "fmt_04X c"
  have digits: "?h = map hex_char [c div 4096, c div 256 mod 16, c div 16 mod 16, c mod 16]"
    by (rule fmt_04X_digits [OF assms(1)])
  have small: "\<forall>x \<in> set ?h. x < 0x80 \<and> x \<noteq> ch_rbrace \<and> x \<noteq> ch_plus"
    using assms(1) hex_char_ascii by (auto simp: digits less_mult_imp_div_less)
  then have "take_escape [] 0 ((ch_lbrace # ?h) @ ch_rbrace # rest)
    = ((ch_lbrace # ?h) @ [ch_rbrace], rest)"
    by (subst take_escape_run) (auto simp: digits)
  moreover have "sum_list (map utf8_len ?h) = 4"
    using small by (simp add: digits utf8_len_def)
  moreover have "u32_from_hex ?h = Some c"
    using small hex_loop_digits [OF assms(1)] by (auto simp: u32_from_hex_def digits)
  ultimately show ?thesis
    using assms(2)
    by (simp add: parse_unicode_escape_def decode_escape_def char_from_u32_def butlast_append)
qed

lemma hex_char_range: "d < 16 \<Longrightarrow> 48 \<le> hex_char d \<and> hex_char d \<le> 57 \<or> 65 \<le> hex_char d \<and> hex_char d \<le> 70"
  by (auto simp: hex_char_def)

lemma upper_hex_range: "x \<in> set (upper_hex n) \<Longrightarrow> 48 \<le> x \<and> x \<le> 57 \<or> 65 \<le> x \<and> x \<le> 70"
proof (induction n rule: upper_hex.induct)
  case (1 n)
  then show ?case
    using hex_char_range [of n] hex_char_range [of "n mod 16"]
    by (cases "n < 16") (auto simp: upper_hex_small upper_hex_step)
qed

lemma fmt_04X_range: "x \<in> set (fmt_04X n) \<Longrightarrow> 48 \<le> x \<and> x \<le> 57 \<or> 65 \<le> x \<and> x \<le> 70"
  using upper_hex_range [of x n] by (auto simp: fmt_04X_def Let_def split: if_splits)

lemma upper_hex_ascii: "x \<in> set (upper_hex n) \<Longrightarrow> x < 0x80 \<and> x \<noteq> ch_rbrace"
  using upper_hex_range [of x n] by auto

lemma upper_hex_length: "16 ^ k \<le> n \<Longrightarrow> k < length (upper_hex n)"
proof (induction k arbitrary: n)
  case (Suc k)
  then have "16 ^ k \<le> n div 16" "16 \<le> n"
    using Suc.prems one_le_power [of "16::nat" k]
    by (simp_all add: less_eq_div_iff_mult_less_eq mult.commute, linarith)
  with Suc.IH show ?case by (simp add: upper_hex_step)
next
  case 0
  show ?case by (subst upper_hex.simps) simp
qed

lemma parse_unicode_escape_long:
  assumes "0x10000 \<le> c"
  shows "\<exists>s r. parse_unicode_escape (ch_lbrace # fmt_04X c @ rest) = (Err s, r)"
proof -
  let ?h = "upper_hex c"
  have len: "4 < length ?h"
    using assms upper_hex_length [of 4 c] by simp
  then have h: "?h = take 4 ?h @ ?h ! 4 # drop 5 ?h"
    using id_take_nth_drop [of 4 ?h] by simp
  have "fmt_04X c = ?h" using len by (simp add: fmt_04X_def)
  moreover have "take_escape [] 0 ((ch_lbrace # take 4 ?h) @ ?h ! 4 # drop 5 ?h @ rest)
    = ((ch_lbrace # take 4 ?h) @ [?h ! 4], drop 5 ?h @ rest)"
    using len upper_hex_ascii [of _ c] nth_mem [of 4 ?h]
    by (subst take_escape_run) (auto simp: utf8_len_def dest: in_set_takeD)
  moreover have "?h ! 4 \<noteq> ch_rbrace"
    using len upper_hex_ascii nth_mem by blast
  moreover have "ch_lbrace # ?h @ rest = (ch_lbrace # take 4 ?h) @ ?h ! 4 # drop 5 ?h @ rest"
    by (subst h) simp
  ultimately have "take_escape [] 0 (ch_lbrace # fmt_04X c @ rest)
      = ((ch_lbrace # take 4 ?h) @ [?h ! 4], drop 5 ?h @ rest)"
    by (simp only:)
  with \<open>?h ! 4 \<noteq> ch_rbrace\<close> show ?thesis
    by (simp add: parse_unicode_escape_def decode_escape_def del: take_escape.simps)
qed

lemma hex_loop_bound: "hex_loop acc cs = Some v \<Longrightarrow> v < (acc + 1) * 16 ^ length cs"
proof (induction acc cs rule: hex_loop.induct)
  case (2 acc c cs)
  then obtain d where d: "hex_value c = Some d" "hex_loop (acc * 16 + d) cs = Some v" "d < 16"
    by (auto simp: hex_value_def split: option.splits if_splits)
  then have "v < (acc * 16 + d + 1) * 16 ^ length cs"
    using 2 by (auto split: if_splits)
  also have "\<dots> \<le> ((acc + 1) * 16) * 16 ^ length cs"
    using d(3) by (intro mult_right_mono) auto
  finally show ?case by (simp add: algebra_simps)
qed simp

lemma length_le_utf8: "length s \<le> sum_list (map utf8_len s)"
  by (induction s) (auto simp: utf8_len_def)

lemma parse_unicode_escape_Ok:
  assumes "parse_unicode_escape cs = (Ok c, rest)"
  shows "c < 0x10000 \<and> is_scalar c"
proof -
  obtain s where s: "u32_from_hex s = Some c" "sum_list (map utf8_len s) = 4" "is_scalar c"
    using assms
    by (auto simp: parse_unicode_escape_def decode_escape_def char_from_u32_def ok_or_def
        bind_eq_Some_conv split: prod.splits option.splits list.splits if_splits)
  then obtain t where t: "hex_loop 0 t = Some c" "length t \<le> 4"
    using length_le_utf8 [of s]
    by (auto simp: u32_from_hex_def simp del: hex_loop.simps split: list.splits if_splits)
  then have "c < 16 ^ length t" using hex_loop_bound [of 0 t c] by simp
  also have "\<dots> \<le> 16 ^ 4" using t(2) by (intro power_increasing) auto
  finally show ?thesis using s(3) by simp
qed

section \<open>Escaping and parsing a part\<close>

text \<open>The characters that come back from their escape sequence.\<close>

definition escapable :: "text_env \<Rightarrow> nat \<Rightarrow> bool" where
  "escapable u c \<longleftrightarrow> is_alphanumeric u c \<or> c < 0x10000"

lemma escape_char_cases:
  obtains (as_is) "print_as_is u c" "escape_char u c = [c]"
  | (newline) "c = ch_newline" "escape_char u c = [ch_backslash, ch_n]"
  | (return) "c = ch_return" "escape_char u c = [ch_backslash, ch_r]"
  | (tab) "c = ch_tab" "escape_char u c = [ch_backslash, ch_t]"
  | (punctuation) "is_ascii_punctuation c \<or> c = ch_space" "escape_char u c = [ch_backslash, c]"
  | (unicode) "\<not> is_alphanumeric u c" "\<not> is_ascii_punctuation c"
      "escape_char u c = [ch_backslash, ch_u, ch_lbrace] @ fmt_04X c @ [ch_rbrace]"
proof (cases "print_as_is u c")
  case False
  then show ?thesis
    using that by (cases "c \<in> {ch_newline, ch_return, ch_tab}"; cases "is_ascii_punctuation c \<or> c = ch_space")
      (auto simp: escape_char_def print_as_is_def)
qed (use that(1) in \<open>simp add: escape_char_def\<close>)

lemma punctuation_no_letter:
  "is_ascii_punctuation c \<or> c = ch_space \<Longrightarrow> c \<noteq> ch_n \<and> c \<noteq> ch_r \<and> c \<noteq> ch_t \<and> c \<noteq> ch_u"
  by (auto simp: is_ascii_punctuation_def)

lemma strict_escape_char:
  assumes "unicode_ok u" "is_scalar c" "escapable u c"
  shows "parse_strict_chars u (escape_char u c @ rest)
    = try_bind (parse_strict_chars u rest) (\<lambda>out. Ok (c # out))"
proof (cases u c rule: escape_char_cases)
  case as_is
  then show ?thesis using not_print_as_is [OF assms(1), of ch_backslash] by auto
next
  case punctuation
  then show ?thesis using punctuation_no_letter [OF punctuation(1)] by simp
next
  case unicode
  then show ?thesis using assms(2,3) by (simp add: escapable_def parse_unicode_escape_fmt)
qed simp_all

lemma forgiving_escape_char:
  assumes "unicode_ok u" "is_scalar c" "escapable u c"
  shows "fst (parse_forgiving_chars u (escape_char u c @ rest)) = c # fst (parse_forgiving_chars u rest)"
proof (cases u c rule: escape_char_cases)
  case as_is
  then show ?thesis using not_print_as_is [OF assms(1), of ch_backslash] by auto
next
  case punctuation
  then show ?thesis using punctuation_no_letter [OF punctuation(1)] by simp
next
  case unicode
  then show ?thesis using assms(2,3) by (simp add: escapable_def parse_unicode_escape_fmt)
qed simp_all

lemma strict_escape_char_fails:
  assumes "\<not> escapable u c" "c \<noteq> ch_backslash"
  shows "\<exists>s. parse_strict_chars u (escape_char u c @ rest) = Err (InvalidUnicodeEscape s)"
proof -
  have c: "0x10000 \<le> c" "\<not> is_alphanumeric u c"
    using assms(1) by (auto simp: escapable_def)
  obtain s r where "parse_unicode_escape (ch_lbrace # fmt_04X c @ ch_rbrace # rest) = (Err s, r)"
    using parse_unicode_escape_long [OF c(1)] by blast
  with c show ?thesis
    by (simp add: escape_char_def print_as_is_def is_ascii_punctuation_def)
qed

lemma escape_str_simps [simp]:
  "escape_str u [] = []"
  "escape_str u (c # s) = escape_char u c @ escape_str u s"
  by (simp_all add: escape_str_def)

lemma strict_escape_str:
  assumes "unicode_ok u" "\<forall>c \<in> set s. is_scalar c \<and> escapable u c"
  shows "parse_strict_chars u (escape_str u s) = Ok s"
  using assms(2) by (induction s) (auto simp: strict_escape_char assms(1))

lemma strict_escape_str_fails:
  assumes "unicode_ok u" "\<forall>c \<in> set s. is_scalar c" "\<exists>c \<in> set s. \<not> escapable u c"
  shows "\<exists>e. parse_strict_chars u (escape_str u s) = Err e"
  using assms(2,3)
proof (induction s)
  case (Cons c s)
  show ?case
  proof (cases "escapable u c")
    case True
    with Cons show ?thesis by (auto simp: strict_escape_char assms(1))
  next
    case False
    then show ?thesis
      using strict_escape_char_fails [OF False, of "escape_str u s"] by (auto simp: escapable_def)
  qed
qed simp

lemma forgiving_escape_str:
  assumes "unicode_ok u" "\<forall>c \<in> set s. is_scalar c \<and> escapable u c"
  shows "fst (parse_forgiving_chars u (escape_str u s)) = s"
  using assms(2) by (induction s) (auto simp: forgiving_escape_char assms(1))

lemma strict_Ok_cases:
  assumes "parse_strict_chars u s = Ok out"
  obtains (nil) "s = []" "out = []"
  | (simple) e cs x xs where "s = ch_backslash # e # cs" "parse_strict_chars u cs = Ok xs" "out = x # xs"
      "e = ch_n \<and> x = ch_newline \<or> e = ch_r \<and> x = ch_return \<or> e = ch_t \<and> x = ch_tab"
  | (unicode) cs rest x xs where "s = ch_backslash # ch_u # cs" "parse_unicode_escape cs = (Ok x, rest)"
      "parse_strict_chars u rest = Ok xs" "out = x # xs"
  | (punctuation) e cs xs where "s = ch_backslash # e # cs" "parse_strict_chars u cs = Ok xs"
      "out = e # xs" "is_ascii_punctuation e \<or> e = ch_space"
  | (as_is) c cs xs where "s = c # cs" "c \<noteq> ch_backslash" "print_as_is u c"
      "parse_strict_chars u cs = Ok xs" "out = c # xs"
proof (cases s)
  case Nil
  then show ?thesis using assms that(1) by simp
next
  case (Cons c cs)
  show ?thesis
  proof (cases "c = ch_backslash")
    case False
    then show ?thesis using assms Cons that(5) by (auto simp: try_bind_Ok_iff split: if_splits)
  next
    case bs: True
    obtain e cs' where cs: "cs = e # cs'"
      using assms Cons bs by (cases cs) auto
    show ?thesis
    proof (cases "e = ch_u")
      case True
      obtain r rest where r: "parse_unicode_escape cs' = (r, rest)" by fastforce
      with assms Cons bs cs True obtain x where "r = Ok x" by (cases r) auto
      with assms Cons bs cs True r that(3) show ?thesis by (auto simp: try_bind_Ok_iff)
    next
      case False
      with assms Cons bs cs have "e = ch_n \<or> e = ch_r \<or> e = ch_t \<or> is_ascii_punctuation e \<or> e = ch_space"
        by (auto split: if_splits)
      then show ?thesis
        using assms Cons bs cs False that(2,4) punctuation_no_letter [of e]
        by (elim disjE) (fastforce simp: try_bind_Ok_iff)+
    qed
  qed
qed

lemma strict_agrees_forgiving:
  "parse_strict_chars u s = Ok out \<Longrightarrow> fst (parse_forgiving_chars u s) = out"
proof (induction s arbitrary: out rule: length_induct)
  case (1 s)
  from 1(2) show ?case
  proof (cases rule: strict_Ok_cases)
    case (unicode cs rest x xs)
    then show ?thesis
      using 1(1) parse_unicode_escape_length [OF unicode(2)] by (simp add: less_Suc_eq_le le_SucI)
  next
    case (punctuation e cs xs)
    then show ?thesis using 1(1) punctuation_no_letter [OF punctuation(4)] by simp
  qed (use 1(1) in auto)
qed

lemma escapable_ascii: "c < 0x10000 \<Longrightarrow> escapable u c"
  by (simp add: escapable_def)

lemma strict_output_escapable:
  "parse_strict_chars u s = Ok out \<Longrightarrow> \<forall>c \<in> set s. is_scalar c \<Longrightarrow>
   \<forall>c \<in> set out. is_scalar c \<and> escapable u c"
proof (induction s arbitrary: out rule: length_induct)
  case (1 s)
  have IH: "\<forall>c \<in> set xs. is_scalar c \<and> escapable u c"
    if "length cs < length s" "parse_strict_chars u cs = Ok xs" "set cs \<subseteq> set s" for cs xs
    using 1(1,3) that by blast
  from 1(2) show ?case
  proof (cases rule: strict_Ok_cases)
    case (simple e cs x xs)
    with IH [of cs xs] show ?thesis by (auto simp: is_scalar_def escapable_ascii)
  next
    case (unicode cs rest x xs)
    have "set rest \<subseteq> set cs"
      using unicode(2) take_escape_suffix [of "[]" 0 cs]
      by (auto simp: parse_unicode_escape_def split: prod.splits)
    with IH [of rest xs] unicode parse_unicode_escape_length [OF unicode(2)]
      parse_unicode_escape_Ok [OF unicode(2)]
    show ?thesis by (auto simp: escapable_ascii)
  next
    case (punctuation e cs xs)
    with IH [of cs xs] show ?thesis
      by (auto simp: is_scalar_def escapable_ascii is_ascii_punctuation_def)
  next
    case (as_is c cs xs)
    with IH [of cs xs] 1(3) show ?thesis
      by (auto simp: print_as_is_def escapable_def)
  qed simp
qed

lemma strict_nonempty: "parse_strict_chars u s = Ok out \<Longrightarrow> s \<noteq> [] \<Longrightarrow> out \<noteq> []"
  by (erule strict_Ok_cases) auto

lemma forgiving_nonempty: "s \<noteq> [] \<Longrightarrow> fst (parse_forgiving_chars u s) \<noteq> []"
  by (cases s) (auto split: list.splits prod.splits sum.splits)

lemma unescaped_part_new [simp]: "unescaped_str (part_new u s) = s"
  by (simp add: unescaped_str_def part_new_def istr_new_def)

lemma part_new_inject [simp]: "part_new u s = part_new u t \<longleftrightarrow> s = t"
  by (auto simp: part_new_def istr_new_def)

section \<open>Interning\<close>

lemma intern_collision_free:
  assumes "interner_ok u m" "inj_on (string_hash u) (insert s (ran m))"
  shows "snd (intern u m s) = istr_new u s \<and> interner_ok u (fst (intern u m s))"
proof (cases "m (string_hash u s)")
  case None
  with assms show ?thesis by (auto simp: intern_def istr_new_def interner_ok_def Let_def)
next
  case (Some t)
  with assms(1) have "string_hash u t = string_hash u s" by (simp add: interner_ok_def)
  with Some assms(2) have "t = s" by (auto simp: inj_on_def ranI)
  with Some assms show ?thesis by (auto simp: intern_def istr_new_def)
qed

section \<open>Properties\<close>

text \<open>An environment for the witnesses: letters and digits of ASCII, and a simple hash.\<close>

definition ascii_env :: text_env where
  "ascii_env = \<lparr>is_alphanumeric = (\<lambda>c. 48 \<le> c \<and> c \<le> 57 \<or> 65 \<le> c \<and> c \<le> 90 \<or> 97 \<le> c \<and> c \<le> 122),
     is_whitespace = (\<lambda>c. 9 \<le> c \<and> c \<le> 13 \<or> c = 32),
     string_hash = (\<lambda>s. foldr (\<lambda>c h. h * 33 + of_nat c) s 5381),
     path_hash = (\<lambda>hs. foldr (\<lambda>x h. h * 31 + x) hs 7)\<rparr>"

lemma ascii_env_ok [simp]: "unicode_ok ascii_env"
  by (auto simp: unicode_ok_def ascii_env_def)

text \<open>
  C15. A part survives printing with escapes and strict parsing exactly when each of its
  characters is alphanumeric or lies in the basic multilingual plane: escape sequences have
  room for four hexadecimal digits only, so that for instance an emoji is printed as an
  escape sequence that the parser rejects.
\<close>

theorem part_round_trip_iff:
  assumes "unicode_ok u" "\<forall>c \<in> set s. is_scalar c"
  shows "parse_strict u (escaped_string u (part_new u s)) = Ok (part_new u s)
    \<longleftrightarrow> (\<forall>c \<in> set s. is_alphanumeric u c \<or> c < 0x10000)"
proof (cases "\<forall>c \<in> set s. escapable u c")
  case True
  then show ?thesis
    using assms strict_escape_str [of u s]
    by (simp add: parse_strict_def escaped_string_def escapable_def)
next
  case False
  then obtain e where "parse_strict_chars u (escape_str u s) = Err e"
    using assms strict_escape_str_fails [of u s] by auto
  with False show ?thesis
    by (auto simp: parse_strict_def escaped_string_def escapable_def)
qed

theorem part_round_trip_iff_witness:
  "parse_strict ascii_env (escaped_string ascii_env (part_new ascii_env (0x1F600 # ascii ''hi'')))
     \<noteq> Ok (part_new ascii_env (0x1F600 # ascii ''hi''))"
  using part_round_trip_iff [of ascii_env "0x1F600 # ascii ''hi''"]
  by (simp add: ascii_def is_scalar_def) (simp add: ascii_env_def)

text \<open>
  Strict parsing gives a normal form: what the strict parser accepts, the forgiving parser
  reads in the same way, the result is empty only for empty input, and its printed form parses back to it.
\<close>

theorem part_strict_normal_form:
  assumes "unicode_ok u" "\<forall>c \<in> set input. is_scalar c" "parse_strict u input = Ok p"
  shows "parse_strict u (escaped_string u p) = Ok p \<and> parse_forgiving u input = p
    \<and> parse_forgiving u (escaped_string u p) = p \<and> (unescaped_str p = [] \<longleftrightarrow> input = [])"
proof -
  obtain out where out: "parse_strict_chars u input = Ok out" "p = part_new u out"
    using assms(3) by (auto simp: parse_strict_def try_bind_Ok_iff)
  then have "\<forall>c \<in> set out. is_scalar c \<and> escapable u c"
    using strict_output_escapable assms(2) by blast
  then have "parse_strict_chars u (escape_str u out) = Ok out"
    using strict_escape_str [OF assms(1)] by blast
  then show ?thesis
    using out strict_agrees_forgiving [of u input out] strict_nonempty [of u input out]
      strict_agrees_forgiving [of u "escape_str u out" out]
    by (cases "parse_forgiving_chars u input"; cases "parse_forgiving_chars u (escape_str u out)")
      (auto simp: parse_strict_def escaped_string_def parse_forgiving_def
        parse_forgiving_with_warning_def)
qed

theorem part_strict_normal_form_witness:
  "parse_forgiving ascii_env (ascii ''Hello'' @ [92, 32, 92, 117] @ ascii ''{262E}'')
     = part_new ascii_env (ascii ''Hello'' @ [32, 0x262E])"
proof -
  let ?s = "ascii ''Hello'' @ [92, 32, 92, 117] @ ascii ''{262E}''"
  have "parse_strict_chars ascii_env ?s = Ok (ascii ''Hello'' @ [32, 0x262E])"
    by (simp add: ascii_def ascii_env_def print_as_is_def parse_unicode_escape_def utf8_len_def
        decode_escape_def u32_from_hex_def hex_value_def char_from_u32_def is_scalar_def
        is_ascii_punctuation_def)
  then have "parse_strict ascii_env ?s = Ok (part_new ascii_env (ascii ''Hello'' @ [32, 0x262E]))"
    by (simp add: parse_strict_def)
  moreover have "\<forall>c \<in> set ?s. is_scalar c"
    by (simp add: ascii_def is_scalar_def)
  ultimately show ?thesis
    using part_strict_normal_form [of ascii_env ?s] by simp
qed

end
