(* ===== verification/Entity_Path.thy ===== *)
theory Entity_Path
  imports Path_Part "HOL-Library.AList"
begin

text \<open>
  Entity paths (\<open>src/crates/store/dl_log_types/src/path/entity_path.rs\<close>): a list of parts with a
  precomputed 64 bit hash. Equality compares hashes only and \<open>starts_with\<close> takes a short cut
  through them, so that the theorems about paths ask that the paths at hand do not collide;
  a hash function into 64 bits cannot be injective on all paths.
\<close>

section \<open>The structure and its operations\<close>

record EntityPath =
  ep_hash :: u64
  ep_parts :: "EntityPathPart list"

definition path_from :: "text_env \<Rightarrow> EntityPathPart list \<Rightarrow> EntityPath" where
  "path_from u parts = \<lparr>ep_hash = path_hash u (map part_hash parts), ep_parts = parts\<rparr>"

definition path_root :: "text_env \<Rightarrow> EntityPath" where
  "path_root u = path_from u []"

definition path_properties :: "text_env \<Rightarrow> EntityPath" where
  "path_properties u = path_from u [part_properties u]"

definition is_reserved :: "EntityPath \<Rightarrow> bool" where
  "is_reserved p =
     (case ep_parts p of
        [] \<Rightarrow> False
      | part # _ \<Rightarrow> starts_with_str (unescaped_str part) RESERVED_NAMESPACE_PREFIX)"

definition is_root :: "EntityPath \<Rightarrow> bool" where
  "is_root p \<longleftrightarrow> ep_parts p = []"

definition path_ui_string :: "EntityPath \<Rightarrow> ustr" where
  "path_ui_string p =
     (if is_root p then [ch_slash]
      else concat (map (\<lambda>part. ch_slash # part_ui_string part) (ep_parts p)))"

definition path_to_string :: "text_env \<Rightarrow> EntityPath \<Rightarrow> ustr" where
  "path_to_string u p =
     (if is_root p then [ch_slash]
      else concat (map (\<lambda>part. ch_slash # escaped_string u part) (ep_parts p)))"

definition from_single_string :: "text_env \<Rightarrow> ustr \<Rightarrow> EntityPath" where
  "from_single_string u s = path_from u [part_new u s]"

definition path_eq :: "EntityPath \<Rightarrow> EntityPath \<Rightarrow> bool" where
  "path_eq p q \<longleftrightarrow> ep_hash p = ep_hash q"

definition path_len :: "EntityPath \<Rightarrow> nat" where
  "path_len p = length (ep_parts p)"

definition zip_all_eq :: "EntityPath \<Rightarrow> EntityPath \<Rightarrow> bool" where
  "zip_all_eq p q = list_all (\<lambda>(a, b). part_eq a b) (zip (ep_parts p) (ep_parts q))"

definition starts_with :: "EntityPath \<Rightarrow> EntityPath \<Rightarrow> bool" where
  "starts_with self pre \<longleftrightarrow>
     ep_hash self = ep_hash pre \<or> path_len pre \<le> path_len self \<and> zip_all_eq self pre"

text \<open>The slice \<open>parts[prefix.len()..]\<close> panics (the outer \<open>None\<close>) when it is out of range.\<close>

definition path_strip_prefix :: "text_env \<Rightarrow> EntityPath \<Rightarrow> EntityPath \<Rightarrow> EntityPath option option" where
  "path_strip_prefix u self pre =
     (if starts_with self pre
      then if path_len pre \<le> path_len self
           then Some (Some (path_from u (drop (path_len pre) (ep_parts self))))
           else None
      else Some None)"

definition is_descendant_of :: "EntityPath \<Rightarrow> EntityPath \<Rightarrow> bool" where
  "is_descendant_of self other \<longleftrightarrow> path_len other < path_len self \<and> zip_all_eq self other"

definition is_child_of :: "EntityPath \<Rightarrow> EntityPath \<Rightarrow> bool" where
  "is_child_of self other \<longleftrightarrow> path_len other + 1 = path_len self \<and> zip_all_eq self other"

definition is_property :: "text_env \<Rightarrow> EntityPath \<Rightarrow> bool" where
  "is_property u self = starts_with self (path_properties u)"

definition path_parent :: "text_env \<Rightarrow> EntityPath \<Rightarrow> EntityPath option" where
  "path_parent u self =
     (case path_len self of
        0 \<Rightarrow> None
      | Suc n_minus_1 \<Rightarrow> Some (path_from u (take n_minus_1 (ep_parts self))))"

definition path_join :: "text_env \<Rightarrow> EntityPath \<Rightarrow> EntityPath \<Rightarrow> EntityPath" where
  "path_join u self other = path_from u (ep_parts self @ ep_parts other)"

definition incremental_walk :: "text_env \<Rightarrow> EntityPath option \<Rightarrow> EntityPath \<Rightarrow> EntityPath list" where
  "incremental_walk u start end_path =
     (if (case start of None \<Rightarrow> True | Some s \<Rightarrow> is_descendant_of end_path s)
      then let first_ind = (case start of None \<Rightarrow> 0 | Some s \<Rightarrow> path_len s + 1) in
           map (\<lambda>i. path_from u (take i (ep_parts end_path))) [first_ind ..< path_len end_path + 1]
      else [])"

fun common_parts :: "EntityPathPart list \<Rightarrow> EntityPathPart list \<Rightarrow> EntityPathPart list" where
  "common_parts (a # as) (b # bs) = (if part_eq a b then a # common_parts as bs else [])"
| "common_parts _ _ = []"

definition common_ancestor :: "text_env \<Rightarrow> EntityPath \<Rightarrow> EntityPath \<Rightarrow> EntityPath" where
  "common_ancestor u self other = path_from u (common_parts (ep_parts self) (ep_parts other))"

fun common_ancestor_of :: "text_env \<Rightarrow> EntityPath list \<Rightarrow> EntityPath" where
  "common_ancestor_of u [] = path_root u"
| "common_ancestor_of u (first # entities) = foldl (common_ancestor u) first entities"

text \<open>\<open>Ord for EntityPath\<close>: the lexicographic order of the parts.\<close>

fun parts_cmp :: "(ustr \<Rightarrow> ustr \<Rightarrow> Ordering) \<Rightarrow> EntityPathPart list \<Rightarrow> EntityPathPart list \<Rightarrow> Ordering" where
  "parts_cmp nat_cmp [] [] = Equal"
| "parts_cmp nat_cmp [] (b # bs) = Less"
| "parts_cmp nat_cmp (a # as) [] = Greater"
| "parts_cmp nat_cmp (a # as) (b # bs) =
     (case part_cmp nat_cmp a b of Equal \<Rightarrow> parts_cmp nat_cmp as bs | c \<Rightarrow> c)"

definition path_cmp :: "(ustr \<Rightarrow> ustr \<Rightarrow> Ordering) \<Rightarrow> EntityPath \<Rightarrow> EntityPath \<Rightarrow> Ordering" where
  "path_cmp nat_cmp p q = parts_cmp nat_cmp (ep_parts p) (ep_parts q)"

section \<open>Short names\<close>

record ShortenedEntity =
  short_entity :: EntityPath
  num_part :: nat

fun join_with :: "nat \<Rightarrow> ustr list \<Rightarrow> ustr" where
  "join_with sep [] = []"
| "join_with sep [s] = s"
| "join_with sep (s # t # ss) = s @ sep # join_with sep (t # ss)"

definition short_ui_string :: "ShortenedEntity \<Rightarrow> ustr" where
  "short_ui_string se =
     (let parts = ep_parts (short_entity se) in
      if parts = [] then [ch_slash]
      else join_with ch_slash (map part_ui_string (rev (take (num_part se) (rev parts)))))"

type_synonym label_map = "(ustr \<times> ShortenedEntity) list"

text \<open>
  The inner \<open>loop\<close>: returns the labels, the bad labels and the entity with the number of parts
  that it ends up with. The label map is an association list without duplicate keys.
\<close>

definition bump :: "ShortenedEntity \<Rightarrow> ShortenedEntity" where
  "bump se = se\<lparr>num_part := num_part se + 1\<rparr>"

definition relabel_existing :: "label_map \<Rightarrow> ustr \<Rightarrow> label_map" where
  "relabel_existing m new_label =
     (case map_of m new_label of
        None \<Rightarrow> m
      | Some existing \<Rightarrow>
          AList.update (short_ui_string (bump existing)) (bump existing) (AList.delete new_label m))"

lemma short_ui_string_full:
  "length (ep_parts (short_entity se)) \<le> num_part se \<Longrightarrow> short_ui_string (bump se) = short_ui_string se"
  by (simp add: short_ui_string_def bump_def Let_def)

function disambiguate :: "label_map \<Rightarrow> ustr set \<Rightarrow> ShortenedEntity \<Rightarrow>
    label_map \<times> ustr set \<times> ShortenedEntity" where
  "disambiguate m bad se =
     (let new_label = short_ui_string se in
      if map_of m new_label \<noteq> None \<or> new_label \<in> bad then
        let bad = insert new_label bad;
            m = relabel_existing m new_label;
            se = bump se in
        if short_ui_string se = new_label then (m, bad, se) else disambiguate m bad se
      else (m, bad, se))"
  by auto
termination
proof (relation "measure (\<lambda>(m, bad, se). length (ep_parts (short_entity se)) + 1 - num_part se)",
    goal_cases)
  case (2 m bad se new_label bad' m' se')
  then have "num_part se < length (ep_parts (short_entity se))"
    using short_ui_string_full [of se] by (meson not_le)
  with 2 show ?case by (simp add: bump_def)
qed simp

declare disambiguate.simps [simp del]

definition short_names_step :: "label_map \<times> ustr set \<Rightarrow> EntityPath \<Rightarrow> label_map \<times> ustr set" where
  "short_names_step = (\<lambda>(m, bad) entity.
     case disambiguate m bad \<lparr>short_entity = entity, num_part = 1\<rparr> of
       (m, bad, se) \<Rightarrow> (AList.update (short_ui_string se) se m, bad))"

text \<open>
  The result lists the pairs of entity and label; the source collects them into a hash map, so
  that the order is not specified and equal entities share an entry.
\<close>

definition short_names_with_disambiguation :: "EntityPath list \<Rightarrow> (EntityPath \<times> ustr) list" where
  "short_names_with_disambiguation entities =
     map (\<lambda>(label, se). (short_entity se, label)) (fst (foldl short_names_step ([], {}) entities))"

section \<open>Paths as lists of strings\<close>

text \<open>Every path that the program builds is \<open>path_of u ss\<close> for the strings \<open>ss\<close> of its parts.\<close>

definition path_of :: "text_env \<Rightarrow> ustr list \<Rightarrow> EntityPath" where
  "path_of u ss = path_from u (map (part_new u) ss)"

definition collision_free :: "text_env \<Rightarrow> ustr list set \<Rightarrow> bool" where
  "collision_free u A \<longleftrightarrow> inj_on (string_hash u) (\<Union>(set ` A))
     \<and> inj_on (\<lambda>ss. path_hash u (map (string_hash u) ss)) A"

lemma part_hash_new [simp]: "part_hash (part_new u s) = string_hash u s"
  by (simp add: part_hash_def part_new_def istr_new_def)

lemma part_eq_new [simp]: "part_eq (part_new u s) (part_new u t) \<longleftrightarrow> string_hash u s = string_hash u t"
  by (simp add: part_eq_def part_new_def istr_new_def istr_eq_def)

lemma ep_parts_path_of [simp]: "ep_parts (path_of u ss) = map (part_new u) ss"
  by (simp add: path_of_def path_from_def)

lemma ep_hash_path_of [simp]: "ep_hash (path_of u ss) = path_hash u (map (string_hash u) ss)"
  by (simp add: path_of_def path_from_def comp_def)

lemma path_from_map [simp]: "path_from u (map (part_new u) ss) = path_of u ss"
  by (simp add: path_of_def)

lemma path_of_inject [simp]: "path_of u ss = path_of u ts \<longleftrightarrow> ss = ts"
  by (auto simp: path_of_def path_from_def inj_def dest!: map_injective)

lemma path_len_of [simp]: "path_len (path_of u ss) = length ss"
  by (simp add: path_len_def)

lemma collision_free_mono: "collision_free u A \<Longrightarrow> B \<subseteq> A \<Longrightarrow> collision_free u B"
  unfolding collision_free_def by (meson SUP_subset_mono inj_on_subset order_refl)

lemma zip_all_eq_strings:
  assumes "inj_on (string_hash u) (set as \<union> set bs)"
  shows "zip_all_eq (path_of u as) (path_of u bs) \<longleftrightarrow> list_all (\<lambda>(a, b). a = b) (zip as bs)"
proof -
  have "string_hash u a = string_hash u b \<longleftrightarrow> a = b" if "(a, b) \<in> set (zip as bs)" for a b
    using assms set_zip_leftD [OF that] set_zip_rightD [OF that] by (auto simp: inj_on_def)
  then show ?thesis
    by (auto simp: zip_all_eq_def zip_map_map list_all_iff)
qed

lemma zip_eq_prefix:
  "length bs \<le> length as \<Longrightarrow> list_all (\<lambda>(a, b). a = b) (zip as bs) \<longleftrightarrow> Sublist.prefix bs as"
proof (induction bs arbitrary: as)
  case (Cons b bs)
  then show ?case by (cases as) auto
qed simp

lemma zip_all_eq_prefix:
  assumes "collision_free u {as, bs}" "length bs \<le> length as"
  shows "zip_all_eq (path_of u as) (path_of u bs) \<longleftrightarrow> Sublist.prefix bs as"
  using assms by (subst zip_all_eq_strings) (simp_all add: collision_free_def zip_eq_prefix)

lemma starts_with_iff:
  assumes "collision_free u {as, bs}"
  shows "starts_with (path_of u as) (path_of u bs) \<longleftrightarrow> Sublist.prefix bs as"
proof (cases "length bs \<le> length as")
  case True
  then show ?thesis
    using assms by (auto simp: starts_with_def zip_all_eq_prefix collision_free_def)
next
  case False
  then have "as \<noteq> bs" "\<not> Sublist.prefix bs as" using prefix_length_le by auto
  then show ?thesis
    using assms False by (auto simp: starts_with_def collision_free_def)
qed

lemma path_eq_iff:
  "collision_free u {as, bs} \<Longrightarrow> path_eq (path_of u as) (path_of u bs) \<longleftrightarrow> as = bs"
  by (auto simp: path_eq_def collision_free_def)

lemma is_descendant_of_iff:
  assumes "collision_free u {as, bs}"
  shows "is_descendant_of (path_of u as) (path_of u bs) \<longleftrightarrow> strict_prefix bs as"
  using assms zip_all_eq_prefix [OF assms] prefix_length_less [of bs as]
  by (auto simp: is_descendant_of_def strict_prefix_def dest: prefix_length_prefix)

lemma is_child_of_iff:
  assumes "collision_free u {as, bs}"
  shows "is_child_of (path_of u as) (path_of u bs) \<longleftrightarrow> (\<exists>x. as = bs @ [x])"
proof -
  have "length bs + 1 = length as \<and> Sublist.prefix bs as \<longleftrightarrow> (\<exists>x. as = bs @ [x])"
  proof
    assume "length bs + 1 = length as \<and> Sublist.prefix bs as"
    then obtain zs where "as = bs @ zs" "length zs = 1" by (auto simp: prefix_def)
    then show "\<exists>x. as = bs @ [x]" by (cases zs) auto
  qed auto
  then show ?thesis
    using zip_all_eq_prefix [OF assms]
    by (cases "length bs + 1 = length as") (simp_all add: is_child_of_def)
qed

lemma strip_prefix_iff:
  assumes "collision_free u {as, bs}"
  shows "path_strip_prefix u (path_of u as) (path_of u bs)
    = Some (if Sublist.prefix bs as then Some (path_of u (drop (length bs) as)) else None)"
  using starts_with_iff [OF assms] prefix_length_le [of bs as]
  by (auto simp: path_strip_prefix_def drop_map)

lemma parent_of: "path_parent u (path_of u ss) = (if ss = [] then None else Some (path_of u (butlast ss)))"
  by (cases ss rule: rev_cases) (simp_all add: path_parent_def take_map)

lemma join_of: "path_join u (path_of u as) (path_of u bs) = path_of u (as @ bs)"
  by (simp add: path_join_def flip: map_append)

lemma common_parts_strings:
  assumes "inj_on (string_hash u) (set as \<union> set bs)"
  shows "common_parts (map (part_new u) as) (map (part_new u) bs)
    = map (part_new u) (longest_common_prefix as bs)"
  using assms
proof (induction as bs rule: longest_common_prefix.induct)
  case (1 x xs y ys)
  then have "inj_on (string_hash u) (set xs \<union> set ys)"
    by (auto simp: inj_on_def)
  moreover have "string_hash u x = string_hash u y \<longleftrightarrow> x = y"
    using 1(2) by (auto simp: inj_on_def)
  ultimately show ?case using 1(1) by auto
qed simp_all

lemma common_ancestor_of_two:
  "collision_free u {as, bs} \<Longrightarrow>
   common_ancestor u (path_of u as) (path_of u bs) = path_of u (longest_common_prefix as bs)"
  by (simp add: common_ancestor_def common_parts_strings collision_free_def)

lemma common_ancestor_strings:
  "inj_on (string_hash u) (set as \<union> set bs) \<Longrightarrow>
   common_ancestor u (path_of u as) (path_of u bs) = path_of u (longest_common_prefix as bs)"
  by (simp add: common_ancestor_def common_parts_strings)

lemma prefix_longest_common_prefix:
  "Sublist.prefix q (longest_common_prefix as bs) \<longleftrightarrow> Sublist.prefix q as \<and> Sublist.prefix q bs"
  using longest_common_prefix_max_prefix [of q as bs] longest_common_prefix_prefix1 [of as bs]
    longest_common_prefix_prefix2 [of as bs] prefix_order.trans [of q "longest_common_prefix as bs"]
  by blast

lemma set_longest_common_prefix: "set (longest_common_prefix as bs) \<subseteq> set as"
  by (rule set_mono_prefix [OF longest_common_prefix_prefix1])

lemma common_ancestor_foldl:
  assumes "inj_on (string_hash u) (\<Union>(set ` set (first # es)))"
  shows "\<exists>r. foldl (common_ancestor u) (path_of u first) (map (path_of u) es) = path_of u r
    \<and> (\<forall>q. Sublist.prefix q r \<longleftrightarrow> (\<forall>e \<in> set (first # es). Sublist.prefix q e))"
  using assms
proof (induction es arbitrary: first)
  case (Cons e es)
  let ?f = "longest_common_prefix first e"
  have "inj_on (string_hash u) (\<Union>(set ` set (?f # es)))" "inj_on (string_hash u) (set first \<union> set e)"
    using Cons.prems set_longest_common_prefix [of first e] by (auto intro: inj_on_subset)
  with Cons.IH [of ?f] show ?case
    by (auto simp: common_ancestor_strings prefix_longest_common_prefix)
qed simp

lemma take_strict_prefix: "i < j \<Longrightarrow> j \<le> length xs \<Longrightarrow> strict_prefix (take i xs) (take j xs)"
  by (auto simp: strict_prefix_def take_is_prefix prefix_def take_eq_Nil
      intro!: exI [of _ "take (j - i) (drop i xs)"] simp flip: take_add)
    (metis length_take min.absorb2 less_imp_le nat_neq_iff order.strict_trans2)

lemma set_takes:
  "set (map (\<lambda>i. take i es) [n ..< Suc (length es)]) = {p. Sublist.prefix p es \<and> n \<le> length p}"
proof -
  have "p \<in> (\<lambda>i. take i es) ` {n ..< Suc (length es)}" if "Sublist.prefix p es" "n \<le> length p" for p
    using that prefix_length_le [OF that(1)] by (intro image_eqI [of _ _ "length p"]) (auto simp: prefix_def)
  then have "(\<lambda>i. take i es) ` {n ..< Suc (length es)} = {p. Sublist.prefix p es \<and> n \<le> length p}"
    by (auto simp: take_is_prefix simp del: atLeastLessThan_iff) auto
  then show ?thesis by (simp only: set_map set_upt)
qed

lemma strict_prefix_longer:
  assumes "strict_prefix s es"
  shows "Sublist.prefix p es \<and> Suc (length s) \<le> length p \<longleftrightarrow> Sublist.prefix p es \<and> strict_prefix s p"
  using assms prefix_length_prefix [of s es p] prefix_length_less [of s p]
  by (auto simp: strict_prefix_def)

lemma sorted_takes: "sorted_wrt strict_prefix (map (\<lambda>i. take i es) [n ..< Suc (length es)])"
  unfolding sorted_wrt_map
  by (rule sorted_wrt_mono_rel [OF _ sorted_wrt_upt]) (auto intro: take_strict_prefix)

lemma incremental_walk_strings:
  assumes "case start of None \<Rightarrow> True | Some s \<Rightarrow> collision_free u {es, s}"
  shows "incremental_walk u (map_option (path_of u) start) (path_of u es)
    = map (\<lambda>i. path_of u (take i es))
        (case start of None \<Rightarrow> [0 ..< Suc (length es)]
         | Some s \<Rightarrow> if strict_prefix s es then [Suc (length s) ..< Suc (length es)] else [])"
  using assms is_descendant_of_iff [of u es]
  by (cases start) (auto simp: incremental_walk_def take_map)

section \<open>Properties\<close>

text \<open>
  C17. Without hash collisions, equality, \<open>starts_with\<close>, \<open>is_descendant_of\<close>, \<open>is_child_of\<close> and
  \<open>strip_prefix\<close> decide equality and the prefix order of the lists of strings (and the slice
  in \<open>strip_prefix\<close> does not panic).
\<close>

theorem path_relations_are_prefix_order:
  assumes "collision_free u {as, bs}"
  shows "(path_eq (path_of u as) (path_of u bs) \<longleftrightarrow> as = bs)
    \<and> (starts_with (path_of u as) (path_of u bs) \<longleftrightarrow> Sublist.prefix bs as)
    \<and> (is_descendant_of (path_of u as) (path_of u bs) \<longleftrightarrow> strict_prefix bs as)
    \<and> (is_child_of (path_of u as) (path_of u bs) \<longleftrightarrow> path_parent u (path_of u as) = Some (path_of u bs))
    \<and> path_strip_prefix u (path_of u as) (path_of u bs)
        = Some (if Sublist.prefix bs as then Some (path_of u (drop (length bs) as)) else None)
    \<and> (\<forall>r. path_strip_prefix u (path_of u as) (path_of u bs) = Some (Some r)
         \<longrightarrow> path_join u (path_of u bs) r = path_of u as)"
proof -
  have "(\<exists>x. as = bs @ [x]) \<longleftrightarrow> path_parent u (path_of u as) = Some (path_of u bs)"
    by (cases as rule: rev_cases) (auto simp: parent_of)
  moreover have "bs @ drop (length bs) as = as" if "Sublist.prefix bs as"
    using that by (auto simp: prefix_def)
  ultimately show ?thesis
    using assms by (auto simp: path_eq_iff starts_with_iff is_descendant_of_iff is_child_of_iff
        strip_prefix_iff join_of)
qed

theorem path_relations_are_prefix_order_witness:
  "starts_with (path_of ascii_env [ascii ''world'', ascii ''points'']) (path_of ascii_env [ascii ''world''])"
proof -
  have "collision_free ascii_env {[ascii ''world'', ascii ''points''], [ascii ''world'']}"
    by (simp add: collision_free_def ascii_def) (simp add: ascii_env_def)
  from path_relations_are_prefix_order [OF this] show ?thesis by simp
qed

text \<open>
  \<open>common_ancestor_of\<close> computes the greatest lower bound in the prefix order: its prefixes
  are exactly the common prefixes of all the paths.
\<close>

theorem common_ancestor_is_greatest:
  assumes "es \<noteq> []" "inj_on (string_hash u) (\<Union>(set ` set es))"
  shows "\<exists>r. common_ancestor_of u (map (path_of u) es) = path_of u r
    \<and> (\<forall>q. Sublist.prefix q r \<longleftrightarrow> (\<forall>e \<in> set es. Sublist.prefix q e))"
  using assms common_ancestor_foldl [of u "hd es" "tl es"] by (cases es) auto

theorem common_ancestor_is_greatest_witness:
  "\<exists>r. common_ancestor_of ascii_env (map (path_of ascii_env)
       [[ascii ''a'', ascii ''b'', ascii ''c''], [ascii ''a'', ascii ''d'']]) = path_of ascii_env r
     \<and> Sublist.prefix [ascii ''a''] r \<and> \<not> Sublist.prefix [ascii ''a'', ascii ''d''] r"
proof -
  have "inj_on (string_hash ascii_env)
      (\<Union>(set ` set [[ascii ''a'', ascii ''b'', ascii ''c''], [ascii ''a'', ascii ''d'']]))"
    by (simp add: ascii_def insert_Diff_if) (simp add: ascii_env_def insert_Diff_if)
  from common_ancestor_is_greatest [OF _ this] obtain r where
    r: "common_ancestor_of ascii_env (map (path_of ascii_env)
         [[ascii ''a'', ascii ''b'', ascii ''c''], [ascii ''a'', ascii ''d'']]) = path_of ascii_env r"
    and p: "\<And>q. Sublist.prefix q r \<longleftrightarrow>
      (\<forall>e \<in> set [[ascii ''a'', ascii ''b'', ascii ''c''], [ascii ''a'', ascii ''d'']]. Sublist.prefix q e)"
    by blast
  have "Sublist.prefix [ascii ''a''] r" "\<not> Sublist.prefix [ascii ''a'', ascii ''d''] r"
    unfolding p by (simp_all add: ascii_def)
  with r show ?thesis by blast
qed

text \<open>
  \<open>incremental_walk\<close> lists, from short to long, exactly the prefixes of the end that are
  strict extensions of the start (all of them, the root included, without a start).
\<close>

theorem incremental_walk_lists_extensions:
  assumes "case start of None \<Rightarrow> True | Some s \<Rightarrow> collision_free u {es, s}"
  shows "\<exists>ps. incremental_walk u (map_option (path_of u) start) (path_of u es) = map (path_of u) ps
    \<and> sorted_wrt strict_prefix ps
    \<and> set ps = {p. Sublist.prefix p es \<and> (case start of None \<Rightarrow> True | Some s \<Rightarrow> strict_prefix s p)}"
proof -
  let ?from = "case start of None \<Rightarrow> 0 | Some s \<Rightarrow> if strict_prefix s es then Suc (length s) else Suc (length es)"
  let ?ps = "map (\<lambda>i. take i es) [?from ..< Suc (length es)]"
  have "incremental_walk u (map_option (path_of u) start) (path_of u es) = map (path_of u) ?ps"
    using incremental_walk_strings [OF assms] by (cases start) auto
  moreover have "sorted_wrt strict_prefix ?ps"
    by (rule sorted_takes)
  moreover have "set ?ps = {p. Sublist.prefix p es \<and> (case start of None \<Rightarrow> True | Some s \<Rightarrow> strict_prefix s p)}"
  proof (cases start)
    case None
    then show ?thesis by (simp only: set_takes) simp
  next
    case (Some s)
    show ?thesis
    proof (cases "strict_prefix s es")
      case True
      then show ?thesis using Some strict_prefix_longer [OF True] by (simp only: set_takes) simp
    next
      case False
      then have "\<not> (Sublist.prefix p es \<and> strict_prefix s p)" for p
        using prefix_order.less_le_trans by blast
      with False Some show ?thesis
        by (simp only: set_takes) (auto dest: prefix_length_le)
    qed
  qed
  ultimately show ?thesis by blast
qed

theorem incremental_walk_lists_extensions_witness:
  "\<exists>ps. incremental_walk ascii_env (Some (path_of ascii_env [ascii ''foo'']))
       (path_of ascii_env [ascii ''foo'', ascii ''bar'', ascii ''baz'']) = map (path_of ascii_env) ps
     \<and> [ascii ''foo'', ascii ''bar''] \<in> set ps"
proof -
  have "collision_free ascii_env {[ascii ''foo'', ascii ''bar'', ascii ''baz''], [ascii ''foo'']}"
    by (simp add: collision_free_def ascii_def insert_Diff_if)
      (simp add: ascii_env_def insert_Diff_if)
  then show ?thesis
    using incremental_walk_lists_extensions [of ascii_env
        "[ascii ''foo'', ascii ''bar'', ascii ''baz'']" "Some [ascii ''foo'']"]
    by auto
qed

end
