(* ===== verification/Short_Names.thy ===== *)
theory Short_Names
  imports Entity_Path
begin

text \<open>
  \<open>EntityPath::short_names_with_disambiguation\<close>
  (\<open>src/crates/store/dl_log_types/src/path/entity_path.rs\<close>): every entity gets exactly one
  name and no two entities share one, provided that no part has a slash in it. The proof is an
  invariant of the labels and of the labels that are known to be bad.
\<close>

section \<open>Labels\<close>

text \<open>
  The label of an entity is determined by the suffix of its parts that it uses. Labels are
  unambiguous when parts are not empty and have no slash in them.
\<close>

definition label_ok :: "ustr list \<Rightarrow> bool" where
  "label_ok ss \<longleftrightarrow> (\<forall>s \<in> set ss. s \<noteq> [] \<and> ch_slash \<notin> set s)"

definition label_of :: "ustr list \<Rightarrow> ustr" where
  "label_of ss = (if ss = [] then [ch_slash] else join_with ch_slash ss)"

definition sfx :: "nat \<Rightarrow> 'a list \<Rightarrow> 'a list" where
  "sfx n xs = drop (length xs - n) xs"

lemma length_sfx [simp]: "length (sfx n xs) = min n (length xs)"
  by (simp add: sfx_def)

lemma sfx_full: "length xs \<le> n \<Longrightarrow> sfx n xs = xs"
  by (simp add: sfx_def)

lemma sfx_sfx: "j \<le> n \<Longrightarrow> sfx j (sfx n xs) = sfx j xs"
  by (cases "length xs \<le> n") (simp_all add: sfx_def)

lemma sfx_Suc_eq: "sfx (Suc n) xs = sfx n xs \<longleftrightarrow> length xs \<le> n"
  by (metis length_sfx min_def not_less_eq_eq sfx_full le_SucI n_not_Suc_n)

lemma label_ok_sfx: "label_ok ss \<Longrightarrow> label_ok (sfx n ss)"
  using set_drop_subset by (fastforce simp: label_ok_def sfx_def)

lemma join_with_hd: "ss \<noteq> [] \<Longrightarrow> label_ok ss \<Longrightarrow> join_with c ss \<noteq> [] \<and> hd (join_with c ss) = hd (hd ss)"
  by (induction c ss rule: join_with.induct) (auto simp: label_ok_def)

lemma append_sep_inject:
  assumes "c \<notin> set a" "c \<notin> set b"
  shows "a @ c # x = b @ c # y \<longleftrightarrow> a = b \<and> x = y"
  using assms by (auto simp: append_eq_append_conv2 Cons_eq_append_conv append_eq_Cons_conv)

lemma join_with_inject:
  "ss \<noteq> [] \<Longrightarrow> ts \<noteq> [] \<Longrightarrow> label_ok ss \<Longrightarrow> label_ok ts \<Longrightarrow>
   join_with ch_slash ss = join_with ch_slash ts \<Longrightarrow> ss = ts"
proof (induction "ch_slash" ss arbitrary: ts rule: join_with.induct)
  case (2 s)
  then show ?case by (cases "(ch_slash, ts)" rule: join_with.cases) (auto simp: label_ok_def)
next
  case (3 s t ss)
  show ?case
  proof (cases "(ch_slash, ts)" rule: join_with.cases)
    case (3 sep s' t' ss')
    with 3 "3.prems" have "s = s'" "join_with ch_slash (t # ss) = join_with ch_slash (t' # ss')"
      by (auto simp: label_ok_def append_sep_inject)
    with "3.hyps" [of "t' # ss'"] "3.prems" 3 show ?thesis by (auto simp: label_ok_def)
  qed (use 3 in \<open>auto simp: label_ok_def\<close>)
qed simp

lemma label_of_inject:
  assumes "label_ok ss" "label_ok ts"
  shows "label_of ss = label_of ts \<longleftrightarrow> ss = ts"
proof -
  have "join_with ch_slash xs \<noteq> [ch_slash]" if "xs \<noteq> []" "label_ok xs" for xs
    using join_with_hd [OF that, of ch_slash] that
    by (cases xs) (auto simp: label_ok_def dest: hd_in_set)
  then show ?thesis
    using assms join_with_inject [of ss ts] by (auto simp: label_of_def) metis
qed

abbreviation shortened :: "text_env \<Rightarrow> ustr list \<Rightarrow> nat \<Rightarrow> ShortenedEntity" where
  "shortened u e n \<equiv> \<lparr>short_entity = path_of u e, num_part = n\<rparr>"

lemma short_ui_string_label:
  assumes "0 < n"
  shows "short_ui_string (shortened u e n) = label_of (sfx n e)"
proof (cases "e = []")
  case False
  with assms have "length e - n < length e" by (simp add: diff_less)
  with False show ?thesis
    by (auto simp: short_ui_string_def label_of_def sfx_def part_ui_string_def rev_take rev_map
        drop_map Let_def comp_def)
qed (simp add: short_ui_string_def label_of_def sfx_def)

lemma bump_shortened [simp]: "bump (shortened u e n) = shortened u e (Suc n)"
  by (simp add: bump_def)

section \<open>The invariant\<close>

text \<open>
  An entry of the label map: its label is the one of a suffix of the entity, a label that is
  bad cannot be made longer, and all shorter suffixes are bad.
\<close>

definition entry_ok :: "text_env \<Rightarrow> ustr list set \<Rightarrow> ustr set \<Rightarrow> ustr \<Rightarrow> ShortenedEntity \<Rightarrow> bool" where
  "entry_ok u es bad l se \<longleftrightarrow>
     (\<exists>e n. se = shortened u e n \<and> e \<in> es \<and> 0 < n \<and> l = label_of (sfx n e)
        \<and> (l \<in> bad \<longrightarrow> length e \<le> n)
        \<and> (\<forall>j. 0 < j \<and> j < n \<and> j < length e \<longrightarrow> label_of (sfx j e) \<in> bad))"

definition bad_closed :: "ustr set \<Rightarrow> bool" where
  "bad_closed bad \<longleftrightarrow>
     (\<forall>ss j. label_ok ss \<and> label_of ss \<in> bad \<and> 0 < j \<longrightarrow> label_of (sfx j ss) \<in> bad)"

text \<open>Every entity has exactly one entry.\<close>

definition has_label :: "text_env \<Rightarrow> (ustr \<rightharpoonup> ShortenedEntity) \<Rightarrow> ustr list \<Rightarrow> ustr \<Rightarrow> bool" where
  "has_label u m e l \<longleftrightarrow> (case m l of None \<Rightarrow> False | Some se \<Rightarrow> short_entity se = path_of u e)"

definition one_entry_each :: "text_env \<Rightarrow> ustr list set \<Rightarrow> (ustr \<rightharpoonup> ShortenedEntity) \<Rightarrow> bool" where
  "one_entry_each u es m \<longleftrightarrow> (\<forall>e \<in> es. \<exists>!l. has_label u m e l)"

lemma one_entry_eachE:
  assumes "one_entry_each u es m" "e \<in> es"
  obtains l where "has_label u m e l" "\<forall>k. k \<noteq> l \<longrightarrow> \<not> has_label u m e k"
  using assms unfolding one_entry_each_def by (metis (lifting))

lemma has_label_upd:
  "has_label u (m(l' \<mapsto> se)) e l \<longleftrightarrow>
    (if l = l' then short_entity se = path_of u e else has_label u m e l)"
  "has_label u (m(l' := None)) e l \<longleftrightarrow> l \<noteq> l' \<and> has_label u m e l"
  by (auto simp: has_label_def)

definition names_inv :: "text_env \<Rightarrow> ustr list set \<Rightarrow> (ustr \<rightharpoonup> ShortenedEntity) \<Rightarrow> ustr set \<Rightarrow> bool" where
  "names_inv u es m bad \<longleftrightarrow> (\<forall>l se. m l = Some se \<longrightarrow> entry_ok u es bad l se)
     \<and> one_entry_each u es m \<and> bad_closed bad"

lemma bad_closedD:
  "bad_closed bad \<Longrightarrow> label_of ss \<in> bad \<Longrightarrow> label_ok ss \<Longrightarrow> 0 < j \<Longrightarrow> label_of (sfx j ss) \<in> bad"
  by (auto simp: bad_closed_def)

lemma bad_closed_insert:
  assumes "bad_closed bad" "label_ok k"
    and "\<And>j. 0 < j \<Longrightarrow> j < length k \<Longrightarrow> label_of (sfx j k) \<in> bad"
  shows "bad_closed (insert (label_of k) bad)"
proof -
  have "label_of (sfx j ss) \<in> insert (label_of k) bad"
    if "label_ok ss" "label_of ss = label_of k" "0 < j" for ss j
    using that assms(2,3) label_of_inject [of ss k] by (cases "j < length k") (auto simp: sfx_full)
  with assms(1) show ?thesis by (auto simp: bad_closed_def)
qed

lemma entry_ok_insert_bad:
  assumes "entry_ok u es bad l se" "l \<noteq> b"
  shows "entry_ok u es (insert b bad) l se"
  using assms by (auto simp: entry_ok_def)

lemma entry_ok_mono: "entry_ok u es bad l se \<Longrightarrow> es \<subseteq> es' \<Longrightarrow> entry_ok u es' bad l se"
  by (auto simp: entry_ok_def)

text \<open>Replacing the entry of an entity by one under a free label keeps one entry for each.\<close>

lemma one_entry_move:
  assumes "one_entry_each u es m" "m l = Some se" "short_entity se' = short_entity se"
    "l' = l \<or> m l' = None"
  shows "one_entry_each u es (m(l := None, l' \<mapsto> se'))"
  unfolding one_entry_each_def
proof
  fix e
  assume "e \<in> es"
  then obtain le where le: "has_label u m e le" "\<forall>k. k \<noteq> le \<longrightarrow> \<not> has_label u m e k"
    by (rule one_entry_eachE [OF assms(1)])
  show "\<exists>!k. has_label u (m(l := None, l' \<mapsto> se')) e k"
  proof (cases "short_entity se = path_of u e")
    case True
    with assms(2) have "has_label u m e l" by (simp add: has_label_def)
    with le have "le = l" by metis
    have "has_label u (m(l := None, l' \<mapsto> se')) e k \<longleftrightarrow> k = l'" for k
      using True assms(3) le(2) [rule_format, of k] \<open>le = l\<close>
      by (cases "k = l'"; cases "k = l") (simp_all add: has_label_upd)
    then show ?thesis by simp
  next
    case False
    with assms(2,4) le(1) have "le \<noteq> l" "le \<noteq> l'" by (auto simp: has_label_def split: option.splits)
    have "has_label u (m(l := None, l' \<mapsto> se')) e k \<longleftrightarrow> k = le" for k
      using False assms(3) le(1) le(2) [rule_format, of k] \<open>le \<noteq> l\<close> \<open>le \<noteq> l'\<close>
      by (cases "k = le"; cases "k = l'") (simp_all add: has_label_upd)
    then show ?thesis by simp
  qed
qed

lemma one_entry_add:
  assumes "one_entry_each u es m" "m l = None" "e \<notin> es" "\<And>k. \<not> has_label u m e k"
  shows "one_entry_each u (insert e es) (m(l \<mapsto> shortened u e n))"
  unfolding one_entry_each_def
proof
  fix d
  assume "d \<in> insert e es"
  then show "\<exists>!k. has_label u (m(l \<mapsto> shortened u e n)) d k"
  proof
    assume "d = e"
    have "has_label u (m(l \<mapsto> shortened u e n)) e k \<longleftrightarrow> k = l" for k
      using assms(4) [of k] by (simp add: has_label_upd)
    with \<open>d = e\<close> show ?thesis by simp
  next
    assume "d \<in> es"
    then obtain le where le: "has_label u m d le" "\<forall>k. k \<noteq> le \<longrightarrow> \<not> has_label u m d k"
      by (rule one_entry_eachE [OF assms(1)])
    have "e \<noteq> d" using assms(3) \<open>d \<in> es\<close> by auto
    moreover have "le \<noteq> l" using le(1) assms(2) by (auto simp: has_label_def)
    ultimately have "has_label u (m(l \<mapsto> shortened u e n)) d k \<longleftrightarrow> k = le" for k
      using le(1) le(2) [rule_format, of k]
      by (cases "k = le"; cases "k = l") (simp_all add: has_label_upd)
    then show ?thesis by simp
  qed
qed

section \<open>The operations keep the invariant\<close>

lemma relabel_existing_map:
  "map_of (relabel_existing m k) =
     (case map_of m k of
        None \<Rightarrow> map_of m
      | Some se \<Rightarrow> (map_of m)(k := None, short_ui_string (bump se) \<mapsto> bump se))"
  by (auto simp: relabel_existing_def update_conv' delete_conv' split: option.splits)

lemma relabel_existing_distinct:
  "distinct (map fst m) \<Longrightarrow> distinct (map fst (relabel_existing m k))"
  by (auto simp: relabel_existing_def distinct_update distinct_delete split: option.splits)

text \<open>
  A conflict on the label of \<open>k\<close>: the entity that has it moves to a longer label, which is free
  and not bad, unless it is at its full length.
\<close>

lemma longer_label_free:
  assumes inv: "names_inv u es m bad" and ok: "\<forall>e \<in> es. label_ok e"
    and e: "e \<in> es" "0 < n" "n < length e" "label_of (sfx n e) \<notin> bad"
  shows "m (label_of (sfx (Suc n) e)) = None" "label_of (sfx (Suc n) e) \<notin> bad"
proof -
  have shorter: "sfx n (sfx (Suc n) e) = sfx n e" by (simp add: sfx_sfx)
  show "label_of (sfx (Suc n) e) \<notin> bad"
    using bad_closedD [of bad "sfx (Suc n) e" n] inv e ok shorter
    by (auto simp: names_inv_def label_ok_sfx)
  show "m (label_of (sfx (Suc n) e)) = None"
  proof (rule ccontr)
    assume "m (label_of (sfx (Suc n) e)) \<noteq> None"
    then obtain e' n' where e': "e' \<in> es" "label_of (sfx (Suc n) e) = label_of (sfx n' e')"
      "\<forall>j. 0 < j \<and> j < n' \<and> j < length e' \<longrightarrow> label_of (sfx j e') \<in> bad"
      using inv unfolding names_inv_def entry_ok_def by blast
    then have eq: "sfx (Suc n) e = sfx n' e'"
      using ok e(1) by (simp add: label_of_inject label_ok_sfx)
    then have "Suc n = min n' (length e')"
      using e(3) by (metis length_sfx min.absorb1 Suc_leI)
    then have "n < n'" "n < length e'" by auto
    moreover have "sfx n e' = sfx n e"
      using eq shorter sfx_sfx [of n n' e'] \<open>n < n'\<close> by simp
    ultimately show False using e' e(2,4) by auto
  qed
qed

lemma relabel_existing_inv:
  assumes inv: "names_inv u es (map_of m) bad" and ok: "\<forall>e \<in> es. label_ok e" "label_ok k"
    and shorter: "\<And>j. 0 < j \<Longrightarrow> j < length k \<Longrightarrow> label_of (sfx j k) \<in> bad"
  shows "names_inv u es (map_of (relabel_existing m (label_of k))) (insert (label_of k) bad)
    \<and> (k \<notin> es \<longrightarrow> map_of (relabel_existing m (label_of k)) (label_of k) = None)"
proof -
  let ?k = "label_of k" and ?bad = "insert (label_of k) bad"
  have closed: "bad_closed ?bad"
    using inv ok(2) shorter by (auto simp: names_inv_def intro: bad_closed_insert)
  have other: "entry_ok u es ?bad l se" if "map_of m l = Some se" "l \<noteq> ?k" for l se
    using that inv entry_ok_insert_bad by (auto simp: names_inv_def)
  show ?thesis
  proof (cases "map_of m ?k")
    case None
    then have "entry_ok u es ?bad l se" if "map_of m l = Some se" for l se
      using that by (intro other) auto
    with inv closed None show ?thesis
      by (simp add: relabel_existing_map names_inv_def)
  next
    case (Some se)
    with inv obtain e n where e: "se = shortened u e n" "e \<in> es" "0 < n" "?k = label_of (sfx n e)"
      "?k \<in> bad \<longrightarrow> length e \<le> n" "\<forall>j. 0 < j \<and> j < n \<and> j < length e \<longrightarrow> label_of (sfx j e) \<in> bad"
      unfolding names_inv_def entry_ok_def by blast
    let ?l = "label_of (sfx (Suc n) e)"
    let ?m = "(map_of m)(?k := None, ?l \<mapsto> shortened u e (Suc n))"
    have map: "map_of (relabel_existing m ?k) = ?m"
      using Some e(1) by (simp add: relabel_existing_map short_ui_string_label)
    have k: "k = sfx n e"
      using e(2,4) ok by (simp add: label_of_inject label_ok_sfx)
    have free: "length e \<le> n \<and> ?l = ?k \<or> n < length e \<and> map_of m ?l = None \<and> ?l \<notin> ?bad"
    proof (cases "length e \<le> n")
      case True
      then show ?thesis using k by (simp add: sfx_full)
    next
      case False
      then have "?l \<noteq> ?k"
        using e(2) ok k by (simp add: label_of_inject label_ok_sfx sfx_Suc_eq)
      then show ?thesis
        using False longer_label_free [OF inv ok(1) e(2,3)] e(4,5) by auto
    qed
    then have "entry_ok u es ?bad ?l (shortened u e (Suc n))"
      using e k by (auto simp: entry_ok_def less_Suc_eq)
    with other free have "\<forall>l se. ?m l = Some se \<longrightarrow> entry_ok u es ?bad l se"
      by (auto split: if_splits)
    moreover have "one_entry_each u es ?m"
      using inv Some e(1) free by (intro one_entry_move) (auto simp: names_inv_def)
    moreover have "k \<notin> es \<longrightarrow> ?m ?k = None"
      using free k e(2) by (auto simp: sfx_full)
    ultimately show ?thesis
      using closed by (simp add: names_inv_def map)
  qed
qed

text \<open>The loop for one entity: it ends with a free label that is not bad unless it is complete.\<close>

lemma disambiguate_inv:
  assumes "disambiguate m bad (shortened u e n) = (m', bad', se)"
    and "names_inv u es (map_of m) bad" "distinct (map fst m)" "\<forall>e \<in> es. label_ok e" "label_ok e"
      "e \<notin> es" "0 < n" "\<And>j. 0 < j \<Longrightarrow> j < n \<Longrightarrow> j < length e \<Longrightarrow> label_of (sfx j e) \<in> bad"
  shows "names_inv u es (map_of m') bad' \<and> distinct (map fst m') \<and>
    (\<exists>n. se = shortened u e n \<and> map_of m' (short_ui_string se) = None
       \<and> entry_ok u (insert e es) bad' (short_ui_string se) se)"
  using assms
proof (induction m bad "shortened u e n" arbitrary: n rule: disambiguate.induct)
  case (1 m bad n)
  let ?l = "label_of (sfx n e)" and ?m = "relabel_existing m (label_of (sfx n e))"
  have label: "short_ui_string (shortened u e n) = ?l"
    "short_ui_string (shortened u e (Suc n)) = label_of (sfx (Suc n) e)"
    using "1.prems"(7) by (simp_all add: short_ui_string_label)
  have ok: "label_ok (sfx n e)" "label_ok (sfx (Suc n) e)"
    using "1.prems"(5) by (simp_all add: label_ok_sfx)
  show ?case
  proof (cases "map_of m ?l \<noteq> None \<or> ?l \<in> bad")
    case False
    then have "m' = m" "bad' = bad" "se = shortened u e n"
      using "1.prems"(1) by (auto simp: disambiguate.simps [of m] Let_def label)
    moreover have "map_of m ?l = None" "?l \<notin> bad" using False by blast+
    ultimately show ?thesis
      using "1.prems" by (auto simp: label entry_ok_def simp del: map_of_eq_None_iff)
  next
    case True
    have inv: "names_inv u es (map_of ?m) (insert ?l bad)"
      "sfx n e \<notin> es \<Longrightarrow> map_of ?m ?l = None"
      using relabel_existing_inv [OF "1.prems"(2,4) ok(1)] "1.prems"(8) by (simp_all add: sfx_sfx)
    have dist: "distinct (map fst ?m)"
      using "1.prems"(3) by (rule relabel_existing_distinct)
    have suffixes: "label_of (sfx j e) \<in> insert ?l bad" if "0 < j" "j < Suc n" "j < length e" for j
      using that "1.prems"(8) by (cases "j = n") auto
    show ?thesis
    proof (cases "label_of (sfx (Suc n) e) = ?l")
      case same: True
      then have full: "length e \<le> n" "sfx n e = e" "sfx (Suc n) e = e"
        using ok by (simp_all add: label_of_inject sfx_Suc_eq sfx_full)
      have "m' = ?m" "bad' = insert ?l bad" "se = shortened u e (Suc n)"
        using "1.prems"(1) True same by (auto simp: disambiguate.simps [of m] Let_def label)
      moreover have "map_of ?m ?l = None" using inv(2) full "1.prems"(6) by simp
      ultimately show ?thesis
        using inv dist suffixes full same by (auto simp: label entry_ok_def)
    next
      case False
      have "disambiguate ?m (insert ?l bad) (shortened u e (Suc n)) = (m', bad', se)"
        using "1.prems"(1) True False by (simp add: disambiguate.simps [of m] Let_def label)
      then show ?thesis
        using "1.hyps" [of ?l "insert ?l bad" ?m "Suc n"]
          True False inv(1) dist "1.prems"(4-6) suffixes
        by (simp add: label)
    qed
  qed
qed

lemma names_inv_add:
  assumes "names_inv u es m bad" "m l = None" "e \<notin> es" "entry_ok u (insert e es) bad l (shortened u e n)"
  shows "names_inv u (insert e es) (m(l \<mapsto> shortened u e n)) bad"
proof -
  have "\<not> has_label u m e k" for k
  proof
    assume "has_label u m e k"
    then obtain se where "m k = Some se" "short_entity se = path_of u e"
      by (auto simp: has_label_def split: option.splits)
    with assms(1) have "e \<in> es" by (force simp: names_inv_def entry_ok_def)
    with assms(3) show False by simp
  qed
  then have "one_entry_each u (insert e es) (m(l \<mapsto> shortened u e n))"
    using assms by (intro one_entry_add) (auto simp: names_inv_def)
  moreover have "entry_ok u (insert e es) bad k se"
    if "(m(l \<mapsto> shortened u e n)) k = Some se" for k se
    using that assms(1,4) by (auto simp: names_inv_def intro: entry_ok_mono split: if_splits)
  ultimately show ?thesis
    using assms(1) unfolding names_inv_def by blast
qed

lemma short_names_step_inv:
  assumes "names_inv u es (map_of m) bad" "distinct (map fst m)" "\<forall>e \<in> insert e es. label_ok e" "e \<notin> es"
    and step: "short_names_step (m, bad) (path_of u e) = (m', bad')"
  shows "names_inv u (insert e es) (map_of m') bad' \<and> distinct (map fst m')"
proof -
  obtain m1 se where d: "disambiguate m bad (shortened u e 1) = (m1, bad', se)"
    "m' = AList.update (short_ui_string se) se m1"
    using step by (auto simp: short_names_step_def split: prod.splits)
  have "names_inv u es (map_of m1) bad' \<and> distinct (map fst m1) \<and>
    (\<exists>n. se = shortened u e n \<and> map_of m1 (short_ui_string se) = None
       \<and> entry_ok u (insert e es) bad' (short_ui_string se) se)"
    using d(1) assms(1-4) by (intro disambiguate_inv) auto
  then show ?thesis
    using assms(4) d(2) by (auto simp: update_conv' distinct_update names_inv_add)
qed

lemma short_names_foldl_inv:
  assumes "names_inv u es (map_of m) bad" "distinct (map fst m)" "\<forall>e \<in> es \<union> set ps. label_ok e"
    "distinct ps" "es \<inter> set ps = {}"
    and "foldl short_names_step (m, bad) (map (path_of u) ps) = (m', bad')"
  shows "names_inv u (es \<union> set ps) (map_of m') bad' \<and> distinct (map fst m')"
  using assms
proof (induction ps arbitrary: es m bad)
  case (Cons p ps)
  obtain m1 bad1 where step: "short_names_step (m, bad) (path_of u p) = (m1, bad1)"
    by (cases "short_names_step (m, bad) (path_of u p)")
  have "names_inv u (insert p es) (map_of m1) bad1 \<and> distinct (map fst m1)"
    using Cons.prems step by (intro short_names_step_inv) auto
  with Cons.IH [of "insert p es" m1 bad1] Cons.prems step show ?case by auto
qed simp

section \<open>Properties\<close>

lemma names_inv_empty: "names_inv u {} (map_of []) {}"
  by (simp add: names_inv_def one_entry_each_def bad_closed_def)

lemma entries_of_inv:
  assumes inv: "names_inv u es (map_of m) bad" and dist: "distinct (map fst m)"
  shows "set (map (short_entity \<circ> snd) m) = path_of u ` es \<and> distinct (map (short_entity \<circ> snd) m)"
proof
  have entry: "entry_ok u es bad l se" if "(l, se) \<in> set m" for l se
    using inv dist that by (simp add: names_inv_def)
  show "set (map (short_entity \<circ> snd) m) = path_of u ` es"
  proof (intro equalityI subsetI)
    fix x
    assume "x \<in> set (map (short_entity \<circ> snd) m)"
    with entry show "x \<in> path_of u ` es" by (fastforce simp: entry_ok_def)
  next
    fix x
    assume "x \<in> path_of u ` es"
    then obtain e where "e \<in> es" "x = path_of u e" by blast
    then obtain l where "has_label u (map_of m) e l"
      using inv by (auto simp: names_inv_def one_entry_each_def)
    then show "x \<in> set (map (short_entity \<circ> snd) m)"
      using \<open>x = path_of u e\<close> by (force simp: has_label_def split: option.splits dest: map_of_SomeD)
  qed
  have same: "l = l'" if "(l, se) \<in> set m" "(l', se') \<in> set m" "short_entity se = short_entity se'" for l l' se se'
  proof -
    from entry [OF that(1)] obtain e where e: "e \<in> es" "short_entity se = path_of u e"
      by (auto simp: entry_ok_def)
    then have "has_label u (map_of m) e l" "has_label u (map_of m) e l'"
      using that dist by (auto simp: has_label_def)
    then show ?thesis using inv e(1) by (auto simp: names_inv_def one_entry_each_def)
  qed
  have "distinct m" using dist by (simp add: distinct_map)
  moreover have "inj_on (short_entity \<circ> snd) (set m)"
    using same dist by (auto simp: inj_on_def) (metis eq_key_imp_eq_value)
  ultimately show "distinct (map (short_entity \<circ> snd) m)" by (simp add: distinct_map)
qed

text \<open>
  C18. For distinct entities whose parts are not empty and have no slash in them, every entity
  gets exactly one short name, no two entities have the same short name, and the
  disambiguation terminates for every input (the function is total).
\<close>

theorem short_names_complete_and_unique:
  assumes "distinct es" "\<forall>e \<in> set es. \<forall>s \<in> set e. s \<noteq> [] \<and> ch_slash \<notin> set s"
  shows "set (map fst (short_names_with_disambiguation (map (path_of u) es))) = path_of u ` set es
    \<and> distinct (map fst (short_names_with_disambiguation (map (path_of u) es)))
    \<and> distinct (map snd (short_names_with_disambiguation (map (path_of u) es)))"
proof -
  obtain m bad where fold: "foldl short_names_step ([], {}) (map (path_of u) es) = (m, bad)"
    by fastforce
  have "names_inv u ({} \<union> set es) (map_of m) bad \<and> distinct (map fst m)"
    using assms fold names_inv_empty
    by (intro short_names_foldl_inv [of u "{}" "[]" "{}"]) (auto simp: label_ok_def)
  then have "names_inv u (set es) (map_of m) bad" "distinct (map fst m)" by simp_all
  from entries_of_inv [OF this] this(2) show ?thesis
    by (simp add: short_names_with_disambiguation_def fold comp_def case_prod_beta)
qed

theorem short_names_complete_and_unique_witness:
  "path_of ascii_env [ascii ''b'', ascii ''x'']
     \<in> set (map fst (short_names_with_disambiguation
         (map (path_of ascii_env) [[ascii ''a'', ascii ''x''], [ascii ''b'', ascii ''x'']])))"
  using short_names_complete_and_unique
    [of "[[ascii ''a'', ascii ''x''], [ascii ''b'', ascii ''x'']]" ascii_env]
  by (simp add: ascii_def)

text \<open>
  With a slash inside a part an entity can lose its name: the label \<open>a/b\<close> of the single part
  is overwritten when \<open>b\<close> below \<open>a\<close> is made longer.
\<close>

lemma short_names_lose_entity:
  "path_of ascii_env [ascii ''a/b'']
     \<notin> set (map fst (short_names_with_disambiguation (map (path_of ascii_env)
         [[ascii ''a/b''], [ascii ''a'', ascii ''b''], [ascii ''c'', ascii ''b'']])))"
  by (simp add: short_names_with_disambiguation_def short_names_step_def disambiguate.simps
      short_ui_string_def part_ui_string_def relabel_existing_def bump_def ascii_def Let_def)

end
