(* ===== verification/Path_Parse.thy ===== *)
theory Path_Parse
  imports Entity_Path
begin

text \<open>
  Parsing of entity, component and data paths
  (\<open>src/crates/store/dl_log_types/src/path/parse_path.rs\<close>, \<open>data_path.rs\<close>, \<open>component_path.rs\<close>)
  and what of the printed forms is read back.

  The source tokenizes the UTF-8 bytes. All special characters and the backslash are ASCII and
  no byte of a longer character is, so that the same cuts are made on the characters.
\<close>

section \<open>Tokens\<close>

fun token_end :: "nat list \<Rightarrow> bool \<Rightarrow> ustr \<Rightarrow> nat" where
  "token_end special_chars is_in_escape [] = 0"
| "token_end special_chars is_in_escape (c # cs) =
     (if \<not> is_in_escape \<and> c \<in> set special_chars then 0
      else Suc (token_end special_chars (c = ch_backslash) cs))"

function tokenize_by :: "nat list \<Rightarrow> ustr \<Rightarrow> ustr list" where
  "tokenize_by special_chars path =
     (if path = [] then []
      else let i = token_end special_chars False path;
               i = (if i = 0 then 1 else i) in
           take i path # tokenize_by special_chars (drop i path))"
  by auto
termination
  by (relation "measure (\<lambda>(special_chars, path). length path)") auto

declare tokenize_by.simps [simp del]

definition tokenize_entity_path :: "ustr \<Rightarrow> ustr list" where
  "tokenize_entity_path path = tokenize_by [ch_slash] path"

definition tokenize_data_path :: "ustr \<Rightarrow> ustr list" where
  "tokenize_data_path path = tokenize_by [ch_slash, ch_open, ch_close, ch_colon, ch_hash] path"

definition join_tokens :: "ustr list \<Rightarrow> ustr" where
  "join_tokens tokens = concat tokens"

section \<open>Data paths\<close>

record DataPath =
  dp_entity_path :: EntityPath
  dp_instance :: "u64 option"
  dp_component :: "InternedString option"

text \<open>The loop indexes \<open>tokens[0]\<close>, which exists: the equation for no tokens is not reached.\<close>

fun strict_parts_loop :: "text_env \<Rightarrow> ustr list \<Rightarrow> (PathParseError, EntityPathPart list) result" where
  "strict_parts_loop u [] = Err MissingPath"
| "strict_parts_loop u (token # tokens) =
     (if token = [ch_slash] then Err DoubleSlash
      else try_bind (parse_strict u token) (\<lambda>part.
        case tokens of
          [] \<Rightarrow> Ok [part]
        | next_token # tokens' \<Rightarrow>
            if next_token = [ch_slash] then
              if tokens' = [] then Err TrailingSlash
              else try_bind (strict_parts_loop u tokens') (\<lambda>parts. Ok (part # parts))
            else Err MissingSlash))"

definition entity_path_parts_from_tokens_strict ::
  "text_env \<Rightarrow> ustr list \<Rightarrow> (PathParseError, EntityPathPart list) result" where
  "entity_path_parts_from_tokens_strict u tokens =
     (if tokens = [] then Err MissingPath
      else if tokens = [[ch_slash]] then Ok []
      else strict_parts_loop u (if hd tokens = [ch_slash] then tl tokens else tokens))"

text \<open>\<open>u64::from_str\<close>\<close>

fun dec_loop :: "nat \<Rightarrow> ustr \<Rightarrow> nat option" where
  "dec_loop acc [] = Some acc"
| "dec_loop acc (c # cs) =
     (if 48 \<le> c \<and> c \<le> 57 \<and> acc * 10 + (c - 48) < 2 ^ 64 then dec_loop (acc * 10 + (c - 48)) cs else None)"

definition u64_from_str :: "ustr \<Rightarrow> u64 option" where
  "u64_from_str s =
     (case s of
        [] \<Rightarrow> None
      | c # cs \<Rightarrow> map_option of_nat (if c = ch_plus \<and> cs \<noteq> [] then dec_loop 0 cs else dec_loop 0 s))"

text \<open>\<open>tokens.iter().position(|&token| token == t)\<close>\<close>

fun position_of :: "ustr \<Rightarrow> ustr list \<Rightarrow> nat option" where
  "position_of t [] = None"
| "position_of t (x # xs) = (if x = t then Some 0 else map_option Suc (position_of t xs))"

text \<open>The component suffix: the component and the tokens in front of it.\<close>

definition parse_component ::
  "text_env \<Rightarrow> ustr list \<Rightarrow> (PathParseError, InternedString option \<times> ustr list) result" where
  "parse_component u tokens =
     (case position_of [ch_colon] tokens of
        None \<Rightarrow> Ok (None, tokens)
      | Some first_colon \<Rightarrow>
          let component_tokens = drop (first_colon + 1) tokens in
          if component_tokens = [] \<or> last component_tokens = [ch_colon] then Err TrailingColon
          else (case component_identifier_try_new u (join_tokens component_tokens) of
                  Inl e \<Rightarrow> Err (InvalidComponentIdentifier e)
                | Inr c \<Rightarrow> Ok (Some c, take first_colon tokens)))"

definition parse_instance ::
  "ustr list \<Rightarrow> (PathParseError, u64 option \<times> ustr list) result" where
  "parse_instance tokens =
     (case position_of [ch_open] tokens of
        None \<Rightarrow> Ok (None, tokens)
      | Some bracket \<Rightarrow>
          let instance_tokens = drop bracket tokens in
          if length instance_tokens \<noteq> 4 \<or> last instance_tokens \<noteq> [ch_close]
          then Err (BadInstance (join_tokens instance_tokens))
          else (case u64_from_str (instance_tokens ! 2) of
                  Some nr \<Rightarrow> Ok (Some nr, take bracket tokens)
                | None \<Rightarrow> Err (BadInstance (instance_tokens ! 2))))"

definition data_path_from_str :: "text_env \<Rightarrow> ustr \<Rightarrow> (PathParseError, DataPath) result" where
  "data_path_from_str u path =
     (if path = [] then Err EmptyString
      else try_bind (parse_component u (tokenize_data_path path)) (\<lambda>(component, tokens).
        try_bind (parse_instance tokens) (\<lambda>(inst, tokens).
          try_bind (entity_path_parts_from_tokens_strict u tokens) (\<lambda>parts.
            Ok \<lparr>dp_entity_path = path_from u parts, dp_instance = inst, dp_component = component\<rparr>))))"

section \<open>Entity and component paths\<close>

definition path_parse_strict :: "text_env \<Rightarrow> ustr \<Rightarrow> (PathParseError, EntityPath) result" where
  "path_parse_strict u input =
     try_bind (data_path_from_str u input) (\<lambda>dp.
       case dp_instance dp of
         Some inst \<Rightarrow> Err (UnexpectedInstance inst)
       | None \<Rightarrow> (case dp_component dp of
                    Some c \<Rightarrow> Err (UnexpectedComponent c)
                  | None \<Rightarrow> Ok (dp_entity_path dp)))"

record ComponentPath =
  cp_entity_path :: EntityPath
  cp_component :: InternedString

definition component_path_from_str :: "text_env \<Rightarrow> ustr \<Rightarrow> (PathParseError, ComponentPath) result" where
  "component_path_from_str u s =
     try_bind (data_path_from_str u s) (\<lambda>dp.
       case dp_instance dp of
         Some inst \<Rightarrow> Err (UnexpectedInstance inst)
       | None \<Rightarrow> (case dp_component dp of
                    None \<Rightarrow> Err MissingComponentIdentifier
                  | Some c \<Rightarrow> Ok \<lparr>cp_entity_path = dp_entity_path dp, cp_component = c\<rparr>))"

text \<open>
  \<open>parse_forgiving\<close> with its process wide cache, which is keyed by a hash of the input
  (\<open>input_hash\<close>, again computed by the \<open>ahash\<close> crate). The warnings are those of this call.
\<close>

definition parse_forgiving_uncached :: "text_env \<Rightarrow> ustr \<Rightarrow> EntityPath \<times> path_warning list" where
  "parse_forgiving_uncached u input =
     (let parsed = map (parse_forgiving_with_warning u)
                     (filter (\<lambda>part. part \<noteq> [ch_slash]) (tokenize_entity_path input)) in
      (path_from u (map fst parsed), concat (map snd parsed)))"

definition path_parse_forgiving ::
  "text_env \<Rightarrow> (ustr \<Rightarrow> u64) \<Rightarrow> (u64 \<rightharpoonup> EntityPath) \<Rightarrow> ustr \<Rightarrow>
   (u64 \<rightharpoonup> EntityPath) \<times> EntityPath \<times> path_warning option" where
  "path_parse_forgiving u input_hash cache input =
     (case cache (input_hash input) of
        Some cached \<Rightarrow> (cache, cached, None)
      | None \<Rightarrow>
          (case parse_forgiving_uncached u input of
             (path, warnings) \<Rightarrow>
               (cache(input_hash input \<mapsto> path), path,
                case warnings of [] \<Rightarrow> None | w # _ \<Rightarrow> Some w)))"

section \<open>Printing\<close>

text \<open>\<open>dl_format::format_uint\<close>: groups of three digits, counted from the end.\<close>

abbreviation THIN_SPACE :: nat where "THIN_SPACE \<equiv> 0x2009"

fun thousands_loop :: "ustr \<Rightarrow> ustr \<Rightarrow> ustr" where
  "thousands_loop result [] = result"
| "thousands_loop result (c # cs) =
     thousands_loop ((if result = [] then [] else result @ [THIN_SPACE]) @ take 3 (c # cs)) (drop 3 (c # cs))"

definition add_thousands_separators :: "ustr \<Rightarrow> ustr" where
  "add_thousands_separators number = rev (thousands_loop [] (rev number))"

fun dec_digits :: "nat \<Rightarrow> ustr" where
  "dec_digits n = (if n < 10 then [48 + n] else dec_digits (n div 10) @ [48 + n mod 10])"

declare dec_digits.simps [simp del]

definition format_uint :: "nat \<Rightarrow> ustr" where
  "format_uint n = add_thousands_separators (dec_digits n)"

abbreviation Instance_ALL :: u64 where "Instance_ALL \<equiv> 0xFFFFFFFFFFFFFFFF"

definition instance_to_string :: "u64 \<Rightarrow> ustr" where
  "instance_to_string i = (if i = Instance_ALL then ascii ''<all>'' else format_uint (unat i))"

definition data_path_to_string :: "text_env \<Rightarrow> DataPath \<Rightarrow> ustr" where
  "data_path_to_string u dp =
     path_to_string u (dp_entity_path dp)
     @ (case dp_instance dp of
          None \<Rightarrow> []
        | Some i \<Rightarrow> if i \<noteq> Instance_ALL then [ch_open, ch_hash] @ instance_to_string i @ [ch_close] else [])
     @ (case dp_component dp of None \<Rightarrow> [] | Some c \<Rightarrow> ch_colon # istr_string c)"

definition component_path_to_string :: "text_env \<Rightarrow> ComponentPath \<Rightarrow> ustr" where
  "component_path_to_string u cp =
     path_to_string u (cp_entity_path cp) @ ch_colon # istr_string (cp_component cp)"

section \<open>Tokenizing\<close>

abbreviation data_specials :: "nat list" where
  "data_specials \<equiv> [ch_slash, ch_open, ch_close, ch_colon, ch_hash]"

lemma token_end_le: "token_end sp esc s \<le> length s"
  by (induction sp esc s rule: token_end.induct) auto

lemma tokenize_Nil [simp]: "tokenize_by sp [] = []"
  by (simp add: tokenize_by.simps)

lemma concat_tokenize: "concat (tokenize_by sp s) = s"
  by (induction sp s rule: tokenize_by.induct) (subst tokenize_by.simps, simp add: Let_def)

lemma tokens_nonempty: "t \<in> set (tokenize_by sp s) \<Longrightarrow> t \<noteq> []"
  by (induction sp s rule: tokenize_by.induct)
    (subst (asm) (2) tokenize_by.simps, auto simp: Let_def split: if_splits)

lemma tokenize_special: "c \<in> set sp \<Longrightarrow> tokenize_by sp (c # s) = [c] # tokenize_by sp s"
  by (subst tokenize_by.simps) simp

lemma tokenize_take:
  "token_end sp False s = i \<Longrightarrow> i \<noteq> 0 \<Longrightarrow> tokenize_by sp s = take i s # tokenize_by sp (drop i s)"
  using token_end_le [of sp False s] by (subst tokenize_by.simps) (auto simp: Let_def)

lemma token_end_ordinary:
  "\<forall>c \<in> set s. c \<notin> set sp \<and> c \<noteq> ch_backslash \<Longrightarrow>
   token_end sp esc (s @ rest) = length s + token_end sp (if s = [] then esc else False) rest"
  by (induction s arbitrary: esc) auto

lemma token_end_escape_char:
  assumes "unicode_ok u" "set sp \<subseteq> set data_specials"
  shows "token_end sp esc (escape_char u c @ rest)
    = length (escape_char u c) + token_end sp (c = ch_backslash) rest"
proof (cases u c rule: escape_char_cases)
  case as_is
  then have "c \<notin> set data_specials" "c \<noteq> ch_backslash"
    using not_print_as_is [OF assms(1), of c] by auto
  with assms(2) as_is show ?thesis by auto
next
  case unicode
  have bs: "c \<noteq> ch_backslash" using unicode(2) by (auto simp: is_ascii_punctuation_def)
  have "x \<notin> set sp \<and> x \<noteq> ch_backslash"
    if "x \<in> set ([ch_u, ch_lbrace] @ fmt_04X c @ [ch_rbrace])" for x
    using that assms(2) fmt_04X_range [of x c] by auto
  then have "token_end sp True (([ch_u, ch_lbrace] @ fmt_04X c @ [ch_rbrace]) @ rest)
      = length ([ch_u, ch_lbrace] @ fmt_04X c @ [ch_rbrace]) + token_end sp False rest"
    by (subst token_end_ordinary) auto
  then show ?thesis using assms(2) bs by (auto simp: unicode(3) simp del: token_end.simps(2))
      (auto simp: token_end.simps(2) [of sp esc])
qed (use assms(2) in \<open>auto simp: is_ascii_punctuation_def\<close>)

lemma token_end_escape_str:
  assumes "unicode_ok u" "set sp \<subseteq> set data_specials"
  shows "token_end sp esc (escape_str u s @ rest)
    = length (escape_str u s) + token_end sp (if s = [] then esc else last s = ch_backslash) rest"
  by (induction s arbitrary: esc) (auto simp: token_end_escape_char [OF assms])

lemma escape_char_nonempty [simp]: "escape_char u c \<noteq> []"
  by (cases u c rule: escape_char_cases) auto

lemma escape_str_nonempty: "escape_str u s = [] \<longleftrightarrow> s = []"
  by (cases s) auto

text \<open>A printed part is one token when what follows is special and the part does not end in a backslash.\<close>

lemma tokenize_escape_str:
  assumes "unicode_ok u" "set sp \<subseteq> set data_specials" "s \<noteq> []"
    and "rest = [] \<or> hd rest \<in> set sp \<and> last s \<noteq> ch_backslash"
  shows "tokenize_by sp (escape_str u s @ rest) = escape_str u s # tokenize_by sp rest"
proof -
  have "token_end sp False (escape_str u s @ rest) = length (escape_str u s)"
    using assms(3,4) token_end_escape_str [OF assms(1,2), of False s rest]
    by (cases rest) (auto split: if_splits)
  from tokenize_take [OF this] show ?thesis
    using assms(3) escape_str_nonempty [of u s] by simp
qed

text \<open>
  The tokens of the parts of a printed path after the first slash: a part that ends in a
  backslash swallows the slash behind it and the next part.
\<close>

fun merged_tokens :: "text_env \<Rightarrow> ustr \<Rightarrow> ustr list \<Rightarrow> ustr list" where
  "merged_tokens u s [] = [escape_str u s]"
| "merged_tokens u s (t # ts) =
     (if last s = ch_backslash
      then (escape_str u s @ ch_slash # hd (merged_tokens u t ts)) # tl (merged_tokens u t ts)
      else escape_str u s # [ch_slash] # merged_tokens u t ts)"

lemma merged_tokens_nonempty [simp]: "merged_tokens u s ts \<noteq> []"
  by (cases ts) auto

abbreviation slashed :: "text_env \<Rightarrow> ustr list \<Rightarrow> ustr" where
  "slashed u ss \<equiv> concat (map (\<lambda>s. ch_slash # escape_str u s) ss)"

lemma tokenize_slashed:
  assumes "unicode_ok u" "set sp \<subseteq> set data_specials" "ch_slash \<in> set sp"
    and "s \<noteq> []" "\<forall>t \<in> set ts. t \<noteq> []"
  shows "tokenize_by sp (escape_str u s @ slashed u ts) = merged_tokens u s ts"
  using assms(4,5)
proof (induction ts arbitrary: s)
  case Nil
  then show ?case using tokenize_escape_str [OF assms(1,2), of s "[]"] by simp
next
  case (Cons t ts)
  let ?tail = "escape_str u t @ slashed u ts"
  have IH: "tokenize_by sp ?tail = merged_tokens u t ts" using Cons by simp
  show ?case
  proof (cases "last s = ch_backslash")
    case False
    then show ?thesis
      using Cons.prems assms(3) IH tokenize_escape_str [OF assms(1,2), of s "ch_slash # ?tail"]
      by (simp add: tokenize_special)
  next
    case True
    define i where "i = token_end sp False ?tail"
    have "i \<noteq> 0"
      using Cons.prems escape_str_nonempty [of u t] by (simp add: i_def token_end_escape_str [OF assms(1,2)])
    then have i: "tokenize_by sp ?tail = take i ?tail # tokenize_by sp (drop i ?tail)"
      by (intro tokenize_take) (simp_all add: i_def)
    have "token_end sp False (escape_str u s @ ch_slash # ?tail) = length (escape_str u s) + Suc i"
      using Cons.prems True by (simp add: token_end_escape_str [OF assms(1,2)] i_def)
    from tokenize_take [OF this] have "tokenize_by sp (escape_str u s @ ch_slash # ?tail)
        = (escape_str u s @ ch_slash # take i ?tail) # tokenize_by sp (drop i ?tail)"
      by simp
    moreover have "merged_tokens u t ts = take i ?tail # tokenize_by sp (drop i ?tail)"
      using IH i by (simp only:)
    ultimately show ?thesis using True by simp
  qed
qed

section \<open>Parsing printed paths\<close>

lemma escape_char_hd: "unicode_ok u \<Longrightarrow> hd (escape_char u c) \<notin> set data_specials"
  using not_print_as_is [of u c] by (cases u c rule: escape_char_cases) auto

lemma escape_str_hd: "unicode_ok u \<Longrightarrow> s \<noteq> [] \<Longrightarrow> hd (escape_str u s @ rest) \<notin> set data_specials"
  using escape_char_hd [of u "hd s"] by (cases s) (auto simp: hd_append)

lemma merged_tokens_hd:
  assumes "unicode_ok u" "s \<noteq> []" "\<forall>t \<in> set ts. t \<noteq> []" "x \<in> set (merged_tokens u s ts)"
  shows "x = [ch_slash] \<or> x \<noteq> [] \<and> hd x \<notin> set data_specials"
  using assms(2-4)
proof (induction ts arbitrary: s)
  case Nil
  then show ?case using escape_str_hd [OF assms(1), of s "[]"] by (simp add: escape_str_nonempty)
next
  case (Cons t ts)
  from Cons.prems(3) consider "x \<in> set (merged_tokens u t ts)" | "x = [ch_slash]"
    | rest where "x = escape_str u s @ rest"
    by (cases "merged_tokens u t ts") (auto split: if_splits)
  then show ?case
  proof cases
    case 3
    then show ?thesis
      using escape_str_hd [OF assms(1) Cons.prems(1), of rest] Cons.prems(1) by (simp add: escape_str_nonempty)
  qed (use Cons in auto)
qed

lemma position_of_None: "\<forall>x \<in> set ts. x \<noteq> t \<Longrightarrow> position_of t ts = None"
  by (induction ts) auto

lemma position_of_append:
  "\<forall>x \<in> set ts. x \<noteq> t \<Longrightarrow> position_of t (ts @ t # us) = Some (length ts)"
  by (induction ts) auto

definition printable :: "text_env \<Rightarrow> ustr \<Rightarrow> bool" where
  "printable u s \<longleftrightarrow> s \<noteq> [] \<and> (\<forall>c \<in> set s. is_scalar c \<and> (is_alphanumeric u c \<or> c < 0x10000))"

lemma strict_escape_str_append:
  assumes "unicode_ok u" "printable u s"
  shows "parse_strict_chars u (escape_str u s @ rest) = try_bind (parse_strict_chars u rest) (\<lambda>out. Ok (s @ out))"
proof -
  have "\<forall>c \<in> set s. is_scalar c \<and> escapable u c"
    using assms(2) by (auto simp: printable_def escapable_def)
  then show ?thesis
  proof (induction s)
    case Nil
    then show ?case by (cases "parse_strict_chars u rest") simp_all
  next
    case (Cons c s)
    then show ?case
      by (cases "parse_strict_chars u rest") (simp_all add: strict_escape_char [OF assms(1)])
  qed
qed

lemma strict_parts_loop_merged:
  assumes "unicode_ok u" "printable u s" "\<forall>t \<in> set ts. printable u t"
  shows "strict_parts_loop u (merged_tokens u s ts)
    = (if \<exists>x \<in> set (butlast (s # ts)). last x = ch_backslash then Err (MissingEscape ch_slash)
       else Ok (map (part_new u) (s # ts)))"
  using assms(2,3)
proof (induction ts arbitrary: s)
  case Nil
  then have "escape_str u s \<noteq> [ch_slash]"
    using escape_str_hd [OF assms(1), of s "[]"] by (auto simp: printable_def)
  with Nil show ?case
    using strict_escape_str_append [OF assms(1), of s "[]"] by (simp add: parse_strict_def)
next
  case (Cons t ts)
  have s: "s \<noteq> []" using Cons.prems by (simp add: printable_def)
  have ne: "escape_str u s @ rest \<noteq> [ch_slash]" for rest
    using escape_str_hd [OF assms(1) s, of rest] by auto
  show ?case
  proof (cases "last s = ch_backslash")
    case True
    then show ?thesis
      using ne Cons.prems strict_escape_str_append [OF assms(1)] not_print_as_is [OF assms(1), of ch_slash]
      by (simp add: parse_strict_def)
  next
    case False
    have "parse_strict u (escape_str u s) = Ok (part_new u s)"
      using strict_escape_str_append [OF assms(1), of s "[]"] Cons.prems by (simp add: parse_strict_def)
    then show ?thesis
      using ne [of "[]"] Cons False by auto
  qed
qed

lemma path_to_string_of:
  "path_to_string u (path_of u ss) = (if ss = [] then [ch_slash] else slashed u ss)"
  by (auto simp: path_to_string_def is_root_def escaped_string_def comp_def)

lemma tokenize_path:
  assumes "unicode_ok u" "set sp \<subseteq> set data_specials" "ch_slash \<in> set sp" "\<forall>t \<in> set ss. t \<noteq> []"
  shows "tokenize_by sp (path_to_string u (path_of u ss))
    = [ch_slash] # (case ss of [] \<Rightarrow> [] | t # ts \<Rightarrow> merged_tokens u t ts)"
  using assms tokenize_slashed [OF assms(1-3)]
  by (cases ss) (simp_all add: path_to_string_of tokenize_special)

lemma tokens_no_special:
  assumes "unicode_ok u" "\<forall>t \<in> set ss. t \<noteq> []" "c \<in> {ch_colon, ch_open}"
  shows "\<forall>x \<in> set ([ch_slash] # (case ss of [] \<Rightarrow> [] | t # ts \<Rightarrow> merged_tokens u t ts)). x \<noteq> [c]"
  using assms merged_tokens_hd [OF assms(1)] by (cases ss) fastforce+

lemma strict_parts_of_path:
  assumes "unicode_ok u" "\<forall>s \<in> set ss. printable u s"
  shows "entity_path_parts_from_tokens_strict u
      ([ch_slash] # (case ss of [] \<Rightarrow> [] | t # ts \<Rightarrow> merged_tokens u t ts))
    = (if \<exists>x \<in> set (butlast ss). last x = ch_backslash then Err (MissingEscape ch_slash)
       else Ok (map (part_new u) ss))"
  using assms strict_parts_loop_merged [OF assms(1)]
  by (cases ss) (simp_all add: entity_path_parts_from_tokens_strict_def)

lemma path_parse_strict_printed:
  assumes "unicode_ok u" "\<forall>s \<in> set ss. printable u s"
  shows "path_parse_strict u (path_to_string u (path_of u ss))
    = (if \<exists>s \<in> set (butlast ss). last s = ch_backslash then Err (MissingEscape ch_slash)
       else Ok (path_of u ss))"
proof -
  let ?tokens = "[ch_slash] # (case ss of [] \<Rightarrow> [] | t # ts \<Rightarrow> merged_tokens u t ts)"
  have ne: "\<forall>t \<in> set ss. t \<noteq> []" using assms(2) by (auto simp: printable_def)
  have "tokenize_data_path (path_to_string u (path_of u ss)) = ?tokens"
    unfolding tokenize_data_path_def by (rule tokenize_path) (use assms ne in auto)
  moreover have "path_to_string u (path_of u ss) \<noteq> []"
    by (cases ss) (simp_all add: path_to_string_of)
  moreover have "position_of [ch_colon] ?tokens = None" "position_of [ch_open] ?tokens = None"
    by (rule position_of_None, rule tokens_no_special [OF assms(1) ne], simp)+
  ultimately have "data_path_from_str u (path_to_string u (path_of u ss))
      = try_bind (entity_path_parts_from_tokens_strict u ?tokens) (\<lambda>parts.
          Ok \<lparr>dp_entity_path = path_from u parts, dp_instance = None, dp_component = None\<rparr>)"
    by (simp add: data_path_from_str_def parse_component_def parse_instance_def
        del: position_of.simps)
  then show ?thesis
    by (simp add: path_parse_strict_def strict_parts_of_path [OF assms])
qed

section \<open>Parsed paths\<close>

lemma strict_parts_loop_nonempty:
  "strict_parts_loop u tokens = Ok parts \<Longrightarrow> \<forall>t \<in> set tokens. t \<noteq> [] \<Longrightarrow>
   \<exists>ss. parts = map (part_new u) ss \<and> (\<forall>s \<in> set ss. s \<noteq> [])"
proof (induction u tokens arbitrary: parts rule: strict_parts_loop.induct)
  case (2 u token tokens)
  then obtain out where out: "parse_strict_chars u token = Ok out" "out \<noteq> []"
    using strict_nonempty by (auto simp: try_bind_Ok_iff parse_strict_def split: if_splits)
  show ?case
  proof (cases tokens)
    case Nil
    with 2 out show ?thesis
      by (intro exI [of _ "[out]"]) (auto simp: try_bind_Ok_iff parse_strict_def split: if_splits)
  next
    case (Cons nt tokens')
    with 2 obtain ps where ps: "parse_strict u token = Ok (part_new u out)"
      "strict_parts_loop u tokens' = Ok ps" "parts = part_new u out # ps" "nt = [ch_slash]"
      "tokens' \<noteq> []" "token \<noteq> [ch_slash]"
      using out by (auto simp: try_bind_Ok_iff parse_strict_def split: if_splits)
    with 2(1) [OF ps(6) Cons ps(4,5)] 2(3) Cons obtain ss where
      "ps = map (part_new u) ss" "\<forall>s \<in> set ss. s \<noteq> []" by auto
    with ps out show ?thesis by (intro exI [of _ "out # ss"]) auto
  qed
qed simp

lemma data_path_parts_nonempty:
  assumes "data_path_from_str u input = Ok dp"
  shows "\<exists>ss. dp_entity_path dp = path_of u ss \<and> (\<forall>s \<in> set ss. s \<noteq> [])"
proof -
  obtain c ts i ts' parts where p: "parse_component u (tokenize_data_path input) = Ok (c, ts)"
    "parse_instance ts = Ok (i, ts')" "entity_path_parts_from_tokens_strict u ts' = Ok parts"
    "dp_entity_path dp = path_from u parts"
    using assms by (auto simp: data_path_from_str_def try_bind_Ok_iff split: if_splits)
  have "set ts' \<subseteq> set ts"
    using p(2) set_take_subset by (fastforce simp: parse_instance_def Let_def split: option.splits if_splits)
  moreover have "set ts \<subseteq> set (tokenize_data_path input)"
    using p(1) set_take_subset
    by (fastforce simp: parse_component_def Let_def split: option.splits if_splits sum.splits)
  ultimately have ne: "\<forall>t \<in> set ts'. t \<noteq> []"
    unfolding tokenize_data_path_def by (blast dest: tokens_nonempty)
  have "\<exists>ss. parts = map (part_new u) ss \<and> (\<forall>s \<in> set ss. s \<noteq> [])"
  proof (cases "ts' = [[ch_slash]]")
    case True
    with p(3) show ?thesis by (auto simp: entity_path_parts_from_tokens_strict_def)
  next
    case False
    with p(3) have "strict_parts_loop u (if hd ts' = [ch_slash] then tl ts' else ts') = Ok parts"
      by (auto simp: entity_path_parts_from_tokens_strict_def split: if_splits)
    then show ?thesis
      by (rule strict_parts_loop_nonempty) (use ne in \<open>cases ts'; auto\<close>)
  qed
  with p(4) show ?thesis by auto
qed

lemma parse_strict_parts_nonempty:
  assumes "path_parse_strict u input = Ok p"
  shows "\<exists>ss. p = path_of u ss \<and> (\<forall>s \<in> set ss. s \<noteq> [])"
  using assms data_path_parts_nonempty [of u input]
  by (auto simp: path_parse_strict_def try_bind_Ok_iff split: option.splits)

lemma forgiving_part_of: "fst (parse_forgiving_with_warning u t) = part_new u (fst (parse_forgiving_chars u t))"
  by (simp add: parse_forgiving_with_warning_def case_prod_beta)

lemma parse_forgiving_uncached_path:
  "fst (parse_forgiving_uncached u input)
    = path_of u (map (fst \<circ> parse_forgiving_chars u) (filter (\<lambda>t. t \<noteq> [ch_slash]) (tokenize_entity_path input)))"
  by (simp add: parse_forgiving_uncached_def Let_def forgiving_part_of path_of_def comp_def)

lemma parse_forgiving_parts_nonempty:
  "\<exists>ss. fst (parse_forgiving_uncached u input) = path_of u ss \<and> (\<forall>s \<in> set ss. s \<noteq> [])"
proof (intro exI conjI)
  show "fst (parse_forgiving_uncached u input)
    = path_of u (map (fst \<circ> parse_forgiving_chars u) (filter (\<lambda>t. t \<noteq> [ch_slash]) (tokenize_entity_path input)))"
    by (rule parse_forgiving_uncached_path)
qed (auto simp: tokenize_entity_path_def forgiving_nonempty dest: tokens_nonempty)

lemma merged_tokens_plain:
  assumes "unicode_ok u" "\<forall>x \<in> set (butlast (s # ts)). last x \<noteq> ch_backslash" "\<forall>x \<in> set (s # ts). printable u x"
  shows "map (fst \<circ> parse_forgiving_chars u) (filter (\<lambda>t. t \<noteq> [ch_slash]) (merged_tokens u s ts)) = s # ts"
  using assms(2,3)
proof (induction ts arbitrary: s)
  case Nil
  then show ?case
    using forgiving_escape_str [OF assms(1), of s] escape_str_hd [OF assms(1), of s "[]"]
    by (auto simp: printable_def escapable_def)
next
  case (Cons t ts)
  then have "fst (parse_forgiving_chars u (escape_str u s)) = s" "escape_str u s \<noteq> [ch_slash]"
    using forgiving_escape_str [OF assms(1), of s] escape_str_hd [OF assms(1), of s "[]"]
    by (auto simp: printable_def escapable_def)
  with Cons show ?case by auto
qed

lemma parse_forgiving_printed:
  assumes "unicode_ok u" "\<forall>s \<in> set ss. printable u s" "\<forall>x \<in> set (butlast ss). last x \<noteq> ch_backslash"
  shows "fst (parse_forgiving_uncached u (path_to_string u (path_of u ss))) = path_of u ss"
proof -
  have "tokenize_entity_path (path_to_string u (path_of u ss))
      = [ch_slash] # (case ss of [] \<Rightarrow> [] | t # ts \<Rightarrow> merged_tokens u t ts)"
    unfolding tokenize_entity_path_def
    by (rule tokenize_path) (use assms in \<open>auto simp: printable_def\<close>)
  then show ?thesis
    using assms merged_tokens_plain [OF assms(1)]
    by (cases ss) (simp_all add: parse_forgiving_uncached_path)
qed

section \<open>Properties of paths\<close>

text \<open>
  C9. For a path whose parts are not empty and made of Unicode scalar values that are alphanumeric or below U+10000,
  printing the path and parsing it strictly gives the path back exactly when no part but the
  last ends in a backslash; otherwise the tokenizer takes the slash behind the escaped
  backslash for an escaped one and the parser reports a missing escape. A character from U+10000 on that is
  not alphanumeric, an emoji for instance, is printed with an escape of five digits or more that the parser does not read: the theorem on the round trip
  of parts tells about those.
\<close>

theorem path_print_parse:
  assumes "unicode_ok u"
    and "\<forall>s \<in> set ss. s \<noteq> [] \<and> (\<forall>c \<in> set s. is_scalar c \<and> (is_alphanumeric u c \<or> c < 0x10000))"
  shows "path_parse_strict u (path_to_string u (path_of u ss))
    = (if \<exists>s \<in> set (butlast ss). last s = ch_backslash then Err (MissingEscape ch_slash)
       else Ok (path_of u ss))"
  by (rule path_parse_strict_printed) (use assms in \<open>auto simp: printable_def\<close>)

theorem path_print_parse_witness:
  "path_parse_strict ascii_env (path_to_string ascii_env (path_of ascii_env [ascii ''a:b'', ascii ''c d'']))
     = Ok (path_of ascii_env [ascii ''a:b'', ascii ''c d''])
   \<and> path_parse_strict ascii_env (path_to_string ascii_env (path_of ascii_env [[65, 92], [66]]))
     = Err (MissingEscape ch_slash)"
  using path_print_parse [of ascii_env "[ascii ''a:b'', ascii ''c d'']"]
    path_print_parse [of ascii_env "[[65, 92], [66]]"]
  by (simp add: ascii_def is_scalar_def)

text \<open>
  The forgiving parser accepts every string, the strict one at most some of them, and both
  only build paths whose parts are not empty. On the printed form of a path in which no part
  but the last ends in a backslash the forgiving parser gives the path back.
\<close>

theorem parsed_parts_are_nonempty:
  "(\<exists>ss. fst (parse_forgiving_uncached u input) = path_of u ss \<and> (\<forall>s \<in> set ss. s \<noteq> []))
   \<and> (\<forall>p. path_parse_strict u input = Ok p \<longrightarrow> (\<exists>ss. p = path_of u ss \<and> (\<forall>s \<in> set ss. s \<noteq> [])))
   \<and> (unicode_ok u \<and> (\<forall>s \<in> set ts. printable u s) \<and> (\<forall>x \<in> set (butlast ts). last x \<noteq> ch_backslash)
       \<longrightarrow> fst (parse_forgiving_uncached u (path_to_string u (path_of u ts))) = path_of u ts)"
  using parse_forgiving_parts_nonempty parse_strict_parts_nonempty parse_forgiving_printed by blast

theorem parsed_parts_are_nonempty_witness:
  "fst (parse_forgiving_uncached ascii_env (path_to_string ascii_env (path_of ascii_env [ascii ''a b''])))
     = path_of ascii_env [ascii ''a b'']"
  using parsed_parts_are_nonempty [of ascii_env "[]" "[ascii ''a b'']"]
  by (simp add: printable_def ascii_def is_scalar_def)

section \<open>The cache of the forgiving parser\<close>

text \<open>Every cached path is the path of the only input with that hash among \<open>inputs\<close>.\<close>

definition cache_ok :: "text_env \<Rightarrow> (ustr \<Rightarrow> u64) \<Rightarrow> ustr set \<Rightarrow> (u64 \<rightharpoonup> EntityPath) \<Rightarrow> bool" where
  "cache_ok u input_hash inputs cache \<longleftrightarrow>
     (\<forall>k p. cache k = Some p \<longrightarrow>
        (\<exists>s \<in> inputs. input_hash s = k \<and> p = fst (parse_forgiving_uncached u s)))"

fun parse_all :: "text_env \<Rightarrow> (ustr \<Rightarrow> u64) \<Rightarrow> (u64 \<rightharpoonup> EntityPath) \<Rightarrow> ustr list \<Rightarrow> EntityPath list" where
  "parse_all u input_hash cache [] = []"
| "parse_all u input_hash cache (s # ss) =
     (case path_parse_forgiving u input_hash cache s of
        (cache, p, warning) \<Rightarrow> p # parse_all u input_hash cache ss)"

lemma path_parse_forgiving_cached:
  assumes "cache_ok u h inputs cache" "s \<in> inputs" "inj_on h inputs"
    "path_parse_forgiving u h cache s = (cache', p, w)"
  shows "p = fst (parse_forgiving_uncached u s) \<and> cache_ok u h inputs cache'"
proof (cases "cache (h s)")
  case None
  with assms show ?thesis
    by (auto simp: path_parse_forgiving_def cache_ok_def case_prod_beta split: if_splits)
next
  case (Some q)
  with assms(1) obtain t where "t \<in> inputs" "h t = h s" "q = fst (parse_forgiving_uncached u t)"
    by (auto simp: cache_ok_def)
  with assms(2,3) have "q = fst (parse_forgiving_uncached u s)" by (auto simp: inj_on_def)
  with Some assms(1,4) show ?thesis by (simp add: path_parse_forgiving_def)
qed

lemma parse_all_cached:
  assumes "cache_ok u h inputs cache" "set ss \<subseteq> inputs" "inj_on h inputs"
  shows "parse_all u h cache ss = map (\<lambda>s. fst (parse_forgiving_uncached u s)) ss"
  using assms(1,2)
proof (induction ss arbitrary: cache)
  case (Cons s ss)
  obtain cache' p w where r: "path_parse_forgiving u h cache s = (cache', p, w)"
    by (metis prod_cases3)
  with path_parse_forgiving_cached [OF Cons.prems(1) _ assms(3) r] Cons show ?case by simp
qed simp

text \<open>
  C16. The cache of the forgiving parser is transparent: whatever is parsed in whatever order,
  starting from the empty cache, every call returns what parsing without a cache returns, as
  long as the hashes of the inputs do not collide.
\<close>

theorem forgiving_cache_transparent:
  assumes "inj_on input_hash (set inputs)"
  shows "parse_all u input_hash Map.empty inputs = map (\<lambda>s. fst (parse_forgiving_uncached u s)) inputs"
  by (rule parse_all_cached [of _ _ "set inputs"]) (use assms in \<open>auto simp: cache_ok_def\<close>)

theorem forgiving_cache_transparent_witness:
  "parse_all ascii_env (string_hash ascii_env) Map.empty [ascii ''a/b'', ascii ''c'', ascii ''a/b'']
     = map (\<lambda>s. fst (parse_forgiving_uncached ascii_env s)) [ascii ''a/b'', ascii ''c'', ascii ''a/b'']"
proof -
  have "inj_on (string_hash ascii_env) (set [ascii ''a/b'', ascii ''c'', ascii ''a/b''])"
    by (simp add: ascii_def insert_Diff_if) (simp add: ascii_env_def)
  then show ?thesis by (rule forgiving_cache_transparent)
qed

end
