(* ===== verification/Data_Path.thy ===== *)
theory Data_Path
  imports Path_Parse
begin

text \<open>
  Printed data paths (\<open>src/crates/store/dl_log_types/src/path/data_path.rs\<close>,
  \<open>src/crates/store/dl_log_types/src/instance.rs\<close>, \<open>src/crates/utils/dl_format/src/lib.rs\<close>): which
  of them \<open>DataPath::from_str\<close> reads back, and with which error it rejects the others.
\<close>

section \<open>Numbers\<close>

lemma dec_digits_small: "n < 10 \<Longrightarrow> dec_digits n = [48 + n]"
  by (simp add: dec_digits.simps)

lemma dec_digits_step: "10 \<le> n \<Longrightarrow> dec_digits n = dec_digits (n div 10) @ [48 + n mod 10]"
  by (subst dec_digits.simps) simp

lemma dec_digits_range: "x \<in> set (dec_digits n) \<Longrightarrow> 48 \<le> x \<and> x \<le> 57"
proof (induction n rule: dec_digits.induct)
  case (1 n)
  then show ?case by (cases "n < 10") (auto simp: dec_digits_small dec_digits_step)
qed

lemma dec_digits_nonempty [simp]: "dec_digits n \<noteq> []"
  by (subst dec_digits.simps) simp

lemma dec_digits_length: "10 ^ Suc k \<le> n \<longleftrightarrow> Suc k < length (dec_digits n)"
proof (induction k arbitrary: n)
  case 0
  show ?case by (cases "n < 10") (auto simp: dec_digits_small dec_digits_step)
next
  case (Suc k)
  show ?case
  proof (cases "n < 10")
    case True
    then have "n < 10 ^ Suc (Suc k)" using one_le_power [of "10::nat" k] by (simp, linarith)
    then show ?thesis using True by (simp add: dec_digits_small)
  next
    case False
    then have "10 ^ Suc (Suc k) \<le> n \<longleftrightarrow> 10 ^ Suc k \<le> n div 10"
      by (simp add: less_eq_div_iff_mult_less_eq mult.commute)
    with False Suc [of "n div 10"] show ?thesis by (simp add: dec_digits_step)
  qed
qed

lemma four_digits: "1000 \<le> n \<longleftrightarrow> 3 < length (dec_digits n)"
  using dec_digits_length [of 2 n] by simp

lemma dec_loop_snoc:
  "d < 10 \<Longrightarrow> dec_loop a (xs @ [48 + d]) =
     Option.bind (dec_loop a xs) (\<lambda>v. if v * 10 + d < 2 ^ 64 then Some (v * 10 + d) else None)"
  by (induction a xs rule: dec_loop.induct) auto

lemma dec_loop_digits: "n < 2 ^ 64 \<Longrightarrow> dec_loop 0 (dec_digits n) = Some n"
proof (induction n rule: dec_digits.induct)
  case (1 n)
  show ?case
  proof (cases "n < 10")
    case False
    with 1 show ?thesis by (simp add: dec_digits_step dec_loop_snoc)
  qed (simp add: dec_digits_small)
qed

lemma dec_loop_not_digit: "x \<in> set s \<Longrightarrow> 57 < x \<Longrightarrow> dec_loop a s = None"
  by (induction a s rule: dec_loop.induct) auto

section \<open>Thousands separators\<close>

lemma thousands_loop_short: "length s \<le> 3 \<Longrightarrow> thousands_loop [] s = s"
  by (cases s) simp_all

lemma thousands_loop_keeps: "set r \<subseteq> set (thousands_loop r s)"
  by (induction r s rule: thousands_loop.induct) (auto split: if_splits)

lemma thousands_loop_set: "set (thousands_loop r s) \<subseteq> insert THIN_SPACE (set r \<union> set s)"
proof (induction r s rule: thousands_loop.induct)
  case (2 r c cs)
  then show ?case
    using set_take_subset [of 3 "c # cs"] set_drop_subset [of 3 "c # cs"]
    by (auto split: if_splits simp del: take_Suc_Cons drop_Suc_Cons)
qed auto

lemma thousands_loop_long:
  assumes "3 < length s"
  shows "THIN_SPACE \<in> set (thousands_loop [] s)"
proof -
  obtain a b where s: "s = a # b" using assms by (cases s) auto
  obtain c d where cd: "drop 3 s = c # d" using assms by (cases "drop 3 s") auto
  have "take 3 s \<noteq> []" using assms by auto
  then have "thousands_loop [] s = thousands_loop ((take 3 s @ [THIN_SPACE]) @ take 3 (c # d)) (drop 3 (c # d))"
    using cd unfolding s by (subst thousands_loop.simps(2)) simp
  then show ?thesis
    using thousands_loop_keeps [of "(take 3 s @ [THIN_SPACE]) @ take 3 (c # d)" "drop 3 (c # d)"] by auto
qed

lemma format_uint_set: "x \<in> set (format_uint n) \<Longrightarrow> 48 \<le> x \<and> x \<le> 57 \<or> x = THIN_SPACE"
  using thousands_loop_set [of "[]" "rev (dec_digits n)"] dec_digits_range [of x n]
  by (auto simp: format_uint_def add_thousands_separators_def)

lemma format_uint_small: "n < 1000 \<Longrightarrow> format_uint n = dec_digits n"
  using four_digits [of n]
  by (simp add: format_uint_def add_thousands_separators_def thousands_loop_short)

lemma format_uint_large: "1000 \<le> n \<Longrightarrow> THIN_SPACE \<in> set (format_uint n)"
  using four_digits [of n] thousands_loop_long [of "rev (dec_digits n)"]
  by (simp add: format_uint_def add_thousands_separators_def)

lemma format_uint_nonempty: "format_uint n \<noteq> []"
proof (cases "n < 1000")
  case False
  then show ?thesis using format_uint_large [of n] by auto
qed (simp add: format_uint_small)

lemma u64_from_format_uint:
  "u64_from_str (format_uint (unat i)) = (if unat i < 1000 then Some i else None)"
proof -
  obtain c cs where c: "format_uint (unat i) = c # cs" "c \<noteq> ch_plus"
    using format_uint_nonempty [of "unat i"] format_uint_set [of "hd (format_uint (unat i))" "unat i"]
    by (cases "format_uint (unat i)") auto
  then have "u64_from_str (format_uint (unat i)) = map_option of_nat (dec_loop 0 (format_uint (unat i)))"
    by (simp add: u64_from_str_def)
  also have "\<dots> = (if unat i < 1000 then Some i else None)"
    using dec_loop_digits [of "unat i"] format_uint_large [of "unat i"]
      dec_loop_not_digit [of THIN_SPACE "format_uint (unat i)" 0]
    by (auto simp: format_uint_small)
  finally show ?thesis .
qed

section \<open>Tokens of a data path\<close>

lemma tokenize_parts:
  assumes "unicode_ok u" "\<forall>s \<in> set ss. s \<noteq> [] \<and> last s \<noteq> ch_backslash"
    "rest = [] \<or> hd rest \<in> set data_specials"
  shows "tokenize_data_path (path_to_string u (path_of u ss) @ rest)
    = ([ch_slash] # (case ss of [] \<Rightarrow> [] | t # ts \<Rightarrow> merged_tokens u t ts)) @ tokenize_data_path rest"
proof -
  have parts: "tokenize_by data_specials (escape_str u s @ slashed u ts @ rest)
      = merged_tokens u s ts @ tokenize_by data_specials rest"
    if "\<forall>x \<in> set (s # ts). x \<noteq> [] \<and> last x \<noteq> ch_backslash" for s ts
    using that
  proof (induction ts arbitrary: s)
    case Nil
    then show ?case using assms(3) tokenize_escape_str [OF assms(1), of data_specials s rest] by auto
  next
    case (Cons t ts)
    then show ?case
      using tokenize_escape_str [OF assms(1), of data_specials s "slashed u (t # ts) @ rest"]
      by (simp add: tokenize_special)
  qed
  show ?thesis
    using assms(2) parts
    by (cases ss) (simp_all add: tokenize_data_path_def path_to_string_of tokenize_special)
qed

lemma tokenize_instance:
  "tokenize_data_path ([ch_open, ch_hash] @ format_uint n @ ch_close # rest)
    = [ch_open] # [ch_hash] # format_uint n # [ch_close] # tokenize_data_path rest"
proof -
  have "x \<notin> set data_specials \<and> x \<noteq> ch_backslash" if "x \<in> set (format_uint n)" for x
    using format_uint_set [OF that] by auto
  then have "token_end data_specials False (format_uint n @ ch_close # rest) = length (format_uint n)"
    by (subst token_end_ordinary) (auto simp: format_uint_nonempty)
  from tokenize_take [OF this] show ?thesis
    by (simp add: tokenize_data_path_def tokenize_special format_uint_nonempty)
qed

section \<open>Reading data paths back\<close>

lemma tokenize_component:
  assumes "c \<noteq> []" "last c \<noteq> ch_colon"
  shows "tokenize_data_path c \<noteq> [] \<and> last (tokenize_data_path c) \<noteq> [ch_colon]
    \<and> join_tokens (tokenize_data_path c) = c"
proof -
  have c: "concat (tokenize_data_path c) = c"
    by (simp add: tokenize_data_path_def concat_tokenize)
  then have ne: "tokenize_data_path c \<noteq> []" using assms(1) by auto
  then obtain ts t where ts: "tokenize_data_path c = ts @ [t]" by (metis append_butlast_last_id)
  with c have "c = concat ts @ t" by simp
  moreover have "t \<noteq> []"
    using ts tokens_nonempty [of t data_specials c] by (simp add: tokenize_data_path_def)
  ultimately have "last c = last t" by simp
  with assms(2) ts ne c show ?thesis by (auto simp: join_tokens_def)
qed

lemma parse_component_suffix:
  assumes "\<forall>x \<in> set tokens. x \<noteq> [ch_colon]"
    "case cmp of None \<Rightarrow> True | Some c \<Rightarrow> c \<noteq> [] \<and> last c \<noteq> ch_colon"
  shows "parse_component u (tokens @ tokenize_data_path (case cmp of None \<Rightarrow> [] | Some c \<Rightarrow> ch_colon # c))
    = Ok (map_option (istr_new u) cmp, tokens)"
proof (cases cmp)
  case None
  then show ?thesis
    using position_of_None [OF assms(1)] by (simp add: parse_component_def tokenize_data_path_def)
next
  case (Some c)
  have "tokenize_data_path (ch_colon # c) = [ch_colon] # tokenize_data_path c"
    by (simp add: tokenize_data_path_def tokenize_special)
  then show ?thesis
    using Some assms(2) position_of_append [OF assms(1)] tokenize_component [of c]
    by (simp add: parse_component_def component_identifier_try_new_def)
qed

text \<open>
  C10. Reading back a printed data path whose parts are not empty, made of characters that the printed form keeps (alphanumeric
  or below U+10000) and do not end in a backslash, and whose component, if any, is not empty and does not
  end in a colon: the entity path and the component come back; the instance that stands for all instances is not printed and
  comes back as no instance, instances below
  1000 come back, and from 1000 on the thousands separators in the printed number make the
  parser reject it.
\<close>

theorem data_path_print_parse:
  assumes "unicode_ok u" "\<forall>s \<in> set ss. printable u s \<and> last s \<noteq> ch_backslash"
    and "case cmp of None \<Rightarrow> True | Some c \<Rightarrow> c \<noteq> [] \<and> last c \<noteq> ch_colon"
  shows "data_path_from_str u (data_path_to_string u
      \<lparr>dp_entity_path = path_of u ss, dp_instance = inst, dp_component = map_option (istr_new u) cmp\<rparr>)
    = (let shown = (if inst = Some Instance_ALL then None else inst) in
       case shown of
         Some i \<Rightarrow> if unat i < 1000
           then Ok \<lparr>dp_entity_path = path_of u ss, dp_instance = shown, dp_component = map_option (istr_new u) cmp\<rparr>
           else Err (BadInstance (instance_to_string i))
       | None \<Rightarrow> Ok \<lparr>dp_entity_path = path_of u ss, dp_instance = None, dp_component = map_option (istr_new u) cmp\<rparr>)"
proof -
  define shown where "shown = (if inst = Some Instance_ALL then None else inst)"
  define tail where "tail = (case cmp of None \<Rightarrow> [] | Some c \<Rightarrow> ch_colon # c)"
  define mid where "mid = (case shown of None \<Rightarrow> [] | Some i \<Rightarrow> [ch_open, ch_hash] @ format_uint (unat i) @ [ch_close])"
  define ps where "ps = [ch_slash] # (case ss of [] \<Rightarrow> [] | t # ts \<Rightarrow> merged_tokens u t ts)"
  define ms where "ms = (case shown of None \<Rightarrow> [] | Some i \<Rightarrow> [[ch_open], [ch_hash], format_uint (unat i), [ch_close]])"
  let ?str = "data_path_to_string u
      \<lparr>dp_entity_path = path_of u ss, dp_instance = inst, dp_component = map_option (istr_new u) cmp\<rparr>"
  have str: "?str = path_to_string u (path_of u ss) @ mid @ tail"
    by (auto simp: data_path_to_string_def mid_def tail_def shown_def instance_to_string_def istr_new_def
        split: option.splits)
  have ne: "\<forall>t \<in> set ss. t \<noteq> []" using assms(2) by (auto simp: printable_def)
  have colon: "\<forall>x \<in> set ps. x \<noteq> [ch_colon]" and bracket: "\<forall>x \<in> set ps. x \<noteq> [ch_open]"
    unfolding ps_def by (rule tokens_no_special [OF assms(1) ne]; simp)+
  have "tokenize_data_path (mid @ tail) = ms @ tokenize_data_path tail"
    using tokenize_instance by (auto simp: mid_def ms_def split: option.splits)
  moreover have "tokenize_data_path ?str = ps @ tokenize_data_path (mid @ tail)"
    unfolding str ps_def
    by (rule tokenize_parts) (use assms ne in \<open>auto simp: mid_def tail_def split: option.splits\<close>)
  ultimately have "tokenize_data_path ?str = (ps @ ms) @ tokenize_data_path tail" by simp
  moreover have "\<forall>x \<in> set (ps @ ms). x \<noteq> [ch_colon]"
  proof -
    have "x \<noteq> [ch_colon]" if "x \<in> set ms" for x
      using that format_uint_set [of ch_colon] by (auto simp: ms_def split: option.splits)
        (metis list.set_intros(1))
    with colon show ?thesis by auto
  qed
  ultimately have cmp: "parse_component u (tokenize_data_path ?str)
      = Ok (map_option (istr_new u) cmp, ps @ ms)"
    using parse_component_suffix [OF _ assms(3), of "ps @ ms" u] by (simp add: tail_def)
  have inst: "parse_instance (ps @ ms) = (case shown of
      None \<Rightarrow> Ok (None, ps)
    | Some i \<Rightarrow> if unat i < 1000 then Ok (shown, ps) else Err (BadInstance (format_uint (unat i))))"
    using bracket
    by (auto simp: ms_def parse_instance_def position_of_None position_of_append u64_from_format_uint
        split: option.splits)
  have "entity_path_parts_from_tokens_strict u ps = Ok (map (part_new u) ss)"
    unfolding ps_def using assms(1,2)
    by (subst strict_parts_of_path) (auto dest: in_set_butlastD)
  moreover have "?str \<noteq> []" by (simp add: str path_to_string_of)
  moreover have "format_uint (unat i) = instance_to_string i" if "shown = Some i" for i
    using that by (auto simp: shown_def instance_to_string_def split: if_splits)
  ultimately show ?thesis
    unfolding shown_def [symmetric] Let_def
    by (auto simp: data_path_from_str_def cmp inst split: option.splits)
qed

theorem data_path_print_parse_witness:
  "data_path_from_str ascii_env (data_path_to_string ascii_env
      \<lparr>dp_entity_path = path_of ascii_env [ascii ''a''], dp_instance = Some 1000, dp_component = None\<rparr>)
    = Err (BadInstance (instance_to_string 1000))"
  using data_path_print_parse [of ascii_env "[ascii ''a'']" None "Some 1000"]
  by (simp add: printable_def ascii_def is_scalar_def)

text \<open>The token behind the opening bracket is not looked at: any special character is accepted there.\<close>

lemma instance_marker_not_checked:
  "parse_instance (tokenize_data_path (ascii ''a[/42]'')) = Ok (Some 42, [ascii ''a''])"
  by (simp add: tokenize_data_path_def tokenize_by.simps ascii_def parse_instance_def u64_from_str_def)

end
