(* ===== verification/BTree_Map.thy ===== *)
theory BTree_Map
  imports Path_Part
begin

text \<open>
  \<open>BTreeMap\<close> of the standard library as the path filters use it: a list of entries with keys
  strictly increasing in the key type's own \<open>Ord\<close>, which is a comparison function. The
  interface of the comparison is a locale; what insertion, collecting and \<open>entry().or_insert\<close>
  do to the entries is proved once in it.
\<close>

section \<open>Operations\<close>

text \<open>\<open>insert\<close> on a key that compares as equal replaces the value and keeps the old key.\<close>

fun btree_insert :: "('k \<Rightarrow> 'k \<Rightarrow> Ordering) \<Rightarrow> 'k \<Rightarrow> 'v \<Rightarrow> ('k \<times> 'v) list \<Rightarrow> ('k \<times> 'v) list" where
  "btree_insert cmp k v [] = [(k, v)]"
| "btree_insert cmp k v ((k', v') # m) =
     (case cmp k k' of
        Less \<Rightarrow> (k, v) # (k', v') # m
      | Equal \<Rightarrow> (k', v) # m
      | Greater \<Rightarrow> (k', v') # btree_insert cmp k v m)"

text \<open>\<open>collect\<close> sorts the entries and keeps the last entry, key included, of equal keys.\<close>

fun btree_put :: "('k \<Rightarrow> 'k \<Rightarrow> Ordering) \<Rightarrow> 'k \<Rightarrow> 'v \<Rightarrow> ('k \<times> 'v) list \<Rightarrow> ('k \<times> 'v) list" where
  "btree_put cmp k v [] = [(k, v)]"
| "btree_put cmp k v ((k', v') # m) =
     (case cmp k k' of
        Less \<Rightarrow> (k, v) # (k', v') # m
      | Equal \<Rightarrow> (k, v) # m
      | Greater \<Rightarrow> (k', v') # btree_put cmp k v m)"

definition btree_collect :: "('k \<Rightarrow> 'k \<Rightarrow> Ordering) \<Rightarrow> ('k \<times> 'v) list \<Rightarrow> ('k \<times> 'v) list" where
  "btree_collect cmp kvs = foldl (\<lambda>m (k, v). btree_put cmp k v m) [] kvs"

fun btree_or_insert :: "('k \<Rightarrow> 'k \<Rightarrow> Ordering) \<Rightarrow> 'k \<Rightarrow> 'v \<Rightarrow> ('k \<times> 'v) list \<Rightarrow> ('k \<times> 'v) list" where
  "btree_or_insert cmp k v [] = [(k, v)]"
| "btree_or_insert cmp k v ((k', v') # m) =
     (case cmp k k' of
        Less \<Rightarrow> (k, v) # (k', v') # m
      | Equal \<Rightarrow> (k', v') # m
      | Greater \<Rightarrow> (k', v') # btree_or_insert cmp k v m)"

definition btree_sorted :: "('k \<Rightarrow> 'k \<Rightarrow> Ordering) \<Rightarrow> ('k \<times> 'v) list \<Rightarrow> bool" where
  "btree_sorted cmp m \<longleftrightarrow> sorted_wrt (\<lambda>a b. cmp (fst a) (fst b) = Less) m"

text \<open>The entries with their keys seen through \<open>proj\<close>.\<close>

definition btree_entries :: "('k \<Rightarrow> 'a) \<Rightarrow> ('k \<times> 'v) list \<Rightarrow> ('a \<times> 'v) set" where
  "btree_entries proj m = (\<lambda>(k, v). (proj k, v)) ` set m"

lemma btree_entries_simps [simp]:
  "btree_entries proj [] = {}"
  "btree_entries proj ((k, v) # m) = insert (proj k, v) (btree_entries proj m)"
  by (simp_all add: btree_entries_def)

section \<open>Keys with a total order\<close>

text \<open>A comparison that is a total order of what \<open>proj\<close> shows of the keys.\<close>

locale ord_key =
  fixes cmp :: "'k \<Rightarrow> 'k \<Rightarrow> Ordering" and proj :: "'k \<Rightarrow> 'a"
  assumes equal: "cmp a b = Equal \<longleftrightarrow> proj a = proj b"
    and flip: "cmp a b = Greater \<longleftrightarrow> cmp b a = Less"
    and trans: "cmp a b = Less \<Longrightarrow> cmp b c = Less \<Longrightarrow> cmp a c = Less"
    and cong: "proj a = proj b \<Longrightarrow> cmp a c = cmp b c"
begin

lemma less_not_equal: "cmp a b = Less \<Longrightarrow> proj a \<noteq> proj b"
  using equal [of a b] by auto

lemma less_not_sym: "cmp a b = Less \<Longrightarrow> cmp b a \<noteq> Less"
  using trans [of a b a] less_not_equal [of a a] by auto

lemma cong_right: "proj a = proj b \<Longrightarrow> cmp c a = Less \<longleftrightarrow> cmp c b = Less"
  using flip cong by metis

lemma sorted_Cons:
  "btree_sorted cmp (kv # m) \<longleftrightarrow> (\<forall>x \<in> set m. cmp (fst kv) (fst x) = Less) \<and> btree_sorted cmp m"
  by (simp add: btree_sorted_def)

lemma sorted_Nil [simp]: "btree_sorted cmp []"
  by (simp add: btree_sorted_def)

lemma sorted_filter: "btree_sorted cmp m \<Longrightarrow> btree_sorted cmp (filter P m)"
  by (simp add: btree_sorted_def sorted_wrt_filter)

text \<open>In a sorted map a key below the first one, or equal to it, does not occur in the rest.\<close>

lemma rest_keys:
  assumes "btree_sorted cmp ((k', v') # m)" "cmp k k' = Less \<or> proj k = proj k'" "(a, v) \<in> btree_entries proj m"
  shows "a \<noteq> proj k"
proof -
  obtain x where x: "(x, v) \<in> set m" "a = proj x" using assms(3) by (auto simp: btree_entries_def)
  then have "cmp k' x = Less" using assms(1) by (auto simp: sorted_Cons)
  with assms(2) have "cmp k x = Less" using trans cong by metis
  with x(2) show ?thesis using less_not_equal by metis
qed

lemma entries_unique:
  assumes "btree_sorted cmp m" "(a, v) \<in> btree_entries proj m" "(a, w) \<in> btree_entries proj m"
  shows "v = w"
  using assms
proof (induction m)
  case (Cons kv m)
  obtain k' v' where kv: "kv = (k', v')" by force
  have "(proj k', x) \<notin> btree_entries proj m" for x
    using rest_keys [of k' v' m k'] Cons.prems(1) by (auto simp: kv)
  with Cons show ?case by (auto simp: kv sorted_Cons)
qed simp

lemma put_entries:
  "btree_sorted cmp m \<Longrightarrow> btree_entries proj (btree_put cmp k v m)
     = insert (proj k, v) {(a, w) \<in> btree_entries proj m. a \<noteq> proj k}"
proof (induction m)
  case (Cons kv m)
  obtain k' v' where kv: "kv = (k', v')" by force
  have srt: "btree_sorted cmp m" using Cons.prems by (simp add: sorted_Cons)
  have rest: "\<forall>aw \<in> btree_entries proj m. fst aw \<noteq> proj k" if "cmp k k' \<noteq> Greater"
    using Cons.prems that equal [of k k'] rest_keys [of k' v' m k] by (cases "cmp k k'") (auto simp: kv)
  show ?case
  proof (cases "cmp k k'")
    case Less
    with rest less_not_equal [OF Less] show ?thesis by (auto simp: kv)
  next
    case Equal
    then have "proj k = proj k'" by (simp add: equal)
    with Equal rest show ?thesis by (auto simp: kv)
  next
    case Greater
    then have "proj k' \<noteq> proj k" using equal [of k k'] by auto
    with Greater Cons.IH [OF srt] show ?thesis by (auto simp: kv)
  qed
qed simp

lemma insert_entries:
  "btree_sorted cmp m \<Longrightarrow> btree_entries proj (btree_insert cmp k v m)
     = insert (proj k, v) {(a, w) \<in> btree_entries proj m. a \<noteq> proj k}"
proof (induction m)
  case (Cons kv m)
  obtain k' v' where kv: "kv = (k', v')" by force
  have srt: "btree_sorted cmp m" using Cons.prems by (simp add: sorted_Cons)
  have rest: "\<forall>aw \<in> btree_entries proj m. fst aw \<noteq> proj k" if "cmp k k' \<noteq> Greater"
    using Cons.prems that equal [of k k'] rest_keys [of k' v' m k] by (cases "cmp k k'") (auto simp: kv)
  show ?case
  proof (cases "cmp k k'")
    case Less
    with rest less_not_equal [OF Less] show ?thesis by (auto simp: kv)
  next
    case Equal
    then have "proj k = proj k'" by (simp add: equal)
    with Equal rest show ?thesis by (auto simp: kv)
  next
    case Greater
    then have "proj k' \<noteq> proj k" using equal [of k k'] by auto
    with Greater Cons.IH [OF srt] show ?thesis by (auto simp: kv)
  qed
qed simp

lemma or_insert_entries:
  "btree_sorted cmp m \<Longrightarrow> btree_entries proj (btree_or_insert cmp k v m)
     = btree_entries proj m \<union> (if \<exists>w. (proj k, w) \<in> btree_entries proj m then {} else {(proj k, v)})"
proof (induction m)
  case (Cons kv m)
  obtain k' v' where kv: "kv = (k', v')" by force
  have srt: "btree_sorted cmp m" using Cons.prems by (simp add: sorted_Cons)
  have rest: "\<forall>aw \<in> btree_entries proj m. fst aw \<noteq> proj k" if "cmp k k' \<noteq> Greater"
    using Cons.prems that equal [of k k'] rest_keys [of k' v' m k] by (cases "cmp k k'") (auto simp: kv)
  show ?case
  proof (cases "cmp k k'")
    case Less
    with rest less_not_equal [OF Less] show ?thesis by (auto simp: kv)
  next
    case Equal
    then have "proj k = proj k'" by (simp add: equal)
    with Equal rest show ?thesis by (auto simp: kv)
  next
    case Greater
    then have "proj k' \<noteq> proj k" using equal [of k k'] by auto
    with Greater Cons.IH [OF srt] show ?thesis by (auto simp: kv)
  qed
qed simp

text \<open>All keys of a map that an operation produces are old keys or the new one.\<close>

lemma put_keys: "x \<in> set (btree_put cmp k v m) \<Longrightarrow> fst x = k \<or> fst x \<in> fst ` set m"
  by (induction m) (auto split: Ordering.splits intro: rev_image_eqI)

lemma insert_keys: "x \<in> set (btree_insert cmp k v m) \<Longrightarrow> fst x = k \<or> fst x \<in> fst ` set m"
  by (induction m) (auto split: Ordering.splits intro: rev_image_eqI)

lemma or_insert_keys: "x \<in> set (btree_or_insert cmp k v m) \<Longrightarrow> fst x = k \<or> fst x \<in> fst ` set m"
  by (induction m) (auto split: Ordering.splits intro: rev_image_eqI)

lemma sorted_put: "btree_sorted cmp m \<Longrightarrow> btree_sorted cmp (btree_put cmp k v m)"
proof (induction m)
  case (Cons kv m)
  obtain k' v' where kv: "kv = (k', v')" by force
  have rest: "\<forall>x \<in> set m. cmp k' (fst x) = Less" and srt: "btree_sorted cmp m"
    using Cons.prems by (auto simp: sorted_Cons kv)
  show ?case
  proof (cases "cmp k k'")
    case Less
    with rest srt show ?thesis by (auto simp: kv sorted_Cons intro: trans)
  next
    case Equal
    then have "cmp k a = cmp k' a" for a by (intro cong) (simp add: equal)
    with rest have "\<forall>x \<in> set m. cmp k (fst x) = Less" by metis
    with Equal rest srt show ?thesis by (simp add: kv sorted_Cons)
  next
    case Greater
    have "cmp k' (fst x) = Less" if "x \<in> set (btree_put cmp k v m)" for x
      using put_keys [OF that] rest Greater flip by auto
    with Greater Cons.IH [OF srt] show ?thesis by (simp add: kv sorted_Cons)
  qed
qed (simp add: sorted_Cons)

lemma sorted_insert: "btree_sorted cmp m \<Longrightarrow> btree_sorted cmp (btree_insert cmp k v m)"
proof (induction m)
  case (Cons kv m)
  obtain k' v' where kv: "kv = (k', v')" by force
  have rest: "\<forall>x \<in> set m. cmp k' (fst x) = Less" and srt: "btree_sorted cmp m"
    using Cons.prems by (auto simp: sorted_Cons kv)
  show ?case
  proof (cases "cmp k k'")
    case Less
    with rest srt show ?thesis by (auto simp: kv sorted_Cons intro: trans)
  next
    case Equal
    then have "cmp k a = cmp k' a" for a by (intro cong) (simp add: equal)
    with rest have "\<forall>x \<in> set m. cmp k (fst x) = Less" by metis
    with Equal rest srt show ?thesis by (simp add: kv sorted_Cons)
  next
    case Greater
    have "cmp k' (fst x) = Less" if "x \<in> set (btree_insert cmp k v m)" for x
      using insert_keys [OF that] rest Greater flip by auto
    with Greater Cons.IH [OF srt] show ?thesis by (simp add: kv sorted_Cons)
  qed
qed (simp add: sorted_Cons)

lemma sorted_or_insert: "btree_sorted cmp m \<Longrightarrow> btree_sorted cmp (btree_or_insert cmp k v m)"
proof (induction m)
  case (Cons kv m)
  obtain k' v' where kv: "kv = (k', v')" by force
  have rest: "\<forall>x \<in> set m. cmp k' (fst x) = Less" and srt: "btree_sorted cmp m"
    using Cons.prems by (auto simp: sorted_Cons kv)
  show ?case
  proof (cases "cmp k k'")
    case Less
    with rest srt show ?thesis by (auto simp: kv sorted_Cons intro: trans)
  next
    case Equal
    then have "cmp k a = cmp k' a" for a by (intro cong) (simp add: equal)
    with rest have "\<forall>x \<in> set m. cmp k (fst x) = Less" by metis
    with Equal rest srt show ?thesis by (simp add: kv sorted_Cons)
  next
    case Greater
    have "cmp k' (fst x) = Less" if "x \<in> set (btree_or_insert cmp k v m)" for x
      using or_insert_keys [OF that] rest Greater flip by auto
    with Greater Cons.IH [OF srt] show ?thesis by (simp add: kv sorted_Cons)
  qed
qed (simp add: sorted_Cons)

lemma sorted_collect: "btree_sorted cmp (btree_collect cmp kvs)"
proof -
  have "btree_sorted cmp m \<Longrightarrow> btree_sorted cmp (foldl (\<lambda>m (k, v). btree_put cmp k v m) m kvs)" for m
    by (induction kvs arbitrary: m) (auto simp: sorted_put)
  then show ?thesis by (simp add: btree_collect_def)
qed

lemma collect_snoc: "btree_collect cmp (kvs @ [(k, v)]) = btree_put cmp k v (btree_collect cmp kvs)"
  by (simp add: btree_collect_def)

text \<open>Collecting keeps the last value of each key.\<close>

lemma collect_entries:
  "(a, v) \<in> btree_entries proj (btree_collect cmp kvs) \<longleftrightarrow> map_of (rev (map (\<lambda>(k, v). (proj k, v)) kvs)) a = Some v"
proof (induction kvs rule: rev_induct)
  case (snoc kv kvs)
  then show ?case
    by (cases kv) (auto simp: collect_snoc put_entries [OF sorted_collect])
qed (simp add: btree_collect_def)

end

section \<open>Lexicographic orders\<close>

definition lex_cmp :: "('k \<Rightarrow> 'k \<Rightarrow> Ordering) \<Rightarrow> ('k \<Rightarrow> 'k \<Rightarrow> Ordering) \<Rightarrow> 'k \<Rightarrow> 'k \<Rightarrow> Ordering" where
  "lex_cmp c d a b = (case c a b of Equal \<Rightarrow> d a b | r \<Rightarrow> r)"

lemma lex_cmp_iff:
  "lex_cmp c d a b = Less \<longleftrightarrow> c a b = Less \<or> c a b = Equal \<and> d a b = Less"
  "lex_cmp c d a b = Equal \<longleftrightarrow> c a b = Equal \<and> d a b = Equal"
  "lex_cmp c d a b = Greater \<longleftrightarrow> c a b = Greater \<or> c a b = Equal \<and> d a b = Greater"
  by (simp_all add: lex_cmp_def split: Ordering.split)

lemma ord_key_lex:
  assumes "ord_key c p" "ord_key d q"
  shows "ord_key (lex_cmp c d) (\<lambda>a. (p a, q a))"
proof
  fix x y z
  note c = ord_key.equal [OF assms(1)] and d = ord_key.equal [OF assms(2)]
  show "lex_cmp c d x y = Equal \<longleftrightarrow> (p x, q x) = (p y, q y)"
    by (simp add: lex_cmp_iff c d)
  show "lex_cmp c d x y = Greater \<longleftrightarrow> lex_cmp c d y x = Less"
    by (auto simp: lex_cmp_iff c ord_key.flip [OF assms(1)] ord_key.flip [OF assms(2)])
  show "lex_cmp c d x z = lex_cmp c d y z" if "(p x, q x) = (p y, q y)"
    using that ord_key.cong [OF assms(1), of x y z] ord_key.cong [OF assms(2), of x y z]
    by (cases "c y z") (simp_all add: lex_cmp_def)
  show "lex_cmp c d x z = Less" if "lex_cmp c d x y = Less" "lex_cmp c d y z = Less"
  proof -
    consider "c x y = Less" "c y z = Less" | "c x y = Less" "c y z = Equal"
      | "c x y = Equal" "c y z = Less" | "c x y = Equal" "c y z = Equal" "d x y = Less" "d y z = Less"
      using \<open>lex_cmp c d x y = Less\<close> \<open>lex_cmp c d y z = Less\<close> by (auto simp: lex_cmp_iff)
    then show ?thesis
    proof cases
      case 1
      then show ?thesis using ord_key.trans [OF assms(1)] by (auto simp: lex_cmp_iff)
    next
      case 2
      then show ?thesis using ord_key.cong_right [OF assms(1), of y z x] by (simp add: lex_cmp_iff c)
    next
      case 3
      then show ?thesis using ord_key.cong [OF assms(1), of x y z] by (simp add: lex_cmp_iff c)
    next
      case 4
      then show ?thesis using ord_key.trans [OF assms(2)] by (auto simp: lex_cmp_iff c)
    qed
  qed
qed

fun list_cmp :: "('k \<Rightarrow> 'k \<Rightarrow> Ordering) \<Rightarrow> 'k list \<Rightarrow> 'k list \<Rightarrow> Ordering" where
  "list_cmp c [] [] = Equal"
| "list_cmp c [] (b # bs) = Less"
| "list_cmp c (a # as) [] = Greater"
| "list_cmp c (a # as) (b # bs) = (case c a b of Equal \<Rightarrow> list_cmp c as bs | r \<Rightarrow> r)"

lemma list_cmp_Cons_iff:
  "list_cmp c (a # as) (b # bs) = Less \<longleftrightarrow> c a b = Less \<or> c a b = Equal \<and> list_cmp c as bs = Less"
  "list_cmp c (a # as) (b # bs) = Equal \<longleftrightarrow> c a b = Equal \<and> list_cmp c as bs = Equal"
  "list_cmp c (a # as) (b # bs) = Greater \<longleftrightarrow> c a b = Greater \<or> c a b = Equal \<and> list_cmp c as bs = Greater"
  by (simp_all split: Ordering.split)

context ord_key
begin

lemma list_equal: "list_cmp cmp as bs = Equal \<longleftrightarrow> map proj as = map proj bs"
proof (induction as arbitrary: bs)
  case Nil
  then show ?case by (cases bs) simp_all
next
  case (Cons a as)
  then show ?case by (cases bs) (simp_all add: list_cmp_Cons_iff equal del: list_cmp.simps(4))
qed

lemma list_flip: "list_cmp cmp as bs = Greater \<longleftrightarrow> list_cmp cmp bs as = Less"
proof (induction as arbitrary: bs)
  case Nil
  then show ?case by (cases bs) simp_all
next
  case (Cons a as)
  then show ?case
    by (cases bs) (auto simp: list_cmp_Cons_iff equal flip simp del: list_cmp.simps(4))
qed

lemma list_cong: "map proj as = map proj bs \<Longrightarrow> list_cmp cmp as cs = list_cmp cmp bs cs"
proof (induction as arbitrary: bs cs)
  case (Cons a as)
  then obtain b bs' where "bs = b # bs'" "proj a = proj b" "map proj as = map proj bs'"
    by (cases bs) auto
  have "cmp a c = cmp b c" for c using \<open>proj a = proj b\<close> by (rule cong)
  with Cons.IH [of bs'] \<open>bs = b # bs'\<close> \<open>map proj as = map proj bs'\<close> show ?case
    by (cases cs) (simp_all split: Ordering.split)
qed simp

lemma list_trans: "list_cmp cmp as bs = Less \<Longrightarrow> list_cmp cmp bs cs = Less \<Longrightarrow> list_cmp cmp as cs = Less"
proof (induction as arbitrary: bs cs)
  case Nil
  then show ?case by (cases bs; cases cs) auto
next
  case (Cons a as)
  then obtain b bs' c cs' where bs: "bs = b # bs'" and cs: "cs = c # cs'"
    by (cases bs; cases cs) auto
  consider "cmp a b = Less" "cmp b c = Less" | "cmp a b = Less" "proj b = proj c"
    | "proj a = proj b" "cmp b c = Less"
    | "proj a = proj b" "proj b = proj c" "list_cmp cmp as bs' = Less" "list_cmp cmp bs' cs' = Less"
    using Cons.prems by (auto simp: bs cs list_cmp_Cons_iff equal simp del: list_cmp.simps(4))
  then show ?case
  proof cases
    case 1
    then show ?thesis using trans by (auto simp: cs list_cmp_Cons_iff simp del: list_cmp.simps(4))
  next
    case 2
    then show ?thesis using cong_right [of b c a] by (simp add: cs list_cmp_Cons_iff del: list_cmp.simps(4))
  next
    case 3
    then show ?thesis using cong [of a b c] by (simp add: cs list_cmp_Cons_iff del: list_cmp.simps(4))
  next
    case 4
    then show ?thesis using Cons.IH by (auto simp: cs list_cmp_Cons_iff equal simp del: list_cmp.simps(4))
  qed
qed

lemma list_ord_key: "ord_key (list_cmp cmp) (map proj)"
proof
  show "list_cmp cmp as cs = Less" if "list_cmp cmp as bs = Less" "list_cmp cmp bs cs = Less" for as bs cs
    using that by (rule list_trans)
  show "list_cmp cmp as cs = list_cmp cmp bs cs" if "map proj as = map proj bs" for as bs cs
    using that by (rule list_cong)
qed (simp_all add: list_equal list_flip)

lemma list_strict_prefix: "strict_prefix (map proj as) (map proj bs) \<Longrightarrow> list_cmp cmp as bs = Less"
proof (induction as arbitrary: bs)
  case Nil
  then show ?case by (cases bs) auto
next
  case (Cons a as)
  then obtain b bs' where "bs = b # bs'" by (cases bs) auto
  with Cons show ?case by (auto simp: list_cmp_Cons_iff equal simp del: list_cmp.simps(4))
qed

end

end
