(* ===== verification/Path_Filter.thy ===== *)
theory Path_Filter
  imports Path_Parse BTree_Map
begin

text \<open>
  Entity path filters (\<open>src/crates/store/dl_log_types/src/path/entity_path_filter.rs\<close>): splitting
  and parsing of rules, substitution of variables, resolution, and the queries and updates of
  resolved filters. The order of the rules rests on the natural order of strings, which the
  \<open>natord\<close> crate computes and which is the parameter \<open>nat_cmp\<close>.
\<close>

section \<open>Rules\<close>

datatype RuleEffect = Include | Exclude

datatype EntityPathFilterError = PathParseErr PathParseError | UnresolvedSubstitution ustr

type_synonym EntityPathRule = ustr

record ResolvedEntityPathRule =
  rule_text :: EntityPathRule
  resolved_path :: EntityPath

record EntityPathFilter =
  filter_rules :: "(EntityPathRule \<times> RuleEffect) list"

record ResolvedEntityPathFilter =
  resolved_rules :: "(ResolvedEntityPathRule \<times> RuleEffect) list"

text \<open>The standard library's \<open>trim\<close>, \<open>ends_with\<close>, \<open>strip_suffix\<close>, \<open>replace\<close> and string order.\<close>

definition str_trim :: "text_env \<Rightarrow> ustr \<Rightarrow> ustr" where
  "str_trim u s = rev (dropWhile (is_whitespace u) (rev (dropWhile (is_whitespace u) s)))"

definition ends_with :: "ustr \<Rightarrow> ustr \<Rightarrow> bool" where
  "ends_with s end_str \<longleftrightarrow> starts_with_str (rev s) (rev end_str)"

definition strip_suffix :: "ustr \<Rightarrow> ustr \<Rightarrow> ustr option" where
  "strip_suffix s end_str = (if ends_with s end_str then Some (take (length s - length end_str) s) else None)"

function (sequential) str_replace :: "ustr \<Rightarrow> ustr \<Rightarrow> ustr \<Rightarrow> ustr" where
  "str_replace pat new [] = []"
| "str_replace pat new (c # cs) =
     (if pat \<noteq> [] \<and> starts_with_str (c # cs) pat
      then new @ str_replace pat new (drop (length pat) (c # cs))
      else c # str_replace pat new cs)"
  by pat_completeness auto
termination
  by (relation "measure (\<lambda>(pat, new, s). length s)") (auto simp: neq_Nil_conv)

fun ustr_cmp :: "ustr \<Rightarrow> ustr \<Rightarrow> Ordering" where
  "ustr_cmp [] [] = Equal"
| "ustr_cmp [] (b # bs) = Less"
| "ustr_cmp (a # as) [] = Greater"
| "ustr_cmp (a # as) (b # bs) = (if a < b then Less else if b < a then Greater else ustr_cmp as bs)"

definition SUBTREE :: ustr where
  "SUBTREE = ascii ''/**''"

definition rule_new :: "text_env \<Rightarrow> ustr \<Rightarrow> EntityPathRule" where
  "rule_new u expression = str_trim u expression"

definition include_subtree :: "EntityPathRule \<Rightarrow> bool" where
  "include_subtree r = ends_with r SUBTREE"

definition rule_exact_entity :: "text_env \<Rightarrow> EntityPath \<Rightarrow> EntityPathRule" where
  "rule_exact_entity u path = path_to_string u path"

definition rule_including_subtree :: "ustr \<Rightarrow> EntityPathRule" where
  "rule_including_subtree path_or_variable = path_or_variable @ SUBTREE"

definition rule_including_entity_subtree :: "text_env \<Rightarrow> EntityPath \<Rightarrow> EntityPathRule" where
  "rule_including_entity_subtree u path = rule_including_subtree (path_to_string u path)"

section \<open>Resolved rules\<close>

definition rule_matches :: "ResolvedEntityPathRule \<Rightarrow> EntityPath \<Rightarrow> bool" where
  "rule_matches r path =
     (if include_subtree (rule_text r) then starts_with path (resolved_path r)
      else path_eq path (resolved_path r))"

definition resolved_exact_entity :: "text_env \<Rightarrow> EntityPath \<Rightarrow> ResolvedEntityPathRule" where
  "resolved_exact_entity u path = \<lparr>rule_text = rule_exact_entity u path, resolved_path = path\<rparr>"

definition resolved_including_subtree :: "text_env \<Rightarrow> EntityPath \<Rightarrow> ResolvedEntityPathRule" where
  "resolved_including_subtree u path =
     \<lparr>rule_text = rule_including_entity_subtree u path, resolved_path = path\<rparr>"

text \<open>The substitutions: the entries of a hash map in iteration order.\<close>

type_synonym EntityPathSubs = "(ustr \<times> ustr) list"

definition new_with_origin :: "text_env \<Rightarrow> EntityPath \<Rightarrow> EntityPathSubs" where
  "new_with_origin u origin = [(ascii ''origin'', path_to_string u origin)]"

definition substitute_variables :: "EntityPathRule \<Rightarrow> EntityPathSubs \<Rightarrow> ustr" where
  "substitute_variables r subst_env =
     foldl (\<lambda>expr (key, val).
         str_replace (ascii ''${'' @ key @ ascii ''}'') val (str_replace (36 # key) val expr))
       r subst_env"

definition rule_parse_strict ::
  "text_env \<Rightarrow> ustr \<Rightarrow> EntityPathSubs \<Rightarrow> (EntityPathFilterError, ResolvedEntityPathRule) result" where
  "rule_parse_strict u expression subst_env =
     (let r = rule_new u expression;
          expression_sub = substitute_variables r subst_env in
      if 36 \<in> set expression_sub then
        Err (UnresolvedSubstitution
          (takeWhile (\<lambda>c. \<not> is_whitespace u c) (tl (dropWhile (\<lambda>c. c \<noteq> 36) expression_sub))))
      else if expression_sub = SUBTREE then Ok \<lparr>rule_text = r, resolved_path = path_root u\<rparr>
      else (case path_parse_strict u
                   (case strip_suffix expression_sub SUBTREE of Some path \<Rightarrow> path | None \<Rightarrow> expression_sub) of
              Inl e \<Rightarrow> Err (PathParseErr e)
            | Inr p \<Rightarrow> Ok \<lparr>rule_text = r, resolved_path = p\<rparr>))"

definition rule_parse_forgiving :: "text_env \<Rightarrow> ustr \<Rightarrow> EntityPathSubs \<Rightarrow> ResolvedEntityPathRule" where
  "rule_parse_forgiving u expression subst_env =
     (let r = rule_new u expression;
          expression_sub = substitute_variables r subst_env in
      if expression_sub = SUBTREE then \<lparr>rule_text = r, resolved_path = path_root u\<rparr>
      else \<lparr>rule_text = r,
            resolved_path = fst (parse_forgiving_uncached u
              (case strip_suffix expression_sub SUBTREE of Some path \<Rightarrow> path | None \<Rightarrow> expression_sub))\<rparr>)"

text \<open>\<open>PartialEq\<close> and \<open>Ord\<close>: most specific last, which means recursive first.\<close>

definition rule_eq :: "ResolvedEntityPathRule \<Rightarrow> ResolvedEntityPathRule \<Rightarrow> bool" where
  "rule_eq r s \<longleftrightarrow> include_subtree (rule_text r) = include_subtree (rule_text s)
     \<and> path_eq (resolved_path r) (resolved_path s)"

definition bool_cmp :: "bool \<Rightarrow> bool \<Rightarrow> Ordering" where
  "bool_cmp a b = (if a = b then Equal else if b then Less else Greater)"

definition rule_cmp ::
  "(ustr \<Rightarrow> ustr \<Rightarrow> Ordering) \<Rightarrow> ResolvedEntityPathRule \<Rightarrow> ResolvedEntityPathRule \<Rightarrow> Ordering" where
  "rule_cmp nat_cmp r s =
     (case path_cmp nat_cmp (resolved_path r) (resolved_path s) of
        Equal \<Rightarrow> bool_cmp (\<not> include_subtree (rule_text r)) (\<not> include_subtree (rule_text s))
      | c \<Rightarrow> c)"

section \<open>Filters\<close>

definition is_ascii_whitespace :: "nat \<Rightarrow> bool" where
  "is_ascii_whitespace c \<longleftrightarrow> c = 32 \<or> c = 9 \<or> c = 10 \<or> c = 12 \<or> c = 13"

text \<open>The two inner loops of \<open>split_whitespace_smart\<close>: the end of a token and the whitespace after it.\<close>

fun scan_token :: "bool \<Rightarrow> bool \<Rightarrow> bool \<Rightarrow> ustr \<Rightarrow> nat \<times> bool" where
  "scan_token is_in_escape is_include_exclude new_token [] = (0, is_in_escape)"
| "scan_token is_in_escape is_include_exclude new_token (c # cs) =
     (let is_unescaped_whitespace = (\<not> is_in_escape \<and> is_ascii_whitespace c);
          is_unescaped_newline = (\<not> is_in_escape \<and> c = ch_newline) in
      if is_unescaped_newline \<or> \<not> is_include_exclude \<and> is_unescaped_whitespace then (0, is_in_escape)
      else apfst Suc
        (if c = ch_plus \<or> c = 45 then scan_token (c = ch_backslash) new_token new_token cs
         else if \<not> is_unescaped_whitespace then scan_token (c = ch_backslash) False False cs
         else scan_token (c = ch_backslash) is_include_exclude new_token cs))"

fun skip_whitespace :: "bool \<Rightarrow> ustr \<Rightarrow> nat" where
  "skip_whitespace is_in_escape [] = 0"
| "skip_whitespace is_in_escape (c # cs) =
     (if is_in_escape \<or> \<not> is_ascii_whitespace c then 0 else Suc (skip_whitespace (c = ch_backslash) cs))"

lemma scan_token_progress:
  "scan_token False False True (c # cs) = (0, esc) \<Longrightarrow> is_ascii_whitespace c \<and> \<not> esc"
  by (auto simp: Let_def apfst_def map_prod_def is_ascii_whitespace_def split: if_splits prod.splits)

function split_whitespace_smart :: "ustr \<Rightarrow> ustr list" where
  "split_whitespace_smart path =
     (if path = [] then []
      else (case scan_token False False True path of
              (i, is_in_escape) \<Rightarrow>
                let j = i + skip_whitespace is_in_escape (drop i path) in
                (if 0 < i then [take i path] else []) @ split_whitespace_smart (drop j path)))"
  by auto
termination
proof (relation "measure length", goal_cases)
  case (2 path i esc j)
  then show ?case
    using scan_token_progress [of "hd path" "tl path" esc] by (cases path; cases i) auto
qed simp

declare split_whitespace_smart.simps [simp del]

definition query_expression :: "text_env \<Rightarrow> ustr \<Rightarrow> EntityPathRule \<times> RuleEffect" where
  "query_expression u line =
     (case line of
        c # cs \<Rightarrow> if c = ch_plus then (rule_new u cs, Include)
                  else if c = 45 then (rule_new u cs, Exclude)
                  else (rule_new u line, Include)
      | [] \<Rightarrow> (rule_new u line, Include))"

definition from_query_expressions :: "text_env \<Rightarrow> ustr list \<Rightarrow> EntityPathFilter" where
  "from_query_expressions u rules =
     \<lparr>filter_rules = foldl (\<lambda>m line. case query_expression u line of
          (r, effect) \<Rightarrow> btree_insert ustr_cmp r effect m) []
        (filter (\<lambda>line. line \<noteq> []) (map (str_trim u) rules))\<rparr>"

definition filter_parse_forgiving :: "text_env \<Rightarrow> ustr \<Rightarrow> EntityPathFilter" where
  "filter_parse_forgiving u rules = from_query_expressions u (split_whitespace_smart rules)"

definition insert_rule :: "EntityPathFilter \<Rightarrow> RuleEffect \<Rightarrow> EntityPathRule \<Rightarrow> EntityPathFilter" where
  "insert_rule f effect r = \<lparr>filter_rules = btree_insert ustr_cmp r effect (filter_rules f)\<rparr>"

definition filter_all :: EntityPathFilter where
  "filter_all = \<lparr>filter_rules = [(rule_including_subtree [], Include)]\<rparr>"

definition filter_default :: EntityPathFilter where
  "filter_default = \<lparr>filter_rules = []\<rparr>"

definition single_entity_filter :: "text_env \<Rightarrow> EntityPath \<Rightarrow> EntityPathFilter" where
  "single_entity_filter u path = insert_rule filter_default Include (rule_exact_entity u path)"

definition subtree_entity_filter :: "text_env \<Rightarrow> EntityPath \<Rightarrow> EntityPathFilter" where
  "subtree_entity_filter u path = insert_rule filter_default Include (rule_including_entity_subtree u path)"

definition filter_add_assign :: "EntityPathFilter \<Rightarrow> EntityPathFilter \<Rightarrow> EntityPathFilter" where
  "filter_add_assign f rhs =
     \<lparr>filter_rules = foldl (\<lambda>m (r, effect). btree_insert ustr_cmp r effect m) (filter_rules f) (filter_rules rhs)\<rparr>"

fun sign :: "RuleEffect \<Rightarrow> ustr" where
  "sign Include = ascii ''+ ''"
| "sign Exclude = ascii ''- ''"

definition iter_expressions :: "EntityPathFilter \<Rightarrow> ustr list" where
  "iter_expressions f = map (\<lambda>(r, effect). sign effect @ r) (filter_rules f)"

section \<open>Resolution\<close>

definition exclude_properties ::
  "(ustr \<Rightarrow> ustr \<Rightarrow> Ordering) \<Rightarrow> text_env \<Rightarrow> (ResolvedEntityPathRule \<times> RuleEffect) list \<Rightarrow> ResolvedEntityPathFilter" where
  "exclude_properties nat_cmp u rules =
     \<lparr>resolved_rules = btree_or_insert (rule_cmp nat_cmp)
        (resolved_including_subtree u (path_properties u)) Exclude rules\<rparr>"

definition resolve_forgiving ::
  "(ustr \<Rightarrow> ustr \<Rightarrow> Ordering) \<Rightarrow> text_env \<Rightarrow> EntityPathFilter \<Rightarrow> EntityPathSubs \<Rightarrow> ResolvedEntityPathFilter" where
  "resolve_forgiving nat_cmp u f subst_env =
     exclude_properties nat_cmp u (btree_collect (rule_cmp nat_cmp)
       (map (\<lambda>(r, effect). (rule_parse_forgiving u r subst_env, effect)) (filter_rules f)))"

fun resolve_all ::
  "text_env \<Rightarrow> EntityPathSubs \<Rightarrow> (EntityPathRule \<times> RuleEffect) list \<Rightarrow>
   (EntityPathFilterError, (ResolvedEntityPathRule \<times> RuleEffect) list) result" where
  "resolve_all u subst_env [] = Ok []"
| "resolve_all u subst_env ((r, effect) # rules) =
     try_bind (rule_parse_strict u r subst_env) (\<lambda>rr.
       try_bind (resolve_all u subst_env rules) (\<lambda>rs. Ok ((rr, effect) # rs)))"

definition resolve_strict ::
  "(ustr \<Rightarrow> ustr \<Rightarrow> Ordering) \<Rightarrow> text_env \<Rightarrow> EntityPathFilter \<Rightarrow> EntityPathSubs \<Rightarrow>
   (EntityPathFilterError, ResolvedEntityPathFilter) result" where
  "resolve_strict nat_cmp u f subst_env =
     try_bind (resolve_all u subst_env (filter_rules f)) (\<lambda>rules.
       Ok (exclude_properties nat_cmp u (btree_collect (rule_cmp nat_cmp) rules)))"

definition resolved_properties :: "text_env \<Rightarrow> ResolvedEntityPathFilter" where
  "resolved_properties u = \<lparr>resolved_rules = [(resolved_including_subtree u (path_properties u), Include)]\<rparr>"

definition unresolved :: "text_env \<Rightarrow> ResolvedEntityPathFilter \<Rightarrow> EntityPathFilter" where
  "unresolved u f =
     \<lparr>filter_rules = btree_collect ustr_cmp
        (map (\<lambda>(r, effect). (rule_text r, effect))
          (filter (\<lambda>(r, effect). \<not> (rule_eq r (resolved_including_subtree u (path_properties u)) \<and> effect = Exclude))
            (resolved_rules f)))\<rparr>"

section \<open>Queries and updates\<close>

fun find_match :: "EntityPath \<Rightarrow> (ResolvedEntityPathRule \<times> RuleEffect) list \<Rightarrow>
    (ResolvedEntityPathRule \<times> RuleEffect) option" where
  "find_match path [] = None"
| "find_match path ((r, effect) # rules) =
     (if rule_matches r path then Some (r, effect) else find_match path rules)"

definition most_specific_match :: "ResolvedEntityPathFilter \<Rightarrow> EntityPath \<Rightarrow> RuleEffect option" where
  "most_specific_match f path = map_option snd (find_match path (rev (resolved_rules f)))"

definition filter_matches :: "ResolvedEntityPathFilter \<Rightarrow> EntityPath \<Rightarrow> bool" where
  "filter_matches f path =
     (case (case most_specific_match f path of None \<Rightarrow> Exclude | Some e \<Rightarrow> e) of
        Include \<Rightarrow> True
      | Exclude \<Rightarrow> False)"

definition matches_exactly :: "ResolvedEntityPathFilter \<Rightarrow> EntityPath \<Rightarrow> bool" where
  "matches_exactly f path = list_ex (\<lambda>(r, effect).
     effect = Include \<and> \<not> include_subtree (rule_text r) \<and> path_eq (resolved_path r) path) (resolved_rules f)"

definition add_rule ::
  "(ustr \<Rightarrow> ustr \<Rightarrow> Ordering) \<Rightarrow> ResolvedEntityPathFilter \<Rightarrow> RuleEffect \<Rightarrow> ResolvedEntityPathRule \<Rightarrow> ResolvedEntityPathFilter" where
  "add_rule nat_cmp f effect r = \<lparr>resolved_rules = btree_insert (rule_cmp nat_cmp) r effect (resolved_rules f)\<rparr>"

definition remove_subtree_and_matching_rules ::
  "(ustr \<Rightarrow> ustr \<Rightarrow> Ordering) \<Rightarrow> text_env \<Rightarrow> ResolvedEntityPathFilter \<Rightarrow> EntityPath \<Rightarrow> ResolvedEntityPathFilter" where
  "remove_subtree_and_matching_rules nat_cmp u f path =
     (let new_exclusion = \<lparr>rule_text = rule_including_entity_subtree u path, resolved_path = path\<rparr> in
      \<lparr>resolved_rules = btree_insert (rule_cmp nat_cmp) new_exclusion Exclude
        (filter (\<lambda>(r, effect). \<not> rule_matches new_exclusion (resolved_path r)) (resolved_rules f))\<rparr>)"

definition remove_rule_for :: "ResolvedEntityPathFilter \<Rightarrow> EntityPath \<Rightarrow> ResolvedEntityPathFilter" where
  "remove_rule_for f path =
     \<lparr>resolved_rules = filter (\<lambda>(r, effect). \<not> path_eq (resolved_path r) path) (resolved_rules f)\<rparr>"

definition contains_rule_for_exactly :: "ResolvedEntityPathFilter \<Rightarrow> EntityPath \<Rightarrow> bool" where
  "contains_rule_for_exactly f path = list_ex (\<lambda>(r, effect). path_eq (resolved_path r) path) (resolved_rules f)"

definition is_explicitly_included :: "ResolvedEntityPathFilter \<Rightarrow> EntityPath \<Rightarrow> bool" where
  "is_explicitly_included f path =
     list_ex (\<lambda>(r, effect). path_eq (resolved_path r) path \<and> effect = Include) (resolved_rules f)"

definition is_explicitly_excluded :: "ResolvedEntityPathFilter \<Rightarrow> EntityPath \<Rightarrow> bool" where
  "is_explicitly_excluded f path =
     list_ex (\<lambda>(r, effect). path_eq (resolved_path r) path \<and> effect = Exclude) (resolved_rules f)"

fun subtree_scan :: "EntityPath \<Rightarrow> (ResolvedEntityPathRule \<times> RuleEffect) list \<Rightarrow> bool" where
  "subtree_scan path [] = False"
| "subtree_scan path ((r, effect) # rules) =
     (if rule_matches r path then
        (case effect of
           Include \<Rightarrow> True
         | Exclude \<Rightarrow> if include_subtree (rule_text r) then False else subtree_scan path rules)
      else subtree_scan path rules)"

definition is_anything_in_subtree_included :: "ResolvedEntityPathFilter \<Rightarrow> EntityPath \<Rightarrow> bool" where
  "is_anything_in_subtree_included f path \<longleftrightarrow>
     list_ex (\<lambda>(r, effect). effect = Include \<and> starts_with (resolved_path r) path) (resolved_rules f)
     \<or> subtree_scan path (rev (resolved_rules f))"

definition is_superset_of :: "ResolvedEntityPathFilter \<Rightarrow> ResolvedEntityPathFilter \<Rightarrow> bool" where
  "is_superset_of self other \<longleftrightarrow>
     list_all (\<lambda>(other_rule, other_effect).
       case other_effect of
         Exclude \<Rightarrow> True
       | Include \<Rightarrow>
           (case find_match (resolved_path other_rule) (rev (resolved_rules self)) of
              None \<Rightarrow> False
            | Some (self_rule, Exclude) \<Rightarrow> False
            | Some (self_rule, Include) \<Rightarrow>
                \<not> (include_subtree (rule_text other_rule) \<and> \<not> include_subtree (rule_text self_rule))))
       (resolved_rules other)
     \<and> list_all (\<lambda>(self_rule, self_effect).
         case self_effect of
           Include \<Rightarrow> True
         | Exclude \<Rightarrow>
             (case find_match (resolved_path self_rule) (rev (resolved_rules other)) of
                Some (_, Include) \<Rightarrow> False
              | _ \<Rightarrow> True))
       (resolved_rules self)"

record FilterEvaluation =
  subtree_included :: bool
  eval_matches :: bool
  eval_matches_exactly :: bool

text \<open>The loop of \<open>evaluate\<close> over \<open>(matches_exactly, last_match, found_include_in_subtree)\<close>.\<close>

definition evaluate_step :: "EntityPath \<Rightarrow> bool \<times> (RuleEffect \<times> bool) option \<times> bool \<Rightarrow>
    ResolvedEntityPathRule \<times> RuleEffect \<Rightarrow> bool \<times> (RuleEffect \<times> bool) option \<times> bool" where
  "evaluate_step path = (\<lambda>(exactly, last_match, found) (r, effect).
     (exactly \<or> effect = Include \<and> \<not> include_subtree (rule_text r) \<and> path_eq (resolved_path r) path,
      (if rule_matches r path then Some (effect, include_subtree (rule_text r)) else last_match),
      found \<or> effect = Include \<and> starts_with (resolved_path r) path))"

definition evaluate :: "ResolvedEntityPathFilter \<Rightarrow> EntityPath \<Rightarrow> FilterEvaluation" where
  "evaluate f path =
     (case foldl (evaluate_step path) (False, None, False) (resolved_rules f) of
        (exactly, last_match, found) \<Rightarrow>
          \<lparr>subtree_included =
             (case last_match of
                Some (Include, _) \<Rightarrow> True
              | Some (Exclude, incl) \<Rightarrow> if incl \<and> \<not> found then False else found
              | None \<Rightarrow> found),
           eval_matches = (case last_match of Some (effect, _) \<Rightarrow> effect = Include | None \<Rightarrow> False),
           eval_matches_exactly = exactly\<rparr>)"

end
