(* ===== verification/Filter_Semantics.thy ===== *)
theory Filter_Semantics
  imports Path_Filter
begin

text \<open>
  What resolved filters mean: the most specific rule that applies decides, where a longer path
  is more specific and an exact rule more specific than a rule for a subtree. The order of the
  rules in the map and the last match in it are shown to implement this reading, and every
  update of a filter is described by it.
\<close>

section \<open>The order of the rules\<close>

text \<open>What is assumed of the natural order: it is a total order of strings.\<close>

definition natural_order :: "(ustr \<Rightarrow> ustr \<Rightarrow> Ordering) \<Rightarrow> bool" where
  "natural_order nat_cmp \<longleftrightarrow> (\<forall>a b. nat_cmp a b = Equal \<longleftrightarrow> a = b)
     \<and> (\<forall>a b. nat_cmp a b = Greater \<longleftrightarrow> nat_cmp b a = Less)
     \<and> (\<forall>a b c. nat_cmp a b = Less \<and> nat_cmp b c = Less \<longrightarrow> nat_cmp a c = Less)"

text \<open>Strings are compared lexicographically by their characters.\<close>

definition char_cmp :: "nat \<Rightarrow> nat \<Rightarrow> Ordering" where
  "char_cmp a b = (if a < b then Less else if b < a then Greater else Equal)"

interpretation char_key: ord_key char_cmp id
  by unfold_locales (auto simp: char_cmp_def split: if_splits)

lemma ustr_cmp_list: "ustr_cmp = list_cmp char_cmp"
proof (intro ext)
  fix a b
  show "ustr_cmp a b = list_cmp char_cmp a b"
    by (induction a b rule: ustr_cmp.induct) (auto simp: char_cmp_def)
qed

interpretation ustr_key: ord_key ustr_cmp "map id"
  unfolding ustr_cmp_list by (rule char_key.list_ord_key)

lemma natural_order_ustr_cmp: "natural_order ustr_cmp"
  unfolding natural_order_def using ustr_key.equal ustr_key.flip ustr_key.trans by simp blast

lemma natural_ord_key:
  assumes "natural_order c"
  shows "ord_key c id"
proof
  show "c x z = Less" if "c x y = Less" "c y z = Less" for x y z
    using that assms unfolding natural_order_def by blast
  show "c x y = Greater \<longleftrightarrow> c y x = Less" for x y
    using assms unfolding natural_order_def by blast
  show "c x y = Equal \<longleftrightarrow> id x = id y" for x y
    using assms unfolding natural_order_def id_apply by blast
  show "c x z = c y z" if "id x = id y" for x y z
    using that by simp
qed

text \<open>A comparison seen through a function of the keys, and with another view of them.\<close>

lemma ord_key_on:
  assumes "ord_key c p"
  shows "ord_key (\<lambda>a b. c (f a) (f b)) (\<lambda>a. p (f a))"
proof
  show "c (f x) (f z) = Less" if "c (f x) (f y) = Less" "c (f y) (f z) = Less" for x y z
    using ord_key.trans [OF assms] that by blast
  show "c (f x) (f z) = c (f y) (f z)" if "p (f x) = p (f y)" for x y z
    using ord_key.cong [OF assms that] .
  show "c (f x) (f y) = Greater \<longleftrightarrow> c (f y) (f x) = Less" for x y
    by (rule ord_key.flip [OF assms])
  show "c (f x) (f y) = Equal \<longleftrightarrow> p (f x) = p (f y)" for x y
    by (rule ord_key.equal [OF assms])
qed

lemma ord_key_proj:
  assumes "ord_key c p" "\<And>a b. p a = p b \<longleftrightarrow> q a = q b"
  shows "ord_key c q"
proof
  show "c x z = Less" if "c x y = Less" "c y z = Less" for x y z
    using ord_key.trans [OF assms(1)] that by blast
  show "c x z = c y z" if "q x = q y" for x y z
    using ord_key.cong [OF assms(1)] assms(2) that by blast
  show "c x y = Greater \<longleftrightarrow> c y x = Less" for x y
    by (rule ord_key.flip [OF assms(1)])
  show "c x y = Equal \<longleftrightarrow> q x = q y" for x y
    using ord_key.equal [OF assms(1)] assms(2) by blast
qed

interpretation bool_key: ord_key bool_cmp id
  by unfold_locales (auto simp: bool_cmp_def split: if_splits)

text \<open>Parts, paths and rules are compared lexicographically.\<close>

lemma part_ord_key:
  assumes "natural_order c"
  shows "ord_key (part_cmp c) unescaped_str"
proof -
  let ?reserved = "\<lambda>p. starts_with_str (unescaped_str p) RESERVED_NAMESPACE_PREFIX"
  let ?c1 = "\<lambda>p q. bool_cmp (?reserved p) (?reserved q)" and ?c2 = "\<lambda>p q. c (unescaped_str p) (unescaped_str q)"
  have "ord_key ?c1 (\<lambda>p. id (?reserved p))" "ord_key ?c2 (\<lambda>p. id (unescaped_str p))"
    by (rule ord_key_on, rule bool_key.ord_key_axioms) (rule ord_key_on, rule natural_ord_key, rule assms)
  then have "ord_key (lex_cmp ?c1 ?c2) (\<lambda>p. (id (?reserved p), id (unescaped_str p)))"
    by (rule ord_key_lex)
  moreover have "part_cmp c p q = lex_cmp ?c1 ?c2 p q" for p q
    by (cases "?reserved p"; cases "?reserved q") (simp_all add: part_cmp_def lex_cmp_def bool_cmp_def)
  then have "part_cmp c = lex_cmp ?c1 ?c2" by blast
  ultimately have "ord_key (part_cmp c) (\<lambda>p. (id (?reserved p), id (unescaped_str p)))" by simp
  then show ?thesis by (rule ord_key_proj) auto
qed

lemma parts_cmp_list: "parts_cmp c = list_cmp (part_cmp c)"
proof (intro ext)
  fix as bs
  show "parts_cmp c as bs = list_cmp (part_cmp c) as bs"
    by (induction c as bs rule: parts_cmp.induct) (auto split: Ordering.split)
qed

definition rule_strs :: "ResolvedEntityPathRule \<Rightarrow> ustr list" where
  "rule_strs r = map unescaped_str (ep_parts (resolved_path r))"

definition rule_key :: "ResolvedEntityPathRule \<Rightarrow> ustr list \<times> bool" where
  "rule_key r = (rule_strs r, include_subtree (rule_text r))"

lemma rule_ord_key:
  assumes "natural_order c"
  shows "ord_key (rule_cmp c) rule_key"
proof -
  let ?parts = "\<lambda>r. ep_parts (resolved_path r)" and ?exact = "\<lambda>r. \<not> include_subtree (rule_text r)"
  let ?c1 = "\<lambda>r s. list_cmp (part_cmp c) (?parts r) (?parts s)" and ?c2 = "\<lambda>r s. bool_cmp (?exact r) (?exact s)"
  have "ord_key ?c1 (\<lambda>r. map unescaped_str (?parts r))" "ord_key ?c2 (\<lambda>r. id (?exact r))"
    by (rule ord_key_on, rule ord_key.list_ord_key, rule part_ord_key, rule assms)
      (rule ord_key_on, rule bool_key.ord_key_axioms)
  then have "ord_key (lex_cmp ?c1 ?c2) (\<lambda>r. (map unescaped_str (?parts r), id (?exact r)))"
    by (rule ord_key_lex)
  moreover have "rule_cmp c = lex_cmp ?c1 ?c2"
    by (simp add: fun_eq_iff rule_cmp_def path_cmp_def parts_cmp_list lex_cmp_def)
  ultimately have "ord_key (rule_cmp c) (\<lambda>r. (map unescaped_str (?parts r), id (?exact r)))" by simp
  then show ?thesis by (rule ord_key_proj) (auto simp: rule_key_def rule_strs_def)
qed

section \<open>Which rules apply\<close>

definition rule_ok :: "text_env \<Rightarrow> ResolvedEntityPathRule \<Rightarrow> bool" where
  "rule_ok u r \<longleftrightarrow> resolved_path r = path_of u (rule_strs r)"

text \<open>The invariant of resolved filters: sorted rules over paths that the program built.\<close>

definition filter_ok :: "(ustr \<Rightarrow> ustr \<Rightarrow> Ordering) \<Rightarrow> text_env \<Rightarrow> ResolvedEntityPathFilter \<Rightarrow> bool" where
  "filter_ok nat_cmp u f \<longleftrightarrow>
     btree_sorted (rule_cmp nat_cmp) (resolved_rules f) \<and> (\<forall>(r, e) \<in> set (resolved_rules f). rule_ok u r)"

definition rule_paths :: "ResolvedEntityPathFilter \<Rightarrow> ustr list set" where
  "rule_paths f = (\<lambda>(r, e). rule_strs r) ` set (resolved_rules f)"

text \<open>A rule for \<open>ss\<close> (and its subtree) and the paths that it applies to.\<close>

fun applies :: "ustr list \<times> bool \<Rightarrow> ustr list \<Rightarrow> bool" where
  "applies (ss, subtree) q = (if subtree then Sublist.prefix ss q else q = ss)"

text \<open>The order of specificity among rules that apply to the same path.\<close>

fun less_specific :: "ustr list \<times> bool \<Rightarrow> ustr list \<times> bool \<Rightarrow> bool" where
  "less_specific (ss, subtree) (ss', subtree') \<longleftrightarrow>
     length ss < length ss' \<or> ss = ss' \<and> subtree \<and> \<not> subtree'"

lemma rule_matches_iff:
  assumes "rule_ok u r" "collision_free u {q, rule_strs r}"
  shows "rule_matches r (path_of u q) \<longleftrightarrow> applies (rule_key r) q"
  using assms starts_with_iff [OF assms(2)] path_eq_iff [OF assms(2)]
  by (simp add: rule_matches_def rule_ok_def rule_key_def)

lemma applies_comparable:
  "applies (ss, b) q \<Longrightarrow> applies (ss', b') q \<Longrightarrow> Sublist.prefix ss ss' \<or> Sublist.prefix ss' ss"
  using prefix_same_cases by (auto split: if_splits)

lemma rule_cmp_specific:
  assumes "natural_order c" "rule_cmp c r s = Less" "applies (rule_key r) q" "applies (rule_key s) q"
  shows "less_specific (rule_key r) (rule_key s)"
proof -
  let ?parts = "\<lambda>r. ep_parts (resolved_path r)"
  note key = ord_key.list_strict_prefix [OF part_ord_key [OF assms(1)]]
    and flip = ord_key.list_flip [OF part_ord_key [OF assms(1)]]
    and eq = ord_key.list_equal [OF part_ord_key [OF assms(1)]]
  have cmp: "rule_cmp c r s = (case list_cmp (part_cmp c) (?parts r) (?parts s) of
      Equal \<Rightarrow> bool_cmp (\<not> include_subtree (rule_text r)) (\<not> include_subtree (rule_text s)) | x \<Rightarrow> x)"
    by (simp add: rule_cmp_def path_cmp_def parts_cmp_list)
  have "Sublist.prefix (rule_strs r) (rule_strs s) \<or> Sublist.prefix (rule_strs s) (rule_strs r)"
    using assms(3,4) unfolding rule_key_def by (rule applies_comparable)
  then consider "strict_prefix (rule_strs r) (rule_strs s)" | "strict_prefix (rule_strs s) (rule_strs r)"
    | "rule_strs r = rule_strs s"
    by (cases "rule_strs r = rule_strs s") (auto simp: strict_prefix_def)
  then show ?thesis
  proof cases
    case 1
    then show ?thesis by (simp add: rule_key_def prefix_length_less)
  next
    case 2
    then have "list_cmp (part_cmp c) (?parts s) (?parts r) = Less" by (intro key) (simp add: rule_strs_def)
    then have "list_cmp (part_cmp c) (?parts r) (?parts s) = Greater" by (simp add: flip)
    with cmp assms(2) show ?thesis by simp
  next
    case 3
    then have "list_cmp (part_cmp c) (?parts r) (?parts s) = Equal" by (simp add: eq rule_strs_def)
    with cmp assms(2) 3 show ?thesis by (auto simp: rule_key_def bool_cmp_def split: if_splits)
  qed
qed

lemma less_specific_irrefl: "\<not> less_specific k k"
  by (cases k) auto

lemma less_specific_antisym: "less_specific k l \<Longrightarrow> \<not> less_specific l k"
  by (cases k; cases l) auto

section \<open>The last match is the most specific one\<close>

lemma find_match_None: "find_match p rules = None \<longleftrightarrow> (\<forall>(r, e) \<in> set rules. \<not> rule_matches r p)"
  by (induction p rules rule: find_match.induct) auto

lemma find_match_Some:
  "find_match p rules = Some (r, e) \<Longrightarrow>
   (\<exists>xs ys. rules = xs @ (r, e) # ys \<and> rule_matches r p \<and> (\<forall>(r', e') \<in> set xs. \<not> rule_matches r' p))"
proof (induction p rules rule: find_match.induct)
  case (2 p r' e' rules)
  show ?case
  proof (cases "rule_matches r' p")
    case True
    with 2 show ?thesis by (intro exI [of _ "[]"] exI [of _ rules]) auto
  next
    case False
    with 2 obtain xs ys where "rules = xs @ (r, e) # ys" "rule_matches r p"
      "\<forall>(r', e') \<in> set xs. \<not> rule_matches r' p" by auto
    with False show ?thesis by (intro exI [of _ "(r', e') # xs"] exI [of _ ys]) auto
  qed
qed simp

text \<open>The rule that decides about a path, and how it compares with the others that match.\<close>

lemma last_match:
  assumes "btree_sorted c m" "find_match p (rev m) = Some (r, e)"
  shows "(r, e) \<in> set m \<and> rule_matches r p
    \<and> (\<forall>(r', e') \<in> set m. rule_matches r' p \<longrightarrow> (r', e') = (r, e) \<or> c r' r = Less)"
proof -
  obtain xs ys where m: "rev m = xs @ (r, e) # ys" "rule_matches r p"
    "\<forall>(r', e') \<in> set xs. \<not> rule_matches r' p"
    using find_match_Some [OF assms(2)] by blast
  then have "m = rev ys @ (r, e) # rev xs" by (simp add: rev_swap)
  moreover from this assms(1) have "\<forall>(r', e') \<in> set ys. c r' r = Less"
    by (auto simp: btree_sorted_def sorted_wrt_append)
  ultimately show ?thesis using m(2,3) by auto
qed

definition decides :: "((ustr list \<times> bool) \<times> RuleEffect) set \<Rightarrow> ustr list \<Rightarrow> (ustr list \<times> bool) \<times> RuleEffect \<Rightarrow> bool" where
  "decides E q ke \<longleftrightarrow> ke \<in> E \<and> applies (fst ke) q
     \<and> (\<forall>ke' \<in> E. applies (fst ke') q \<longrightarrow> ke' = ke \<or> less_specific (fst ke') (fst ke))"

abbreviation entries :: "ResolvedEntityPathFilter \<Rightarrow> ((ustr list \<times> bool) \<times> RuleEffect) set" where
  "entries f \<equiv> btree_entries rule_key (resolved_rules f)"

lemma decides_unique: "decides E q ke \<Longrightarrow> decides E q ke' \<Longrightarrow> ke = ke'"
  unfolding decides_def using less_specific_antisym by blast

lemma find_match_decides:
  assumes "natural_order c" "filter_ok c u f" "collision_free u (insert q (rule_paths f))"
    "find_match (path_of u q) (rev (resolved_rules f)) = Some (r, e)"
  shows "decides (entries f) q (rule_key r, e)"
proof -
  have iff: "rule_matches r' (path_of u q) \<longleftrightarrow> applies (rule_key r') q" if "(r', e') \<in> set (resolved_rules f)" for r' e'
  proof (rule rule_matches_iff)
    show "rule_ok u r'" using that assms(2) by (auto simp: filter_ok_def)
    show "collision_free u {q, rule_strs r'}"
      using that by (intro collision_free_mono [OF assms(3)]) (auto simp: rule_paths_def)
  qed
  have m: "(r, e) \<in> set (resolved_rules f) \<and> rule_matches r (path_of u q)
    \<and> (\<forall>(r', e') \<in> set (resolved_rules f). rule_matches r' (path_of u q) \<longrightarrow> (r', e') = (r, e) \<or> rule_cmp c r' r = Less)"
    using assms(2,4) by (intro last_match) (simp_all add: filter_ok_def)
  have "ke' = (rule_key r, e) \<or> less_specific (fst ke') (rule_key r)"
    if ke': "ke' \<in> entries f" "applies (fst ke') q" for ke'
  proof -
    from ke'(1) obtain r' e' where r': "(r', e') \<in> set (resolved_rules f)" "ke' = (rule_key r', e')"
      by (auto simp: btree_entries_def)
    with ke' iff m have "(r', e') = (r, e) \<or> rule_cmp c r' r = Less" by auto
    then show ?thesis
      using r' ke' m iff rule_cmp_specific [OF assms(1), of r' r q] by auto
  qed
  with m iff show ?thesis by (auto simp: decides_def btree_entries_def)
qed

lemma most_specific_match_iff:
  assumes "natural_order c" "filter_ok c u f" "collision_free u (insert q (rule_paths f))"
  shows "most_specific_match f (path_of u q) = Some e \<longleftrightarrow> (\<exists>k. decides (entries f) q (k, e))"
    and "most_specific_match f (path_of u q) = None \<longleftrightarrow> (\<forall>(k, e) \<in> entries f. \<not> applies k q)"
proof -
  let ?fm = "find_match (path_of u q) (rev (resolved_rules f))"
  have none: "?fm = None \<longleftrightarrow> (\<forall>(k, e) \<in> entries f. \<not> applies k q)"
  proof -
    have "rule_matches r' (path_of u q) \<longleftrightarrow> applies (rule_key r') q" if "(r', e') \<in> set (resolved_rules f)" for r' e'
    proof (rule rule_matches_iff)
      show "rule_ok u r'" using that assms(2) by (auto simp: filter_ok_def)
      show "collision_free u {q, rule_strs r'}"
        using that by (intro collision_free_mono [OF assms(3)]) (auto simp: rule_paths_def)
    qed
    then show ?thesis by (auto simp: find_match_None btree_entries_def)
  qed
  then show "most_specific_match f (path_of u q) = None \<longleftrightarrow> (\<forall>(k, e) \<in> entries f. \<not> applies k q)"
    by (simp add: most_specific_match_def)
  show "most_specific_match f (path_of u q) = Some e \<longleftrightarrow> (\<exists>k. decides (entries f) q (k, e))"
  proof (cases ?fm)
    case None
    with none show ?thesis by (auto simp: most_specific_match_def decides_def)
  next
    case (Some re)
    obtain r e' where re: "re = (r, e')" by force
    from find_match_decides [OF assms] Some re have "decides (entries f) q (rule_key r, e')" by simp
    moreover have "most_specific_match f (path_of u q) = Some e'"
      using Some re by (simp add: most_specific_match_def)
    ultimately show ?thesis using decides_unique by (metis option.inject prod.inject)
  qed
qed

lemma filter_matches_iff:
  assumes "natural_order c" "filter_ok c u f" "collision_free u (insert q (rule_paths f))"
  shows "filter_matches f (path_of u q) \<longleftrightarrow> (\<exists>k. decides (entries f) q (k, Include))"
  using most_specific_match_iff(1) [OF assms, of Include]
  by (cases "most_specific_match f (path_of u q)") (auto simp: filter_matches_def split: RuleEffect.splits)

section \<open>Updates\<close>

lemma filter_ok_sorted: "filter_ok c u f \<Longrightarrow> btree_sorted (rule_cmp c) (resolved_rules f)"
  by (simp add: filter_ok_def)

lemma filter_okI:
  "btree_sorted (rule_cmp c) rules \<Longrightarrow> (\<And>r e. (r, e) \<in> set rules \<Longrightarrow> rule_ok u r) \<Longrightarrow>
   filter_ok c u \<lparr>resolved_rules = rules\<rparr>"
  by (auto simp: filter_ok_def)

lemma add_rule_ok:
  assumes "natural_order c" "filter_ok c u f" "rule_ok u r"
  shows "filter_ok c u (add_rule c f e r)"
  unfolding add_rule_def
proof (rule filter_okI)
  show "btree_sorted (rule_cmp c) (btree_insert (rule_cmp c) r e (resolved_rules f))"
    using assms(2) by (intro ord_key.sorted_insert [OF rule_ord_key [OF assms(1)]]) (rule filter_ok_sorted)
  show "rule_ok u r'" if "(r', e') \<in> set (btree_insert (rule_cmp c) r e (resolved_rules f))" for r' e'
    using ord_key.insert_keys [OF rule_ord_key [OF assms(1)] that] assms(2,3) by (auto simp: filter_ok_def)
qed

lemma add_rule_entries:
  assumes "natural_order c" "filter_ok c u f"
  shows "entries (add_rule c f e r) = insert (rule_key r, e) {(k, e') \<in> entries f. k \<noteq> rule_key r}"
  using ord_key.insert_entries [OF rule_ord_key [OF assms(1)] filter_ok_sorted [OF assms(2)]]
  by (simp add: add_rule_def)

lemma retain_ok: "natural_order c \<Longrightarrow> filter_ok c u f \<Longrightarrow> filter_ok c u \<lparr>resolved_rules = filter P (resolved_rules f)\<rparr>"
  using ord_key.sorted_filter [OF rule_ord_key] by (auto simp: filter_ok_def)

text \<open>A rule for a subtree ends in the marker, and the printed form of a path does not.\<close>

lemma include_subtree_appended [simp]: "include_subtree (rule_including_subtree s)"
  by (simp add: include_subtree_def rule_including_subtree_def ends_with_def starts_with_str_def)

lemma include_subtree_entity [simp]: "include_subtree (rule_including_entity_subtree u p)"
  by (simp add: rule_including_entity_subtree_def)

lemma rule_strs_of: "resolved_path r = path_of u ss \<Longrightarrow> rule_strs r = ss"
  by (simp add: rule_strs_def comp_def)

lemma rule_key_subtree [simp]: "rule_key (resolved_including_subtree u (path_of u ss)) = (ss, True)"
  by (simp add: rule_key_def resolved_including_subtree_def rule_strs_def comp_def)

lemma rule_ok_subtree [simp]: "rule_ok u (resolved_including_subtree u (path_of u ss))"
  by (simp add: rule_ok_def resolved_including_subtree_def rule_strs_def comp_def)

text \<open>Removing a subtree: an exclusion for it, and no rule left for a path in it.\<close>

lemma remove_subtree_entries:
  assumes "natural_order c" "filter_ok c u f" "collision_free u (insert p (rule_paths f))"
  shows "filter_ok c u (remove_subtree_and_matching_rules c u f (path_of u p))"
    and "entries (remove_subtree_and_matching_rules c u f (path_of u p))
      = insert ((p, True), Exclude) {(k, e) \<in> entries f. \<not> Sublist.prefix p (fst k)}"
proof -
  let ?new = "resolved_including_subtree u (path_of u p)"
  let ?P = "\<lambda>(r, effect). \<not> rule_matches ?new (resolved_path r)"
  let ?f = "\<lparr>resolved_rules = filter ?P (resolved_rules f)\<rparr>"
  have eq: "remove_subtree_and_matching_rules c u f (path_of u p) = add_rule c ?f Exclude ?new"
    by (simp add: remove_subtree_and_matching_rules_def add_rule_def resolved_including_subtree_def Let_def)
  have ok: "filter_ok c u ?f" using assms(1,2) by (rule retain_ok)
  then show "filter_ok c u (remove_subtree_and_matching_rules c u f (path_of u p))"
    unfolding eq by (intro add_rule_ok assms(1)) simp_all
  have P: "?P (r, e) \<longleftrightarrow> \<not> Sublist.prefix p (rule_strs r)" if "(r, e) \<in> set (resolved_rules f)" for r e
  proof -
    have "resolved_path r = path_of u (rule_strs r)" using that assms(2) by (auto simp: filter_ok_def rule_ok_def)
    moreover have "collision_free u {rule_strs r, p}"
      using that by (intro collision_free_mono [OF assms(3)]) (auto simp: rule_paths_def)
    ultimately show ?thesis
      using starts_with_iff [of u "rule_strs r" p]
      by (simp add: rule_matches_def resolved_including_subtree_def)
  qed
  have "entries ?f = {(k, e) \<in> entries f. \<not> Sublist.prefix p (fst k)}"
  proof (rule set_eqI)
    fix ke
    have "ke \<in> entries ?f \<longleftrightarrow> (\<exists>r e. (r, e) \<in> set (resolved_rules f) \<and> ?P (r, e) \<and> ke = (rule_key r, e))"
      by (auto simp: btree_entries_def)
    also have "\<dots> \<longleftrightarrow> (\<exists>r e. (r, e) \<in> set (resolved_rules f) \<and> \<not> Sublist.prefix p (rule_strs r) \<and> ke = (rule_key r, e))"
      using P by blast
    also have "\<dots> \<longleftrightarrow> ke \<in> {(k, e) \<in> entries f. \<not> Sublist.prefix p (fst k)}"
      unfolding btree_entries_def rule_key_def by fastforce
    finally show "ke \<in> entries ?f \<longleftrightarrow> ke \<in> {(k, e) \<in> entries f. \<not> Sublist.prefix p (fst k)}" .
  qed
  then show "entries (remove_subtree_and_matching_rules c u f (path_of u p))
      = insert ((p, True), Exclude) {(k, e) \<in> entries f. \<not> Sublist.prefix p (fst k)}"
    unfolding eq add_rule_entries [OF assms(1) ok] by auto
qed

lemma rule_paths_entries: "rule_paths f = fst ` fst ` entries f"
  by (force simp: rule_paths_def btree_entries_def rule_key_def)

lemma applies_prefix: "applies k q \<Longrightarrow> Sublist.prefix (fst k) q"
  by (cases k) (auto split: if_splits)

lemma decides_remove_subtree:
  "decides (insert ((p, True), Exclude) {(k, e) \<in> E. \<not> Sublist.prefix p (fst k)}) q (k, Include)
     \<longleftrightarrow> \<not> Sublist.prefix p q \<and> decides E q (k, Include)" (is "decides ?E q _ \<longleftrightarrow> ?out \<and> _")
proof
  assume d: "decides ?E q (k, Include)"
  then have k: "(k, Include) \<in> E" "\<not> Sublist.prefix p (fst k)" "applies k q"
    by (auto simp: decides_def)
  have out: ?out
  proof
    assume "Sublist.prefix p q"
    then have "less_specific (p, True) k"
      using d by (auto simp: decides_def)
    moreover have "Sublist.prefix (fst k) p"
      using prefix_same_cases [OF \<open>Sublist.prefix p q\<close> applies_prefix [OF k(3)]] k(2) by blast
    ultimately show False
      using k(2) prefix_length_le [of "fst k" p] by (cases k) auto
  qed
  have "ke' = (k, Include) \<or> less_specific (fst ke') k" if "ke' \<in> E" "applies (fst ke') q" for ke'
  proof -
    have "\<not> Sublist.prefix p (fst (fst ke'))"
      using out applies_prefix [OF that(2)] prefix_order.trans by blast
    with that(1) have "ke' \<in> ?E" by (cases ke') simp
    with d that(2) show ?thesis unfolding decides_def fst_conv by blast
  qed
  with k out show "?out \<and> decides E q (k, Include)" by (auto simp: decides_def)
next
  assume "?out \<and> decides E q (k, Include)"
  then have out: ?out and d: "decides E q (k, Include)" by auto
  then have "\<not> Sublist.prefix p (fst k)"
    using applies_prefix [of k q] prefix_order.trans by (auto simp: decides_def)
  with d out show "decides ?E q (k, Include)"
    by (auto simp: decides_def)
qed

end
