(* ===== verification/Filter_Queries.thy ===== *)
theory Filter_Queries
  imports Filter_Semantics
begin

text \<open>
  The queries and updates of resolved filters against their meaning: removing a subtree, the
  default exclusion of the recording properties, whether anything below a path is included,
  and how the combined evaluation agrees with the single queries. Two lemmas exhibit filters
  on which \<open>evaluate\<close> and \<open>is_superset_of\<close> do not do what their documentation says.
\<close>

section \<open>Anything in a subtree\<close>

definition no_exact_exclusion :: "ResolvedEntityPathRule \<times> RuleEffect \<Rightarrow> bool" where
  "no_exact_exclusion = (\<lambda>(r, e). \<not> (e = Exclude \<and> \<not> include_subtree (rule_text r)))"

lemma subtree_scan_filter:
  "subtree_scan p rules \<longleftrightarrow> map_option snd (find_match p (filter no_exact_exclusion rules)) = Some Include"
  by (induction p rules rule: subtree_scan.induct)
    (auto simp: no_exact_exclusion_def split: RuleEffect.splits)

lemma filter_matches_Some: "filter_matches f p \<longleftrightarrow> most_specific_match f p = Some Include"
  by (auto simp: filter_matches_def split: option.splits RuleEffect.splits)

lemma subtree_scan_matches:
  "subtree_scan p (rev (resolved_rules f))
    \<longleftrightarrow> filter_matches \<lparr>resolved_rules = filter no_exact_exclusion (resolved_rules f)\<rparr> p"
  by (simp add: subtree_scan_filter filter_matches_Some most_specific_match_def rev_filter)

lemma entries_no_exact:
  "entries \<lparr>resolved_rules = filter no_exact_exclusion (resolved_rules f)\<rparr>
    = {(k, e) \<in> entries f. \<not> (e = Exclude \<and> \<not> snd k)}"
  unfolding btree_entries_def no_exact_exclusion_def rule_key_def by fastforce

lemma rule_paths_retain: "rule_paths \<lparr>resolved_rules = filter P (resolved_rules f)\<rparr> \<subseteq> rule_paths f"
  by (auto simp: rule_paths_def)

lemma include_in_subtree_iff:
  assumes "filter_ok c u f" "collision_free u (insert p (rule_paths f))"
  shows "list_ex (\<lambda>(r, e). e = Include \<and> starts_with (resolved_path r) (path_of u p)) (resolved_rules f)
    \<longleftrightarrow> (\<exists>ss b. ((ss, b), Include) \<in> entries f \<and> Sublist.prefix p ss)"
proof -
  have "starts_with (resolved_path r) (path_of u p) \<longleftrightarrow> Sublist.prefix p (rule_strs r)"
    if "(r, e) \<in> set (resolved_rules f)" for r e
  proof -
    have "resolved_path r = path_of u (rule_strs r)" using that assms(1) by (auto simp: filter_ok_def rule_ok_def)
    moreover have "collision_free u {rule_strs r, p}"
      using that by (intro collision_free_mono [OF assms(2)]) (auto simp: rule_paths_def)
    ultimately show ?thesis using starts_with_iff [of u "rule_strs r" p] by metis
  qed
  then show ?thesis
    unfolding list_ex_iff btree_entries_def rule_key_def by fastforce
qed

lemma is_anything_iff:
  assumes "natural_order c" "filter_ok c u f" "collision_free u (insert p (rule_paths f))"
  shows "is_anything_in_subtree_included f (path_of u p) \<longleftrightarrow>
    (\<exists>ss b. ((ss, b), Include) \<in> entries f \<and> Sublist.prefix p ss)
    \<or> (\<exists>k. decides {(k, e) \<in> entries f. \<not> (e = Exclude \<and> \<not> snd k)} p (k, Include))"
proof -
  let ?f = "\<lparr>resolved_rules = filter no_exact_exclusion (resolved_rules f)\<rparr>"
  have "filter_ok c u ?f" using assms(1,2) by (rule retain_ok)
  moreover have "collision_free u (insert p (rule_paths ?f))"
    using rule_paths_retain by (intro collision_free_mono [OF assms(3)]) blast
  ultimately have "filter_matches ?f (path_of u p) \<longleftrightarrow> (\<exists>k. decides (entries ?f) p (k, Include))"
    by (rule filter_matches_iff [OF assms(1)])
  then show ?thesis
    using include_in_subtree_iff [OF assms(2,3)] unfolding entries_no_exact
    by (simp add: is_anything_in_subtree_included_def subtree_scan_matches)
qed

text \<open>Two paths that decide about the subtree: the path of a rule itself and a fresh child.\<close>

lemma decides_at_rule:
  assumes "((ss, False), e) \<in> E" "\<And>k e e'. (k, e) \<in> E \<Longrightarrow> (k, e') \<in> E \<Longrightarrow> e = e'"
  shows "decides E ss ((ss, False), e)"
proof -
  have "ke' = ((ss, False), e) \<or> less_specific (fst ke') (ss, False)"
    if "ke' \<in> E" "applies (fst ke') ss" for ke'
  proof -
    obtain ss' b' e' where ke': "ke' = ((ss', b'), e')" by (metis prod.exhaust)
    with that have "Sublist.prefix ss' ss" using applies_prefix by fastforce
    with ke' that assms show ?thesis
      by (cases "ss' = ss"; cases b') (auto simp: prefix_order.le_less dest: prefix_length_less)
  qed
  with assms(1) show ?thesis by (auto simp: decides_def)
qed

lemma decides_at_child:
  assumes "decides {(k, e) \<in> E. \<not> (e = Exclude \<and> \<not> snd k)} p ((ss, True), e)"
    and fresh: "\<forall>(k, e) \<in> E. \<not> Sublist.prefix (p @ [x]) (fst k)"
  shows "decides E (p @ [x]) ((ss, True), e)"
proof -
  have ss: "((ss, True), e) \<in> E" "Sublist.prefix ss p" using assms(1) by (auto simp: decides_def)
  have "ke' = ((ss, True), e) \<or> less_specific (fst ke') (ss, True)"
    if ke': "ke' \<in> E" "applies (fst ke') (p @ [x])" for ke'
  proof -
    obtain ss' b' e' where eq: "ke' = ((ss', b'), e')" by (metis prod.exhaust)
    with ke' fresh have "b'" "Sublist.prefix ss' p"
      by (auto simp: prefix_snoc split: if_splits)
    with eq ke'(1) have "ke' \<in> {(k, e) \<in> E. \<not> (e = Exclude \<and> \<not> snd k)}" "applies (fst ke') p"
      by simp_all
    with assms(1) show ?thesis unfolding decides_def fst_conv by blast
  qed
  with ss show ?thesis by (auto simp: decides_def)
qed

lemma child_of_rule:
  assumes "((ss, True), e) \<in> E" "\<And>k e e'. (k, e) \<in> E \<Longrightarrow> (k, e') \<in> E \<Longrightarrow> e = e'"
    and fresh: "\<forall>(k, e) \<in> E. \<not> Sublist.prefix (ss @ [x]) (fst k)"
  shows "decides E (ss @ [x]) ((ss, True), e)"
proof -
  have "ke' = ((ss, True), e) \<or> less_specific (fst ke') (ss, True)"
    if ke': "ke' \<in> E" "applies (fst ke') (ss @ [x])" for ke'
  proof -
    obtain ss' b' e' where eq: "ke' = ((ss', b'), e')" by (metis prod.exhaust)
    with ke' fresh have "b'" "Sublist.prefix ss' ss"
      by (auto simp: prefix_snoc split: if_splits)
    with eq ke' assms(1,2) show ?thesis
      by (cases "ss' = ss") (auto simp: prefix_order.le_less dest: prefix_length_less)
  qed
  with assms(1) show ?thesis by (auto simp: decides_def)
qed

text \<open>Nothing below a path is included although a query says so: impossible, given fresh children.\<close>

lemma subtree_witness:
  assumes E: "\<And>k e e'. (k, e) \<in> E \<Longrightarrow> (k, e') \<in> E \<Longrightarrow> e = e'"
    and fresh: "\<forall>ss \<in> insert p (fst ` fst ` E). \<forall>(k, e) \<in> E. \<not> Sublist.prefix (ss @ [x]) (fst k)"
    and incl: "(\<exists>ss b. ((ss, b), Include) \<in> E \<and> Sublist.prefix p ss)
      \<or> (\<exists>k. decides {(k, e) \<in> E. \<not> (e = Exclude \<and> \<not> snd k)} p (k, Include))"
  shows "\<exists>q k. Sublist.prefix p q \<and> decides E q (k, Include)
    \<and> q \<in> {p @ [x]} \<union> fst ` fst ` E \<union> (\<lambda>ss. ss @ [x]) ` fst ` fst ` E"
proof -
  have rule: ?thesis if "((ss, b), Include) \<in> E" "Sublist.prefix p ss" for ss b
  proof (cases b)
    case True
    have "\<forall>(k, e) \<in> E. \<not> Sublist.prefix (ss @ [x]) (fst k)" using fresh that(1) by force
    then have "decides E (ss @ [x]) ((ss, True), Include)"
      using that(1) True E by (intro child_of_rule) auto
    moreover have "Sublist.prefix p (ss @ [x])" using that(2) by (simp add: prefix_snoc)
    moreover have "ss @ [x] \<in> (\<lambda>ss. ss @ [x]) ` fst ` fst ` E" using that(1) by force
    ultimately show ?thesis by blast
  next
    case False
    then have "decides E ss ((ss, False), Include)"
      using that(1) E by (intro decides_at_rule) auto
    moreover have "ss \<in> fst ` fst ` E" using that(1) by force
    ultimately show ?thesis using that(2) by blast
  qed
  from incl show ?thesis
  proof
    assume "\<exists>k. decides {(k, e) \<in> E. \<not> (e = Exclude \<and> \<not> snd k)} p (k, Include)"
    then obtain ss b where d: "decides {(k, e) \<in> E. \<not> (e = Exclude \<and> \<not> snd k)} p ((ss, b), Include)" by auto
    show ?thesis
    proof (cases b)
      case True
      with d have "decides E (p @ [x]) ((ss, True), Include)"
        using fresh by (intro decides_at_child) auto
      then show ?thesis by (intro exI [of _ "p @ [x]"] exI [of _ "(ss, True)"]) simp
    next
      case False
      with d have "((p, False), Include) \<in> E" by (auto simp: decides_def)
      then show ?thesis by (intro rule) auto
    qed
  qed (use rule in blast)
qed

lemma subtree_complete:
  assumes "Sublist.prefix p q" "decides E q ((ss, b), Include)"
  shows "(\<exists>ss b. ((ss, b), Include) \<in> E \<and> Sublist.prefix p ss)
    \<or> (\<exists>k. decides {(k, e) \<in> E. \<not> (e = Exclude \<and> \<not> snd k)} p (k, Include))"
proof (cases "(\<exists>ss b. ((ss, b), Include) \<in> E \<and> Sublist.prefix p ss)")
  case False
  have ss: "((ss, b), Include) \<in> E" "applies (ss, b) q" using assms(2) by (auto simp: decides_def)
  then have "Sublist.prefix ss p" "ss \<noteq> p"
    using False assms(1) applies_prefix [OF ss(2)] prefix_same_cases [of p q ss] by auto
  with ss(2) assms(1) have "b" by (auto split: if_splits dest: prefix_order.antisym)
  have "ke' = ((ss, b), Include) \<or> less_specific (fst ke') (ss, b)"
    if ke': "ke' \<in> {(k, e) \<in> E. \<not> (e = Exclude \<and> \<not> snd k)}" "applies (fst ke') p" for ke'
  proof -
    obtain ss' b' e' where eq: "ke' = ((ss', b'), e')" by (metis prod.exhaust)
    with ke' False have "b'" by (cases e'; cases b') auto
    with eq ke' assms(1) have "applies (fst ke') q" "ke' \<in> E" by (auto intro: prefix_order.trans)
    with assms(2) show ?thesis unfolding decides_def fst_conv by blast
  qed
  with ss \<open>b\<close> \<open>Sublist.prefix ss p\<close> have "decides {(k, e) \<in> E. \<not> (e = Exclude \<and> \<not> snd k)} p ((ss, b), Include)"
    by (simp add: decides_def)
  then show ?thesis by blast
qed simp

lemma entries_effect_unique:
  assumes "natural_order c" "filter_ok c u f" "(k, e) \<in> entries f" "(k, e') \<in> entries f"
  shows "e = e'"
  using ord_key.entries_unique [OF rule_ord_key [OF assms(1)] filter_ok_sorted [OF assms(2)]] assms(3,4) by blast

section \<open>Evaluation\<close>

lemma evaluate_fold:
  "foldl (evaluate_step p) (a, l, b) rules =
     (a \<or> list_ex (\<lambda>(r, e). e = Include \<and> \<not> include_subtree (rule_text r) \<and> path_eq (resolved_path r) p) rules,
      (case find_match p (rev rules) of None \<Rightarrow> l | Some (r, e) \<Rightarrow> Some (e, include_subtree (rule_text r))),
      b \<or> list_ex (\<lambda>(r, e). e = Include \<and> starts_with (resolved_path r) p) rules)"
proof (induction rules rule: rev_induct)
  case (snoc re rules)
  then show ?case by (cases re) (auto simp: evaluate_step_def)
qed simp

lemma evaluate_simps:
  "eval_matches (evaluate f p) = filter_matches f p"
  "eval_matches_exactly (evaluate f p) = matches_exactly f p"
  "subtree_included (evaluate f p) \<longleftrightarrow> most_specific_match f p = Some Include
     \<or> list_ex (\<lambda>(r, e). e = Include \<and> starts_with (resolved_path r) p) (resolved_rules f)"
  by (auto simp: evaluate_def evaluate_fold filter_matches_Some most_specific_match_def matches_exactly_def
      split: option.splits RuleEffect.splits)

lemma find_match_scan:
  "find_match p rules = Some (r, Include) \<Longrightarrow> subtree_scan p rules"
  by (induction p rules rule: find_match.induct) (auto split: if_splits)

lemma scan_find_match:
  "subtree_scan p rules \<Longrightarrow>
   \<exists>r e. find_match p rules = Some (r, e) \<and> (e = Include \<or> e = Exclude \<and> \<not> include_subtree (rule_text r))"
  by (induction p rules rule: subtree_scan.induct) (auto split: if_splits RuleEffect.splits)

section \<open>Resolution\<close>

lemma path_root_of: "path_root u = path_of u []"
  by (simp add: path_root_def path_of_def)

lemma path_properties_of: "path_properties u = path_of u [PROPERTIES_PART]"
  by (simp add: path_properties_def path_of_def part_properties_def)

lemma rule_okI: "resolved_path r = path_of u ss \<Longrightarrow> rule_ok u r"
  by (simp add: rule_ok_def rule_strs_def comp_def)

lemma rule_parse_forgiving_ok: "rule_ok u (rule_parse_forgiving u s env)"
  by (simp add: rule_parse_forgiving_def Let_def rule_ok_def rule_strs_def path_root_of
      parse_forgiving_uncached_path comp_def)

lemma rule_parse_strict_ok: "rule_parse_strict u s env = Ok r \<Longrightarrow> rule_ok u r"
  by (auto simp: rule_parse_strict_def Let_def path_root_of split: if_splits sum.splits
      intro: rule_okI dest!: parse_strict_parts_nonempty)

lemma resolve_all_ok: "resolve_all u env rules = Ok rs \<Longrightarrow> \<forall>(r, e) \<in> set rs. rule_ok u r"
  by (induction u env rules arbitrary: rs rule: resolve_all.induct)
    (auto simp: try_bind_Ok_iff dest: rule_parse_strict_ok)

lemma collect_ok:
  assumes "natural_order c" "\<forall>(r, e) \<in> set rules. rule_ok u r"
  shows "filter_ok c u \<lparr>resolved_rules = btree_collect (rule_cmp c) rules\<rparr>"
proof (rule filter_okI)
  show "btree_sorted (rule_cmp c) (btree_collect (rule_cmp c) rules)"
    by (rule ord_key.sorted_collect [OF rule_ord_key [OF assms(1)]])
  have "fst ` set (btree_collect (rule_cmp c) rules) \<subseteq> fst ` set rules"
  proof (induction rules rule: rev_induct)
    case (snoc re rules)
    obtain r e where re: "re = (r, e)" by force
    have "fst x = r \<or> fst x \<in> fst ` set rules"
      if "x \<in> set (btree_put (rule_cmp c) r e (btree_collect (rule_cmp c) rules))" for x
      using ord_key.put_keys [OF rule_ord_key [OF assms(1)] that] snoc by blast
    then show ?case by (auto simp: re ord_key.collect_snoc [OF rule_ord_key [OF assms(1)]])
  qed (simp add: btree_collect_def)
  then show "rule_ok u r" if "(r, e) \<in> set (btree_collect (rule_cmp c) rules)" for r e
    using that assms(2) by force
qed

lemma exclude_properties_ok:
  assumes "natural_order c" "\<forall>(r, e) \<in> set rules. rule_ok u r"
  shows "filter_ok c u (exclude_properties c u (btree_collect (rule_cmp c) rules))"
  unfolding exclude_properties_def
proof (rule filter_okI)
  let ?m = "btree_collect (rule_cmp c) rules" and ?k = "resolved_including_subtree u (path_properties u)"
  have ok: "filter_ok c u \<lparr>resolved_rules = ?m\<rparr>" using assms by (rule collect_ok)
  then show "btree_sorted (rule_cmp c) (btree_or_insert (rule_cmp c) ?k Exclude ?m)"
    by (intro ord_key.sorted_or_insert [OF rule_ord_key [OF assms(1)]]) (simp add: filter_ok_def)
  show "rule_ok u r" if "(r, e) \<in> set (btree_or_insert (rule_cmp c) ?k Exclude ?m)" for r e
    using ord_key.or_insert_keys [OF rule_ord_key [OF assms(1)] that] ok
    by (auto simp: filter_ok_def path_properties_of)
qed

lemma exclude_properties_entries:
  assumes "natural_order c"
    "\<And>k e. (k, e) \<in> btree_entries rule_key (btree_collect (rule_cmp c) rules) \<Longrightarrow> \<not> Sublist.prefix [PROPERTIES_PART] (fst k)"
  shows "entries (exclude_properties c u (btree_collect (rule_cmp c) rules))
    = insert (([PROPERTIES_PART], True), Exclude) (btree_entries rule_key (btree_collect (rule_cmp c) rules))"
  using assms(2)
  by (force simp: exclude_properties_def path_properties_of
      ord_key.or_insert_entries [OF rule_ord_key [OF assms(1)] ord_key.sorted_collect [OF rule_ord_key [OF assms(1)]]])

lemma exclude_properties_decides:
  assumes "natural_order c" "Sublist.prefix [PROPERTIES_PART] q"
    "\<And>k e. (k, e) \<in> btree_entries rule_key (btree_collect (rule_cmp c) rules) \<Longrightarrow> \<not> Sublist.prefix [PROPERTIES_PART] (fst k)"
  shows "\<not> decides (entries (exclude_properties c u (btree_collect (rule_cmp c) rules))) q (k, Include)"
proof
  let ?E = "btree_entries rule_key (btree_collect (rule_cmp c) rules)"
  assume "decides (entries (exclude_properties c u (btree_collect (rule_cmp c) rules))) q (k, Include)"
  then have d: "decides (insert (([PROPERTIES_PART], True), Exclude) ?E) q (k, Include)"
    using exclude_properties_entries [OF assms(1,3)] by simp
  then have k: "(k, Include) \<in> ?E" "applies k q" by (auto simp: decides_def)
  have "Sublist.prefix (fst k) [PROPERTIES_PART]"
    using prefix_same_cases [OF assms(2) applies_prefix [OF k(2)]] assms(3) [OF k(1)] by blast
  then have "fst k = []" using assms(3) [OF k(1)] by (cases "fst k") auto
  moreover have "less_specific ([PROPERTIES_PART], True) k"
    using d assms(2) by (auto simp: decides_def)
  ultimately show False by (cases k) auto
qed

section \<open>Properties\<close>

text \<open>
  C11. The most specific rule decides: in a filter whose rules are sorted, the rule found from
  the end applies to the path and every other rule that applies is less specific, that is, has
  a shorter path or is the rule for the whole subtree of the same path.
\<close>

theorem most_specific_rule_wins:
  assumes "natural_order c" "filter_ok c u f" "collision_free u (insert q (rule_paths f))"
  shows "(most_specific_match f (path_of u q) = Some e \<longleftrightarrow>
      (\<exists>k. (k, e) \<in> entries f \<and> applies k q
         \<and> (\<forall>ke' \<in> entries f. applies (fst ke') q \<longrightarrow> ke' = (k, e) \<or> less_specific (fst ke') k)))
    \<and> (most_specific_match f (path_of u q) = None \<longleftrightarrow> (\<forall>(k, e) \<in> entries f. \<not> applies k q))"
  using most_specific_match_iff [OF assms] unfolding decides_def fst_conv by blast

definition demo_filter :: "text_env \<Rightarrow> ResolvedEntityPathFilter" where
  "demo_filter u = \<lparr>resolved_rules =
     [(\<lparr>rule_text = ascii ''/**'', resolved_path = path_of u []\<rparr>, Include),
      (\<lparr>rule_text = ascii ''/a'', resolved_path = path_of u [ascii ''a'']\<rparr>, Exclude)]\<rparr>"

lemma demo_entries: "entries (demo_filter u) = {(([], True), Include), (([ascii ''a''], False), Exclude)}"
  by (simp add: demo_filter_def rule_key_def rule_strs_def comp_def include_subtree_def ends_with_def
      starts_with_str_def SUBTREE_def ascii_def)

lemma demo_paths: "rule_paths (demo_filter u) = {[], [ascii ''a'']}"
  by (auto simp: rule_paths_entries demo_entries)

lemma demo_ok: "filter_ok ustr_cmp u (demo_filter u)"
proof (unfold demo_filter_def, rule filter_okI)
  show "btree_sorted (rule_cmp ustr_cmp)
     [(\<lparr>rule_text = ascii ''/**'', resolved_path = path_of u []\<rparr>, Include),
      (\<lparr>rule_text = ascii ''/a'', resolved_path = path_of u [ascii ''a'']\<rparr>, Exclude)]"
    by (simp add: btree_sorted_def rule_cmp_def path_cmp_def)
qed (auto simp: rule_ok_def rule_strs_def comp_def)

lemma demo_collision_free:
  "collision_free ascii_env {[], [ascii ''a''], [ascii ''b''], [ascii ''a'', ascii ''b'']}"
  by (simp add: collision_free_def ascii_def insert_Diff_if) (simp add: ascii_env_def insert_Diff_if)

theorem most_specific_rule_wins_witness:
  "most_specific_match (demo_filter ascii_env) (path_of ascii_env [ascii ''a'', ascii ''b'']) = Some Include"
proof -
  have "collision_free ascii_env (insert [ascii ''a'', ascii ''b''] (rule_paths (demo_filter ascii_env)))"
    unfolding demo_paths by (rule collision_free_mono [OF demo_collision_free]) auto
  then show ?thesis
    using most_specific_rule_wins [OF natural_order_ustr_cmp demo_ok, where u = ascii_env
        and q = "[ascii ''a'', ascii ''b'']" and e = Include]
    by (auto simp: demo_entries)
qed

text \<open>
  Removing a subtree keeps the filter well-formed, excludes every path in the subtree and
  changes nothing for the paths outside.
\<close>

theorem remove_subtree_excludes_subtree:
  assumes "natural_order c" "filter_ok c u f" "collision_free u ({p, q} \<union> rule_paths f)"
  shows "filter_ok c u (remove_subtree_and_matching_rules c u f (path_of u p))
    \<and> (filter_matches (remove_subtree_and_matching_rules c u f (path_of u p)) (path_of u q)
        \<longleftrightarrow> \<not> Sublist.prefix p q \<and> filter_matches f (path_of u q))"
proof -
  let ?g = "remove_subtree_and_matching_rules c u f (path_of u p)"
  have cf: "collision_free u (insert p (rule_paths f))" "collision_free u (insert q (rule_paths f))"
    by (rule collision_free_mono [OF assms(3)], blast)+
  note g = remove_subtree_entries [OF assms(1,2) cf(1)]
  have "rule_paths ?g \<subseteq> insert p (rule_paths f)"
    unfolding rule_paths_entries g(2) by auto
  then have "collision_free u (insert q (rule_paths ?g))"
    by (intro collision_free_mono [OF assms(3)]) blast
  then have "filter_matches ?g (path_of u q) \<longleftrightarrow> (\<exists>k. decides (entries ?g) q (k, Include))"
    by (rule filter_matches_iff [OF assms(1) g(1)])
  then show ?thesis
    using g(1) filter_matches_iff [OF assms(1,2) cf(2)] by (simp add: g(2) decides_remove_subtree)
qed

theorem remove_subtree_excludes_subtree_witness:
  "\<not> filter_matches (remove_subtree_and_matching_rules ustr_cmp ascii_env (demo_filter ascii_env)
       (path_of ascii_env [ascii ''a''])) (path_of ascii_env [ascii ''a'', ascii ''b''])"
proof -
  have "collision_free ascii_env ({[ascii ''a''], [ascii ''a'', ascii ''b'']} \<union> rule_paths (demo_filter ascii_env))"
    unfolding demo_paths by (rule collision_free_mono [OF demo_collision_free]) auto
  from remove_subtree_excludes_subtree [OF natural_order_ustr_cmp demo_ok this] show ?thesis by simp
qed

lemma resolve_all_parsed:
  "resolve_all u env rs = Ok rules \<Longrightarrow> (rr, e) \<in> set rules \<Longrightarrow> \<exists>r. (r, e) \<in> set rs \<and> rule_parse_strict u r env = Ok rr"
proof (induction rs arbitrary: rules)
  case (Cons x rs)
  obtain r' e' where x: "x = (r', e')" by (cases x)
  with Cons.prems(1) obtain r0 rules' where tail: "rule_parse_strict u r' env = Ok r0" "resolve_all u env rs = Ok rules'"
    "rules = (r0, e') # rules'" by (auto simp: try_bind_Ok_iff)
  show ?case
  proof (cases "(rr, e) \<in> set rules'")
    case True
    then show ?thesis using Cons.IH [OF tail(2)] by auto
  next
    case False
    then have "rr = r0" "e = e'" using Cons.prems(2) tail(3) by auto
    then show ?thesis using x tail(1) by auto
  qed
qed simp

lemma exclude_properties_matches:
  assumes "natural_order c" "\<forall>(r, e) \<in> set rules. rule_ok u r" "Sublist.prefix [PROPERTIES_PART] q"
    and "\<And>r e. (r, e) \<in> set rules \<Longrightarrow> \<not> Sublist.prefix [PROPERTIES_PART] (rule_strs r)"
    and "collision_free u (insert q (rule_paths (exclude_properties c u (btree_collect (rule_cmp c) rules))))"
  shows "\<not> filter_matches (exclude_properties c u (btree_collect (rule_cmp c) rules)) (path_of u q)"
proof -
  have "\<not> Sublist.prefix [PROPERTIES_PART] (fst k)" if "(k, e) \<in> btree_entries rule_key (btree_collect (rule_cmp c) rules)" for k e
    using that assms(4) by (fastforce simp: ord_key.collect_entries [OF rule_ord_key [OF assms(1)]] rule_key_def dest!: map_of_SomeD)
  then have "\<not> decides (entries (exclude_properties c u (btree_collect (rule_cmp c) rules))) q (k, Include)" for k
    by (intro exclude_properties_decides [OF assms(1,3)]) auto
  then show ?thesis
    using filter_matches_iff [OF assms(1)] exclude_properties_ok [OF assms(1,2)] assms(5) by blast
qed

text \<open>
  C14. Resolving a filter gives a well-formed resolved filter, by the forgiving and, when it
  succeeds, by the strict resolution. Unless a rule is given for the recording properties or
  for something below them, no path there matches, whichever of the two resolved the filter.
\<close>

theorem resolve_excludes_properties:
  assumes "natural_order c"
  shows "filter_ok c u (resolve_forgiving c u f env)
    \<and> (\<forall>q. Sublist.prefix [PROPERTIES_PART] q
        \<and> (\<forall>(r, e) \<in> set (filter_rules f). \<not> Sublist.prefix [PROPERTIES_PART] (rule_strs (rule_parse_forgiving u r env)))
        \<and> collision_free u (insert q (rule_paths (resolve_forgiving c u f env)))
        \<longrightarrow> \<not> filter_matches (resolve_forgiving c u f env) (path_of u q))
    \<and> (\<forall>g. resolve_strict c u f env = Ok g \<longrightarrow> filter_ok c u g
        \<and> (\<forall>q. Sublist.prefix [PROPERTIES_PART] q
            \<and> (\<forall>(r, e) \<in> set (filter_rules f). \<forall>rr. rule_parse_strict u r env = Ok rr \<longrightarrow> \<not> Sublist.prefix [PROPERTIES_PART] (rule_strs rr))
            \<and> collision_free u (insert q (rule_paths g))
            \<longrightarrow> \<not> filter_matches g (path_of u q)))"
proof (intro conjI allI impI)
  have rules: "\<forall>(r, e) \<in> set (map (\<lambda>(r, effect). (rule_parse_forgiving u r env, effect)) (filter_rules f)). rule_ok u r"
    by (auto simp: rule_parse_forgiving_ok)
  show "filter_ok c u (resolve_forgiving c u f env)" unfolding resolve_forgiving_def by (rule exclude_properties_ok [OF assms rules])
  fix q
  assume "Sublist.prefix [PROPERTIES_PART] q
        \<and> (\<forall>(r, e) \<in> set (filter_rules f). \<not> Sublist.prefix [PROPERTIES_PART] (rule_strs (rule_parse_forgiving u r env)))
        \<and> collision_free u (insert q (rule_paths (resolve_forgiving c u f env)))"
  then show "\<not> filter_matches (resolve_forgiving c u f env) (path_of u q)"
    unfolding resolve_forgiving_def by (intro exclude_properties_matches [OF assms rules]) auto
next
  fix g assume "resolve_strict c u f env = Ok g"
  then obtain rules where g: "resolve_all u env (filter_rules f) = Ok rules" "g = exclude_properties c u (btree_collect (rule_cmp c) rules)"
    by (auto simp: resolve_strict_def try_bind_Ok_iff)
  have ok: "\<forall>(r, e) \<in> set rules. rule_ok u r" using resolve_all_ok [OF g(1)] by blast
  show "filter_ok c u g" unfolding g(2) by (rule exclude_properties_ok [OF assms ok])
  fix q
  assume a: "Sublist.prefix [PROPERTIES_PART] q
      \<and> (\<forall>(r, e) \<in> set (filter_rules f). \<forall>rr. rule_parse_strict u r env = Ok rr \<longrightarrow> \<not> Sublist.prefix [PROPERTIES_PART] (rule_strs rr))
      \<and> collision_free u (insert q (rule_paths g))"
  have "\<not> Sublist.prefix [PROPERTIES_PART] (rule_strs r)" if "(r, e) \<in> set rules" for r e
    using resolve_all_parsed [OF g(1) that] a by auto
  then show "\<not> filter_matches g (path_of u q)"
    using a unfolding g(2) by (intro exclude_properties_matches [OF assms ok]) blast+
qed

theorem resolve_excludes_properties_witness:
  "\<not> filter_matches (resolve_forgiving ustr_cmp ascii_env filter_all []) (path_of ascii_env [PROPERTIES_PART])"
proof -
  have parse: "rule_parse_forgiving ascii_env (rule_including_subtree []) [] = \<lparr>rule_text = SUBTREE, resolved_path = path_of ascii_env []\<rparr>"
    by (simp add: rule_parse_forgiving_def rule_including_subtree_def rule_new_def substitute_variables_def
        str_trim_def SUBTREE_def ascii_def path_root_def path_of_def) (simp add: ascii_env_def)
  then have "resolve_forgiving ustr_cmp ascii_env filter_all [] = \<lparr>resolved_rules =
      [(\<lparr>rule_text = SUBTREE, resolved_path = path_of ascii_env []\<rparr>, Include),
       (resolved_including_subtree ascii_env (path_of ascii_env [PROPERTIES_PART]), Exclude)]\<rparr>"
    by (simp add: resolve_forgiving_def exclude_properties_def filter_all_def btree_collect_def rule_cmp_def
        path_cmp_def path_properties_of resolved_including_subtree_def)
  then have "rule_paths (resolve_forgiving ustr_cmp ascii_env filter_all []) = {[], [PROPERTIES_PART]}"
    by (simp add: rule_paths_def rule_strs_def resolved_including_subtree_def comp_def)
  moreover have "collision_free ascii_env {[], [PROPERTIES_PART]}"
    by (simp add: collision_free_def PROPERTIES_PART_def ascii_def) (simp add: ascii_env_def)
  moreover have "rule_strs (rule_parse_forgiving ascii_env (rule_including_subtree []) []) = []"
    using parse by (simp add: rule_strs_def)
  ultimately show ?thesis
    using resolve_excludes_properties [OF natural_order_ustr_cmp, of ascii_env filter_all "[]"]
    by (simp add: filter_all_def insert_commute)
qed

text \<open>
  C12. \<open>is_anything_in_subtree_included\<close> is exact: on every collision free set of paths that has
  the paths of the rules and a fresh child of each of them and of the queried path, it tells
  whether some path in the subtree matches the filter.
\<close>

theorem anything_in_subtree_exact:
  assumes "natural_order c" "filter_ok c u f" "collision_free u U"
    and "insert p (rule_paths f) \<subseteq> U" "(\<lambda>ss. ss @ [x]) ` insert p (rule_paths f) \<subseteq> U"
    and "\<forall>ss \<in> insert p (rule_paths f). \<forall>r \<in> rule_paths f. \<not> Sublist.prefix (ss @ [x]) r"
  shows "is_anything_in_subtree_included f (path_of u p)
    \<longleftrightarrow> (\<exists>q \<in> U. Sublist.prefix p q \<and> filter_matches f (path_of u q))"
proof -
  have cf: "collision_free u (insert q (rule_paths f))" if "q \<in> U" for q
    using that assms(4) by (intro collision_free_mono [OF assms(3)]) blast
  have matches: "filter_matches f (path_of u q) \<longleftrightarrow> (\<exists>k. decides (entries f) q (k, Include))" if "q \<in> U" for q
    using cf [OF that] by (rule filter_matches_iff [OF assms(1,2)])
  have anything: "is_anything_in_subtree_included f (path_of u p) \<longleftrightarrow>
    (\<exists>ss b. ((ss, b), Include) \<in> entries f \<and> Sublist.prefix p ss)
    \<or> (\<exists>k. decides {(k, e) \<in> entries f. \<not> (e = Exclude \<and> \<not> snd k)} p (k, Include))"
    using assms(4) by (intro is_anything_iff [OF assms(1,2)] cf) blast
  show ?thesis
  proof
    assume "is_anything_in_subtree_included f (path_of u p)"
    moreover have "\<forall>ss \<in> insert p (fst ` fst ` entries f). \<forall>(k, e) \<in> entries f. \<not> Sublist.prefix (ss @ [x]) (fst k)"
      using assms(6) unfolding rule_paths_entries by fastforce
    ultimately have "\<exists>q k. Sublist.prefix p q \<and> decides (entries f) q (k, Include)
        \<and> q \<in> {p @ [x]} \<union> rule_paths f \<union> (\<lambda>ss. ss @ [x]) ` rule_paths f"
      unfolding rule_paths_entries anything
      by (intro subtree_witness entries_effect_unique [OF assms(1,2)])
    then show "\<exists>q \<in> U. Sublist.prefix p q \<and> filter_matches f (path_of u q)"
      using matches assms(4,5) by blast
  next
    assume "\<exists>q \<in> U. Sublist.prefix p q \<and> filter_matches f (path_of u q)"
    then obtain q ss b where "Sublist.prefix p q" "decides (entries f) q ((ss, b), Include)"
      using matches by auto
    then show "is_anything_in_subtree_included f (path_of u p)"
      unfolding anything by (rule subtree_complete)
  qed
qed

theorem anything_in_subtree_exact_witness:
  "is_anything_in_subtree_included (demo_filter ascii_env) (path_of ascii_env [ascii ''a''])
    \<longleftrightarrow> (\<exists>q \<in> {[], [ascii ''a''], [ascii ''b''], [ascii ''a'', ascii ''b'']}.
          Sublist.prefix [ascii ''a''] q \<and> filter_matches (demo_filter ascii_env) (path_of ascii_env q))"
  by (rule anything_in_subtree_exact [OF natural_order_ustr_cmp demo_ok demo_collision_free, of _ "ascii ''b''"])
    (simp_all add: demo_paths ascii_def)

text \<open>
  C13. \<open>evaluate\<close> gives the same answers as the single queries \<open>matches\<close> and \<open>matches_exactly\<close>. When it
  says that a subtree is included, something in it is; the converse holds unless the most
  specific match is the exclusion of exactly this path.
\<close>

theorem evaluate_agrees:
  "eval_matches (evaluate f p) = filter_matches f p
   \<and> eval_matches_exactly (evaluate f p) = matches_exactly f p
   \<and> (subtree_included (evaluate f p) \<longrightarrow> is_anything_in_subtree_included f p)
   \<and> (is_anything_in_subtree_included f p \<and> \<not> subtree_included (evaluate f p) \<longrightarrow>
       (\<exists>r. find_match p (rev (resolved_rules f)) = Some (r, Exclude) \<and> \<not> include_subtree (rule_text r)))"
  using find_match_scan [of p "rev (resolved_rules f)"] scan_find_match [of p "rev (resolved_rules f)"]
  by (auto simp: evaluate_simps is_anything_in_subtree_included_def most_specific_match_def)

theorem evaluate_agrees_witness:
  "\<exists>r. find_match (path_of ascii_env [ascii ''a'']) (rev (resolved_rules (demo_filter ascii_env))) = Some (r, Exclude)
     \<and> \<not> include_subtree (rule_text r)"
proof -
  have "is_anything_in_subtree_included (demo_filter ascii_env) (path_of ascii_env [ascii ''a''])"
    "\<not> subtree_included (evaluate (demo_filter ascii_env) (path_of ascii_env [ascii ''a'']))"
    by (simp_all add: is_anything_in_subtree_included_def evaluate_simps most_specific_match_def demo_filter_def
        rule_matches_def include_subtree_def ends_with_def starts_with_str_def SUBTREE_def ascii_def
        starts_with_def path_eq_def zip_all_eq_def) (simp add: ascii_env_def)
  then show ?thesis
    using evaluate_agrees [of "demo_filter ascii_env" "path_of ascii_env [ascii ''a'']"] by blast
qed

text \<open>The exception is real: everything but the entity \<open>/a\<close> itself is included, yet the subtree of \<open>/a\<close> is skipped.\<close>

lemma evaluate_skips_included_child:
  "filter_matches (demo_filter ascii_env) (path_of ascii_env [ascii ''a'', ascii ''b''])
   \<and> \<not> subtree_included (evaluate (demo_filter ascii_env) (path_of ascii_env [ascii ''a'']))"
  by (simp add: filter_matches_Some evaluate_simps most_specific_match_def demo_filter_def rule_matches_def
      include_subtree_def ends_with_def starts_with_str_def SUBTREE_def ascii_def starts_with_def path_eq_def
      zip_all_eq_def) (simp add: ascii_env_def)

text \<open>
  A filter that excludes the subtree of \<open>/a\<close> claims to be a superset of one that only excludes
  the entity \<open>/a\<close>, although it does not match \<open>/a/b\<close>.
\<close>

definition narrow_filter :: "text_env \<Rightarrow> ResolvedEntityPathFilter" where
  "narrow_filter u = \<lparr>resolved_rules =
     [(\<lparr>rule_text = ascii ''/**'', resolved_path = path_of u []\<rparr>, Include),
      (\<lparr>rule_text = ascii ''/a/**'', resolved_path = path_of u [ascii ''a'']\<rparr>, Exclude)]\<rparr>"

lemma is_superset_of_unsound:
  "is_superset_of (narrow_filter ascii_env) (demo_filter ascii_env)
   \<and> filter_matches (demo_filter ascii_env) (path_of ascii_env [ascii ''a'', ascii ''b''])
   \<and> \<not> filter_matches (narrow_filter ascii_env) (path_of ascii_env [ascii ''a'', ascii ''b''])"
  by (simp add: is_superset_of_def filter_matches_Some most_specific_match_def demo_filter_def narrow_filter_def rule_matches_def
      include_subtree_def ends_with_def starts_with_str_def SUBTREE_def ascii_def starts_with_def path_eq_def
      zip_all_eq_def) (simp add: ascii_env_def)

end
