(* ===== verification/Arrow_Array.thy ===== *)
theory Arrow_Array
  imports Time_Range Tuid "HOL-Library.Monad_Syntax"
begin

text \<open>
  The interface to the Arrow arrays that chunks are made of, and the helpers of
  \<open>src/crates/utils/dl_arrow_util/src/arrays.rs\<close> on top of it. Arrow itself is a package outside
  the repository: its accessors and compute kernels are the fields of the record
  \<open>arrow\<close>, and the locale \<open>arrow_laws\<close> states the documented behaviour that the chunk code
  relies on. Columns without nulls (row ids, times, the children of list arrays) are seen
  through their slices of values, that is as lists; a list array is an abstract value,
  observed through its length, its validity bitmap and its cells. Panics are \<open>None\<close>. Offset
  buffers hold unbounded naturals here, so the panic on children beyond the 32 bit range is
  not modelled.
\<close>

section \<open>Kernels\<close>

record 'e kernels =
  k_slice :: "nat \<Rightarrow> nat \<Rightarrow> 'e list \<Rightarrow> 'e list"
  k_deep_slice :: "nat \<Rightarrow> nat \<Rightarrow> 'e list \<Rightarrow> 'e list"
  k_filter :: "bool list \<Rightarrow> 'e list \<Rightarrow> 'e list"
  k_take :: "nat list \<Rightarrow> 'e list \<Rightarrow> 'e list option"
  k_concat :: "'e list list \<Rightarrow> 'e list option"

text \<open>The elements of a list at the positions where a mask is true.\<close>

definition compress :: "bool list \<Rightarrow> 'e list \<Rightarrow> 'e list" where
  "compress keep xs = map snd (filter fst (zip keep xs))"

locale kernel_laws =
  fixes K :: "'e kernels"
  assumes k_slice: "i + n \<le> length xs \<Longrightarrow> k_slice K i n xs = take n (drop i xs)"
    and k_deep_slice: "i + n \<le> length xs \<Longrightarrow> k_deep_slice K i n xs = take n (drop i xs)"
    and k_filter: "length keep = length xs \<Longrightarrow> k_filter K keep xs = compress keep xs"
    and k_take: "\<forall>i \<in> set idx. i < length xs \<Longrightarrow> k_take K idx xs = Some (map ((!) xs) idx)"
    and k_concat: "xss \<noteq> [] \<Longrightarrow> k_concat K xss = Some (concat xss)"

text \<open>
  List arrays: \<open>la_data_type\<close> is the item field, \<open>la_values\<close> the whole child array (slicing a
  list array does not slice its child), \<open>la_new\<close> the constructor from offsets given as
  lengths, and \<open>la_without_nulls\<close> the reassembly of the parts with no validity bitmap.
\<close>

record ('a, 'd, 'v) arrow =
  la_data_type :: "'a \<Rightarrow> 'd"
  la_len :: "'a \<Rightarrow> nat"
  la_nulls :: "'a \<Rightarrow> bool list option"
  la_value :: "'a \<Rightarrow> nat \<Rightarrow> 'v list"
  la_values :: "'a \<Rightarrow> 'v list"
  la_new :: "'d \<Rightarrow> nat list \<Rightarrow> 'v list \<Rightarrow> bool list option \<Rightarrow> 'a"
  la_new_null :: "'d \<Rightarrow> nat \<Rightarrow> 'a"
  la_without_nulls :: "'a \<Rightarrow> 'a"
  la_slice :: "nat \<Rightarrow> nat \<Rightarrow> 'a \<Rightarrow> 'a"
  la_deep_slice :: "nat \<Rightarrow> nat \<Rightarrow> 'a \<Rightarrow> 'a"
  la_filter :: "bool list \<Rightarrow> 'a \<Rightarrow> 'a"
  la_take :: "nat list \<Rightarrow> 'a \<Rightarrow> 'a option"
  la_concat :: "'a \<Rightarrow> 'a \<Rightarrow> 'a option"
  k_ids :: "RowId kernels"
  k_times :: "i64 kernels"
  k_child :: "'v kernels"

definition la_is_valid :: "('a, 'd, 'v) arrow \<Rightarrow> 'a \<Rightarrow> nat \<Rightarrow> bool" where
  "la_is_valid A a i \<longleftrightarrow> (case la_nulls A a of None \<Rightarrow> True | Some validity \<Rightarrow> validity ! i)"

text \<open>The validity bit of every slot, and the cells: nothing for a null slot.\<close>

definition la_validity :: "('a, 'd, 'v) arrow \<Rightarrow> 'a \<Rightarrow> bool list" where
  "la_validity A a = map (la_is_valid A a) [0..<la_len A a]"

definition la_cell :: "('a, 'd, 'v) arrow \<Rightarrow> 'a \<Rightarrow> nat \<Rightarrow> 'v list option" where
  "la_cell A a i = (if la_is_valid A a i then Some (la_value A a i) else None)"

definition la_cells :: "('a, 'd, 'v) arrow \<Rightarrow> 'a \<Rightarrow> 'v list option list" where
  "la_cells A a = map (la_cell A a) [0..<la_len A a]"

text \<open>The pieces of a list, of the given lengths, from its start.\<close>

fun pieces :: "nat list \<Rightarrow> 'v list \<Rightarrow> 'v list list" where
  "pieces [] vs = []"
| "pieces (n # ns) vs = take n vs # pieces ns (drop n vs)"

text \<open>What \<open>ListArray::new\<close> checks: the lengths stay inside the child, the bitmap has a bit per slot.\<close>

definition parts_fit :: "nat list \<Rightarrow> 'v list \<Rightarrow> bool list option \<Rightarrow> bool" where
  "parts_fit lens vs nulls \<longleftrightarrow> sum_list lens \<le> length vs \<and>
     (case nulls of None \<Rightarrow> True | Some validity \<Rightarrow> length validity = length lens)"

locale arrow_laws =
  fixes A :: "('a, 'd, 'v) arrow"
  assumes ids_laws: "kernel_laws (k_ids A)"
    and times_laws: "kernel_laws (k_times A)"
    and child_laws: "kernel_laws (k_child A)"
    and nulls_len: "la_nulls A a = Some validity \<Longrightarrow> length validity = la_len A a"
    and cells_fit: "(\<Sum>i\<leftarrow>[0..<la_len A a]. length (la_value A a i)) \<le> length (la_values A a)"
    and new_type: "la_data_type A (la_new A d lens vs nulls) = d"
    and new_len: "parts_fit lens vs nulls \<Longrightarrow> la_len A (la_new A d lens vs nulls) = length lens"
    and new_nulls: "parts_fit lens vs nulls \<Longrightarrow> la_nulls A (la_new A d lens vs nulls) = nulls"
    and new_value: "parts_fit lens vs nulls \<Longrightarrow> i < length lens \<Longrightarrow>
        la_value A (la_new A d lens vs nulls) i = pieces lens vs ! i"
    and new_null: "la_data_type A (la_new_null A d n) = d" "la_len A (la_new_null A d n) = n"
        "la_cells A (la_new_null A d n) = replicate n None"
    and without_nulls: "la_data_type A (la_without_nulls A a) = la_data_type A a"
        "la_len A (la_without_nulls A a) = la_len A a"
        "la_nulls A (la_without_nulls A a) = None"
        "i < la_len A a \<Longrightarrow> la_value A (la_without_nulls A a) i = la_value A a i"
    and slice: "la_data_type A (la_slice A i n a) = la_data_type A a"
        "i + n \<le> la_len A a \<Longrightarrow> la_cells A (la_slice A i n a) = take n (drop i (la_cells A a))"
    and slice_values: "la_values A (la_slice A i n a) = la_values A a"
    and deep_slice: "la_data_type A (la_deep_slice A i n a) = la_data_type A a"
        "i + n \<le> la_len A a \<Longrightarrow> la_cells A (la_deep_slice A i n a) = take n (drop i (la_cells A a))"
    and filtering: "la_data_type A (la_filter A keep a) = la_data_type A a"
        "length keep = la_len A a \<Longrightarrow> la_cells A (la_filter A keep a) = compress keep (la_cells A a)"
    and taking: "\<forall>i \<in> set idx. i < la_len A a \<Longrightarrow>
        \<exists>b. la_take A idx a = Some b \<and> la_data_type A b = la_data_type A a \<and>
            la_cells A b = map ((!) (la_cells A a)) idx"
    and concatenating: "la_data_type A a = la_data_type A b \<Longrightarrow>
        \<exists>c. la_concat A a b = Some c \<and> la_data_type A c = la_data_type A a \<and>
            la_cells A c = la_cells A a @ la_cells A b"

section \<open>dl_arrow_util\<close>

text \<open>\<open>assert_eq\<close> on the lengths, then the kernel; the mask has no nulls.\<close>

definition filter_array :: "'e kernels \<Rightarrow> 'e list \<Rightarrow> bool list \<Rightarrow> 'e list option" where
  "filter_array K array keep =
     (if length array \<noteq> length keep then None else Some (k_filter K keep array))"

definition filter_list_array :: "('a, 'd, 'v) arrow \<Rightarrow> 'a \<Rightarrow> bool list \<Rightarrow> 'a option" where
  "filter_list_array A array keep =
     (if la_len A array \<noteq> length keep then None else Some (la_filter A keep array))"

fun is_consecutive :: "nat list \<Rightarrow> bool" where
  "is_consecutive (x # y # xs) \<longleftrightarrow> y = x + 1 \<and> is_consecutive (y # xs)"
| "is_consecutive _ \<longleftrightarrow> True"

text \<open>
  The shortcut of \<open>take_array\<close> for the identity; with no indices into an empty array it reads
  \<open>indices[0]\<close> and panics.
\<close>

definition take_shortcut :: "nat list \<Rightarrow> nat \<Rightarrow> bool option" where
  "take_shortcut indices len =
     (if length indices = len
      then if indices = [] then None else Some (indices ! 0 = 0 \<and> is_consecutive indices)
      else Some False)"

definition take_array :: "'e kernels \<Rightarrow> 'e list \<Rightarrow> nat list \<Rightarrow> 'e list option" where
  "take_array K array indices =
     do { short \<leftarrow> take_shortcut indices (length array);
          if short then Some array else k_take K indices array }"

definition take_list_array :: "('a, 'd, 'v) arrow \<Rightarrow> 'a \<Rightarrow> nat list \<Rightarrow> 'a option" where
  "take_list_array A array indices =
     do { short \<leftarrow> take_shortcut indices (la_len A array);
          if short then Some array else la_take A indices array }"

text \<open>\<open>array.map_or(0, |array| array.len())\<close> over the cells.\<close>

definition cell_lens :: "('a, 'd, 'v) arrow \<Rightarrow> 'a \<Rightarrow> nat list" where
  "cell_lens A a = map (\<lambda>c. case c of None \<Rightarrow> 0 | Some vs \<Rightarrow> length vs) (la_cells A a)"

definition pad_list_array_back :: "('a, 'd, 'v) arrow \<Rightarrow> 'a \<Rightarrow> nat \<Rightarrow> 'a" where
  "pad_list_array_back A list_array target_len =
     (let missing_len = target_len - la_len A list_array in
      if missing_len = 0 then list_array
      else
        let lens = cell_lens A list_array @ replicate missing_len 0;
            values = la_values A list_array;
            nulls = (case la_nulls A list_array of
                Some nulls \<Rightarrow> nulls @ replicate missing_len False
              | None \<Rightarrow> replicate (la_len A list_array) True @ replicate missing_len False)
        in la_new A (la_data_type A list_array) lens values (Some nulls))"

definition pad_list_array_front :: "('a, 'd, 'v) arrow \<Rightarrow> 'a \<Rightarrow> nat \<Rightarrow> 'a" where
  "pad_list_array_front A list_array target_len =
     (let missing_len = target_len - la_len A list_array in
      if missing_len = 0 then list_array
      else
        let lens = replicate missing_len 0 @ cell_lens A list_array;
            values = la_values A list_array;
            nulls = (case la_nulls A list_array of
                Some nulls \<Rightarrow> replicate missing_len False @ nulls
              | None \<Rightarrow> replicate missing_len False @ replicate (la_len A list_array) True)
        in la_new A (la_data_type A list_array) lens values (Some nulls))"

section \<open>Lists under masks\<close>

lemma compress_Nil [simp]: "compress [] xs = []"
  by (simp add: compress_def)

lemma compress_Cons [simp]:
  "compress (k # ks) (x # xs) = (if k then x # compress ks xs else compress ks xs)"
  by (simp add: compress_def)

lemma compress_map: "length keep = length xs \<Longrightarrow> compress keep (map f xs) = map f (compress keep xs)"
  by (induction keep xs rule: list_induct2) auto

lemma length_compress: "length keep = length xs \<Longrightarrow> length (compress keep xs) = length (filter id keep)"
  by (induction keep xs rule: list_induct2) auto

lemma set_compress: "set (compress keep xs) \<subseteq> set xs"
  by (auto simp: compress_def dest: set_zip_rightD)

lemma compress_subseq: "length keep = length xs \<Longrightarrow> subseq (compress keep xs) xs"
  by (induction keep xs rule: list_induct2) auto

lemma sorted_subseq:
  assumes "subseq xs ys" "sorted_wrt P ys"
  shows "sorted_wrt P xs"
  using assms by (induction rule: list_emb.induct) (auto dest: list_emb_set)

lemma compress_filter: "compress (map P xs) xs = filter P xs"
  by (induction xs) auto

lemma compress_zip:
  "length keep = length xs \<Longrightarrow> length xs = length ys \<Longrightarrow>
   compress keep (zip xs ys) = zip (compress keep xs) (compress keep ys)"
  by (induction keep xs ys rule: list_induct3) auto

lemma nth_pieces_append:
  "concat (pieces ns vs) = take (sum_list ns) vs"
  by (induction ns vs rule: pieces.induct) (auto simp: take_add)

lemma length_pieces [simp]: "length (pieces ns vs) = length ns"
  by (induction ns vs rule: pieces.induct) auto

lemma pieces_concat: "pieces (map length xss) (concat xss @ vs) = xss"
  by (induction xss) auto

lemma pieces_replicate_0: "pieces (replicate n 0) vs = replicate n []"
  by (induction n) auto

lemma pieces_append: "pieces (ms @ ns) vs = pieces ms vs @ pieces ns (drop (sum_list ms) vs)"
  by (induction ms arbitrary: vs) (auto simp: add.commute)

section \<open>Observations of list arrays\<close>

lemma length_la_cells [simp]: "length (la_cells A a) = la_len A a"
  by (simp add: la_cells_def)

lemma length_la_validity [simp]: "length (la_validity A a) = la_len A a"
  by (simp add: la_validity_def)

lemma length_cell_lens [simp]: "length (cell_lens A a) = la_len A a"
  by (simp add: cell_lens_def)

lemma la_validity_cells: "la_validity A a = map (\<lambda>c. c \<noteq> None) (la_cells A a)"
  by (simp add: la_validity_def la_cells_def la_cell_def)

lemma nth_la_cells: "i < la_len A a \<Longrightarrow> la_cells A a ! i = la_cell A a i"
  by (simp add: la_cells_def)

context arrow_laws
begin

lemma nulls_validity:
  "la_nulls A a = Some validity \<Longrightarrow> validity = la_validity A a"
  using nulls_len [of a validity]
  by (auto simp: la_validity_def la_is_valid_def intro: nth_equalityI)

lemma no_nulls_validity: "la_nulls A a = None \<Longrightarrow> la_validity A a = replicate (la_len A a) True"
  by (rule nth_equalityI) (auto simp: la_validity_def la_is_valid_def)

lemma len_slice: "i + n \<le> la_len A a \<Longrightarrow> la_len A (la_slice A i n a) = n"
  using arg_cong [OF slice(2), of i n a length] by simp

lemma len_deep_slice: "i + n \<le> la_len A a \<Longrightarrow> la_len A (la_deep_slice A i n a) = n"
  using arg_cong [OF deep_slice(2), of i n a length] by simp

lemma len_filter: "length keep = la_len A a \<Longrightarrow> la_len A (la_filter A keep a) = length (filter id keep)"
  using arg_cong [OF filtering(2), of keep a length] by (simp add: length_compress)

text \<open>
  The constructor, read through cells: the pieces of the child, masked by the validity bitmap.
\<close>

lemma new_cells:
  assumes "sum_list lens \<le> length vs" "length validity = length lens"
  shows "la_cells A (la_new A d lens vs (Some validity)) =
         map (\<lambda>(v, c). if v then Some c else None) (zip validity (pieces lens vs))"
  using assms
  by (intro nth_equalityI)
     (simp_all add: new_len nth_la_cells la_cell_def la_is_valid_def new_nulls new_value parts_fit_def)

lemma new_cells_dense:
  assumes "sum_list lens \<le> length vs"
  shows "la_cells A (la_new A d lens vs None) = map Some (pieces lens vs)"
  using assms
  by (intro nth_equalityI)
     (simp_all add: new_len nth_la_cells la_cell_def la_is_valid_def new_nulls new_value parts_fit_def)

lemma cell_lens_fit: "sum_list (cell_lens A a) \<le> length (la_values A a)"
proof -
  have "sum_list (cell_lens A a) \<le> (\<Sum>i\<leftarrow>[0..<la_len A a]. length (la_value A a i))"
    unfolding cell_lens_def la_cells_def map_map comp_def
    by (rule sum_list_mono) (simp add: la_cell_def)
  also have "\<dots> \<le> length (la_values A a)" by (rule cells_fit)
  finally show ?thesis .
qed

end

text \<open>
  A list array is packed when its child starts with the contents of its cells, one after the
  other: no slots in front of the first cell and nothing behind a null.
\<close>

definition la_packed :: "('a, 'd, 'v) arrow \<Rightarrow> 'a \<Rightarrow> bool" where
  "la_packed A a \<longleftrightarrow> take (sum_list (cell_lens A a)) (la_values A a) =
     concat (map (\<lambda>c. case c of None \<Rightarrow> [] | Some vs \<Rightarrow> vs) (la_cells A a))"

lemma pieces_of_cells:
  "pieces (map (\<lambda>c. case c of None \<Rightarrow> 0 | Some vs \<Rightarrow> length vs) cs)
     (concat (map (\<lambda>c. case c of None \<Rightarrow> [] | Some vs \<Rightarrow> vs) cs) @ zs) =
   map (\<lambda>c. case c of None \<Rightarrow> [] | Some vs \<Rightarrow> vs) cs"
  by (induction cs) (auto split: option.splits)

lemma masked_cells:
  "map (\<lambda>(v, c). if v then Some c else None)
     (zip (map (\<lambda>c. c \<noteq> None) cs) (map (\<lambda>c. case c of None \<Rightarrow> [] | Some vs \<Rightarrow> vs) cs)) = cs"
  by (induction cs) (auto split: option.splits)

context arrow_laws
begin

lemma pad_back_cells_raw:
  assumes "la_len A a < n"
  shows "la_cells A (pad_list_array_back A a n) =
         map (\<lambda>(v, c). if v then Some c else None)
           (zip (la_validity A a) (pieces (cell_lens A a) (la_values A a)))
         @ replicate (n - la_len A a) None"
proof -
  have nulls: "(case la_nulls A a of
        Some nulls \<Rightarrow> nulls @ replicate (n - la_len A a) False
      | None \<Rightarrow> replicate (la_len A a) True @ replicate (n - la_len A a) False) =
      la_validity A a @ replicate (n - la_len A a) False"
    using nulls_validity no_nulls_validity by (auto split: option.splits)
  have "la_cells A (pad_list_array_back A a n) =
        la_cells A (la_new A (la_data_type A a) (cell_lens A a @ replicate (n - la_len A a) 0)
          (la_values A a) (Some (la_validity A a @ replicate (n - la_len A a) False)))"
    using assms unfolding pad_list_array_back_def Let_def nulls by simp
  also have "\<dots> = map (\<lambda>(v, c). if v then Some c else None)
      (zip (la_validity A a @ replicate (n - la_len A a) False)
        (pieces (cell_lens A a @ replicate (n - la_len A a) 0) (la_values A a)))"
    by (rule new_cells) (use cell_lens_fit [of a] in \<open>simp_all add: sum_list_replicate\<close>)
  finally show ?thesis
    by (simp add: pieces_append pieces_replicate_0 zip_append zip_replicate map_replicate)
qed

lemma pad_front_cells_raw:
  assumes "la_len A a < n"
  shows "la_cells A (pad_list_array_front A a n) =
         replicate (n - la_len A a) None @
         map (\<lambda>(v, c). if v then Some c else None)
           (zip (la_validity A a) (pieces (cell_lens A a) (la_values A a)))"
proof -
  have nulls: "(case la_nulls A a of
        Some nulls \<Rightarrow> replicate (n - la_len A a) False @ nulls
      | None \<Rightarrow> replicate (n - la_len A a) False @ replicate (la_len A a) True) =
      replicate (n - la_len A a) False @ la_validity A a"
    using nulls_validity no_nulls_validity by (auto split: option.splits)
  have "la_cells A (pad_list_array_front A a n) =
        la_cells A (la_new A (la_data_type A a) (replicate (n - la_len A a) 0 @ cell_lens A a)
          (la_values A a) (Some (replicate (n - la_len A a) False @ la_validity A a)))"
    using assms unfolding pad_list_array_front_def Let_def nulls by simp
  also have "\<dots> = map (\<lambda>(v, c). if v then Some c else None)
      (zip (replicate (n - la_len A a) False @ la_validity A a)
        (pieces (replicate (n - la_len A a) 0 @ cell_lens A a) (la_values A a)))"
    by (rule new_cells) (use cell_lens_fit [of a] in \<open>simp_all add: sum_list_replicate\<close>)
  finally show ?thesis
    by (simp add: pieces_append pieces_replicate_0 zip_append zip_replicate map_replicate
        sum_list_replicate)
qed

lemma packed_pieces:
  assumes "la_packed A a"
  shows "map (\<lambda>(v, c). if v then Some c else None)
           (zip (la_validity A a) (pieces (cell_lens A a) (la_values A a))) = la_cells A a"
proof -
  let ?cat = "concat (map (\<lambda>c. case c of None \<Rightarrow> [] | Some vs \<Rightarrow> vs) (la_cells A a))"
  have "la_values A a = ?cat @ drop (sum_list (cell_lens A a)) (la_values A a)"
    using assms unfolding la_packed_def by (metis append_take_drop_id)
  then have "pieces (cell_lens A a) (la_values A a) =
             map (\<lambda>c. case c of None \<Rightarrow> [] | Some vs \<Rightarrow> vs) (la_cells A a)"
    by (metis cell_lens_def pieces_of_cells)
  then show ?thesis
    by (simp only: la_validity_cells masked_cells)
qed

lemma pad_back_cells:
  assumes "la_packed A a"
  shows "la_cells A (pad_list_array_back A a n) = la_cells A a @ replicate (n - la_len A a) None"
proof (cases "la_len A a < n")
  case True
  then show ?thesis using assms by (simp add: pad_back_cells_raw packed_pieces)
qed (simp add: pad_list_array_back_def)

lemma pad_front_cells:
  assumes "la_packed A a"
  shows "la_cells A (pad_list_array_front A a n) = replicate (n - la_len A a) None @ la_cells A a"
proof (cases "la_len A a < n")
  case True
  then show ?thesis using assms by (simp add: pad_front_cells_raw packed_pieces)
qed (simp add: pad_list_array_front_def)

lemma pad_type:
  "la_data_type A (pad_list_array_back A a n) = la_data_type A a"
  "la_data_type A (pad_list_array_front A a n) = la_data_type A a"
  by (simp_all add: pad_list_array_back_def pad_list_array_front_def Let_def new_type)

end

section \<open>Arrays laid out in memory\<close>

text \<open>
  An implementation of the interface: a list array is a stretch of its child, cut into slots,
  with an optional bitmap. Slicing moves slots to the parts of the child around the stretch.
\<close>

datatype 'v mem_array = MemArray
  (mem_front: "'v list") (mem_slots: "('v list \<times> bool) list") (mem_back: "'v list") (mem_bitmap: bool)

definition mem_kernels :: "'e kernels" where
  "mem_kernels = \<lparr>k_slice = \<lambda>i n xs. take n (drop i xs), k_deep_slice = \<lambda>i n xs. take n (drop i xs),
     k_filter = compress,
     k_take = \<lambda>idx xs. if \<forall>i \<in> set idx. i < length xs then Some (map ((!) xs) idx) else None,
     k_concat = \<lambda>xss. if xss = [] then None else Some (concat xss)\<rparr>"

definition mem_bits :: "'v mem_array \<Rightarrow> ('v list \<times> bool) list" where
  "mem_bits a = (if mem_bitmap a then mem_slots a else map (\<lambda>(vs, _). (vs, True)) (mem_slots a))"

definition mem_arrow :: "('v mem_array, unit, 'v) arrow" where
  "mem_arrow = \<lparr>la_data_type = \<lambda>_. (), la_len = \<lambda>a. length (mem_slots a),
     la_nulls = \<lambda>a. if mem_bitmap a then Some (map snd (mem_slots a)) else None,
     la_value = \<lambda>a i. fst (mem_slots a ! i),
     la_values = \<lambda>a. mem_front a @ concat (map fst (mem_slots a)) @ mem_back a,
     la_new = \<lambda>_ lens vs nulls. MemArray []
        (zip (pieces lens vs) (case nulls of None \<Rightarrow> replicate (length lens) True | Some bs \<Rightarrow> bs))
        (drop (sum_list lens) vs) (nulls \<noteq> None),
     la_new_null = \<lambda>_ n. MemArray [] (replicate n ([], False)) [] True,
     la_without_nulls = \<lambda>a. MemArray (mem_front a) (mem_slots a) (mem_back a) False,
     la_slice = \<lambda>i n a. MemArray (mem_front a @ concat (map fst (take i (mem_slots a))))
        (take n (drop i (mem_slots a)))
        (concat (map fst (drop n (drop i (mem_slots a)))) @ mem_back a) (mem_bitmap a),
     la_deep_slice = \<lambda>i n a. MemArray [] (take n (drop i (mem_slots a))) [] (mem_bitmap a),
     la_filter = \<lambda>keep a. MemArray [] (compress keep (mem_slots a)) [] (mem_bitmap a),
     la_take = \<lambda>idx a. if \<forall>i \<in> set idx. i < length (mem_slots a)
        then Some (MemArray [] (map ((!) (mem_slots a)) idx) [] (mem_bitmap a)) else None,
     la_concat = \<lambda>a b. Some (MemArray [] (mem_bits a @ mem_bits b) [] True),
     k_ids = mem_kernels, k_times = mem_kernels, k_child = mem_kernels\<rparr>"

definition mem_cell :: "bool \<Rightarrow> 'v list \<times> bool \<Rightarrow> 'v list option" where
  "mem_cell bitmap s = (if bitmap \<longrightarrow> snd s then Some (fst s) else None)"

lemma mem_cells: "la_cells mem_arrow a = map (mem_cell (mem_bitmap a)) (mem_slots a)"
  by (rule nth_equalityI)
     (auto simp: la_cells_def la_cell_def la_is_valid_def mem_arrow_def mem_cell_def)

lemma mem_kernels_simps [simp]:
  "k_slice mem_kernels i n xs = take n (drop i xs)"
  "k_deep_slice mem_kernels i n xs = take n (drop i xs)"
  "k_filter mem_kernels keep xs = compress keep xs"
  "k_concat mem_kernels xss = (if xss = [] then None else Some (concat xss))"
  "k_take mem_kernels idx xs = (if \<forall>i \<in> set idx. i < length xs then Some (map ((!) xs) idx) else None)"
  by (simp_all add: mem_kernels_def)

interpretation mem_kernels: kernel_laws mem_kernels
  by unfold_locales simp_all

lemma mem_pieces:
  "sum_list lens \<le> length vs \<Longrightarrow> concat (pieces lens vs) @ drop (sum_list lens) vs = vs"
  by (simp add: nth_pieces_append)

lemma mem_concat_cells:
  "map (mem_cell True) (mem_bits a) = map (mem_cell (mem_bitmap a)) (mem_slots a)"
  by (cases "mem_bitmap a") (auto simp: mem_bits_def mem_cell_def)

lemma mem_sum: "(\<Sum>i\<leftarrow>[0..<length xs]. length (fst (xs ! i))) = length (concat (map fst xs))"
proof -
  have "map (\<lambda>i. length (fst (xs ! i))) [0..<length xs] = map (length \<circ> fst) xs"
    by (intro nth_equalityI) auto
  then show ?thesis by (simp add: length_concat)
qed

lemma mem_slice_values:
  "concat (map fst (take i xs)) @ concat (map fst (take n (drop i xs))) @ concat (map fst (drop (n + i) xs)) =
   concat (map fst xs)"
  by (metis append_take_drop_id concat_append drop_drop map_append)

lemma mem_arrow_sel [simp]:
  "la_data_type mem_arrow a = ()"
  "la_len mem_arrow a = length (mem_slots a)"
  "la_values mem_arrow a = mem_front a @ concat (map fst (mem_slots a)) @ mem_back a"
  "la_value mem_arrow a i = fst (mem_slots a ! i)"
  "k_ids mem_arrow = mem_kernels" "k_times mem_arrow = mem_kernels" "k_child mem_arrow = mem_kernels"
  by (simp_all add: mem_arrow_def)

interpretation mem: arrow_laws mem_arrow
  using mem_kernels.kernel_laws_axioms
  apply unfold_locales
                      apply (simp_all add: mem_cells mem_concat_cells mem_sum)
              apply (simp_all add: mem_arrow_def mem_concat_cells mem_slice_values take_map drop_map
      compress_map mem_cell_def mem_cells parts_fit_def split: option.splits if_splits)
  by auto

end
