(* ===== verification/Time_Column.thy ===== *)
theory Time_Column
  imports Arrow_Array
begin

text \<open>
  \<open>TimeColumn\<close> (\<open>src/crates/store/dl_chunk/src/chunk.rs\<close>, \<open>slice.rs\<close>, \<open>shuffle.rs\<close>, \<open>merge.rs\<close>): the times
  of the rows of a chunk on one timeline, with a cached sortedness and a cached time range.
  The theory models its constructors and operations, states the invariant that its
  sanity check tests in debug builds, shows which operations keep it, and that the searches
  for the next and the previous time are exact. The constructors from floating point seconds
  and the readers of Arrow arrays are left out.
\<close>

section \<open>Slices\<close>

text \<open>\<open>windows(2).all(|w| w[0] <= w[1])\<close>\<close>

fun windows_sorted :: "'e :: linorder list \<Rightarrow> bool" where
  "windows_sorted (x # y # xs) \<longleftrightarrow> x \<le> y \<and> windows_sorted (y # xs)"
| "windows_sorted _ \<longleftrightarrow> True"

text \<open>
  \<open>partition_point\<close>: the index of the first element that fails the predicate, on slices that are
  partitioned by it; on others the result is unspecified.
\<close>

definition partition_point :: "('e \<Rightarrow> bool) \<Rightarrow> 'e list \<Rightarrow> nat" where
  "partition_point P xs = length (takeWhile P xs)"

fun iter_min :: "'e :: linorder list \<Rightarrow> 'e option" where
  "iter_min [] = None"
| "iter_min (x # xs) = Some (fold min xs x)"

fun iter_max :: "'e :: linorder list \<Rightarrow> 'e option" where
  "iter_max [] = None"
| "iter_max (x # xs) = Some (fold max xs x)"

definition first :: "'e list \<Rightarrow> 'e option" where
  "first xs = (if xs = [] then None else Some (hd xs))"

definition last_opt :: "'e list \<Rightarrow> 'e option" where
  "last_opt xs = (if xs = [] then None else Some (last xs))"

section \<open>Columns\<close>

record TimeColumn =
  tc_timeline :: Timeline
  tc_times :: "i64 list"
  tc_is_sorted :: bool
  tc_time_range :: AbsoluteTimeRange

definition map_or :: "'b \<Rightarrow> ('e \<Rightarrow> 'b) \<Rightarrow> 'e option \<Rightarrow> 'b" where
  "map_or d f x = (case x of None \<Rightarrow> d | Some a \<Rightarrow> f a)"

definition tc_new :: "bool option \<Rightarrow> Timeline \<Rightarrow> i64 list \<Rightarrow> TimeColumn" where
  "tc_new is_sorted timeline ts =
     (let is_sorted = (case is_sorted of Some b \<Rightarrow> b | None \<Rightarrow> windows_sorted ts);
          time_range =
            (if is_sorted
             then range_new (Ok (map_or time_MIN new_temporal (first ts)))
                            (Ok (map_or time_MAX new_temporal (last_opt ts)))
             else range_new (Ok (map_or time_MIN new_temporal (iter_min ts)))
                            (Ok (map_or time_MAX new_temporal (iter_max ts))))
      in \<lparr>tc_timeline = timeline, tc_times = ts, tc_is_sorted = is_sorted, tc_time_range = time_range\<rparr>)"

definition new_sequence :: "string \<Rightarrow> i64 list \<Rightarrow> TimeColumn" where
  "new_sequence name ts =
     tc_new None \<lparr>timeline_name = name, timeline_typ = Sequence\<rparr>
       (map (\<lambda>t. as_i64 (case time_try_from t of Inr u \<Rightarrow> u | Inl _ \<Rightarrow> time_MIN)) ts)"

definition clamp_nanos :: "i64 \<Rightarrow> i64" where
  "clamp_nanos nanos = nm_get (case nm_new nanos of Some n \<Rightarrow> n | None \<Rightarrow> nm_MIN)"

definition new_duration_nanos :: "string \<Rightarrow> i64 list \<Rightarrow> TimeColumn" where
  "new_duration_nanos name nanos =
     tc_new None \<lparr>timeline_name = name, timeline_typ = DurationNs\<rparr> (map clamp_nanos nanos)"

definition new_timestamp_nanos_since_epoch :: "string \<Rightarrow> i64 list \<Rightarrow> TimeColumn" where
  "new_timestamp_nanos_since_epoch name nanos =
     tc_new None \<lparr>timeline_name = name, timeline_typ = TimestampNs\<rparr> (map clamp_nanos nanos)"

definition tc_num_rows :: "TimeColumn \<Rightarrow> nat" where
  "tc_num_rows tc = length (tc_times tc)"

definition times_nonmin :: "TimeColumn \<Rightarrow> NonMinI64 list" where
  "times_nonmin tc = map saturating_from_i64 (tc_times tc)"

definition column_times :: "TimeColumn \<Rightarrow> TimeInt list" where
  "column_times tc = map new_temporal (tc_times tc)"

definition find_next_time :: "TimeColumn \<Rightarrow> TimeInt \<Rightarrow> TimeInt option" where
  "find_next_time tc after =
     (if tc_is_sorted tc
      then let idx = partition_point (\<lambda>t. t \<le> as_i64 after) (tc_times tc)
           in if idx < length (tc_times tc) then Some (new_temporal (tc_times tc ! idx)) else None
      else map_option new_temporal (iter_min (filter (\<lambda>t. as_i64 after < t) (tc_times tc))))"

definition find_prev_time :: "TimeColumn \<Rightarrow> TimeInt \<Rightarrow> TimeInt option" where
  "find_prev_time tc before =
     (if tc_is_sorted tc
      then let idx = partition_point (\<lambda>t. t < as_i64 before) (tc_times tc)
           in if 0 < idx then Some (new_temporal (tc_times tc ! (idx - 1))) else None
      else map_option new_temporal (iter_max (filter (\<lambda>t. t < as_i64 before) (tc_times tc))))"

definition offset_by_nanos :: "TimeColumn \<Rightarrow> i64 \<Rightarrow> TimeColumn" where
  "offset_by_nanos tc offset_ns =
     tc_new (Some (tc_is_sorted tc)) (tc_timeline tc)
       (map (\<lambda>t. nm_get (saturating_from_i64 (saturating_add t offset_ns))) (tc_times tc))"

definition tc_is_sorted_uncached :: "TimeColumn \<Rightarrow> bool" where
  "tc_is_sorted_uncached tc = windows_sorted (tc_times tc)"

section \<open>Slicing, filtering and concatenation\<close>

definition tc_emptied :: "TimeColumn \<Rightarrow> TimeColumn" where
  "tc_emptied tc = tc_new (Some True) (tc_timeline tc) []"

text \<open>\<open>is_sorted.then_some(is_sorted)\<close>: known to be sorted, or to be computed.\<close>

definition if_known :: "bool \<Rightarrow> bool option" where
  "if_known is_sorted = (if is_sorted then Some True else None)"

definition tc_row_sliced :: "('a, 'd, 'v) arrow \<Rightarrow> TimeColumn \<Rightarrow> nat \<Rightarrow> nat \<Rightarrow> TimeColumn" where
  "tc_row_sliced A tc index len =
     (if tc_num_rows tc \<le> index then tc_emptied tc
      else
        let end_offset = min (index + len) (tc_num_rows tc);
            len = end_offset - index
        in if len = 0 then tc_emptied tc
           else tc_new (if_known (tc_is_sorted tc \<or> len < 2)) (tc_timeline tc)
                  (k_slice (k_times A) index len (tc_times tc)))"

definition tc_filtered :: "('a, 'd, 'v) arrow \<Rightarrow> TimeColumn \<Rightarrow> bool list \<Rightarrow> TimeColumn option" where
  "tc_filtered A tc keep =
     (let is_sorted = (tc_is_sorted tc \<or> length (filter id keep) < 2)
      in map_option (tc_new (if_known is_sorted) (tc_timeline tc))
           (filter_array (k_times A) (tc_times tc) keep))"

definition tc_taken :: "('a, 'd, 'v) arrow \<Rightarrow> TimeColumn \<Rightarrow> nat list \<Rightarrow> TimeColumn option" where
  "tc_taken A tc indices =
     map_option (tc_new (Some (tc_is_sorted tc)) (tc_timeline tc))
       (take_array (k_times A) (tc_times tc) indices)"

definition tc_concatenated :: "TimeColumn \<Rightarrow> TimeColumn \<Rightarrow> TimeColumn option" where
  "tc_concatenated l r =
     (if tc_timeline l \<noteq> tc_timeline r then None
      else Some \<lparr>tc_timeline = tc_timeline l, tc_times = tc_times l @ tc_times r,
                 tc_is_sorted = (tc_is_sorted l \<and> tc_is_sorted r \<and>
                   range_max (tc_time_range l) \<le> range_min (tc_time_range r)),
                 tc_time_range = range_union (tc_time_range l) (tc_time_range r)\<rparr>)"

section \<open>Sanity check\<close>

text \<open>The errors of chunk operations; the constructors of \<open>malformed\<close> stand for the reason strings.\<close>

datatype malformed =
    WrongHeapSize | RowIdsSortedness | TimelineLength string | TimesSortedness
  | RangeNotTight | TimeOutsideRange i64 | StaticTimeValue
  | KeyMismatch string | ComponentLength string | EmptyColumn string
  | DifferentEntityPaths | DifferentTimelines | DifferentDatatypes | Incompatible
  | MissingTimeline string | TimelineDiffers string

datatype ChunkError = Malformed malformed | ArrowError | Panicked

fun check_times :: "AbsoluteTimeRange \<Rightarrow> i64 list \<Rightarrow> (ChunkError, unit) result" where
  "check_times r [] = Ok ()"
| "check_times r (t # ts) =
     (if t < as_i64 (range_min r) \<or> as_i64 (range_max r) < t then Err (Malformed (TimeOutsideRange t))
      else if t = as_i64 STATIC then Err (Malformed StaticTimeValue)
      else check_times r ts)"

definition tc_sanity_check :: "bool \<Rightarrow> TimeColumn \<Rightarrow> (ChunkError, unit) result" where
  "tc_sanity_check debug tc =
     (if \<not> debug then Ok ()
      else if tc_is_sorted tc \<noteq> windows_sorted (tc_times tc) then Err (Malformed TimesSortedness)
      else
        let is_tight_lower_bound = list_ex (\<lambda>t. t = as_i64 (range_min (tc_time_range tc))) (tc_times tc);
            is_tight_upper_bound = list_ex (\<lambda>t. t = as_i64 (range_max (tc_time_range tc))) (tc_times tc)
        in if tc_times tc \<noteq> [] \<and> \<not> (is_tight_lower_bound \<and> is_tight_upper_bound)
           then Err (Malformed RangeNotTight)
           else check_times (tc_time_range tc) (tc_times tc))"

section \<open>The invariant\<close>

definition tc_ok :: "TimeColumn \<Rightarrow> bool" where
  "tc_ok tc \<longleftrightarrow> i64_MIN \<notin> set (tc_times tc) \<and> (tc_is_sorted tc \<longleftrightarrow> sorted (tc_times tc)) \<and>
     range_ok (tc_time_range tc) \<and>
     (tc_times tc \<noteq> [] \<longrightarrow>
        as_i64 (range_min (tc_time_range tc)) = Min (set (tc_times tc)) \<and>
        as_i64 (range_max (tc_time_range tc)) = Max (set (tc_times tc)))"

lemma windows_sorted_iff: "windows_sorted xs \<longleftrightarrow> sorted xs"
  by (induction xs rule: windows_sorted.induct) (auto intro: order_trans)

lemma iter_min_eq: "iter_min xs = (if xs = [] then None else Some (Min (set xs)))"
  by (cases xs) (simp_all flip: Min.set_eq_fold)

lemma iter_max_eq: "iter_max xs = (if xs = [] then None else Some (Max (set xs)))"
  by (cases xs) (simp_all flip: Max.set_eq_fold)

lemma Min_sorted: "sorted xs \<Longrightarrow> xs \<noteq> [] \<Longrightarrow> Min (set xs) = hd xs"
  by (cases xs) (auto intro: Min_eqI)

lemma Max_sorted: "sorted xs \<Longrightarrow> xs \<noteq> [] \<Longrightarrow> Max (set xs) = last xs"
  by (rule Max_eqI)
     (simp_all, auto simp: sorted_iff_nth_mono in_set_conv_nth last_conv_nth)

lemma as_i64_new_temporal: "t \<noteq> i64_MIN \<Longrightarrow> as_i64 (new_temporal t) = t"
  by (simp add: new_temporal_alt saturating_from_i64_def nm_new_alt)

lemma range_new_new [simp]:
  "range_new (Inr (new_temporal a)) (Inr (new_temporal b)) =
     \<lparr>range_min = new_temporal a, range_max = new_temporal b\<rparr>"
  by (simp add: range_new_def)

lemma check_times_Ok:
  "check_times r ts = Inr () \<longleftrightarrow>
     (\<forall>t \<in> set ts. as_i64 (range_min r) \<le> t \<and> t \<le> as_i64 (range_max r) \<and> t \<noteq> i64_MIN)"
  by (induction ts) (auto simp: STATIC_def not_less)

text \<open>A sanity check in a debug build accepts exactly the columns that satisfy the invariant.\<close>

lemma tc_sanity_check_iff:
  assumes "range_ok (tc_time_range tc)"
  shows "tc_sanity_check True tc = Ok () \<longleftrightarrow> tc_ok tc"
proof (cases "tc_times tc = []")
  case True
  then show ?thesis using assms by (simp add: tc_sanity_check_def tc_ok_def)
next
  case False
  let ?lo = "as_i64 (range_min (tc_time_range tc))" and ?hi = "as_i64 (range_max (tc_time_range tc))"
  have lo: "Min (set (tc_times tc)) = ?lo \<longleftrightarrow> ?lo \<in> set (tc_times tc) \<and> (\<forall>t \<in> set (tc_times tc). ?lo \<le> t)"
    using False by (intro Min_eq_iff) auto
  have hi: "Max (set (tc_times tc)) = ?hi \<longleftrightarrow> ?hi \<in> set (tc_times tc) \<and> (\<forall>t \<in> set (tc_times tc). t \<le> ?hi)"
    using False by (intro Max_eq_iff) auto
  show ?thesis
    using False assms
    unfolding tc_ok_def eq_commute [of ?lo] eq_commute [of ?hi] lo hi
    by (auto simp: tc_sanity_check_def windows_sorted_iff check_times_Ok list_ex_iff)
qed

lemma range_new_ok [simp]: "time_ok a \<Longrightarrow> time_ok b \<Longrightarrow> range_ok (range_new (Inr a) (Inr b))"
  by (auto simp: range_ok_def range_new_def intro!: saturated_temporal_ok)

lemma tc_new_sel [simp]:
  "tc_timeline (tc_new b tml ts) = tml" "tc_times (tc_new b tml ts) = ts"
  "tc_is_sorted (tc_new b tml ts) = (case b of Some c \<Rightarrow> c | None \<Rightarrow> sorted ts)"
  by (simp_all add: tc_new_def Let_def windows_sorted_iff split: option.split)

text \<open>A column is sound when its sortedness is computed, or given and right.\<close>

lemma tc_new_ok:
  assumes "i64_MIN \<notin> set ts" "b = None \<or> b = Some (sorted ts)"
  shows "tc_ok (tc_new b tml ts)"
proof -
  have sorted: "tc_is_sorted (tc_new b tml ts) \<longleftrightarrow> sorted ts"
    using assms(2) by auto
  have ok: "time_ok (map_or time_MIN new_temporal x)" "time_ok (map_or time_MAX new_temporal x)" for x
    by (simp_all add: map_or_def split: option.split)
  have rng: "tc_time_range (tc_new b tml ts) =
      (if sorted ts
       then range_new (Ok (map_or time_MIN new_temporal (first ts)))
                      (Ok (map_or time_MAX new_temporal (last_opt ts)))
       else range_new (Ok (map_or time_MIN new_temporal (iter_min ts)))
                      (Ok (map_or time_MAX new_temporal (iter_max ts))))"
    using sorted by (simp add: tc_new_def Let_def windows_sorted_iff)
  have "as_i64 (range_min (tc_time_range (tc_new b tml ts))) = Min (set ts) \<and>
        as_i64 (range_max (tc_time_range (tc_new b tml ts))) = Max (set ts)" if ne: "ts \<noteq> []"
  proof -
    have "Min (set ts) \<in> set ts" "Max (set ts) \<in> set ts" using ne by auto
    then have "as_i64 (new_temporal (Min (set ts))) = Min (set ts)"
      "as_i64 (new_temporal (Max (set ts))) = Max (set ts)"
      using assms(1) by (auto intro!: as_i64_new_temporal)
    then show ?thesis
      using ne Min_sorted [of ts] Max_sorted [of ts]
      by (cases "sorted ts") (simp_all add: rng map_or_def first_def last_opt_def iter_min_eq iter_max_eq)
  qed
  moreover have "range_ok (tc_time_range (tc_new b tml ts))"
    unfolding rng by (simp add: ok)
  ultimately show ?thesis
    using assms(1) sorted by (simp add: tc_ok_def)
qed

lemma tc_emptied_ok [simp]: "tc_ok (tc_emptied tc)" "tc_times (tc_emptied tc) = []"
  by (simp_all add: tc_emptied_def tc_new_ok)

lemma sorted_short: "length xs < 2 \<Longrightarrow> sorted xs"
  by (cases xs; cases "tl xs") auto

lemma clamp_nanos_alt: "clamp_nanos n = as_i64 (new_temporal n)"
  by (simp add: clamp_nanos_def new_temporal_alt saturating_from_i64_def)

lemma not_MIN_new_temporal [simp]:
  "as_i64 (new_temporal t) \<noteq> i64_MIN" "i64_MIN \<noteq> as_i64 (new_temporal t)"
  using tval_static_iff [of "new_temporal t"] by auto

lemma constructors_ok:
  "tc_ok (new_sequence name ts)" "tc_ok (new_duration_nanos name ts)"
  "tc_ok (new_timestamp_nanos_since_epoch name ts)"
proof -
  have "as_i64 (case time_try_from t of Inr u \<Rightarrow> u | Inl _ \<Rightarrow> time_MIN) = as_i64 (new_temporal t)" for t
    by (simp add: time_try_from_def new_temporal_def split: option.split)
  then show "tc_ok (new_sequence name ts)"
    unfolding new_sequence_def by (intro tc_new_ok) auto
qed (auto simp: new_duration_nanos_def new_timestamp_nanos_since_epoch_def clamp_nanos_alt
     intro!: tc_new_ok)

context arrow_laws
begin

lemma tc_row_sliced:
  assumes "tc_ok tc"
  shows "tc_times (tc_row_sliced A tc i n) = take n (drop i (tc_times tc))"
    and "tc_ok (tc_row_sliced A tc i n)"
    and "tc_timeline (tc_row_sliced A tc i n) = tc_timeline tc"
proof -
  let ?m = "min (i + n) (tc_num_rows tc) - i"
  have slice: "k_slice (k_times A) i ?m (tc_times tc) = take n (drop i (tc_times tc))"
    if "i < tc_num_rows tc"
  proof -
    have "k_slice (k_times A) i ?m (tc_times tc) = take ?m (drop i (tc_times tc))"
      using that by (intro kernel_laws.k_slice [OF times_laws]) (simp add: tc_num_rows_def)
    also have "\<dots> = take n (drop i (tc_times tc))"
      using that by (simp add: tc_num_rows_def min_def)
    finally show ?thesis .
  qed
  show ts: "tc_times (tc_row_sliced A tc i n) = take n (drop i (tc_times tc))"
    using slice by (auto simp: tc_row_sliced_def Let_def tc_num_rows_def)
  show "tc_timeline (tc_row_sliced A tc i n) = tc_timeline tc"
    by (simp add: tc_row_sliced_def Let_def tc_emptied_def)
  have len: "length (take n (drop i (tc_times tc))) = ?m" if "i < tc_num_rows tc"
    using that by (auto simp: tc_num_rows_def)
  have "tc_is_sorted tc \<or> ?m < 2 \<Longrightarrow> sorted (take n (drop i (tc_times tc)))"
    if "i < tc_num_rows tc"
    using assms sorted_short [of "take n (drop i (tc_times tc))"] len [OF that]
    unfolding tc_ok_def by (metis sorted_wrt_drop sorted_wrt_take)
  moreover have "i64_MIN \<notin> set (take n (drop i (tc_times tc)))"
    using assms by (auto simp: tc_ok_def dest!: in_set_takeD in_set_dropD)
  ultimately show "tc_ok (tc_row_sliced A tc i n)"
    using slice by (auto simp: tc_row_sliced_def Let_def if_known_def intro!: tc_new_ok)
qed

lemma tc_filtered:
  assumes "tc_ok tc" "length keep = length (tc_times tc)"
  shows "\<exists>tc'. tc_filtered A tc keep = Some tc' \<and> tc_times tc' = compress keep (tc_times tc) \<and>
           tc_ok tc' \<and> tc_timeline tc' = tc_timeline tc"
proof -
  let ?ts = "compress keep (tc_times tc)"
  have k: "k_filter (k_times A) keep (tc_times tc) = ?ts"
    using assms(2) by (intro kernel_laws.k_filter [OF times_laws])
  have "sorted ?ts" if "tc_is_sorted tc \<or> length (filter id keep) < 2"
    using that
  proof
    assume "tc_is_sorted tc"
    then show ?thesis
      using assms sorted_subseq [OF compress_subseq] by (auto simp: tc_ok_def)
  qed (use assms(2) in \<open>simp add: sorted_short length_compress\<close>)
  moreover have "i64_MIN \<notin> set ?ts"
    using assms(1) set_compress [of keep "tc_times tc"] by (auto simp: tc_ok_def)
  ultimately have "tc_ok (tc_new (if_known (tc_is_sorted tc \<or> length (filter id keep) < 2))
      (tc_timeline tc) ?ts)"
    by (intro tc_new_ok) (auto simp: if_known_def)
  then show ?thesis
    using assms(2) by (simp add: tc_filtered_def filter_array_def k Let_def)
qed

end

lemma tc_concatenated:
  assumes "tc_ok l" "tc_ok r" "tc_timeline l = tc_timeline r"
    and ne: "tc_times l \<noteq> []" "tc_times r \<noteq> []"
  shows "\<exists>tc. tc_concatenated l r = Some tc \<and> tc_ok tc \<and> tc_times tc = tc_times l @ tc_times r \<and>
           tc_timeline tc = tc_timeline l"
proof -
  let ?ll = "range_min (tc_time_range l)" and ?lh = "range_max (tc_time_range l)"
  let ?rl = "range_min (tc_time_range r)" and ?rh = "range_max (tc_time_range r)"
  have ok: "time_ok ?ll" "time_ok ?lh" "time_ok ?rl" "time_ok ?rh"
    using assms(1,2) by (simp_all add: tc_ok_def range_ok_def)
  have bounds: "as_i64 ?ll = Min (set (tc_times l))" "as_i64 ?lh = Max (set (tc_times l))"
    "as_i64 ?rl = Min (set (tc_times r))" "as_i64 ?rh = Max (set (tc_times r))"
    using assms by (simp_all add: tc_ok_def)
  have le: "a \<le> b \<longleftrightarrow> as_i64 a \<le> as_i64 b" if "time_ok a" "time_ok b" for a b
    using that by (simp add: time_le_iff less_eq_i64_def)
  have "sorted (tc_times l @ tc_times r) \<longleftrightarrow> sorted (tc_times l) \<and> sorted (tc_times r) \<and> ?lh \<le> ?rl"
    using ne by (auto simp: sorted_append le ok bounds)
  moreover have "as_i64 (min ?ll ?rl) = Min (set (tc_times l @ tc_times r))"
    "as_i64 (max ?lh ?rh) = Max (set (tc_times l @ tc_times r))"
    using ne by (simp_all add: min_def max_def le ok bounds Min_Un Max_Un)
  moreover have "range_ok (range_union (tc_time_range l) (tc_time_range r))"
    using assms(1,2) by (auto simp: range_union_def tc_ok_def range_ok_def min_def max_def)
  ultimately show ?thesis
    using assms by (auto simp: tc_concatenated_def tc_ok_def range_union_def)
qed

section \<open>Searching\<close>

lemma partition_point_filter:
  fixes xs :: "'e :: linorder list"
  assumes "sorted xs" "\<And>x y. x \<le> y \<Longrightarrow> P y \<Longrightarrow> P x"
  shows "take (partition_point P xs) xs = filter P xs"
    and "drop (partition_point P xs) xs = filter (\<lambda>x. \<not> P x) xs"
  using assms(1)
proof (induction xs)
  case (Cons x xs)
  {
    case 1 then show ?case
      using Cons assms(2) [of x] by (auto simp: partition_point_def intro!: filter_False [symmetric])
  next
    case 2 then show ?case
      using Cons assms(2) [of x] by (auto simp: partition_point_def intro!: filter_True [symmetric])
  }
qed (simp_all add: partition_point_def)

lemma partition_point_filter_key:
  fixes k :: "'x \<Rightarrow> 'e :: linorder"
  assumes "sorted (map k xs)" "\<And>x y. x \<le> y \<Longrightarrow> P y \<Longrightarrow> P x"
  shows "take (partition_point P (map k xs)) xs = filter (\<lambda>x. P (k x)) xs"
    and "drop (partition_point P (map k xs)) xs = filter (\<lambda>x. \<not> P (k x)) xs"
  using assms(1)
proof (induction xs)
  case (Cons x xs)
  {
    case 1 then show ?case
      using Cons assms(2) [of "k x"] by (auto simp: partition_point_def intro!: filter_False [symmetric])
  next
    case 2 then show ?case
      using Cons assms(2) [of "k x"] by (auto simp: partition_point_def intro!: filter_True [symmetric])
  }
qed (simp_all add: partition_point_def)

lemma partition_point_count:
  fixes k :: "'x \<Rightarrow> 'e :: linorder"
  assumes "sorted (map k xs)" "\<And>x y. x \<le> y \<Longrightarrow> P y \<Longrightarrow> P x"
  shows "partition_point P (map k xs) = length (filter (\<lambda>x. P (k x)) xs)"
proof -
  have le: "partition_point P (map k xs) \<le> length xs"
    using length_takeWhile_le [of P "map k xs"] by (simp add: partition_point_def)
  have "length (filter (\<lambda>x. P (k x)) xs) = length (take (partition_point P (map k xs)) xs)"
    by (rule arg_cong [where f = length], rule partition_point_filter_key(1) [symmetric]) (fact assms)+
  then show ?thesis using le by simp
qed

text \<open>The rows between two partition points are the rows in the range.\<close>

lemma partition_points_range:
  fixes k :: "'x \<Rightarrow> 'e :: linorder"
  assumes "sorted (map k xs)"
  shows "take (partition_point (\<lambda>t. t \<le> b) (map k xs) - partition_point (\<lambda>t. t < a) (map k xs))
           (drop (partition_point (\<lambda>t. t < a) (map k xs)) xs) = filter (\<lambda>x. a \<le> k x \<and> k x \<le> b) xs"
proof -
  let ?s = "partition_point (\<lambda>t. t < a) (map k xs)" and ?e = "partition_point (\<lambda>t. t \<le> b) (map k xs)"
  have drop: "drop ?s xs = filter (\<lambda>x. a \<le> k x) xs"
    using partition_point_filter_key(2) [OF assms, of "\<lambda>t. t < a"] by (auto simp: not_less)
  have take: "take ?e xs = filter (\<lambda>x. k x \<le> b) xs"
    by (rule partition_point_filter_key(1) [OF assms]) auto
  have "take (?e - ?s) (drop ?s xs) = drop ?s (take ?e xs)" by (simp add: drop_take)
  also have "\<dots> = filter (\<lambda>x. a \<le> k x) (take ?e xs)"
  proof (cases "?s \<le> ?e")
    case True
    have "filter (\<lambda>x. a \<le> k x) (take ?s (take ?e xs)) = []"
      using True partition_point_filter_key(1) [OF assms, of "\<lambda>t. t < a"]
      by (auto simp: min_def filter_empty_conv not_le)
    moreover have "filter (\<lambda>x. a \<le> k x) (drop ?s (take ?e xs)) = drop ?s (take ?e xs)"
      using drop by (intro filter_True) (auto simp: drop_take dest!: in_set_takeD)
    ultimately show ?thesis
      by (metis append_Nil append_take_drop_id filter_append)
  next
    case False
    then have "take ?e xs = take ?e (take ?s xs)" by (simp add: min_def)
    then have "filter (\<lambda>x. a \<le> k x) (take ?e xs) = []"
      using partition_point_filter_key(1) [OF assms, of "\<lambda>t. t < a"]
      by (auto simp: filter_empty_conv not_le dest!: in_set_takeD)
    then show ?thesis using False by simp
  qed
  also have "\<dots> = filter (\<lambda>x. a \<le> k x \<and> k x \<le> b) xs" by (simp add: take conj_commute)
  finally show ?thesis .
qed

lemma partition_point_nth:
  fixes xs :: "'e :: linorder list"
  assumes "sorted xs" "\<And>x y. x \<le> y \<Longrightarrow> P y \<Longrightarrow> P x" "i < length xs"
  shows "i < partition_point P xs \<longleftrightarrow> P (xs ! i)"
proof
  assume i: "i < partition_point P xs"
  then have "takeWhile P xs ! i \<in> set (takeWhile P xs)" by (simp add: partition_point_def)
  then show "P (xs ! i)"
    using i by (auto simp: partition_point_def takeWhile_nth dest: set_takeWhileD)
next
  assume P: "P (xs ! i)"
  show "i < partition_point P xs"
  proof (rule ccontr)
    assume "\<not> i < partition_point P xs"
    then have le: "length (takeWhile P xs) \<le> i" by (simp add: partition_point_def)
    then have "xs ! length (takeWhile P xs) \<le> xs ! i"
      using assms(1,3) by (intro sorted_nth_mono) auto
    then have "P (xs ! length (takeWhile P xs))" using P by (rule assms(2))
    moreover have "\<not> P (xs ! length (takeWhile P xs))"
      using le assms(3) by (intro nth_length_takeWhile) simp
    ultimately show False by blast
  qed
qed

lemma partition_point_le: "partition_point P xs \<le> length xs"
  by (simp add: partition_point_def length_takeWhile_le)

lemma find_next_time_alt:
  assumes "tc_ok tc"
  shows "find_next_time tc t = map_option new_temporal (iter_min (filter (\<lambda>u. as_i64 t < u) (tc_times tc)))"
proof (cases "tc_is_sorted tc")
  case True
  let ?ts = "tc_times tc" and ?idx = "partition_point (\<lambda>u. u \<le> as_i64 t) (tc_times tc)"
  have sorted: "sorted ?ts" using assms True by (simp add: tc_ok_def)
  have rest: "drop ?idx ?ts = filter (\<lambda>u. as_i64 t < u) ?ts"
    using partition_point_filter(2) [OF sorted, of "\<lambda>u. u \<le> as_i64 t"] by (simp add: not_le)
  have "sorted (filter (\<lambda>u. as_i64 t < u) ?ts)"
    using sorted by (rule sorted_wrt_filter)
  moreover have "?idx < length ?ts \<longleftrightarrow> filter (\<lambda>u. as_i64 t < u) ?ts \<noteq> []"
    by (simp flip: rest add: not_le)
  moreover have "?ts ! ?idx = hd (filter (\<lambda>u. as_i64 t < u) ?ts)" if "?idx < length ?ts"
    using that by (simp flip: rest add: hd_drop_conv_nth)
  ultimately show ?thesis
    using True by (simp add: find_next_time_def Let_def iter_min_eq Min_sorted del: set_filter)
qed (simp add: find_next_time_def)

lemma last_of_take: "0 < n \<Longrightarrow> n \<le> length xs \<Longrightarrow> last (take n xs) = xs ! (n - 1)"
  by (subst last_conv_nth) (auto simp: min_def)

lemma find_prev_time_alt:
  assumes "tc_ok tc"
  shows "find_prev_time tc t = map_option new_temporal (iter_max (filter (\<lambda>u. u < as_i64 t) (tc_times tc)))"
proof (cases "tc_is_sorted tc")
  case True
  let ?ts = "tc_times tc" and ?idx = "partition_point (\<lambda>u. u < as_i64 t) (tc_times tc)"
  have sorted: "sorted ?ts" using assms True by (simp add: tc_ok_def)
  have rest: "take ?idx ?ts = filter (\<lambda>u. u < as_i64 t) ?ts"
    using partition_point_filter(1) [OF sorted, of "\<lambda>u. u < as_i64 t"] by auto
  have le: "?idx \<le> length ?ts" by (simp add: partition_point_def length_takeWhile_le)
  have "sorted (filter (\<lambda>u. u < as_i64 t) ?ts)"
    using sorted by (rule sorted_wrt_filter)
  moreover have "0 < ?idx \<longleftrightarrow> filter (\<lambda>u. u < as_i64 t) ?ts \<noteq> []"
    using le by (auto simp flip: rest)
  moreover have "?ts ! (?idx - 1) = last (filter (\<lambda>u. u < as_i64 t) ?ts)" if "0 < ?idx"
    using that le by (simp flip: rest add: last_of_take)
  ultimately show ?thesis
    using True by (simp add: find_prev_time_def Let_def iter_max_eq Max_sorted del: set_filter)
qed (simp add: find_prev_time_def)

lemma new_temporal_less:
  assumes "time_ok t" "u \<noteq> i64_MIN"
  shows "t < new_temporal u \<longleftrightarrow> as_i64 t < u" "new_temporal u < t \<longleftrightarrow> u < as_i64 t"
  using assms by (simp_all add: time_less_iff as_i64_new_temporal less_i64_def)

lemma mono_new_temporal: "mono new_temporal"
  by (rule monoI) (rule new_temporal_mono)

lemma find_time_exact:
  assumes "tc_ok tc" "time_ok t"
  shows "find_next_time tc t =
           (let later = {u \<in> set (column_times tc). t < u} in if later = {} then None else Some (Min later)) \<and>
         find_prev_time tc t =
           (let earlier = {u \<in> set (column_times tc). u < t} in if earlier = {} then None else Some (Max earlier))"
proof -
  let ?ts = "set (tc_times tc)"
  have temporal: "u \<noteq> i64_MIN" if "u \<in> ?ts" for u
    using assms(1) that by (auto simp: tc_ok_def)
  have later: "{u \<in> set (column_times tc). t < u} = new_temporal ` {u \<in> ?ts. as_i64 t < u}"
    using temporal new_temporal_less(1) [OF assms(2)] by (auto simp: column_times_def)
  have earlier: "{u \<in> set (column_times tc). u < t} = new_temporal ` {u \<in> ?ts. u < as_i64 t}"
    using temporal new_temporal_less(2) [OF assms(2)] by (auto simp: column_times_def)
  show ?thesis
    unfolding find_next_time_alt [OF assms(1)] find_prev_time_alt [OF assms(1)] later earlier Let_def
    by (auto simp: iter_min_eq iter_max_eq filter_empty_conv
        mono_Min_commute [OF mono_new_temporal] mono_Max_commute [OF mono_new_temporal])
qed

text \<open>
  On a sound time column, and whether or not its times are sorted, \<open>find_next_time\<close> returns the
  earliest time of the column strictly after the given one, \<open>find_prev_time\<close> the latest strictly
  before it, and both return nothing exactly when there is no such time: the binary search on
  sorted columns agrees with the scan of unsorted ones.
\<close>

theorem time_search_exact:
  assumes "tc_ok tc" "time_ok t"
  shows "find_next_time tc t =
           (let later = {u \<in> set (column_times tc). t < u} in if later = {} then None else Some (Min later)) \<and>
         find_prev_time tc t =
           (let earlier = {u \<in> set (column_times tc). u < t} in if earlier = {} then None else Some (Max earlier))"
  using assms by (rule find_time_exact)

theorem time_search_exact_witness:
  "find_next_time (new_sequence ''frame'' (map i64_of_int [5, 1, 3])) (new_temporal (i64_of_int 1)) =
     Some (Min {new_temporal (i64_of_int 5), new_temporal (i64_of_int 3)})"
proof -
  let ?tc = "new_sequence ''frame'' (map i64_of_int [5, 1, 3])"
  have iv: "ival (i64_of_int 5) = 5" "ival (i64_of_int 1) = 1" "ival (i64_of_int 3) = 3"
    by (simp_all add: ival_of_int in_i64_def)
  have ts: "tc_times ?tc = map i64_of_int [5, 1, 3]"
    using iv by (simp add: new_sequence_def time_try_from_def nm_new_alt ival_inject [symmetric])
  have less: "new_temporal (i64_of_int 1) < new_temporal (i64_of_int 5)"
    "new_temporal (i64_of_int 1) < new_temporal (i64_of_int 3)"
    using iv by (simp_all add: time_less_iff tval_new_temporal)
  have set: "{u \<in> set (column_times ?tc). new_temporal (i64_of_int 1) < u} =
      {new_temporal (i64_of_int 5), new_temporal (i64_of_int 3)}"
    unfolding column_times_def ts using less by auto
  show ?thesis
    using time_search_exact [OF constructors_ok(1) time_ok_new_temporal,
        of "''frame''" "map i64_of_int [5, 1, 3]" "i64_of_int 1"]
    unfolding set Let_def by simp
qed

end
