(* ===== verification/Chunk.thy ===== *)
theory Chunk
  imports Time_Column Entity_Path
begin

text \<open>
  \<open>Chunk\<close> (\<open>src/crates/store/dl_chunk/src/chunk.rs\<close>): the row ids, time columns and component
  columns of a stretch of rows of one entity. Hash maps are association lists in some
  iteration order; lookups and the theorems do not depend on it. \<open>ChunkId::new()\<close> is an
  argument \<open>new_id\<close> of the operations that call it; the ids of intermediate chunks are not
  observable and use the same one. The theory has the constructors, the sanity check with
  the invariant it tests, the abstraction of a chunk to a list of rows, and the event counts.
  The approximate comparisons for tests, formatting and the transport format are left out.
\<close>

section \<open>Data\<close>

record ComponentDescriptor =
  cd_archetype :: "string option"
  cd_component :: string
  cd_component_type :: "string option"

record 'a SerializedComponentColumn =
  col_list_array :: 'a
  col_descriptor :: ComponentDescriptor

type_synonym 'a ChunkComponents = "(string \<times> 'a SerializedComponentColumn) list"
type_synonym Timelines = "(string \<times> TimeColumn) list"
type_synonym ChunkId = Tuid

record 'a Chunk =
  chunk_id :: ChunkId
  chunk_entity_path :: EntityPath
  chunk_heap_size :: u64
  chunk_is_sorted :: bool
  chunk_row_ids :: "RowId list"
  chunk_timelines :: Timelines
  chunk_components :: "'a ChunkComponents"

text \<open>
  The build: whether debug assertions are on, whether \<open>DALARAN_VERY_STRICT\<close> is set, and the
  memory accounting of the parts of a chunk, which comes from the allocator's view of
  Arrow buffers.
\<close>

record 'a build =
  debug_assertions :: bool
  very_strict :: bool
  hs_entity_path :: "EntityPath \<Rightarrow> u64"
  hs_row_ids :: "RowId list \<Rightarrow> u64"
  hs_timelines :: "Timelines \<Rightarrow> u64"
  hs_components :: "'a ChunkComponents \<Rightarrow> u64"

section \<open>Component columns\<close>

definition get_by_component_type :: "'a ChunkComponents \<Rightarrow> string \<Rightarrow> 'a list" where
  "get_by_component_type comps component_type =
     map col_list_array (filter (\<lambda>col. cd_component_type (col_descriptor col) = Some component_type) (map snd comps))"

definition contains_component :: "'a ChunkComponents \<Rightarrow> string \<Rightarrow> bool" where
  "contains_component comps component \<longleftrightarrow> map_of comps component \<noteq> None"

definition list_arrays :: "'a ChunkComponents \<Rightarrow> 'a list" where
  "list_arrays comps = map (\<lambda>(_, col). col_list_array col) comps"

definition get_array :: "'a ChunkComponents \<Rightarrow> string \<Rightarrow> 'a option" where
  "get_array comps component = map_option col_list_array (map_of comps component)"

definition get_descriptor :: "'a ChunkComponents \<Rightarrow> string \<Rightarrow> ComponentDescriptor option" where
  "get_descriptor comps component = map_option col_descriptor (map_of comps component)"

definition insert_column :: "'a SerializedComponentColumn \<Rightarrow> 'a ChunkComponents \<Rightarrow> 'a ChunkComponents" where
  "insert_column column comps = AList.update (cd_component (col_descriptor column)) column comps"

definition components_from_iter :: "'a SerializedComponentColumn list \<Rightarrow> 'a ChunkComponents" where
  "components_from_iter columns = fold insert_column columns []"

section \<open>Row ids\<close>

text \<open>\<open>count\<close> successive row ids, the first being the given one.\<close>

fun successors :: "RowId \<Rightarrow> nat \<Rightarrow> RowId list" where
  "successors row_id 0 = []"
| "successors row_id (Suc n) = row_id # successors (tuid_next row_id) n"

definition auto_row_ids :: "ChunkId \<Rightarrow> nat \<Rightarrow> RowId list" where
  "auto_row_ids i count = successors (tuid_next i) count"

definition num_rows :: "'a Chunk \<Rightarrow> nat" where
  "num_rows c = length (chunk_row_ids c)"

definition chunk_is_empty :: "'a Chunk \<Rightarrow> bool" where
  "chunk_is_empty c \<longleftrightarrow> num_rows c = 0"

definition chunk_is_static :: "'a Chunk \<Rightarrow> bool" where
  "chunk_is_static c \<longleftrightarrow> chunk_timelines c = []"

definition num_columns :: "'a Chunk \<Rightarrow> nat" where
  "num_columns c = 1 + length (chunk_timelines c) + length (chunk_components c)"

text \<open>\<open>slice::binary_search\<close> of the standard library.\<close>

function search_base :: "RowId list \<Rightarrow> RowId \<Rightarrow> nat \<Rightarrow> nat \<Rightarrow> nat" where
  "search_base xs x base sz =
     (if sz \<le> 1 then base
      else let half = sz div 2; mid = base + half
           in search_base xs x (if x < xs ! mid then base else mid) (sz - half))"
  by auto
termination
  by (relation "measure (\<lambda>(xs, x, base, sz). sz)") auto

definition binary_search :: "RowId list \<Rightarrow> RowId \<Rightarrow> nat option" where
  "binary_search xs x =
     (if xs = [] then None
      else let base = search_base xs x 0 (length xs)
           in if xs ! base = x then Some base else None)"

fun position :: "'e \<Rightarrow> 'e list \<Rightarrow> nat option" where
  "position x [] = None"
| "position x (y # ys) = (if y = x then Some 0 else map_option Suc (position x ys))"

definition row_index_of :: "'a Chunk \<Rightarrow> RowId \<Rightarrow> nat option" where
  "row_index_of c row_id =
     (if chunk_is_sorted c then binary_search (chunk_row_ids c) row_id
      else position row_id (chunk_row_ids c))"

definition is_row_ids_sorted_uncached :: "'a Chunk \<Rightarrow> bool" where
  "is_row_ids_sorted_uncached c = windows_sorted (chunk_row_ids c)"

definition component_row_ids :: "('a, 'd, 'v) arrow \<Rightarrow> 'a Chunk \<Rightarrow> string \<Rightarrow> RowId list" where
  "component_row_ids A c component =
     (case get_array (chunk_components c) component of
        None \<Rightarrow> []
      | Some list_array \<Rightarrow>
          (case la_nulls A list_array of
             Some validity \<Rightarrow> map snd (filter (\<lambda>(i, _). validity ! i) (enumerate 0 (chunk_row_ids c)))
           | None \<Rightarrow> chunk_row_ids c))"

definition row_id_range :: "'a Chunk \<Rightarrow> (RowId \<times> RowId) option" where
  "row_id_range c =
     (if chunk_is_empty c then None
      else if chunk_is_sorted c then Some (hd (chunk_row_ids c), last (chunk_row_ids c))
      else Some (the (iter_min (chunk_row_ids c)), the (iter_max (chunk_row_ids c))))"

section \<open>Sortedness of timelines\<close>

definition all_timelines_sorted :: "'a Chunk \<Rightarrow> bool" where
  "all_timelines_sorted c = list_all (\<lambda>(_, tc). tc_is_sorted tc) (chunk_timelines c)"

definition is_timeline_sorted :: "'a Chunk \<Rightarrow> string \<Rightarrow> bool" where
  "is_timeline_sorted c timeline \<longleftrightarrow> chunk_is_static c \<or>
     (case map_of (chunk_timelines c) timeline of None \<Rightarrow> False | Some tc \<Rightarrow> tc_is_sorted tc)"

definition is_timeline_sorted_uncached :: "'a Chunk \<Rightarrow> string \<Rightarrow> bool" where
  "is_timeline_sorted_uncached c timeline \<longleftrightarrow> chunk_is_static c \<or>
     (case map_of (chunk_timelines c) timeline of None \<Rightarrow> False | Some tc \<Rightarrow> tc_is_sorted_uncached tc)"

definition unsorted_timelines :: "'a Chunk \<Rightarrow> string list" where
  "unsorted_timelines c = map fst (filter (\<lambda>(_, tc). \<not> tc_is_sorted tc) (chunk_timelines c))"

section \<open>Sanity check\<close>

definition heap_size_bytes_inner :: "'a build \<Rightarrow> 'a Chunk \<Rightarrow> u64" where
  "heap_size_bytes_inner B c =
     hs_entity_path B (chunk_entity_path c) + hs_row_ids B (chunk_row_ids c)
     + hs_timelines B (chunk_timelines c) + hs_components B (chunk_components c)"

text \<open>The size and the chunk with the size stored in its cache.\<close>

definition heap_size_bytes :: "'a build \<Rightarrow> 'a Chunk \<Rightarrow> u64 \<times> 'a Chunk" where
  "heap_size_bytes B c =
     (if chunk_heap_size c = 0
      then let size_bytes = heap_size_bytes_inner B c in (size_bytes, c\<lparr>chunk_heap_size := size_bytes\<rparr>)
      else (chunk_heap_size c, c))"

definition warn_if_out_of_order :: "'a build \<Rightarrow> 'a Chunk \<Rightarrow> (ChunkError, unit) result" where
  "warn_if_out_of_order B c =
     (if very_strict B \<and> \<not> chunk_is_sorted c then Err Panicked
      else if very_strict B \<and> unsorted_timelines c \<noteq> [] then Err Panicked
      else Ok ())"

fun check_timelines :: "'a build \<Rightarrow> nat \<Rightarrow> Timelines \<Rightarrow> (ChunkError, unit) result" where
  "check_timelines B n [] = Ok ()"
| "check_timelines B n ((name, tc) # rest) =
     (if length (tc_times tc) \<noteq> n then Err (Malformed (TimelineLength name))
      else try_bind (tc_sanity_check (debug_assertions B) tc) (\<lambda>_. check_timelines B n rest))"

fun check_components :: "('a, 'd, 'v) arrow \<Rightarrow> nat \<Rightarrow> 'a ChunkComponents \<Rightarrow> (ChunkError, unit) result" where
  "check_components A n [] = Ok ()"
| "check_components A n ((component, col) # rest) =
     (if cd_component (col_descriptor col) \<noteq> component then Err (Malformed (KeyMismatch component))
      else if la_len A (col_list_array col) \<noteq> n then Err (Malformed (ComponentLength component))
      else if n \<noteq> 0 \<and> la_nulls A (col_list_array col) = Some [] then Err (Malformed (EmptyColumn component))
      else check_components A n rest)"

text \<open>
  The checks of the Arrow datatypes of row ids and list arrays hold by the types of the model.
\<close>

definition sanity_check :: "'a build \<Rightarrow> ('a, 'd, 'v) arrow \<Rightarrow> 'a Chunk \<Rightarrow> (ChunkError, unit) result" where
  "sanity_check B A c =
     try_bind (warn_if_out_of_order B c) (\<lambda>_.
       if debug_assertions B \<and> chunk_heap_size c \<noteq> 0 \<and> chunk_heap_size c \<noteq> heap_size_bytes_inner B c
       then Err (Malformed WrongHeapSize)
       else if debug_assertions B \<and> chunk_is_sorted c \<noteq> is_row_ids_sorted_uncached c
       then Err (Malformed RowIdsSortedness)
       else try_bind (check_timelines B (num_rows c) (chunk_timelines c)) (\<lambda>_.
              check_components A (num_rows c) (chunk_components c)))"

text \<open>\<open>sanity_check().unwrap()\<close> under \<open>cfg(debug_assertions)\<close>: \<open>None\<close> is a panic.\<close>

definition debug_checked :: "'a build \<Rightarrow> ('a, 'd, 'v) arrow \<Rightarrow> 'a Chunk \<Rightarrow> 'a Chunk option" where
  "debug_checked B A c =
     (if debug_assertions B then case sanity_check B A c of Inr _ \<Rightarrow> Some c | Inl _ \<Rightarrow> None else Some c)"

section \<open>Constructors\<close>

definition chunk_new ::
  "'a build \<Rightarrow> ('a, 'd, 'v) arrow \<Rightarrow> ChunkId \<Rightarrow> EntityPath \<Rightarrow> bool option \<Rightarrow> RowId list \<Rightarrow> Timelines
   \<Rightarrow> 'a ChunkComponents \<Rightarrow> (ChunkError, 'a Chunk) result"
where
  "chunk_new B A i path is_sorted row_ids timelines components =
     (let c = \<lparr>chunk_id = i, chunk_entity_path = path, chunk_heap_size = 0, chunk_is_sorted = False,
               chunk_row_ids = row_ids, chunk_timelines = timelines, chunk_components = components\<rparr>;
          c = c\<lparr>chunk_is_sorted := (case is_sorted of Some b \<Rightarrow> b | None \<Rightarrow> is_row_ids_sorted_uncached c)\<rparr>
      in try_bind (sanity_check B A c) (\<lambda>_. Ok c))"

definition new_static ::
  "'a build \<Rightarrow> ('a, 'd, 'v) arrow \<Rightarrow> ChunkId \<Rightarrow> EntityPath \<Rightarrow> bool option \<Rightarrow> RowId list
   \<Rightarrow> 'a ChunkComponents \<Rightarrow> (ChunkError, 'a Chunk) result"
where
  "new_static B A i path is_sorted row_ids components = chunk_new B A i path is_sorted row_ids [] components"

definition chunk_empty :: "ChunkId \<Rightarrow> EntityPath \<Rightarrow> 'a Chunk" where
  "chunk_empty i path = \<lparr>chunk_id = i, chunk_entity_path = path, chunk_heap_size = 0, chunk_is_sorted = True,
     chunk_row_ids = [], chunk_timelines = [], chunk_components = []\<rparr>"

definition add_component ::
  "'a build \<Rightarrow> ('a, 'd, 'v) arrow \<Rightarrow> ChunkId \<Rightarrow> 'a SerializedComponentColumn \<Rightarrow> 'a Chunk
   \<Rightarrow> (ChunkError, unit) result \<times> 'a Chunk"
where
  "add_component B A new_id column c =
     (let c = c\<lparr>chunk_id := new_id, chunk_components := insert_column column (chunk_components c),
                chunk_heap_size := 0\<rparr>
      in (sanity_check B A c, c))"

definition add_timeline ::
  "'a build \<Rightarrow> ('a, 'd, 'v) arrow \<Rightarrow> ChunkId \<Rightarrow> TimeColumn \<Rightarrow> 'a Chunk
   \<Rightarrow> (ChunkError, unit) result \<times> 'a Chunk"
where
  "add_timeline B A new_id chunk_timeline c =
     (let c = c\<lparr>chunk_id := new_id,
                chunk_timelines := AList.update (timeline_name (tc_timeline chunk_timeline)) chunk_timeline
                  (chunk_timelines c),
                chunk_heap_size := 0\<rparr>
      in (sanity_check B A c, c))"

definition clone_with_id :: "'a Chunk \<Rightarrow> ChunkId \<Rightarrow> 'a Chunk" where
  "clone_with_id c i = c\<lparr>chunk_id := i\<rparr>"

definition clone_with_new_entity_path :: "ChunkId \<Rightarrow> 'a Chunk \<Rightarrow> EntityPath \<Rightarrow> 'a Chunk" where
  "clone_with_new_entity_path new_id c path = (clone_with_id c new_id)\<lparr>chunk_entity_path := path\<rparr>"

definition clone_as :: "'a Chunk \<Rightarrow> ChunkId \<Rightarrow> RowId \<Rightarrow> 'a Chunk" where
  "clone_as c i first_row_id =
     (clone_with_id c i)\<lparr>chunk_row_ids := successors first_row_id (length (chunk_row_ids c)),
                         chunk_heap_size := 0\<rparr>"

definition into_static :: "'a Chunk \<Rightarrow> 'a Chunk" where
  "into_static c = c\<lparr>chunk_timelines := [], chunk_heap_size := 0\<rparr>"

definition zeroed :: "ChunkId \<Rightarrow> 'a Chunk \<Rightarrow> 'a Chunk" where
  "zeroed new_id c = c\<lparr>chunk_id := new_id, chunk_row_ids := replicate (length (chunk_row_ids c)) tuid_ZERO,
                       chunk_heap_size := 0\<rparr>"

definition with_mapped_component ::
  "ChunkId \<Rightarrow> 'a Chunk \<Rightarrow> string \<Rightarrow> ComponentDescriptor option \<Rightarrow> ('a \<Rightarrow> ('e, 'a) result) \<Rightarrow> ('e, 'a Chunk) result"
where
  "with_mapped_component new_id c source target f =
     try_bind
       (case map_of (chunk_components c) source of
          None \<Rightarrow> Ok (chunk_components c)
        | Some old_entry \<Rightarrow>
            try_bind (f (col_list_array old_entry)) (\<lambda>list_array.
              Ok (insert_column
                    \<lparr>col_list_array = list_array,
                     col_descriptor = (case target of Some d \<Rightarrow> d | None \<Rightarrow> col_descriptor old_entry)\<rparr>
                    (AList.delete source (chunk_components c)))))
       (\<lambda>new_components.
          Ok \<lparr>chunk_id = new_id, chunk_entity_path = chunk_entity_path c, chunk_heap_size = 0,
              chunk_is_sorted = True, chunk_row_ids = auto_row_ids new_id (num_rows c),
              chunk_timelines = chunk_timelines c, chunk_components = new_components\<rparr>)"

definition with_shadowed_component ::
  "ChunkId \<Rightarrow> 'a Chunk \<Rightarrow> string \<Rightarrow> string \<Rightarrow> ('a \<Rightarrow> ('e, 'a) result) \<Rightarrow> ('e, 'a Chunk) result"
where
  "with_shadowed_component new_id c source target f =
     (let new_chunk = clone_with_id c new_id in
      case map_of (chunk_components new_chunk) source of
        None \<Rightarrow> Ok new_chunk
      | Some old_entry \<Rightarrow>
          try_bind (f (col_list_array old_entry)) (\<lambda>list_array.
            Ok (new_chunk\<lparr>chunk_components := insert_column
                  \<lparr>col_list_array = list_array,
                   col_descriptor = \<lparr>cd_archetype = None, cd_component = target, cd_component_type = None\<rparr>\<rparr>
                  (AList.delete source (chunk_components new_chunk))\<rparr>)))"

section \<open>Rows\<close>

text \<open>
  The abstract content of a chunk: one row per index, with its id, its time on every timeline
  and its cells. A null cell and a missing column both mean that the row has nothing to
  say about a component.
\<close>

record 'v row =
  rw_id :: RowId
  rw_times :: "string \<rightharpoonup> i64"
  rw_cells :: "string \<rightharpoonup> 'v list"

definition row_at :: "('a, 'd, 'v) arrow \<Rightarrow> 'a Chunk \<Rightarrow> nat \<Rightarrow> 'v row" where
  "row_at A c i =
     \<lparr>rw_id = chunk_row_ids c ! i,
      rw_times = (\<lambda>name. map_option (\<lambda>tc. tc_times tc ! i) (map_of (chunk_timelines c) name)),
      rw_cells = (\<lambda>component. Option.bind (map_of (chunk_components c) component)
                                 (\<lambda>col. la_cell A (col_list_array col) i))\<rparr>"

definition rows :: "('a, 'd, 'v) arrow \<Rightarrow> 'a Chunk \<Rightarrow> 'v row list" where
  "rows A c = map (row_at A c) [0..<num_rows c]"

section \<open>The invariant\<close>

definition timelines_ok :: "nat \<Rightarrow> Timelines \<Rightarrow> bool" where
  "timelines_ok n tls \<longleftrightarrow> distinct (map fst tls) \<and> (\<forall>(_, tc) \<in> set tls. tc_ok tc \<and> length (tc_times tc) = n)"

definition components_ok :: "('a, 'd, 'v) arrow \<Rightarrow> nat \<Rightarrow> 'a ChunkComponents \<Rightarrow> bool" where
  "components_ok A n comps \<longleftrightarrow> distinct (map fst comps) \<and>
     (\<forall>(k, col) \<in> set comps. cd_component (col_descriptor col) = k \<and> la_len A (col_list_array col) = n)"

definition heap_ok :: "'a build \<Rightarrow> 'a Chunk \<Rightarrow> bool" where
  "heap_ok B c \<longleftrightarrow> chunk_heap_size c = 0 \<or> chunk_heap_size c = heap_size_bytes_inner B c"

definition columns_ok :: "('a, 'd, 'v) arrow \<Rightarrow> 'a Chunk \<Rightarrow> bool" where
  "columns_ok A c \<longleftrightarrow> (chunk_is_sorted c \<longleftrightarrow> sorted (chunk_row_ids c)) \<and>
     timelines_ok (num_rows c) (chunk_timelines c) \<and> components_ok A (num_rows c) (chunk_components c)"

definition chunk_ok :: "'a build \<Rightarrow> ('a, 'd, 'v) arrow \<Rightarrow> 'a Chunk \<Rightarrow> bool" where
  "chunk_ok B A c \<longleftrightarrow> heap_ok B c \<and> columns_ok A c"

text \<open>
  A debug build that is very strict panics on chunks that are merely out of order; every
  other build lets a sound chunk pass.
\<close>

definition lenient :: "'a build \<Rightarrow> bool" where
  "lenient B \<longleftrightarrow> (debug_assertions B \<longrightarrow> \<not> very_strict B)"

lemma length_rows [simp]: "length (rows A c) = num_rows c"
  by (simp add: rows_def)

lemma nth_rows [simp]: "i < num_rows c \<Longrightarrow> rows A c ! i = row_at A c i"
  by (simp add: rows_def)

lemma check_timelines_iff:
  assumes "\<forall>(_, tc) \<in> set tls. range_ok (tc_time_range tc)" "debug_assertions B"
  shows "check_timelines B n tls = Ok () \<longleftrightarrow> (\<forall>(_, tc) \<in> set tls. tc_ok tc \<and> length (tc_times tc) = n)"
  using assms
  by (induction B n tls rule: check_timelines.induct)
     (auto simp: try_bind_Ok_iff tc_sanity_check_iff)

context arrow_laws
begin

lemma check_components_iff:
  "check_components A n comps = Ok () \<longleftrightarrow>
     (\<forall>(k, col) \<in> set comps. cd_component (col_descriptor col) = k \<and> la_len A (col_list_array col) = n)"
proof (induction comps)
  case (Cons kc comps)
  obtain k col where kc: "kc = (k, col)" by (cases kc)
  have "n = 0" if "la_nulls A (col_list_array col) = Some []" "la_len A (col_list_array col) = n"
    using nulls_len [OF that(1)] that(2) by simp
  then show ?case
    using Cons by (auto simp: kc)
qed simp

text \<open>
  In a debug build that is not very strict, the sanity check accepts exactly the chunks that
  satisfy the invariant.
\<close>

lemma sanity_check_iff:
  assumes "debug_assertions B" "\<not> very_strict B"
    and "distinct (map fst (chunk_timelines c))" "distinct (map fst (chunk_components c))"
    and "\<forall>(_, tc) \<in> set (chunk_timelines c). range_ok (tc_time_range tc)"
  shows "sanity_check B A c = Ok () \<longleftrightarrow> chunk_ok B A c"
  using assms check_timelines_iff [OF assms(5,1), of "num_rows c"]
  by (auto simp: sanity_check_def warn_if_out_of_order_def chunk_ok_def columns_ok_def heap_ok_def timelines_ok_def
      components_ok_def try_bind_Ok_iff check_components_iff is_row_ids_sorted_uncached_def
      windows_sorted_iff)

lemma debug_checked_ok:
  assumes "chunk_ok B A c" "lenient B"
  shows "debug_checked B A c = Some c"
proof (cases "debug_assertions B")
  case True
  have "sanity_check B A c = Ok ()"
    using assms True
    by (subst sanity_check_iff)
       (auto simp: lenient_def chunk_ok_def columns_ok_def timelines_ok_def components_ok_def tc_ok_def)
  then show ?thesis by (simp add: debug_checked_def)
qed (simp add: debug_checked_def)

end

section \<open>Finding a row\<close>

declare search_base.simps [simp del]

lemma search_base_bounds:
  assumes "sorted xs" "0 < sz" "base + sz \<le> length xs"
  shows "base \<le> search_base xs x base sz \<and> search_base xs x base sz < base + sz \<and>
         (\<forall>j. search_base xs x base sz < j \<longrightarrow> j < base + sz \<longrightarrow> x < xs ! j) \<and>
         (search_base xs x base sz = base \<or> xs ! search_base xs x base sz \<le> x)"
  using assms
proof (induction xs x base sz rule: search_base.induct)
  case (1 xs x base sz)
  show ?case
  proof (cases "sz \<le> 1")
    case True
    then have "search_base xs x base sz = base" by (subst search_base.simps) simp
    then show ?thesis using 1 True by auto
  next
    case False
    let ?half = "sz div 2" and ?mid = "base + sz div 2"
    let ?base = "if x < xs ! ?mid then base else ?mid"
    let ?r = "search_base xs x ?base (sz - ?half)"
    have eq: "search_base xs x base sz = ?r"
      using False by (subst search_base.simps) (simp add: Let_def)
    have ih: "?base \<le> ?r \<and> ?r < ?base + (sz - ?half) \<and>
        (\<forall>j. ?r < j \<longrightarrow> j < ?base + (sz - ?half) \<longrightarrow> x < xs ! j) \<and> (?r = ?base \<or> xs ! ?r \<le> x)"
      by (rule "1.IH" [OF False refl refl]) (use False "1.prems" in auto)
    have "x < xs ! j" if "x < xs ! ?mid" "base + (sz - ?half) \<le> j" "j < base + sz" for j
    proof -
      have "xs ! ?mid \<le> xs ! j"
        using that "1.prems" by (intro sorted_nth_mono) auto
      then show ?thesis using that(1) by simp
    qed
    note above = this
    define r where "r = search_base xs x base sz"
    have r: "?base \<le> r" "r < ?base + (sz - ?half)" "r = ?base \<or> xs ! r \<le> x"
      and less: "\<And>j. r < j \<Longrightarrow> j < ?base + (sz - ?half) \<Longrightarrow> x < xs ! j"
      using ih unfolding r_def eq by blast+
    have "x < xs ! j" if "r < j" "j < base + sz" for j
    proof (cases "x < xs ! ?mid \<and> base + (sz - ?half) \<le> j")
      case True
      then show ?thesis using above that by blast
    next
      case False
      then show ?thesis using less [OF that(1)] that(2) by (auto split: if_splits)
    qed
    moreover have "base \<le> r" "r < base + sz" "r = base \<or> xs ! r \<le> x"
      using r by (auto split: if_splits)
    ultimately show ?thesis unfolding r_def by blast
  qed
qed

lemma binary_search_sorted:
  assumes "sorted xs"
  shows "binary_search xs x = None \<longleftrightarrow> x \<notin> set xs"
    and "binary_search xs x = Some i \<Longrightarrow> i < length xs \<and> xs ! i = x"
proof -
  let ?r = "search_base xs x 0 (length xs)"
  have r: "?r < length xs \<and> (\<forall>j. ?r < j \<longrightarrow> j < length xs \<longrightarrow> x < xs ! j) \<and> (?r = 0 \<or> xs ! ?r \<le> x)"
    if "xs \<noteq> []"
    using search_base_bounds [OF assms, of "length xs" 0 x] that by simp
  have "xs ! ?r = x" if mem: "x \<in> set xs"
  proof -
    obtain j where j: "j < length xs" "xs ! j = x" using mem by (metis in_set_conv_nth)
    then have "xs \<noteq> []" by auto
    then have "j \<le> ?r" using r j by (metis less_irrefl not_le)
    moreover have "xs ! j \<le> xs ! ?r"
      using assms \<open>j \<le> ?r\<close> r [OF \<open>xs \<noteq> []\<close>] by (intro sorted_nth_mono) auto
    ultimately show ?thesis using r [OF \<open>xs \<noteq> []\<close>] j by auto
  qed
  then show "binary_search xs x = None \<longleftrightarrow> x \<notin> set xs"
    using r by (cases "xs = []") (auto simp: binary_search_def Let_def dest: nth_mem)
  show "binary_search xs x = Some i \<Longrightarrow> i < length xs \<and> xs ! i = x"
    using r by (auto simp: binary_search_def Let_def split: if_splits)
qed

lemma position_correct:
  "position x xs = None \<longleftrightarrow> x \<notin> set xs"
  "position x xs = Some i \<Longrightarrow> i < length xs \<and> xs ! i = x"
  by (induction xs arbitrary: i) (auto split: if_splits)

lemma row_index_of_correct:
  assumes "chunk_is_sorted c \<longleftrightarrow> sorted (chunk_row_ids c)"
  shows "row_index_of c r = None \<longleftrightarrow> r \<notin> set (chunk_row_ids c)"
    and "row_index_of c r = Some i \<Longrightarrow> i < num_rows c \<and> chunk_row_ids c ! i = r"
  using assms
  by (auto simp: row_index_of_def num_rows_def binary_search_sorted position_correct
      dest: binary_search_sorted(2) position_correct(2) split: if_splits)

section \<open>Picking rows\<close>

text \<open>
  \<open>picks A idx c c'\<close>: the columns of \<open>c'\<close> are those of \<open>c\<close> at the indices \<open>idx\<close>. Every vertical operation
  on chunks (slicing, filtering, taking, sorting) is an instance.
\<close>

definition picks_time :: "nat list \<Rightarrow> TimeColumn \<Rightarrow> TimeColumn \<Rightarrow> bool" where
  "picks_time idx tc tc' \<longleftrightarrow>
     tc_timeline tc' = tc_timeline tc \<and> tc_times tc' = map ((!) (tc_times tc)) idx"

definition picks_col ::
  "('a, 'd, 'v) arrow \<Rightarrow> nat list \<Rightarrow> 'a SerializedComponentColumn \<Rightarrow> 'a SerializedComponentColumn \<Rightarrow> bool" where
  "picks_col A idx col col' \<longleftrightarrow> col_descriptor col' = col_descriptor col \<and>
     la_data_type A (col_list_array col') = la_data_type A (col_list_array col) \<and>
     la_cells A (col_list_array col') = map ((!) (la_cells A (col_list_array col))) idx"

definition picks :: "('a, 'd, 'v) arrow \<Rightarrow> nat list \<Rightarrow> 'a Chunk \<Rightarrow> 'a Chunk \<Rightarrow> bool" where
  "picks A idx c c' \<longleftrightarrow> chunk_entity_path c' = chunk_entity_path c \<and>
     chunk_row_ids c' = map ((!) (chunk_row_ids c)) idx \<and>
     list_all2 (rel_prod (=) (picks_time idx)) (chunk_timelines c) (chunk_timelines c') \<and>
     list_all2 (rel_prod (=) (picks_col A idx)) (chunk_components c) (chunk_components c')"

lemma map_of_list_all2:
  "list_all2 (rel_prod (=) P) xs ys \<Longrightarrow> rel_option P (map_of xs k) (map_of ys k)"
  by (induction rule: list_all2_induct) auto

lemma keys_list_all2: "list_all2 (rel_prod (=) P) xs ys \<Longrightarrow> map fst ys = map fst xs"
  by (induction rule: list_all2_induct) auto

lemma list_all2_right: "list_all2 P xs ys \<Longrightarrow> y \<in> set ys \<Longrightarrow> \<exists>x \<in> set xs. P x y"
  by (induction rule: list_all2_induct) auto

lemma la_cell_nth: "i < la_len A a \<Longrightarrow> la_cell A a i = la_cells A a ! i"
  by (simp add: nth_la_cells)

lemma picks_rows:
  assumes p: "picks A idx c c'" and ok: "components_ok A (num_rows c) (chunk_components c)"
    and idx: "\<forall>i \<in> set idx. i < num_rows c"
  shows "rows A c' = map (row_at A c) idx"
proof (rule nth_equalityI)
  have n: "num_rows c' = length idx"
    using p by (simp add: picks_def num_rows_def)
  then show "length (rows A c') = length (map (row_at A c) idx)" by simp
  fix j assume "j < length (rows A c')"
  then have j: "j < length idx" using n by simp
  have times: "map_option (\<lambda>tc. tc_times tc ! j) (map_of (chunk_timelines c') name) =
      map_option (\<lambda>tc. tc_times tc ! (idx ! j)) (map_of (chunk_timelines c) name)" for name
  proof -
    have "rel_option (picks_time idx) (map_of (chunk_timelines c) name) (map_of (chunk_timelines c') name)"
      using p by (intro map_of_list_all2) (simp add: picks_def)
    then show ?thesis
      by (cases rule: option.rel_cases) (use j in \<open>auto simp: picks_time_def\<close>)
  qed
  have cells: "Option.bind (map_of (chunk_components c') k) (\<lambda>col. la_cell A (col_list_array col) j) =
      Option.bind (map_of (chunk_components c) k) (\<lambda>col. la_cell A (col_list_array col) (idx ! j))" for k
  proof -
    have "rel_option (picks_col A idx) (map_of (chunk_components c) k) (map_of (chunk_components c') k)"
      using p by (intro map_of_list_all2) (simp add: picks_def)
    then show ?thesis
    proof (cases rule: option.rel_cases)
      case (Some col col')
      have "la_len A (col_list_array col) = num_rows c"
        using ok map_of_SomeD [OF Some(1)] by (auto simp: components_ok_def)
      moreover have "la_cells A (col_list_array col') = map ((!) (la_cells A (col_list_array col))) idx"
        using Some(3) by (simp add: picks_col_def)
      moreover from this have "la_len A (col_list_array col') = length idx"
        by (metis length_la_cells length_map)
      ultimately show ?thesis
        using j idx by (simp add: Some la_cell_nth)
    qed simp
  qed
  show "rows A c' ! j = map (row_at A c) idx ! j"
    using p j n by (simp add: row_at_def times cells picks_def)
qed

lemma picks_sizes:
  assumes p: "picks A idx c c'" and ok: "components_ok A (num_rows c) (chunk_components c)"
  shows "num_rows c' = length idx" "components_ok A (length idx) (chunk_components c')"
    "map fst (chunk_timelines c') = map fst (chunk_timelines c)"
proof -
  show "num_rows c' = length idx" using p by (simp add: picks_def num_rows_def)
  have pc: "list_all2 (rel_prod (=) (picks_col A idx)) (chunk_components c) (chunk_components c')"
    using p by (simp add: picks_def)
  have "cd_component (col_descriptor col') = k \<and> la_len A (col_list_array col') = length idx"
    if in': "(k, col') \<in> set (chunk_components c')" for k col'
  proof -
    obtain x where "x \<in> set (chunk_components c)" "rel_prod (=) (picks_col A idx) x (k, col')"
      using list_all2_right [OF pc in'] by blast
    then obtain col where "(k, col) \<in> set (chunk_components c)" "picks_col A idx col col'"
      by (metis rel_prod_sel prod.collapse fst_conv snd_conv)
    then show ?thesis
      using ok by (auto simp: components_ok_def picks_col_def) (metis length_la_cells length_map)
  qed
  then show "components_ok A (length idx) (chunk_components c')"
    using ok keys_list_all2 [OF pc] by (auto simp: components_ok_def)
  show "map fst (chunk_timelines c') = map fst (chunk_timelines c)"
    using p by (intro keys_list_all2) (auto simp: picks_def)
qed

text \<open>Rebuilding the component map from its columns keeps the keys of a sound map.\<close>

lemma update_fresh: "k \<notin> fst ` set xs \<Longrightarrow> AList.update k v xs = xs @ [(k, v)]"
  by (induction xs) auto

lemma fold_insert_column:
  assumes "distinct (map (\<lambda>col. cd_component (col_descriptor col)) cols)"
    "\<forall>col \<in> set cols. cd_component (col_descriptor col) \<notin> fst ` set acc"
  shows "fold insert_column cols acc = acc @ map (\<lambda>col. (cd_component (col_descriptor col), col)) cols"
  using assms
proof (induction cols arbitrary: acc)
  case (Cons col cols)
  have "fold insert_column cols (acc @ [(cd_component (col_descriptor col), col)]) =
        (acc @ [(cd_component (col_descriptor col), col)])
        @ map (\<lambda>col. (cd_component (col_descriptor col), col)) cols"
    using Cons.prems by (intro Cons.IH) (auto simp: image_iff)
  moreover have "insert_column col acc = acc @ [(cd_component (col_descriptor col), col)]"
    using Cons.prems by (simp add: insert_column_def update_fresh)
  ultimately show ?case by simp
qed simp

lemma components_from_iter_map:
  assumes "components_ok A n comps" "\<And>col. col_descriptor (f col) = col_descriptor col"
  shows "components_from_iter (map (\<lambda>(_, col). f col) comps) = map (\<lambda>(k, col). (k, f col)) comps"
proof -
  have keys: "map (\<lambda>col. cd_component (col_descriptor col)) (map (\<lambda>(_, col). f col) comps) = map fst comps"
    using assms by (auto simp: components_ok_def)
  have "components_from_iter (map (\<lambda>(_, col). f col) comps) =
        [] @ map (\<lambda>col. (cd_component (col_descriptor col), col)) (map (\<lambda>(_, col). f col) comps)"
    unfolding components_from_iter_def
    by (rule fold_insert_column) (use assms(1) in \<open>simp_all only: keys components_ok_def, auto\<close>)
  also have "\<dots> = map (\<lambda>(k, col). (k, f col)) comps"
    using assms by (auto simp: components_ok_def)
  finally show ?thesis .
qed

lemma picks_columns_ok:
  assumes p: "picks A idx c c'" and ok: "columns_ok A c"
    and times: "\<And>k tc. (k, tc) \<in> set (chunk_timelines c') \<Longrightarrow> tc_ok tc"
    and sorted: "chunk_is_sorted c' \<longleftrightarrow> sorted (chunk_row_ids c')"
  shows "columns_ok A c'"
proof -
  have comps: "components_ok A (num_rows c) (chunk_components c)"
    using ok by (simp add: columns_ok_def)
  have "length (tc_times tc) = length idx" if t: "(k, tc) \<in> set (chunk_timelines c')" for k tc
  proof -
    have "list_all2 (rel_prod (=) (picks_time idx)) (chunk_timelines c) (chunk_timelines c')"
      using p by (simp add: picks_def)
    from list_all2_right [OF this t] obtain x where "rel_prod (=) (picks_time idx) x (k, tc)" by blast
    then show ?thesis by (auto simp: picks_time_def rel_prod_sel)
  qed
  then have "timelines_ok (length idx) (chunk_timelines c')"
    using times picks_sizes(3) [OF p comps] ok by (auto simp: timelines_ok_def columns_ok_def)
  then show ?thesis
    using sorted picks_sizes(1,2) [OF p comps] by (simp add: columns_ok_def)
qed

section \<open>A small chunk\<close>

text \<open>Three rows, out of order in time, with a null cell in the middle.\<close>

definition demo_id :: "u8 \<Rightarrow> RowId" where
  "demo_id k = Tuid (replicate 8 0) [0, 0, 0, 0, 0, 0, 0, k]"

definition demo_times :: TimeColumn where
  "demo_times = tc_new None \<lparr>timeline_name = ''frame'', timeline_typ = Sequence\<rparr> (map i64_of_int [3, 2, 1])"

definition demo_chunk :: "nat mem_array Chunk" where
  "demo_chunk = \<lparr>chunk_id = demo_id 9, chunk_entity_path = \<lparr>ep_hash = 0, ep_parts = []\<rparr>, chunk_heap_size = 0,
     chunk_is_sorted = True, chunk_row_ids = map demo_id [1, 2, 3],
     chunk_timelines = [(''frame'', demo_times)],
     chunk_components = [(''c'', \<lparr>col_list_array = MemArray [] [([7], True), ([], False), ([8, 9], True)] [] True,
        col_descriptor = \<lparr>cd_archetype = None, cd_component = ''c'', cd_component_type = None\<rparr>\<rparr>)]\<rparr>"

lemma demo_id_less: "demo_id 1 < demo_id 2" "demo_id 2 < demo_id 3" "demo_id 1 < demo_id 3"
  "tuid_ZERO < demo_id 1" "tuid_ZERO < demo_id 2" "tuid_ZERO < demo_id 3"
proof -
  have "replicate 8 (0 :: u8) = [0, 0, 0, 0, 0, 0, 0, 0]" by (simp add: numeral_eq_Suc)
  then show "demo_id 1 < demo_id 2" "demo_id 2 < demo_id 3" "demo_id 1 < demo_id 3"
    "tuid_ZERO < demo_id 1" "tuid_ZERO < demo_id 2" "tuid_ZERO < demo_id 3"
    by (simp_all add: demo_id_def tuid_ZERO_def less_Tuid_def)
qed

lemma demo_ids: "\<forall>r \<in> set (chunk_row_ids demo_chunk). tuid_ZERO < r"
  by (simp add: demo_chunk_def demo_id_less)

lemma demo_times_facts:
  "tc_ok demo_times" "length (tc_times demo_times) = 3" "\<not> tc_is_sorted demo_times"
  "tc_times demo_times = map i64_of_int [3, 2, 1]"
proof -
  have iv: "ival (i64_of_int 1) = 1" "ival (i64_of_int 2) = 2" "ival (i64_of_int 3) = 3"
    by (simp_all add: ival_of_int in_i64_def)
  then show "tc_ok demo_times"
    unfolding demo_times_def by (intro tc_new_ok) (auto simp flip: ival_inject)
  show "\<not> tc_is_sorted demo_times"
    using iv by (simp add: demo_times_def less_eq_i64_def)
qed (simp_all add: demo_times_def)

lemma demo_chunk_sel:
  "num_rows demo_chunk = 3" "\<not> chunk_is_empty demo_chunk" "chunk_is_sorted demo_chunk"
  "chunk_heap_size demo_chunk = 0" "\<not> tc_is_sorted demo_times"
  by (simp_all add: demo_chunk_def num_rows_def chunk_is_empty_def demo_times_facts)

lemma demo_chunk_ok: "columns_ok mem_arrow demo_chunk"
  using demo_id_less [THEN less_imp_le]
  by (simp add: columns_ok_def demo_chunk_def num_rows_def timelines_ok_def components_ok_def
      demo_times_facts)

lemma demo_cells:
  "rw_cells (row_at mem_arrow demo_chunk 0) ''c'' = Some [7]"
  "rw_cells (row_at mem_arrow demo_chunk 1) ''c'' = None"
  "rw_cells (row_at mem_arrow demo_chunk 2) ''c'' = Some [8, 9]"
  by (simp_all add: row_at_def demo_chunk_def la_cell_def la_is_valid_def) (simp_all add: mem_arrow_def)

end
