(* ===== verification/Chunk_Slice.thy ===== *)
theory Chunk_Slice
  imports Chunk "HOL-Library.Multiset"
begin

text \<open>
  The operations of \<open>src/crates/store/dl_chunk/src/slice.rs\<close> (cells, row slices, column
  selections, densification, filters and takes) and of \<open>shuffle.rs\<close> (sorting). Each vertical
  operation is shown to pick rows: its result holds the rows of the chunk at a list of
  indices, and satisfies the invariant again. A panic, including the failed sanity check
  of a debug build, is \<open>None\<close>.
\<close>

section \<open>Slices\<close>

definition cell :: "('a, 'd, 'v) arrow \<Rightarrow> 'a Chunk \<Rightarrow> RowId \<Rightarrow> string \<Rightarrow> 'v list option" where
  "cell A c row_id component =
     do { list_array \<leftarrow> get_array (chunk_components c) component;
          index \<leftarrow> (if chunk_is_sorted c then binary_search (chunk_row_ids c) row_id
                    else position row_id (chunk_row_ids c));
          if la_is_valid A list_array index then Some (la_value A list_array index) else None }"

definition emptied :: "('a, 'd, 'v) arrow \<Rightarrow> ChunkId \<Rightarrow> 'a Chunk \<Rightarrow> 'a Chunk" where
  "emptied A new_id c =
     \<lparr>chunk_id = new_id, chunk_entity_path = chunk_entity_path c, chunk_heap_size = 0,
      chunk_is_sorted = True, chunk_row_ids = [],
      chunk_timelines = map (\<lambda>(timeline, tc). (timeline, tc_emptied tc)) (chunk_timelines c),
      chunk_components = components_from_iter
        (map (\<lambda>(_, col). \<lparr>col_list_array = la_new_null A (la_data_type A (col_list_array col)) 0,
                          col_descriptor = col_descriptor col\<rparr>) (chunk_components c))\<rparr>"

definition row_sliced_impl ::
  "('a, 'd, 'v) arrow \<Rightarrow> ChunkId \<Rightarrow> 'a Chunk \<Rightarrow> nat \<Rightarrow> nat \<Rightarrow> bool \<Rightarrow> 'a Chunk" where
  "row_sliced_impl A new_id c index len deep =
     (if num_rows c \<le> index then emptied A new_id c
      else
        let end_offset = min (index + len) (num_rows c);
            len = end_offset - index
        in if len = 0 then emptied A new_id c
           else
             let is_sorted = chunk_is_sorted c \<or> len < 2;
                 chunk =
                   \<lparr>chunk_id = new_id, chunk_entity_path = chunk_entity_path c, chunk_heap_size = 0,
                    chunk_is_sorted = is_sorted,
                    chunk_row_ids = (if deep then k_deep_slice (k_ids A) index len (chunk_row_ids c)
                                     else k_slice (k_ids A) index len (chunk_row_ids c)),
                    chunk_timelines =
                      map (\<lambda>(timeline, tc). (timeline, tc_row_sliced A tc index len)) (chunk_timelines c),
                    chunk_components = components_from_iter
                      (map (\<lambda>(_, col).
                         \<lparr>col_list_array = (if deep then la_deep_slice A index len (col_list_array col)
                                            else la_slice A index len (col_list_array col)),
                          col_descriptor = col_descriptor col\<rparr>) (chunk_components c))\<rparr>
             in chunk\<lparr>chunk_is_sorted := (is_sorted \<or> is_row_ids_sorted_uncached chunk)\<rparr>)"

definition row_sliced_shallow :: "('a, 'd, 'v) arrow \<Rightarrow> ChunkId \<Rightarrow> 'a Chunk \<Rightarrow> nat \<Rightarrow> nat \<Rightarrow> 'a Chunk" where
  "row_sliced_shallow A new_id c index len = row_sliced_impl A new_id c index len False"

definition row_sliced_deep :: "('a, 'd, 'v) arrow \<Rightarrow> ChunkId \<Rightarrow> 'a Chunk \<Rightarrow> nat \<Rightarrow> nat \<Rightarrow> 'a Chunk" where
  "row_sliced_deep A new_id c index len = row_sliced_impl A new_id c index len True"

record 'a UnitChunkShared =
  unit_original_chunk_id :: ChunkId
  unit_chunk :: "'a Chunk"

definition into_unit_with_original_chunk_id :: "'a Chunk \<Rightarrow> ChunkId \<Rightarrow> 'a UnitChunkShared option" where
  "into_unit_with_original_chunk_id c original_chunk_id =
     (if num_rows c = 1 then Some \<lparr>unit_original_chunk_id = original_chunk_id, unit_chunk = c\<rparr> else None)"

definition row_sliced_unit_shallow ::
  "('a, 'd, 'v) arrow \<Rightarrow> ChunkId \<Rightarrow> 'a Chunk \<Rightarrow> nat \<Rightarrow> 'a UnitChunkShared option" where
  "row_sliced_unit_shallow A new_id c index =
     into_unit_with_original_chunk_id (row_sliced_shallow A new_id c index 1) (chunk_id c)"

section \<open>Selections of columns\<close>

definition timeline_sliced ::
  "'a build \<Rightarrow> ('a, 'd, 'v) arrow \<Rightarrow> ChunkId \<Rightarrow> 'a Chunk \<Rightarrow> string \<Rightarrow> 'a Chunk option" where
  "timeline_sliced B A new_id c timeline =
     debug_checked B A (c\<lparr>chunk_id := new_id, chunk_heap_size := 0,
       chunk_timelines := (case map_of (chunk_timelines c) timeline of
                             None \<Rightarrow> [] | Some tc \<Rightarrow> [(timeline, tc)])\<rparr>)"

definition components_sliced ::
  "'a build \<Rightarrow> ('a, 'd, 'v) arrow \<Rightarrow> ChunkId \<Rightarrow> 'a Chunk \<Rightarrow> string list \<Rightarrow> 'a Chunk option" where
  "components_sliced B A new_id c components_to_keep =
     debug_checked B A (c\<lparr>chunk_id := new_id, chunk_heap_size := 0,
       chunk_components := components_from_iter
         (List.map_filter (map_of (chunk_components c)) components_to_keep)\<rparr>)"

definition component_sliced ::
  "'a build \<Rightarrow> ('a, 'd, 'v) arrow \<Rightarrow> ChunkId \<Rightarrow> 'a Chunk \<Rightarrow> string \<Rightarrow> 'a Chunk option" where
  "component_sliced B A new_id c component = components_sliced B A new_id c [component]"

definition components_dropped ::
  "'a build \<Rightarrow> ('a, 'd, 'v) arrow \<Rightarrow> ChunkId \<Rightarrow> 'a Chunk \<Rightarrow> string list \<Rightarrow> 'a Chunk option" where
  "components_dropped B A new_id c components_to_drop =
     (if \<not> list_ex (\<lambda>(k, _). k \<in> set components_to_drop) (chunk_components c) then Some c
      else debug_checked B A (c\<lparr>chunk_id := new_id, chunk_heap_size := 0,
        chunk_components := components_from_iter
          (map snd (filter (\<lambda>(k, _). k \<notin> set components_to_drop) (chunk_components c)))\<rparr>))"

definition timelines_sliced ::
  "'a build \<Rightarrow> ('a, 'd, 'v) arrow \<Rightarrow> ChunkId \<Rightarrow> 'a Chunk \<Rightarrow> string list \<Rightarrow> 'a Chunk option" where
  "timelines_sliced B A new_id c timelines_to_keep =
     debug_checked B A (c\<lparr>chunk_id := new_id, chunk_heap_size := 0,
       chunk_timelines := filter (\<lambda>(timeline, _). timeline \<in> set timelines_to_keep) (chunk_timelines c)\<rparr>)"

definition components_removed :: "ChunkId \<Rightarrow> 'a Chunk \<Rightarrow> 'a Chunk" where
  "components_removed new_id c = c\<lparr>chunk_id := new_id, chunk_heap_size := 0, chunk_components := []\<rparr>"

section \<open>Filters and takes\<close>

text \<open>The filter applied to every column; the list array of \<open>dense\<close> loses its bitmap.\<close>

definition filter_columns ::
  "('a, 'd, 'v) arrow \<Rightarrow> ChunkId \<Rightarrow> 'a Chunk \<Rightarrow> bool list \<Rightarrow> string option \<Rightarrow> 'a Chunk option" where
  "filter_columns A new_id c keep dense =
     do { row_ids \<leftarrow> filter_array (k_ids A) (chunk_row_ids c) keep;
          timelines \<leftarrow> those (map (\<lambda>(timeline, tc). map_option (Pair timeline) (tc_filtered A tc keep))
                                (chunk_timelines c));
          columns \<leftarrow> those (map (\<lambda>(_, col).
            map_option (\<lambda>filtered.
              \<lparr>col_list_array = (if Some (cd_component (col_descriptor col)) = dense
                                 then la_without_nulls A filtered else filtered),
               col_descriptor = col_descriptor col\<rparr>)
              (filter_list_array A (col_list_array col) keep)) (chunk_components c));
          let is_sorted = chunk_is_sorted c \<or> length (filter id keep) < 2;
              chunk = \<lparr>chunk_id = new_id, chunk_entity_path = chunk_entity_path c, chunk_heap_size = 0,
                       chunk_is_sorted = is_sorted, chunk_row_ids = row_ids, chunk_timelines = timelines,
                       chunk_components = components_from_iter columns\<rparr>
          in Some (chunk\<lparr>chunk_is_sorted := (is_sorted \<or> is_row_ids_sorted_uncached chunk)\<rparr>) }"

definition densified ::
  "'a build \<Rightarrow> ('a, 'd, 'v) arrow \<Rightarrow> ChunkId \<Rightarrow> 'a Chunk \<Rightarrow> string \<Rightarrow> ('a Chunk \<times> bool) option" where
  "densified B A new_id c component_pov =
     (if chunk_is_empty c then Some (c, False)
      else case get_array (chunk_components c) component_pov of
        None \<Rightarrow> Some (c, False)
      | Some component_list_array \<Rightarrow>
          (case la_nulls A component_list_array of
             None \<Rightarrow> Some (c, False)
           | Some validity \<Rightarrow>
               do { chunk \<leftarrow> filter_columns A new_id c validity (Some component_pov);
                    chunk \<leftarrow> debug_checked B A chunk;
                    Some (chunk, True) }))"

text \<open>The inner option is the answer \<open>None\<close> for a filter of the wrong length.\<close>

definition filtered ::
  "'a build \<Rightarrow> ('a, 'd, 'v) arrow \<Rightarrow> ChunkId \<Rightarrow> 'a Chunk \<Rightarrow> bool list \<Rightarrow> 'a Chunk option option" where
  "filtered B A new_id c keep =
     (if length keep \<noteq> num_rows c then Some None
      else if chunk_is_empty c then Some (Some c)
      else if length (filter id keep) = 0 then Some (Some (emptied A new_id c))
      else do { chunk \<leftarrow> filter_columns A new_id c keep None;
                chunk \<leftarrow> debug_checked B A chunk;
                Some (Some chunk) })"

definition take_columns ::
  "('a, 'd, 'v) arrow \<Rightarrow> ChunkId \<Rightarrow> 'a Chunk \<Rightarrow> nat list \<Rightarrow> bool \<Rightarrow> 'a Chunk option" where
  "take_columns A new_id c indices is_sorted =
     do { row_ids \<leftarrow> take_array (k_ids A) (chunk_row_ids c) indices;
          timelines \<leftarrow> those (map (\<lambda>(timeline, tc). map_option (Pair timeline) (tc_taken A tc indices))
                                (chunk_timelines c));
          columns \<leftarrow> those (map (\<lambda>(_, col).
            map_option (\<lambda>taken. \<lparr>col_list_array = taken, col_descriptor = col_descriptor col\<rparr>)
              (take_list_array A (col_list_array col) indices)) (chunk_components c));
          Some \<lparr>chunk_id = new_id, chunk_entity_path = chunk_entity_path c, chunk_heap_size = 0,
                chunk_is_sorted = is_sorted, chunk_row_ids = row_ids, chunk_timelines = timelines,
                chunk_components = components_from_iter columns\<rparr> }"

definition taken ::
  "'a build \<Rightarrow> ('a, 'd, 'v) arrow \<Rightarrow> ChunkId \<Rightarrow> 'a Chunk \<Rightarrow> nat list \<Rightarrow> 'a Chunk option" where
  "taken B A new_id c indices =
     (if chunk_is_empty c then Some c
      else if indices = [] then Some (emptied A new_id c)
      else
        let is_sorted = chunk_is_sorted c \<or> length indices < 2
        in do { chunk \<leftarrow> take_columns A new_id c indices is_sorted;
                debug_checked B A
                  (chunk\<lparr>chunk_is_sorted := (is_sorted \<or> is_row_ids_sorted_uncached chunk)\<rparr>) })"

text \<open>\<open>itertools::dedup_with_count\<close>: the runs of equal elements, and the index of the last of each run.\<close>

fun dedup_with_count :: "'e list \<Rightarrow> (nat \<times> 'e) list" where
  "dedup_with_count [] = []"
| "dedup_with_count (x # xs) =
     (case dedup_with_count xs of
        [] \<Rightarrow> [(1, x)]
      | (n, y) # runs \<Rightarrow> if x = y then (Suc n, y) # runs else (1, x) # (n, y) # runs)"

fun run_ends :: "nat \<Rightarrow> (nat \<times> 'e) list \<Rightarrow> nat list" where
  "run_ends i [] = []"
| "run_ends i ((n, _) # runs) = (i + n - 1) # run_ends (i + n) runs"

definition deduped_latest_on_index ::
  "'a build \<Rightarrow> ('a, 'd, 'v) arrow \<Rightarrow> ChunkId \<Rightarrow> 'a Chunk \<Rightarrow> string \<Rightarrow> 'a Chunk option" where
  "deduped_latest_on_index B A new_id c index =
     (if chunk_is_empty c then Some c
      else if chunk_is_static c then Some (row_sliced_shallow A new_id c (num_rows c - 1) 1)
      else case map_of (chunk_timelines c) index of
        None \<Rightarrow> Some c
      | Some time_column \<Rightarrow>
          do { chunk \<leftarrow> take_columns A new_id c (run_ends 0 (dedup_with_count (tc_times time_column)))
                          (chunk_is_sorted c);
               debug_checked B A chunk })"

section \<open>Sorting\<close>

text \<open>
  \<open>let mut sorted = xs.to_vec(); for (to, from) in swaps { sorted[to] = xs[from] }\<close>; an index out
  of range panics.
\<close>

definition swap_into :: "nat list \<Rightarrow> 'e list \<Rightarrow> 'e list option" where
  "swap_into swaps xs =
     (if length swaps \<le> length xs \<and> list_all (\<lambda>i. i < length xs) swaps
      then Some (foldl (\<lambda>sorted (i, j). sorted[i := xs ! j]) xs (enumerate 0 swaps))
      else None)"

definition shuffle_time :: "nat list \<Rightarrow> TimeColumn \<Rightarrow> TimeColumn option" where
  "shuffle_time swaps tc =
     do { sorted \<leftarrow> swap_into swaps (tc_times tc);
          Some (tc\<lparr>tc_is_sorted := windows_sorted sorted, tc_times := sorted\<rparr>) }"

definition shuffle_list_array :: "('a, 'd, 'v) arrow \<Rightarrow> nat list \<Rightarrow> 'a \<Rightarrow> 'a option" where
  "shuffle_list_array A swaps original =
     do { let sorted_arrays = map (la_value A original) swaps;
          vs \<leftarrow> k_concat (k_child A) sorted_arrays;
          Some (la_new A (la_data_type A original) (map length sorted_arrays) vs
                  (map_option (\<lambda>validity. map ((!) validity) swaps) (la_nulls A original))) }"

definition shuffle_with ::
  "('a, 'd, 'v) arrow \<Rightarrow> ChunkId \<Rightarrow> nat list \<Rightarrow> 'a Chunk \<Rightarrow> 'a Chunk option" where
  "shuffle_with A new_id swaps c =
     do { row_ids \<leftarrow> swap_into swaps (chunk_row_ids c);
          timelines \<leftarrow> those (map (\<lambda>(timeline, tc). map_option (Pair timeline) (shuffle_time swaps tc))
                                (chunk_timelines c));
          components \<leftarrow> those (map (\<lambda>(k, col).
            map_option (\<lambda>a. (k, col\<lparr>col_list_array := a\<rparr>)) (shuffle_list_array A swaps (col_list_array col)))
              (chunk_components c));
          let chunk = c\<lparr>chunk_id := new_id, chunk_row_ids := row_ids, chunk_timelines := timelines,
                        chunk_components := components\<rparr>
          in Some (chunk\<lparr>chunk_is_sorted := is_row_ids_sorted_uncached chunk\<rparr>) }"

definition sort_by_row_ids_if_needed ::
  "'a build \<Rightarrow> ('a, 'd, 'v) arrow \<Rightarrow> ChunkId \<Rightarrow> 'a Chunk \<Rightarrow> 'a Chunk option" where
  "sort_by_row_ids_if_needed B A new_id c =
     (if chunk_is_sorted c then Some c
      else
        let c = c\<lparr>chunk_id := new_id\<rparr>;
            swaps = sort_key (\<lambda>i. chunk_row_ids c ! i) [0..<length (chunk_row_ids c)]
        in do { chunk \<leftarrow> shuffle_with A new_id swaps c; debug_checked B A chunk })"

definition sorted_by_timeline_if_unsorted ::
  "'a build \<Rightarrow> ('a, 'd, 'v) arrow \<Rightarrow> ChunkId \<Rightarrow> 'a Chunk \<Rightarrow> string \<Rightarrow> 'a Chunk option" where
  "sorted_by_timeline_if_unsorted B A new_id c timeline =
     (case map_of (chunk_timelines c) timeline of
        None \<Rightarrow> Some c
      | Some time_column \<Rightarrow>
          if tc_is_sorted time_column then Some c
          else
            let chunk = clone_with_id c new_id;
                swaps = sort_key (\<lambda>i. (tc_times time_column ! i, chunk_row_ids chunk ! i))
                          [0..<length (tc_times time_column)]
            in do { chunk \<leftarrow> shuffle_with A new_id swaps chunk; debug_checked B A chunk })"

section \<open>Slicing picks rows\<close>

lemma list_all2_map_same:
  "(\<And>k v. (k, v) \<in> set xs \<Longrightarrow> P v (f v)) \<Longrightarrow>
   list_all2 (rel_prod (=) P) xs (map (\<lambda>(k, v). (k, f v)) xs)"
  unfolding list.rel_map by (rule list.rel_refl_strong) auto

lemma slice_nth: "i + n \<le> length xs \<Longrightarrow> take n (drop i xs) = map ((!) xs) [i..<i + n]"
  by (intro nth_equalityI) auto

lemma compress_nth:
  assumes "length keep = length xs"
  shows "compress keep xs = map ((!) xs) (compress keep [0..<length xs])"
  using compress_map [of keep "[0..<length xs]" "(!) xs"] assms by (simp add: map_nth)

context arrow_laws
begin

lemma emptied_picks:
  assumes "columns_ok A c"
  shows "picks A [] c (emptied A new_id c)" "chunk_ok B A (emptied A new_id c)"
proof -
  have comps: "components_ok A (num_rows c) (chunk_components c)"
    using assms by (simp add: columns_ok_def)
  show p: "picks A [] c (emptied A new_id c)"
    unfolding picks_def emptied_def
    using new_null(1,3)
    by (auto simp: components_from_iter_map [OF comps] picks_time_def picks_col_def tc_emptied_def
        intro!: list_all2_map_same)
  have "columns_ok A (emptied A new_id c)"
    by (rule picks_columns_ok [OF p assms]) (auto simp: emptied_def)
  then show "chunk_ok B A (emptied A new_id c)"
    by (simp add: chunk_ok_def heap_ok_def emptied_def)
qed

lemma row_sliced_picks:
  assumes ok: "columns_ok A c"
  shows "picks A [i..<min (i + n) (num_rows c)] c (row_sliced_impl A new_id c i n deep)"
    and "chunk_ok B A (row_sliced_impl A new_id c i n deep)"
proof -
  let ?r = "row_sliced_impl A new_id c i n deep"
  let ?m = "min (i + n) (num_rows c) - i"
  let ?idx = "[i..<min (i + n) (num_rows c)]"
  have "picks A ?idx c ?r \<and> chunk_ok B A ?r"
  proof (cases "num_rows c \<le> i \<or> ?m = 0")
    case True
    then have "?r = emptied A new_id c" "?idx = []"
      by (auto simp: row_sliced_impl_def Let_def)
    then show ?thesis using emptied_picks [OF ok] by (simp only:)
  next
    case False
    have comps: "components_ok A (num_rows c) (chunk_components c)"
      and tls: "timelines_ok (num_rows c) (chunk_timelines c)"
      using ok by (simp_all add: columns_ok_def)
    have m: "i + ?m \<le> num_rows c" "i + ?m = min (i + n) (num_rows c)" using False by auto
    have ids: "(if deep then k_deep_slice (k_ids A) i ?m (chunk_row_ids c)
                else k_slice (k_ids A) i ?m (chunk_row_ids c)) = map ((!) (chunk_row_ids c)) ?idx"
      using m kernel_laws.k_slice [OF ids_laws] kernel_laws.k_deep_slice [OF ids_laws]
      by (simp add: num_rows_def slice_nth)
    have times: "picks_time ?idx tc (tc_row_sliced A tc i ?m)" "tc_ok (tc_row_sliced A tc i ?m)"
      if "(k, tc) \<in> set (chunk_timelines c)" for k tc
      using that tls m tc_row_sliced [of tc i ?m]
      by (auto simp: timelines_ok_def picks_time_def slice_nth)
    have cols: "picks_col A ?idx col
        \<lparr>col_list_array = (if deep then la_deep_slice A i ?m (col_list_array col)
                            else la_slice A i ?m (col_list_array col)),
         col_descriptor = col_descriptor col\<rparr>"
      if "(k, col) \<in> set (chunk_components c)" for k col
    proof -
      have "la_len A (col_list_array col) = num_rows c"
        using that comps by (auto simp: components_ok_def)
      then show ?thesis
        using m slice deep_slice by (auto simp: picks_col_def slice_nth)
    qed
    have p: "picks A ?idx c ?r"
      using False
      by (auto simp: picks_def row_sliced_impl_def Let_def ids components_from_iter_map [OF comps]
          intro!: list_all2_map_same times(1) cols)
    have r_ids: "chunk_row_ids ?r = map ((!) (chunk_row_ids c)) ?idx"
      using p by (simp add: picks_def)
    have "sorted (chunk_row_ids ?r)" if "chunk_is_sorted c \<or> ?m < 2"
    proof -
      have "chunk_row_ids ?r = take ?m (drop i (chunk_row_ids c))"
        using m by (simp add: r_ids slice_nth num_rows_def)
      then show ?thesis
        using that ok sorted_short [of "chunk_row_ids ?r"] r_ids
        by (auto simp: columns_ok_def intro: sorted_wrt_take sorted_wrt_drop)
    qed
    then have "chunk_is_sorted ?r \<longleftrightarrow> sorted (chunk_row_ids ?r)"
      using False
      by (auto simp: row_sliced_impl_def Let_def is_row_ids_sorted_uncached_def windows_sorted_iff)
    then have "columns_ok A ?r"
      using False times(2)
      by (intro picks_columns_ok [OF p ok]) (auto simp: row_sliced_impl_def Let_def)
    then show ?thesis
      using p False by (simp add: chunk_ok_def heap_ok_def row_sliced_impl_def Let_def)
  qed
  then show "picks A ?idx c ?r" "chunk_ok B A ?r" by auto
qed

lemma row_sliced_rows:
  assumes "columns_ok A c"
  shows "rows A (row_sliced_impl A new_id c i n deep) = take n (drop i (rows A c))"
proof -
  have "rows A (row_sliced_impl A new_id c i n deep) =
        map (row_at A c) [i..<min (i + n) (num_rows c)]"
    using assms by (intro picks_rows [OF row_sliced_picks(1)]) (auto simp: columns_ok_def)
  also have "\<dots> = take n (drop i (rows A c))"
    by (simp add: rows_def take_map drop_map min_def)
  finally show ?thesis .
qed

text \<open>Filters.\<close>

lemma la_cells_without_nulls:
  assumes "None \<notin> set (la_cells A a)"
  shows "la_cells A (la_without_nulls A a) = la_cells A a"
proof (rule nth_equalityI)
  fix i assume "i < length (la_cells A (la_without_nulls A a))"
  then have i: "i < la_len A a" by (simp add: without_nulls)
  then have "la_cell A a i \<noteq> None"
    using assms by (metis length_la_cells nth_la_cells nth_mem)
  then show "la_cells A (la_without_nulls A a) ! i = la_cells A a ! i"
    using i by (simp add: nth_la_cells la_cell_def without_nulls la_is_valid_def split: if_splits)
qed (simp add: without_nulls)

lemma those_map_Some:
  "(\<And>x. x \<in> set xs \<Longrightarrow> f x = Some (g x)) \<Longrightarrow> those (map f xs) = Some (map g xs)"
  by (induction xs) auto

lemma compress_valid: "None \<notin> set (compress (la_validity A a) (la_cells A a))"
  unfolding la_validity_cells compress_filter by auto

lemma sorted_compress:
  assumes "sorted xs \<or> length (filter id keep) < 2" "length keep = length xs"
  shows "sorted (compress keep xs)"
  using assms(1)
proof
  assume "sorted xs"
  then show ?thesis by (rule sorted_subseq [OF compress_subseq [OF assms(2)]])
qed (use assms(2) in \<open>simp add: sorted_short length_compress\<close>)

definition filtered_column ::
  "bool list \<Rightarrow> string option \<Rightarrow> 'a SerializedComponentColumn \<Rightarrow> 'a SerializedComponentColumn" where
  "filtered_column keep dense col =
     \<lparr>col_list_array = (if Some (cd_component (col_descriptor col)) = dense
                        then la_without_nulls A (la_filter A keep (col_list_array col))
                        else la_filter A keep (col_list_array col)),
      col_descriptor = col_descriptor col\<rparr>"

lemma filtered_column_picks:
  assumes len: "la_len A (col_list_array col) = length keep"
    and dense: "Some (cd_component (col_descriptor col)) = dense \<Longrightarrow> keep = la_validity A (col_list_array col)"
  shows "picks_col A (compress keep [0..<length keep]) col (filtered_column keep dense col)"
proof -
  have cells: "la_cells A (la_filter A keep (col_list_array col)) = compress keep (la_cells A (col_list_array col))"
    by (rule filtering(2)) (simp add: len)
  have "la_cells A (col_list_array (filtered_column keep dense col)) =
      compress keep (la_cells A (col_list_array col))"
  proof (cases "Some (cd_component (col_descriptor col)) = dense")
    case True
    then have "None \<notin> set (compress keep (la_cells A (col_list_array col)))"
      unfolding dense [OF True] by (intro compress_valid)
    then show ?thesis
      using True by (simp add: filtered_column_def la_cells_without_nulls cells)
  qed (simp add: filtered_column_def cells)
  then show ?thesis
    using len compress_nth [of keep "la_cells A (col_list_array col)"]
    by (simp add: picks_col_def filtered_column_def filtering(1) without_nulls(1))
qed

lemma tc_filtered_picks:
  assumes "tc_ok tc" "length (tc_times tc) = length keep"
  shows "\<exists>tc'. tc_filtered A tc keep = Some tc' \<and> tc_ok tc' \<and>
           picks_time (compress keep [0..<length keep]) tc tc'"
  using tc_filtered [OF assms(1) assms(2) [symmetric]] compress_nth [of keep "tc_times tc"] assms(2)
  by (auto simp: picks_time_def)

lemma those_timelines:
  assumes "\<And>k tc. (k, tc) \<in> set tls \<Longrightarrow> \<exists>tc'. f tc = Some tc' \<and> tc_ok tc' \<and> picks_time idx tc tc'"
  shows "\<exists>tls'. those (map (\<lambda>(k, tc). map_option (Pair k) (f tc)) tls) = Some tls' \<and>
           list_all2 (rel_prod (=) (picks_time idx)) tls tls' \<and> (\<forall>(k, tc) \<in> set tls'. tc_ok tc)"
  using assms
proof (induction tls)
  case (Cons x tls)
  obtain k tc where x: "x = (k, tc)" by (cases x)
  have "\<exists>tc'. f tc = Some tc' \<and> tc_ok tc' \<and> picks_time idx tc tc'"
    by (rule Cons.prems [of k]) (simp add: x)
  moreover have "\<exists>tls'. those (map (\<lambda>(k, tc). map_option (Pair k) (f tc)) tls) = Some tls' \<and>
      list_all2 (rel_prod (=) (picks_time idx)) tls tls' \<and> (\<forall>(k, tc) \<in> set tls'. tc_ok tc)"
    using Cons.prems by (intro Cons.IH) auto
  ultimately show ?case by (fastforce simp: x)
qed simp

lemma filter_columns_picks:
  assumes ok: "columns_ok A c" and len: "length keep = num_rows c"
    and dense: "\<And>k col. dense = Some k \<Longrightarrow> (k, col) \<in> set (chunk_components c) \<Longrightarrow>
                  keep = la_validity A (col_list_array col)"
  shows "\<exists>c'. filter_columns A new_id c keep dense = Some c' \<and>
           picks A (compress keep [0..<num_rows c]) c c' \<and> chunk_ok B A c' \<and> chunk_id c' = new_id"
proof -
  let ?idx = "compress keep [0..<length keep]"
  have comps: "components_ok A (num_rows c) (chunk_components c)"
    and tls: "timelines_ok (num_rows c) (chunk_timelines c)"
    using ok by (simp_all add: columns_ok_def)
  have ids: "filter_array (k_ids A) (chunk_row_ids c) keep = Some (compress keep (chunk_row_ids c))"
    using len kernel_laws.k_filter [OF ids_laws] by (simp add: filter_array_def num_rows_def)
  obtain tls' where tls': "those (map (\<lambda>(k, tc). map_option (Pair k) (tc_filtered A tc keep))
        (chunk_timelines c)) = Some tls'"
      "list_all2 (rel_prod (=) (picks_time ?idx)) (chunk_timelines c) tls'" "\<forall>(k, tc) \<in> set tls'. tc_ok tc"
    using those_timelines [of "chunk_timelines c" "\<lambda>tc. tc_filtered A tc keep" ?idx, OF tc_filtered_picks]
      tls len by (auto simp: timelines_ok_def)
  have col: "la_len A (col_list_array col) = length keep \<and>
      (Some (cd_component (col_descriptor col)) = dense \<longrightarrow> keep = la_validity A (col_list_array col))"
    if "(k, col) \<in> set (chunk_components c)" for k col
    using that comps len dense by (auto simp: components_ok_def)
  have "those (map (\<lambda>(_, col).
            map_option (\<lambda>filtered.
              \<lparr>col_list_array = (if Some (cd_component (col_descriptor col)) = dense
                                 then la_without_nulls A filtered else filtered),
               col_descriptor = col_descriptor col\<rparr>)
              (filter_list_array A (col_list_array col) keep)) (chunk_components c)) =
        Some (map (\<lambda>(_, col). filtered_column keep dense col) (chunk_components c))"
    using col by (intro those_map_Some) (auto simp: filter_list_array_def filtered_column_def)
  moreover have "components_from_iter (map (\<lambda>(_, col). filtered_column keep dense col) (chunk_components c)) =
        map (\<lambda>(k, col). (k, filtered_column keep dense col)) (chunk_components c)" (is "_ = ?comps")
    by (rule components_from_iter_map [OF comps]) (simp add: filtered_column_def)
  moreover define c1 where "c1 = \<lparr>chunk_id = new_id, chunk_entity_path = chunk_entity_path c,
      chunk_heap_size = 0, chunk_is_sorted = chunk_is_sorted c \<or> length (filter id keep) < 2,
      chunk_row_ids = compress keep (chunk_row_ids c), chunk_timelines = tls', chunk_components = ?comps\<rparr>"
  moreover define c' where "c' = c1\<lparr>chunk_is_sorted := chunk_is_sorted c1 \<or> is_row_ids_sorted_uncached c1\<rparr>"
  ultimately have eq: "filter_columns A new_id c keep dense = Some c'"
    by (simp add: filter_columns_def ids tls'(1) Let_def)
  have c': "chunk_id c' = new_id" "chunk_entity_path c' = chunk_entity_path c" "chunk_heap_size c' = 0"
    "chunk_row_ids c' = compress keep (chunk_row_ids c)" "chunk_timelines c' = tls'" "chunk_components c' = ?comps"
    "chunk_is_sorted c' \<longleftrightarrow> (chunk_is_sorted c \<or> length (filter id keep) < 2) \<or> sorted (chunk_row_ids c')"
    by (simp_all add: c'_def c1_def is_row_ids_sorted_uncached_def windows_sorted_iff)
  have "list_all2 (rel_prod (=) (picks_col A ?idx)) (chunk_components c) ?comps"
    using col by (intro list_all2_map_same filtered_column_picks) blast+
  moreover have "chunk_row_ids c' = map ((!) (chunk_row_ids c)) ?idx"
    using compress_nth [of keep "chunk_row_ids c"] len by (simp add: c' num_rows_def)
  ultimately have p: "picks A ?idx c c'"
    using tls'(2) by (simp add: picks_def c')
  have "chunk_is_sorted c' \<longleftrightarrow> sorted (chunk_row_ids c')"
    using c'(4,7) sorted_compress [of "chunk_row_ids c" keep] ok len
    by (auto simp: columns_ok_def num_rows_def)
  then have "columns_ok A c'"
    using tls'(3) c'(5) by (intro picks_columns_ok [OF p ok]) auto
  then show ?thesis
    using eq c' p len by (auto simp: chunk_ok_def heap_ok_def)
qed

text \<open>Permutations.\<close>

lemma foldl_swaps:
  "length swaps \<le> length ys \<Longrightarrow>
   foldl (\<lambda>sorted (i, j). sorted[i := xs ! j]) ys (enumerate 0 swaps) =
   map ((!) xs) swaps @ drop (length swaps) ys"
proof (induction swaps rule: rev_induct)
  case (snoc j swaps)
  then obtain y zs where "drop (length swaps) ys = y # zs"
    by (cases "drop (length swaps) ys") auto
  moreover from this have "drop (Suc (length swaps)) ys = zs"
    by (metis drop_Suc list.sel(3) tl_drop)
  ultimately show ?case
    using snoc by (simp add: enumerate_append_eq list_update_append)
qed simp

lemma swap_into_perm:
  assumes "mset swaps = mset [0..<length xs]"
  shows "swap_into swaps xs = Some (map ((!) xs) swaps)" and "mset (map ((!) xs) swaps) = mset xs"
proof -
  have "length swaps = length xs" "set swaps = {0..<length xs}"
    using assms by (metis length_upt minus_nat.diff_0 size_mset) (metis assms set_mset_mset set_upt)
  then show "swap_into swaps xs = Some (map ((!) xs) swaps)"
    by (simp add: swap_into_def foldl_swaps list_all_iff)
  have "mset (map ((!) xs) swaps) = image_mset ((!) xs) (mset [0..<length xs])"
    using assms by simp
  also have "\<dots> = mset xs" by (simp only: flip: mset_map) (simp only: map_nth)
  finally show "mset (map ((!) xs) swaps) = mset xs" .
qed

lemma shuffle_time_picks:
  assumes ok: "tc_ok tc" and swaps: "mset swaps = mset [0..<length (tc_times tc)]"
  shows "\<exists>tc'. shuffle_time swaps tc = Some tc' \<and> tc_ok tc' \<and> picks_time swaps tc tc'"
proof -
  have "set (map ((!) (tc_times tc)) swaps) = set (tc_times tc)"
    using swap_into_perm(2) [OF swaps] by (metis set_mset_mset)
  moreover have "map ((!) (tc_times tc)) swaps = [] \<longleftrightarrow> tc_times tc = []"
    using swap_into_perm(2) [OF swaps] by (metis mset_zero_iff)
  ultimately show ?thesis
    using ok swap_into_perm(1) [OF swaps]
    by (auto simp: shuffle_time_def picks_time_def tc_ok_def windows_sorted_iff simp del: set_map)
qed

lemma shuffle_list_array_picks:
  assumes "swaps \<noteq> []" "\<forall>i \<in> set swaps. i < la_len A a"
  shows "\<exists>b. shuffle_list_array A swaps a = Some b \<and> la_data_type A b = la_data_type A a \<and>
           la_cells A b = map ((!) (la_cells A a)) swaps"
proof -
  let ?vals = "map (la_value A a) swaps"
  have k: "k_concat (k_child A) ?vals = Some (concat ?vals)"
    using assms(1) by (intro kernel_laws.k_concat [OF child_laws]) simp
  have fit: "sum_list (map length ?vals) \<le> length (concat ?vals)" by (simp add: length_concat)
  have pieces: "pieces (map length ?vals) (concat ?vals) = ?vals"
    using pieces_concat [of ?vals "[]"] by (simp only: append_Nil2)
  have "la_cells A (la_new A (la_data_type A a) (map length ?vals) (concat ?vals)
          (map_option (\<lambda>validity. map ((!) validity) swaps) (la_nulls A a))) =
        map ((!) (la_cells A a)) swaps"
  proof (cases "la_nulls A a")
    case None
    then show ?thesis
      using assms(2) unfolding None option.map new_cells_dense [OF fit] pieces
      by (simp add: None nth_la_cells la_cell_def la_is_valid_def)
  next
    case (Some validity)
    have "la_cells A (la_new A (la_data_type A a) (map length ?vals) (concat ?vals)
            (Some (map ((!) validity) swaps))) =
          map (\<lambda>(v, c). if v then Some c else None) (zip (map ((!) validity) swaps) ?vals)"
      using new_cells [OF fit, of "map ((!) validity) swaps"] unfolding pieces by simp
    then show ?thesis
      using assms(2) Some
      by (simp add: nth_la_cells la_cell_def la_is_valid_def zip_map_map zip_same_conv_map)
  qed
  then show ?thesis by (simp add: shuffle_list_array_def k new_type)
qed

lemma those_components:
  assumes "\<And>k col. (k, col) \<in> set comps \<Longrightarrow> \<exists>a. f col = Some a \<and> picks_col A idx col (col\<lparr>col_list_array := a\<rparr>)"
  shows "\<exists>comps'. those (map (\<lambda>(k, col). map_option (\<lambda>a. (k, col\<lparr>col_list_array := a\<rparr>)) (f col)) comps) =
           Some comps' \<and> list_all2 (rel_prod (=) (picks_col A idx)) comps comps'"
  using assms
proof (induction comps)
  case (Cons x comps)
  obtain k col where x: "x = (k, col)" by (cases x)
  have "\<exists>a. f col = Some a \<and> picks_col A idx col (col\<lparr>col_list_array := a\<rparr>)"
    by (rule Cons.prems [of k]) (simp add: x)
  moreover have "\<exists>comps'. those (map (\<lambda>(k, col). map_option (\<lambda>a. (k, col\<lparr>col_list_array := a\<rparr>)) (f col)) comps) =
           Some comps' \<and> list_all2 (rel_prod (=) (picks_col A idx)) comps comps'"
    using Cons.prems by (intro Cons.IH) auto
  ultimately show ?case by (fastforce simp: x)
qed simp

lemma shuffle_with_picks:
  assumes ok: "columns_ok A c" and swaps: "mset swaps = mset [0..<num_rows c]" and ne: "num_rows c \<noteq> 0"
  shows "\<exists>c'. shuffle_with A new_id swaps c = Some c' \<and> picks A swaps c c' \<and> columns_ok A c' \<and>
           chunk_heap_size c' = chunk_heap_size c"
proof -
  have comps: "components_ok A (num_rows c) (chunk_components c)"
    and tls: "timelines_ok (num_rows c) (chunk_timelines c)"
    using ok by (simp_all add: columns_ok_def)
  have set: "set swaps = {0..<num_rows c}"
    using arg_cong [OF swaps, of set_mset] by simp
  have ids: "swap_into swaps (chunk_row_ids c) = Some (map ((!) (chunk_row_ids c)) swaps)"
    using swaps by (intro swap_into_perm(1)) (simp add: num_rows_def)
  have "\<exists>tc'. shuffle_time swaps tc = Some tc' \<and> tc_ok tc' \<and> picks_time swaps tc tc'"
    if "(k, tc) \<in> set (chunk_timelines c)" for k tc
  proof -
    have "tc_ok tc" "length (tc_times tc) = num_rows c" using that tls by (auto simp: timelines_ok_def)
    then show ?thesis using swaps by (intro shuffle_time_picks) simp_all
  qed
  then obtain tls' where tls': "those (map (\<lambda>(k, tc). map_option (Pair k) (shuffle_time swaps tc))
        (chunk_timelines c)) = Some tls'"
      "list_all2 (rel_prod (=) (picks_time swaps)) (chunk_timelines c) tls'" "\<forall>(k, tc) \<in> set tls'. tc_ok tc"
    using those_timelines [of "chunk_timelines c" "shuffle_time swaps" swaps] by blast
  have "\<exists>a. shuffle_list_array A swaps (col_list_array col) = Some a \<and>
      picks_col A swaps col (col\<lparr>col_list_array := a\<rparr>)"
    if "(k, col) \<in> set (chunk_components c)" for k col
    using shuffle_list_array_picks [of swaps "col_list_array col"] that comps set ne
    by (fastforce simp: components_ok_def picks_col_def)
  then obtain comps' where comps': "those (map (\<lambda>(k, col). map_option (\<lambda>a. (k, col\<lparr>col_list_array := a\<rparr>))
          (shuffle_list_array A swaps (col_list_array col))) (chunk_components c)) = Some comps'"
      "list_all2 (rel_prod (=) (picks_col A swaps)) (chunk_components c) comps'"
    using those_components [of "chunk_components c" "\<lambda>col. shuffle_list_array A swaps (col_list_array col)" swaps]
    by blast
  define c1 where "c1 = c\<lparr>chunk_id := new_id, chunk_row_ids := map ((!) (chunk_row_ids c)) swaps,
      chunk_timelines := tls', chunk_components := comps'\<rparr>"
  define c' where "c' = c1\<lparr>chunk_is_sorted := is_row_ids_sorted_uncached c1\<rparr>"
  have eq: "shuffle_with A new_id swaps c = Some c'"
    by (simp add: shuffle_with_def ids tls'(1) comps'(1) Let_def c1_def c'_def)
  have p: "picks A swaps c c'"
    using tls'(2) comps'(2) by (simp add: picks_def c1_def c'_def)
  have "columns_ok A c'"
    using tls'(3)
    by (intro picks_columns_ok [OF p ok])
       (auto simp: c1_def c'_def is_row_ids_sorted_uncached_def windows_sorted_iff)
  then show ?thesis using eq p by (simp add: c1_def c'_def)
qed

end

text \<open>Sorting indices by a key of the elements is sorting the elements.\<close>

lemma map_insort_key: "map f (insort_key (\<lambda>i. k (f i)) x xs) = insort_key k (f x) (map f xs)"
  by (induction xs) auto

lemma map_sort_key: "map f (sort_key (\<lambda>i. k (f i)) xs) = sort_key k (map f xs)"
  by (induction xs) (simp_all add: map_insort_key)

lemma sort_key_sorted: "sorted (map k xs) \<Longrightarrow> sort_key k xs = xs"
  by (induction xs) (auto simp: insort_is_Cons)

lemma map_rw_id_rows: "map rw_id (rows A c) = chunk_row_ids c"
  by (intro nth_equalityI) (simp_all add: num_rows_def row_at_def)

text \<open>The time of a row on a timeline that the chunk has.\<close>

definition rw_time :: "string \<Rightarrow> 'v row \<Rightarrow> i64" where
  "rw_time timeline r = the (rw_times r timeline)"

lemma rw_time_row_at:
  "map_of (chunk_timelines c) timeline = Some tc \<Longrightarrow> rw_time timeline (row_at A c i) = tc_times tc ! i"
  by (simp add: rw_time_def row_at_def)

lemma row_at_clone: "row_at A (clone_with_id c new_id) = row_at A c"
  by (rule ext) (simp add: row_at_def clone_with_id_def)

lemma rw_id_row_at: "rw_id (row_at A c i) = chunk_row_ids c ! i"
  by (simp add: row_at_def)

definition heap_unset :: "'a build \<Rightarrow> 'a Chunk \<Rightarrow> bool" where
  "heap_unset B c \<longleftrightarrow> (debug_assertions B \<longrightarrow> chunk_heap_size c = 0)"

context arrow_laws
begin

lemma debug_checked_columns:
  assumes "columns_ok A c" "heap_unset B c" "lenient B"
  shows "debug_checked B A c = Some c"
proof (cases "debug_assertions B")
  case True
  then have "chunk_ok B A c" using assms by (simp add: chunk_ok_def heap_ok_def heap_unset_def)
  then show ?thesis using assms(3) by (rule debug_checked_ok)
qed (simp add: debug_checked_def)

lemma sort_by_row_ids:
  assumes ok: "columns_ok A c" and heap: "heap_unset B c" and B: "lenient B"
  shows "\<exists>c'. sort_by_row_ids_if_needed B A new_id c = Some c' \<and> columns_ok A c' \<and> chunk_is_sorted c' \<and>
           rows A c' = sort_key rw_id (rows A c) \<and> chunk_heap_size c' = chunk_heap_size c \<and>
           chunk_entity_path c' = chunk_entity_path c"
proof (cases "chunk_is_sorted c")
  case True
  then have "sort_key rw_id (rows A c) = rows A c"
    using ok by (intro sort_key_sorted) (simp add: map_rw_id_rows columns_ok_def)
  then show ?thesis using True ok by (simp add: sort_by_row_ids_if_needed_def)
next
  case False
  let ?swaps = "sort_key (\<lambda>i. chunk_row_ids c ! i) [0..<num_rows c]"
  let ?c = "c\<lparr>chunk_id := new_id\<rparr>"
  have c: "columns_ok A ?c" "num_rows ?c = num_rows c"
    using ok by (simp_all add: columns_ok_def num_rows_def)
  have ne: "num_rows c \<noteq> 0"
    using False ok by (auto simp: columns_ok_def num_rows_def)
  obtain c' where c': "shuffle_with A new_id ?swaps ?c = Some c'" "picks A ?swaps ?c c'" "columns_ok A c'"
    "chunk_heap_size c' = chunk_heap_size ?c"
    using shuffle_with_picks [OF c(1), of ?swaps new_id] ne c(2) by auto
  have "rows A c' = map (row_at A ?c) ?swaps"
    using c by (intro picks_rows [OF c'(2)]) (auto simp: columns_ok_def)
  also have "\<dots> = map (row_at A c) (sort_key (\<lambda>i. rw_id (row_at A c i)) [0..<num_rows c])"
    by (simp add: row_at_def)
  also have "\<dots> = sort_key rw_id (rows A c)"
    unfolding map_sort_key by (simp add: rows_def)
  finally have rows: "rows A c' = sort_key rw_id (rows A c)" .
  then have "chunk_row_ids c' = map rw_id (sort_key rw_id (rows A c))"
    using map_rw_id_rows [of A c'] by simp
  then have "chunk_is_sorted c'"
    using c'(3) by (simp add: columns_ok_def)
  moreover have "debug_checked B A c' = Some c'"
    using c'(3,4) heap B by (intro debug_checked_columns) (simp_all add: heap_unset_def)
  moreover have "chunk_entity_path c' = chunk_entity_path c"
    using c'(2) by (simp add: picks_def)
  ultimately show ?thesis
    using False c' rows by (simp add: sort_by_row_ids_if_needed_def num_rows_def Let_def)
qed

lemma sorted_by_timeline:
  assumes ok: "columns_ok A c" and heap: "heap_unset B c" and B: "lenient B"
    and tc: "map_of (chunk_timelines c) timeline = Some tc" and unsorted: "\<not> tc_is_sorted tc"
  shows "\<exists>c'. sorted_by_timeline_if_unsorted B A new_id c timeline = Some c' \<and> columns_ok A c' \<and>
           rows A c' = sort_key (\<lambda>r. (rw_time timeline r, rw_id r)) (rows A c) \<and>
           picks A (sort_key (\<lambda>i. (tc_times tc ! i, chunk_row_ids c ! i)) [0..<num_rows c]) c c'"
proof -
  let ?swaps = "sort_key (\<lambda>i. (tc_times tc ! i, chunk_row_ids c ! i)) [0..<num_rows c]"
  have tc_ok: "tc_ok tc" "length (tc_times tc) = num_rows c"
    using ok map_of_SomeD [OF tc] by (auto simp: columns_ok_def timelines_ok_def)
  have ne: "num_rows c \<noteq> 0"
    using tc_ok unsorted by (metis length_0_conv sorted_wrt.simps(1) tc_ok_def)
  let ?c = "clone_with_id c new_id"
  have c: "columns_ok A ?c" "num_rows ?c = num_rows c"
    using ok by (simp_all add: columns_ok_def num_rows_def clone_with_id_def)
  obtain c' where c': "shuffle_with A new_id ?swaps ?c = Some c'" "picks A ?swaps ?c c'" "columns_ok A c'"
    "chunk_heap_size c' = chunk_heap_size ?c"
    using shuffle_with_picks [OF c(1), of ?swaps new_id] ne c(2) by auto
  have "rows A c' = map (row_at A ?c) ?swaps"
    using c by (intro picks_rows [OF c'(2)]) (auto simp: columns_ok_def)
  also have "\<dots> = map (row_at A c)
      (sort_key (\<lambda>i. (rw_time timeline (row_at A c i), rw_id (row_at A c i))) [0..<num_rows c])"
    by (simp add: rw_time_row_at [OF tc] row_at_clone rw_id_row_at)
  also have "\<dots> = sort_key (\<lambda>r. (rw_time timeline r, rw_id r)) (rows A c)"
    using map_sort_key [of "row_at A c" "\<lambda>r. (rw_time timeline r, rw_id r)"] by (simp add: rows_def)
  finally have "rows A c' = sort_key (\<lambda>r. (rw_time timeline r, rw_id r)) (rows A c)" .
  moreover have "debug_checked B A c' = Some c'"
    using c'(3,4) heap B by (intro debug_checked_columns) (simp_all add: heap_unset_def clone_with_id_def)
  moreover have "picks A ?swaps c c'"
    using c'(2) by (simp add: picks_def clone_with_id_def)
  ultimately show ?thesis
    using c' unsorted tc
    by (simp add: sorted_by_timeline_if_unsorted_def tc_ok(2) Let_def clone_with_id_def)
qed

end

end
