(* ===== verification/Chunk_Query.thy ===== *)
theory Chunk_Query
  imports Chunk_Slice
begin

text \<open>
  The queries on one chunk: \<open>src/crates/store/dl_chunk/src/latest_at.rs\<close> and \<open>range.rs\<close>, with
  their query types. The theorems relate the index searches on sorted columns and the scans
  of unsorted ones to the rows of the chunk.
\<close>

section \<open>Latest-at\<close>

record LatestAtQuery =
  lq_timeline :: "string option"
  lq_at :: TimeInt

definition latest_at_query_new :: "string \<Rightarrow> (try_from_int_error, TimeInt) result \<Rightarrow> LatestAtQuery" where
  "latest_at_query_new timeline at = \<lparr>lq_timeline = Some timeline, lq_at = saturated_temporal at\<rparr>"

definition latest_at_query_latest :: "string \<Rightarrow> LatestAtQuery" where
  "latest_at_query_latest timeline = \<lparr>lq_timeline = Some timeline, lq_at = time_MAX\<rparr>"

definition latest_at_query_static :: LatestAtQuery where
  "latest_at_query_static = \<lparr>lq_timeline = None, lq_at = STATIC\<rparr>"

text \<open>\<open>for i in (0..n).rev() { if valid(i) { index = Some(i); break; } }\<close>\<close>

fun last_valid :: "(nat \<Rightarrow> bool) \<Rightarrow> nat \<Rightarrow> nat option" where
  "last_valid valid 0 = None"
| "last_valid valid (Suc n) = (if valid n then Some n else last_valid valid n)"

text \<open>The body of the loop over an unsorted static chunk, and over an unsorted temporal one.\<close>

definition static_step ::
  "(nat \<Rightarrow> bool) \<Rightarrow> nat \<times> RowId \<Rightarrow> RowId \<times> nat option \<Rightarrow> RowId \<times> nat option" where
  "static_step valid = (\<lambda>(i, row_id) (closest_row_id, index).
     if valid i \<and> closest_row_id < row_id then (row_id, Some i) else (closest_row_id, index))"

definition temporal_step ::
  "(nat \<Rightarrow> bool) \<Rightarrow> i64 list \<Rightarrow> TimeInt \<Rightarrow> nat \<times> RowId
   \<Rightarrow> TimeInt \<times> RowId \<times> nat option \<Rightarrow> TimeInt \<times> RowId \<times> nat option" where
  "temporal_step valid ts at = (\<lambda>(i, row_id) (closest_data_time, closest_row_id, index).
     if \<not> valid i then (closest_data_time, closest_row_id, index)
     else
       let data_time = new_temporal (ts ! i);
           is_closer_time = closest_data_time < data_time \<and> data_time \<le> at;
           is_same_time_but_closer_row_id = data_time = closest_data_time \<and> closest_row_id < row_id
       in if is_closer_time \<or> is_same_time_but_closer_row_id then (data_time, row_id, Some i)
          else (closest_data_time, closest_row_id, index))"

definition latest_at_index ::
  "('a, 'd, 'v) arrow \<Rightarrow> 'a Chunk \<Rightarrow> LatestAtQuery \<Rightarrow> string \<Rightarrow> nat option" where
  "latest_at_index A c query component =
     (if chunk_is_empty c then None
      else do {
        component_list_array \<leftarrow> get_array (chunk_components c) component;
        let valid = la_is_valid A component_list_array;
        if chunk_is_static c
        then if chunk_is_sorted c then last_valid valid (num_rows c)
             else snd (fold (static_step valid) (enumerate 0 (chunk_row_ids c)) (tuid_ZERO, None))
        else do {
          timeline \<leftarrow> lq_timeline query;
          time_column \<leftarrow> map_of (chunk_timelines c) timeline;
          let ts = tc_times time_column;
          if tc_is_sorted time_column
          then let i = partition_point (\<lambda>t. t \<le> as_i64 (lq_at query)) ts - 1
               in last_valid valid (i + 1)
          else snd (snd (fold (temporal_step valid ts (lq_at query)) (enumerate 0 (chunk_row_ids c))
                 (time_MIN, tuid_ZERO, None))) } })"

text \<open>The outer option is a panic, the inner one an empty answer.\<close>

definition latest_at ::
  "('a, 'd, 'v) arrow \<Rightarrow> ChunkId \<Rightarrow> 'a Chunk \<Rightarrow> LatestAtQuery \<Rightarrow> string \<Rightarrow> 'a UnitChunkShared option option" where
  "latest_at A new_id c query component =
     (case latest_at_index A c query component of
        None \<Rightarrow> Some None
      | Some i \<Rightarrow> map_option Some (row_sliced_unit_shallow A new_id c i))"

section \<open>Range\<close>

record RangeQueryOptions =
  opt_keep_extra_timelines :: bool
  opt_keep_extra_components :: bool
  opt_include_extended_bounds :: bool

record RangeQuery =
  rq_timeline :: string
  rq_range :: AbsoluteTimeRange
  rq_options :: RangeQueryOptions

definition options_DEFAULT :: RangeQueryOptions where
  "options_DEFAULT = \<lparr>opt_keep_extra_timelines = False, opt_keep_extra_components = False,
     opt_include_extended_bounds = False\<rparr>"

definition range_query_new :: "string \<Rightarrow> AbsoluteTimeRange \<Rightarrow> RangeQuery" where
  "range_query_new timeline r = \<lparr>rq_timeline = timeline, rq_range = r, rq_options = options_DEFAULT\<rparr>"

definition with_extras :: "string \<Rightarrow> AbsoluteTimeRange \<Rightarrow> RangeQuery" where
  "with_extras timeline r = \<lparr>rq_timeline = timeline, rq_range = r,
     rq_options = \<lparr>opt_keep_extra_timelines = True, opt_keep_extra_components = True,
                   opt_include_extended_bounds = False\<rparr>\<rparr>"

definition range_query_everything :: "string \<Rightarrow> RangeQuery" where
  "range_query_everything timeline =
     \<lparr>rq_timeline = timeline, rq_range = range_EVERYTHING, rq_options = options_DEFAULT\<rparr>"

definition include_extended_bounds :: "RangeQuery \<Rightarrow> bool \<Rightarrow> RangeQuery" where
  "include_extended_bounds q toggle =
     q\<lparr>rq_options := (rq_options q)\<lparr>opt_include_extended_bounds := toggle\<rparr>\<rparr>"

definition keep_extra_timelines :: "RangeQuery \<Rightarrow> bool \<Rightarrow> RangeQuery" where
  "keep_extra_timelines q toggle = q\<lparr>rq_options := (rq_options q)\<lparr>opt_keep_extra_timelines := toggle\<rparr>\<rparr>"

definition keep_extra_components :: "RangeQuery \<Rightarrow> bool \<Rightarrow> RangeQuery" where
  "keep_extra_components q toggle = q\<lparr>rq_options := (rq_options q)\<lparr>opt_keep_extra_components := toggle\<rparr>\<rparr>"

text \<open>The temporal branch, after the columns have been selected; \<open>n\<close> is the size of the queried chunk.\<close>

definition range_temporal ::
  "'a build \<Rightarrow> ('a, 'd, 'v) arrow \<Rightarrow> ChunkId \<Rightarrow> nat \<Rightarrow> 'a Chunk \<Rightarrow> RangeQuery \<Rightarrow> string \<Rightarrow> 'a Chunk option" where
  "range_temporal B A new_id n c query component =
     (case map_of (chunk_timelines c) (rq_timeline query) of
        None \<Rightarrow> Some (emptied A new_id c)
      | Some time_column \<Rightarrow>
          do { let is_sorted_by_time = tc_is_sorted time_column;
               (chunk, _) \<leftarrow> densified B A new_id c component;
               chunk \<leftarrow> (if is_sorted_by_time then Some chunk
                         else sorted_by_timeline_if_unsorted B A new_id chunk (rq_timeline query));
               case map_of (chunk_timelines chunk) (rq_timeline query) of
                 None \<Rightarrow> Some (emptied A new_id chunk)
               | Some time_column \<Rightarrow>
                   let ts = tc_times time_column;
                       start_index = partition_point (\<lambda>t. t < as_i64 (range_min (rq_range query))) ts;
                       end_index = partition_point (\<lambda>t. t \<le> as_i64 (range_max (rq_range query))) ts;
                       (start_index, end_index) =
                         (if opt_include_extended_bounds (rq_options query)
                          then (start_index - 1, min n (end_index + 1)) else (start_index, end_index))
                   in Some (row_sliced_shallow A new_id chunk start_index (end_index - start_index)) })"

definition range_query ::
  "'a build \<Rightarrow> ('a, 'd, 'v) arrow \<Rightarrow> ChunkId \<Rightarrow> 'a Chunk \<Rightarrow> RangeQuery \<Rightarrow> string \<Rightarrow> 'a Chunk option" where
  "range_query B A new_id c query component =
     (if chunk_is_empty c then Some c
      else do {
        chunk \<leftarrow> (if opt_keep_extra_timelines (rq_options query) then Some c
                  else timeline_sliced B A new_id c (rq_timeline query));
        chunk \<leftarrow> (if opt_keep_extra_components (rq_options query) then Some chunk
                  else component_sliced B A new_id chunk component);
        if chunk_is_static chunk
        then do { answer \<leftarrow> latest_at A new_id chunk latest_at_query_static component;
                  case answer of
                    Some u \<Rightarrow> Some (unit_chunk u)
                  | None \<Rightarrow> Some (emptied A new_id chunk) }
        else range_temporal B A new_id (num_rows c) chunk query component })"

section \<open>The latest row\<close>

lemma last_valid_None: "last_valid P n = None \<longleftrightarrow> (\<forall>i < n. \<not> P i)"
  by (induction n) (auto simp: less_Suc_eq)

lemma last_valid_Some:
  "last_valid P n = Some i \<Longrightarrow> i < n \<and> P i \<and> (\<forall>j. i < j \<longrightarrow> j < n \<longrightarrow> \<not> P j)"
  by (induction n) (auto simp: less_Suc_eq split: if_splits)

text \<open>
  \<open>is_latest good key n index\<close>: the index, if any, of a good element below \<open>n\<close> with a maximal key.
\<close>

definition is_latest :: "(nat \<Rightarrow> bool) \<Rightarrow> (nat \<Rightarrow> 'k :: linorder) \<Rightarrow> nat \<Rightarrow> nat option \<Rightarrow> bool" where
  "is_latest good key n index \<longleftrightarrow>
     (case index of
        None \<Rightarrow> \<forall>i < n. \<not> good i
      | Some i \<Rightarrow> i < n \<and> good i \<and> (\<forall>j < n. good j \<longrightarrow> key j \<le> key i))"

text \<open>The scan of an unsorted chunk.\<close>

lemma temporal_scan:
  assumes at: "time_MIN \<le> at" and ids: "\<And>i. i < length ids \<Longrightarrow> tuid_ZERO < ids ! i"
  shows "\<exists>ct cr index. fold (temporal_step valid ts at) (enumerate 0 ids) (time_MIN, tuid_ZERO, None) = (ct, cr, index) \<and>
     is_latest (\<lambda>i. valid i \<and> new_temporal (ts ! i) \<le> at) (\<lambda>i. (new_temporal (ts ! i), ids ! i)) (length ids) index \<and>
     (case index of None \<Rightarrow> ct = time_MIN \<and> cr = tuid_ZERO | Some i \<Rightarrow> ct = new_temporal (ts ! i) \<and> cr = ids ! i)"
  using ids
proof (induction ids rule: rev_induct)
  case Nil
  then show ?case by (simp add: is_latest_def)
next
  case (snoc x ids)
  let ?key = "\<lambda>i. (new_temporal (ts ! i), (ids @ [x]) ! i)" and ?n = "length ids"
  let ?good = "\<lambda>i. valid i \<and> new_temporal (ts ! i) \<le> at"
  have "\<And>i. i < length ids \<Longrightarrow> tuid_ZERO < ids ! i"
    using snoc.prems by (metis length_append_singleton less_SucI nth_append)
  from snoc.IH [OF this] obtain ct cr index where
    f: "fold (temporal_step valid ts at) (enumerate 0 ids) (time_MIN, tuid_ZERO, None) = (ct, cr, index)"
    and l: "is_latest ?good (\<lambda>i. (new_temporal (ts ! i), ids ! i)) ?n index"
    and c: "case index of None \<Rightarrow> ct = time_MIN \<and> cr = tuid_ZERO | Some i \<Rightarrow> ct = new_temporal (ts ! i) \<and> cr = ids ! i"
    by blast
  have l': "is_latest ?good ?key ?n index"
    using l by (auto simp: is_latest_def nth_append split: option.splits)
  have ct: "ct \<le> at" using c l at by (auto simp: is_latest_def split: option.splits)
  have x: "tuid_ZERO < x" using snoc.prems [of ?n] by simp
  have MIN: "time_MIN \<le> new_temporal t" for t by (simp add: time_MIN_le_iff)
  define closer where "closer \<longleftrightarrow> valid ?n \<and> (ct < new_temporal (ts ! ?n) \<and> new_temporal (ts ! ?n) \<le> at \<or>
      new_temporal (ts ! ?n) = ct \<and> cr < x)"
  have step: "fold (temporal_step valid ts at) (enumerate 0 (ids @ [x])) (time_MIN, tuid_ZERO, None) =
      (if closer then (new_temporal (ts ! ?n), x, Some ?n) else (ct, cr, index))"
  proof -
    have "fold (temporal_step valid ts at) (enumerate 0 (ids @ [x])) (time_MIN, tuid_ZERO, None) =
          temporal_step valid ts at (?n, x) (ct, cr, index)"
      by (simp add: enumerate_append_eq f)
    then show ?thesis by (auto simp: temporal_step_def closer_def Let_def)
  qed
  show ?case
  proof (cases closer)
    case True
    then have "?good ?n" using ct by (auto simp: closer_def)
    moreover have "?key j \<le> ?key ?n" if gj: "?good j" "j < ?n" for j
    proof -
      obtain i where i: "index = Some i" "?key j \<le> ?key i" "i < ?n"
        using l' gj by (cases index) (auto simp: is_latest_def)
      then have "?key i \<le> ?key ?n"
        using c True by (auto simp: closer_def nth_append)
      with i(2) show ?thesis by (rule order_trans)
    qed
    ultimately show ?thesis
      using True by (auto simp: step is_latest_def less_Suc_eq)
  next
    case False
    have "is_latest ?good ?key (Suc ?n) index"
    proof (cases index)
      case None
      then have "\<not> ?good ?n"
        using False c x MIN [of "ts ! ?n"] by (auto simp: closer_def)
      then show ?thesis using l' None by (auto simp: is_latest_def less_Suc_eq)
    next
      case (Some i)
      then have "?key ?n \<le> ?key i" if "?good ?n"
        using False c that l' by (auto simp: closer_def is_latest_def nth_append)
      then show ?thesis using l' Some by (auto simp: is_latest_def less_Suc_eq)
    qed
    then show ?thesis
      using False c l by (auto simp: step is_latest_def nth_append split: option.splits)
  qed
qed

text \<open>The search in a sorted chunk.\<close>

lemma sorted_search:
  assumes "sorted ts" "sorted ids" "length ts = length ids" "ids \<noteq> []" "hd ts \<le> as_i64 at" "time_ok at"
    and "i64_MIN \<notin> set ts"
  shows "is_latest (\<lambda>i. valid i \<and> new_temporal (ts ! i) \<le> at) (\<lambda>i. (new_temporal (ts ! i), ids ! i))
           (length ids) (last_valid valid (partition_point (\<lambda>t. t \<le> as_i64 at) ts - 1 + 1))"
proof -
  let ?pp = "partition_point (\<lambda>t. t \<le> as_i64 at) ts"
  have le: "new_temporal (ts ! i) \<le> at \<longleftrightarrow> i < ?pp" if "i < length ids" for i
  proof -
    have "ts ! i \<noteq> i64_MIN" using assms(3,7) that by (metis nth_mem)
    then have "new_temporal (ts ! i) \<le> at \<longleftrightarrow> ts ! i \<le> as_i64 at"
      using new_temporal_less(1) [OF assms(6)] by (simp add: not_less [symmetric])
    moreover have "i < ?pp \<longleftrightarrow> ts ! i \<le> as_i64 at"
      using assms(1,3) that by (intro partition_point_nth) auto
    ultimately show ?thesis by simp
  qed
  have pp: "?pp - 1 + 1 = ?pp"
    using assms(3,4,5) by (cases ts) (auto simp: partition_point_def)
  have bound: "?pp \<le> length ids" using partition_point_le assms(3) by metis
  show ?thesis
  proof (cases "last_valid valid ?pp")
    case None
    then have "\<forall>i < ?pp. \<not> valid i" by (simp add: last_valid_None)
    then show ?thesis unfolding pp None is_latest_def
      using le by auto
  next
    case (Some i)
    then have i: "i < ?pp" "valid i" "\<And>j. i < j \<Longrightarrow> j < ?pp \<Longrightarrow> \<not> valid j"
      using last_valid_Some by blast+
    have "(new_temporal (ts ! j), ids ! j) \<le> (new_temporal (ts ! i), ids ! i)"
      if "valid j" "j < ?pp" for j
    proof -
      have "j \<le> i" using i(3) that by (meson not_le)
      then have "ts ! j \<le> ts ! i" "ids ! j \<le> ids ! i"
        using assms(1,2,3) i(1) bound by (auto intro!: sorted_nth_mono)
      then show ?thesis
        using new_temporal_mono [of "ts ! j" "ts ! i"] by (auto simp: less_eq_prod_def)
    qed
    then show ?thesis unfolding pp Some is_latest_def
      using le i bound by auto
  qed
qed

lemma get_array_cell:
  "get_array (chunk_components c) component = Some a \<Longrightarrow> rw_cells (row_at A c i) component = la_cell A a i"
  by (auto simp: get_array_def row_at_def)

lemma la_cell_None: "la_cell A a i \<noteq> None \<longleftrightarrow> la_is_valid A a i"
  by (simp add: la_cell_def)

text \<open>
  The rows that a latest-at query considers: those with a cell for the component, not later
  than the query. Their order: by time, then by row id.
\<close>

definition latest_candidates ::
  "('a, 'd, 'v) arrow \<Rightarrow> 'a Chunk \<Rightarrow> string \<Rightarrow> TimeInt \<Rightarrow> string \<Rightarrow> 'v row list" where
  "latest_candidates A c timeline at component =
     filter (\<lambda>r. rw_cells r component \<noteq> None \<and> new_temporal (rw_time timeline r) \<le> at) (rows A c)"

definition rw_key :: "string \<Rightarrow> 'v row \<Rightarrow> TimeInt \<times> RowId" where
  "rw_key timeline r = (new_temporal (rw_time timeline r), rw_id r)"

lemma latest_at_index_latest:
  assumes ok: "columns_ok A c" and tc: "map_of (chunk_timelines c) timeline = Some tc"
    and at: "time_ok at" "at \<noteq> STATIC" and ids: "\<forall>r \<in> set (chunk_row_ids c). tuid_ZERO < r"
    and sorted: "tc_is_sorted tc \<Longrightarrow> chunk_is_sorted c"
      "tc_is_sorted tc \<Longrightarrow> \<not> chunk_is_empty c \<Longrightarrow> hd (tc_times tc) \<le> as_i64 at"
  shows "is_latest (\<lambda>i. rw_cells (row_at A c i) component \<noteq> None \<and> new_temporal (rw_time timeline (row_at A c i)) \<le> at)
           (\<lambda>i. rw_key timeline (row_at A c i)) (num_rows c)
           (latest_at_index A c \<lparr>lq_timeline = Some timeline, lq_at = at\<rparr> component)"
proof (cases "chunk_is_empty c \<or> get_array (chunk_components c) component = None")
  case True
  then show ?thesis
    by (auto simp: latest_at_index_def is_latest_def chunk_is_empty_def get_array_def row_at_def)
next
  case False
  then obtain a where a: "get_array (chunk_components c) component = Some a" by auto
  have "tc_ok tc" "length (tc_times tc) = length (chunk_row_ids c)"
    using ok map_of_SomeD [OF tc] by (auto simp: columns_ok_def timelines_ok_def num_rows_def)
  note tc_ok = this
  have static: "\<not> chunk_is_static c" using tc by (auto simp: chunk_is_static_def)
  have "is_latest (\<lambda>i. la_is_valid A a i \<and> new_temporal (tc_times tc ! i) \<le> at)
      (\<lambda>i. (new_temporal (tc_times tc ! i), chunk_row_ids c ! i)) (length (chunk_row_ids c))
      (latest_at_index A c \<lparr>lq_timeline = Some timeline, lq_at = at\<rparr> component)"
  proof (cases "tc_is_sorted tc")
    case True
    then have "latest_at_index A c \<lparr>lq_timeline = Some timeline, lq_at = at\<rparr> component =
        last_valid (la_is_valid A a) (partition_point (\<lambda>t. t \<le> as_i64 at) (tc_times tc) - 1 + 1)"
      using False a static tc by (simp add: latest_at_index_def)
    then show ?thesis
      using True sorted tc_ok ok False at
      by (simp only:) (intro sorted_search,
          auto simp: tc_ok_def columns_ok_def chunk_is_empty_def num_rows_def)
  next
    case unsorted: False
    then have "latest_at_index A c \<lparr>lq_timeline = Some timeline, lq_at = at\<rparr> component =
        snd (snd (fold (temporal_step (la_is_valid A a) (tc_times tc) at) (enumerate 0 (chunk_row_ids c))
           (time_MIN, tuid_ZERO, None)))"
      using False a static tc by (simp add: latest_at_index_def)
    then show ?thesis
      using temporal_scan [of at "chunk_row_ids c" "la_is_valid A a" "tc_times tc"] at ids
      by (auto simp: time_MIN_le_iff)
  qed
  then show ?thesis
    by (simp only: get_array_cell [OF a] la_cell_None rw_key_def rw_time_row_at [OF tc] rw_id_row_at num_rows_def)
qed

context arrow_laws
begin

lemma unit_row:
  assumes "columns_ok A c" "i < num_rows c"
  shows "\<exists>u. row_sliced_unit_shallow A new_id c i = Some u \<and> rows A (unit_chunk u) = [row_at A c i] \<and>
           unit_original_chunk_id u = chunk_id c"
proof -
  have "rows A (row_sliced_impl A new_id c i 1 False) = [row_at A c i]"
    using row_sliced_rows [OF assms(1), of new_id i 1 False] assms(2)
    by (simp add: rows_def take_map drop_map take_Suc)
  moreover from this have "num_rows (row_sliced_impl A new_id c i 1 False) = 1"
    by (metis length_rows length_Cons list.size(3) One_nat_def)
  ultimately show ?thesis
    by (simp add: row_sliced_unit_shallow_def row_sliced_shallow_def into_unit_with_original_chunk_id_def)
qed

end

lemma latest_at_index_by_time:
  assumes ok: "columns_ok A c" and tc: "map_of (chunk_timelines c) timeline = Some tc" and at: "time_ok at"
    and sorted: "tc_is_sorted tc" "\<not> chunk_is_empty c \<Longrightarrow> hd (tc_times tc) \<le> as_i64 at"
  shows "is_latest (\<lambda>i. rw_cells (row_at A c i) component \<noteq> None \<and> new_temporal (rw_time timeline (row_at A c i)) \<le> at)
           (\<lambda>i. new_temporal (rw_time timeline (row_at A c i))) (num_rows c)
           (latest_at_index A c \<lparr>lq_timeline = Some timeline, lq_at = at\<rparr> component)"
proof (cases "chunk_is_empty c \<or> get_array (chunk_components c) component = None")
  case True
  then show ?thesis
    by (auto simp: latest_at_index_def is_latest_def chunk_is_empty_def get_array_def row_at_def)
next
  case False
  then obtain a where a: "get_array (chunk_components c) component = Some a" by auto
  have tc_ok: "tc_ok tc" "length (tc_times tc) = num_rows c"
    using ok map_of_SomeD [OF tc] by (auto simp: columns_ok_def timelines_ok_def)
  have static: "\<not> chunk_is_static c" using tc by (auto simp: chunk_is_static_def)
  have index: "latest_at_index A c \<lparr>lq_timeline = Some timeline, lq_at = at\<rparr> component =
        last_valid (la_is_valid A a) (partition_point (\<lambda>t. t \<le> as_i64 at) (tc_times tc) - 1 + 1)"
    using False a static tc sorted(1) by (simp add: latest_at_index_def)
  let ?same = "replicate (num_rows c) tuid_ZERO"
  have "is_latest (\<lambda>i. la_is_valid A a i \<and> new_temporal (tc_times tc ! i) \<le> at) (\<lambda>i. (new_temporal (tc_times tc ! i), ?same ! i))
      (length ?same) (latest_at_index A c \<lparr>lq_timeline = Some timeline, lq_at = at\<rparr> component)"
    unfolding index using sorted tc_ok False at
    by (intro sorted_search) (auto simp: tc_ok_def chunk_is_empty_def sorted_replicate)
  then have "is_latest (\<lambda>i. la_is_valid A a i \<and> new_temporal (tc_times tc ! i) \<le> at) (\<lambda>i. new_temporal (tc_times tc ! i))
      (num_rows c) (latest_at_index A c \<lparr>lq_timeline = Some timeline, lq_at = at\<rparr> component)"
    by (auto simp: is_latest_def less_eq_prod_def split: option.splits)
  then show ?thesis by (simp only: get_array_cell [OF a] la_cell_None rw_time_row_at [OF tc])
qed

text \<open>What a query answers, given the order in which the searched index is the latest.\<close>

lemma latest_at_by_key:
  assumes "arrow_laws A" "columns_ok A c"
    and latest: "is_latest (\<lambda>i. rw_cells (row_at A c i) component \<noteq> None \<and>
        new_temporal (rw_time timeline (row_at A c i)) \<le> at)
      (\<lambda>i. key (row_at A c i)) (num_rows c) (latest_at_index A c \<lparr>lq_timeline = Some timeline, lq_at = at\<rparr> component)"
  shows "if latest_candidates A c timeline at component = []
         then latest_at A new_id c \<lparr>lq_timeline = Some timeline, lq_at = at\<rparr> component = Some None
         else \<exists>u r. latest_at A new_id c \<lparr>lq_timeline = Some timeline, lq_at = at\<rparr> component = Some (Some u) \<and>
                unit_original_chunk_id u = chunk_id c \<and> rows A (unit_chunk u) = [r] \<and>
                r \<in> set (latest_candidates A c timeline at component) \<and>
                (\<forall>s \<in> set (latest_candidates A c timeline at component). key s \<le> key r)"
proof -
  let ?q = "\<lparr>lq_timeline = Some timeline, lq_at = at\<rparr>"
  have cands: "set (latest_candidates A c timeline at component) = row_at A c ` {i. i < num_rows c \<and>
      rw_cells (row_at A c i) component \<noteq> None \<and> new_temporal (rw_time timeline (row_at A c i)) \<le> at}"
    by (auto simp: latest_candidates_def rows_def)
  show ?thesis
  proof (cases "latest_at_index A c ?q component")
    case None
    then have "set (latest_candidates A c timeline at component) = {}"
      using latest unfolding cands by (auto simp: is_latest_def)
    then show ?thesis using None by (simp add: latest_at_def)
  next
    case (Some i)
    then have i: "i < num_rows c" "row_at A c i \<in> set (latest_candidates A c timeline at component)"
      "\<forall>s \<in> set (latest_candidates A c timeline at component). key s \<le> key (row_at A c i)"
      using latest unfolding cands by (auto simp: is_latest_def)
    then show ?thesis
      using arrow_laws.unit_row [OF assms(1,2) i(1), of new_id] Some by (auto simp: latest_at_def)
  qed
qed

lemma latest_at_answer:
  assumes "arrow_laws A" "columns_ok A c" "map_of (chunk_timelines c) timeline = Some tc"
    and "time_ok at" "at \<noteq> STATIC" "\<forall>r \<in> set (chunk_row_ids c). tuid_ZERO < r"
    and "tc_is_sorted tc \<longrightarrow> chunk_is_sorted c"
    and "tc_is_sorted tc \<and> \<not> chunk_is_empty c \<longrightarrow> hd (tc_times tc) \<le> as_i64 at"
  shows "if latest_candidates A c timeline at component = []
         then latest_at A new_id c \<lparr>lq_timeline = Some timeline, lq_at = at\<rparr> component = Some None
         else \<exists>u r. latest_at A new_id c \<lparr>lq_timeline = Some timeline, lq_at = at\<rparr> component = Some (Some u) \<and>
                unit_original_chunk_id u = chunk_id c \<and> rows A (unit_chunk u) = [r] \<and>
                r \<in> set (latest_candidates A c timeline at component) \<and>
                (\<forall>s \<in> set (latest_candidates A c timeline at component). rw_key timeline s \<le> rw_key timeline r)"
  by (intro latest_at_by_key latest_at_index_latest) (use assms in auto)

text \<open>The searches of a static chunk, sorted by row id or not.\<close>

lemma static_scan:
  assumes "\<And>i. i < length ids \<Longrightarrow> tuid_ZERO < ids ! i"
  shows "\<exists>cr index. fold (static_step valid) (enumerate 0 ids) (tuid_ZERO, None) = (cr, index) \<and>
     is_latest valid (\<lambda>i. ids ! i) (length ids) index \<and> (case index of None \<Rightarrow> cr = tuid_ZERO | Some i \<Rightarrow> cr = ids ! i)"
  using assms
proof (induction ids rule: rev_induct)
  case (snoc x ids)
  have "\<And>i. i < length ids \<Longrightarrow> tuid_ZERO < ids ! i"
    using snoc.prems by (metis length_append_singleton less_SucI nth_append)
  from snoc.IH [OF this] obtain cr index where f: "fold (static_step valid) (enumerate 0 ids) (tuid_ZERO, None) = (cr, index)"
    and l: "is_latest valid (\<lambda>i. ids ! i) (length ids) index"
    and c: "case index of None \<Rightarrow> cr = tuid_ZERO | Some i \<Rightarrow> cr = ids ! i" by blast
  have step: "fold (static_step valid) (enumerate 0 (ids @ [x])) (tuid_ZERO, None) =
      (if valid (length ids) \<and> cr < x then (x, Some (length ids)) else (cr, index))"
  proof -
    have "fold (static_step valid) (enumerate 0 (ids @ [x])) (tuid_ZERO, None) = static_step valid (length ids, x) (cr, index)"
      by (simp add: enumerate_append_eq f)
    then show ?thesis by (simp add: static_step_def)
  qed
  have x: "tuid_ZERO < x" using snoc.prems [of "length ids"] by simp
  show ?case
  proof (cases index)
    case None
    then show ?thesis using l c x unfolding step by (auto simp: is_latest_def nth_append less_Suc_eq)
  next
    case (Some i)
    then have i: "i < length ids" "valid i" "\<forall>j < length ids. valid j \<longrightarrow> ids ! j \<le> ids ! i" "cr = ids ! i"
      using l c by (auto simp: is_latest_def)
    then have "ids ! j \<le> x" if "j < length ids" "valid j" "cr < x" for j
      using that by fastforce
    then show ?thesis using i Some unfolding step
      by (auto simp: is_latest_def nth_append less_Suc_eq not_less)
  qed
qed (simp add: is_latest_def)

lemma sorted_static_search:
  assumes "sorted ids"
  shows "is_latest valid (\<lambda>i. ids ! i) (length ids) (last_valid valid (length ids))"
proof (cases "last_valid valid (length ids)")
  case None
  then have "\<forall>i < length ids. \<not> valid i" by (simp add: last_valid_None)
  then show ?thesis using None by (simp add: is_latest_def)
next
  case (Some i)
  then have i: "i < length ids" "valid i" "\<And>j. i < j \<Longrightarrow> j < length ids \<Longrightarrow> \<not> valid j"
    using last_valid_Some by blast+
  then have "ids ! j \<le> ids ! i" if "j < length ids" "valid j" for j
    using that assms by (intro sorted_nth_mono) (auto simp: not_less [symmetric])
  then show ?thesis using Some i by (simp add: is_latest_def)
qed

text \<open>On a static chunk the answer is the row with the greatest row id that has the component.\<close>

lemma latest_at_index_static:
  assumes ok: "columns_ok A c" and st: "chunk_is_static c" and ids: "\<forall>r \<in> set (chunk_row_ids c). tuid_ZERO < r"
  shows "is_latest (\<lambda>i. rw_cells (row_at A c i) component \<noteq> None) (\<lambda>i. rw_id (row_at A c i)) (num_rows c)
           (latest_at_index A c query component)"
proof (cases "chunk_is_empty c \<or> get_array (chunk_components c) component = None")
  case True
  then show ?thesis
    by (auto simp: latest_at_index_def is_latest_def chunk_is_empty_def get_array_def row_at_def)
next
  case False
  then obtain a where a: "get_array (chunk_components c) component = Some a" by auto
  have "is_latest (la_is_valid A a) (\<lambda>i. chunk_row_ids c ! i) (length (chunk_row_ids c)) (latest_at_index A c query component)"
  proof (cases "chunk_is_sorted c")
    case True
    then have "sorted (chunk_row_ids c)" using ok by (auto simp: columns_ok_def)
    then show ?thesis using False a st True sorted_static_search by (simp add: latest_at_index_def num_rows_def)
  next
    case unsorted: False
    then show ?thesis
      using False a st static_scan [of "chunk_row_ids c" "la_is_valid A a"] ids by (auto simp: latest_at_index_def)
  qed
  then show ?thesis by (simp only: get_array_cell [OF a] la_cell_None rw_id_row_at num_rows_def)
qed

section \<open>Selecting columns\<close>

definition keep_timelines :: "string set \<Rightarrow> 'v row \<Rightarrow> 'v row" where
  "keep_timelines T r = r\<lparr>rw_times := rw_times r |` T\<rparr>"

definition keep_components :: "string set \<Rightarrow> 'v row \<Rightarrow> 'v row" where
  "keep_components K r = r\<lparr>rw_cells := rw_cells r |` K\<rparr>"

context arrow_laws
begin

lemma timeline_sliced:
  assumes ok: "columns_ok A c" and B: "lenient B"
  shows "\<exists>c'. timeline_sliced B A new_id c timeline = Some c' \<and> chunk_ok B A c' \<and> chunk_heap_size c' = 0 \<and>
           num_rows c' = num_rows c \<and>
           rows A c' = map (keep_timelines {timeline}) (rows A c) \<and>
           chunk_components c' = chunk_components c \<and>
           map_of (chunk_timelines c') timeline = map_of (chunk_timelines c) timeline"
proof -
  define c' where "c' = c\<lparr>chunk_id := new_id, chunk_heap_size := 0,
       chunk_timelines := (case map_of (chunk_timelines c) timeline of
                             None \<Rightarrow> [] | Some tc \<Rightarrow> [(timeline, tc)])\<rparr>"
  have n: "num_rows c' = num_rows c" by (simp add: c'_def num_rows_def)
  have "timelines_ok (num_rows c) (chunk_timelines c')"
    using ok by (auto simp: c'_def columns_ok_def timelines_ok_def dest: map_of_SomeD split: option.split)
  then have "chunk_ok B A c'"
    using ok by (simp add: chunk_ok_def heap_ok_def columns_ok_def n) (simp add: c'_def)
  moreover have "rows A c' = map (keep_timelines {timeline}) (rows A c)"
    unfolding rows_def n
    by (auto simp: row_at_def c'_def keep_timelines_def restrict_map_def fun_eq_iff split: option.split)
  moreover have "timeline_sliced B A new_id c timeline = Some c'"
    unfolding timeline_sliced_def c'_def [symmetric] by (rule debug_checked_ok) fact+
  ultimately show ?thesis
    using n by (auto simp: c'_def split: option.split)
qed

lemma component_sliced:
  assumes ok: "columns_ok A c" and B: "lenient B"
  shows "\<exists>c'. component_sliced B A new_id c component = Some c' \<and> chunk_ok B A c' \<and> chunk_heap_size c' = 0 \<and>
           num_rows c' = num_rows c \<and>
           rows A c' = map (keep_components {component}) (rows A c) \<and>
           chunk_timelines c' = chunk_timelines c \<and>
           get_array (chunk_components c') component = get_array (chunk_components c) component"
proof -
  have key: "cd_component (col_descriptor col) = component"
    if "map_of (chunk_components c) component = Some col" for col
    using ok map_of_SomeD [OF that] by (auto simp: columns_ok_def components_ok_def)
  have "components_from_iter (List.map_filter (map_of (chunk_components c)) [component]) =
        (case map_of (chunk_components c) component of None \<Rightarrow> [] | Some col \<Rightarrow> [(component, col)])"
    (is "_ = ?comps")
    using key by (simp add: components_from_iter_def List.map_filter_def insert_column_def split: option.split)
  moreover define c' where "c' = c\<lparr>chunk_id := new_id, chunk_heap_size := 0, chunk_components := ?comps\<rparr>"
  ultimately have eq: "component_sliced B A new_id c component = debug_checked B A c'"
    by (simp add: component_sliced_def components_sliced_def)
  have n: "num_rows c' = num_rows c" by (simp add: c'_def num_rows_def)
  have "components_ok A (num_rows c) (chunk_components c')"
    using ok by (auto simp: c'_def columns_ok_def components_ok_def dest: map_of_SomeD split: option.split)
  then have "chunk_ok B A c'"
    using ok by (simp add: chunk_ok_def heap_ok_def columns_ok_def n) (simp add: c'_def)
  moreover have "rows A c' = map (keep_components {component}) (rows A c)"
    unfolding rows_def n
    by (auto simp: row_at_def c'_def keep_components_def restrict_map_def fun_eq_iff split: option.split)
  moreover have "component_sliced B A new_id c component = Some c'"
    unfolding eq by (rule debug_checked_ok) fact+
  ultimately show ?thesis
    using n by (auto simp: c'_def get_array_def split: option.split)
qed

lemma compress_rows:
  assumes "length keep = num_rows c" "\<And>i. i < num_rows c \<Longrightarrow> keep ! i \<longleftrightarrow> P (row_at A c i)"
  shows "map (row_at A c) (compress keep [0..<num_rows c]) = filter P (rows A c)"
proof -
  have "keep = map P (rows A c)"
    using assms by (intro nth_equalityI) auto
  then have "compress keep (rows A c) = filter P (rows A c)"
    by (simp add: compress_filter)
  then show ?thesis
    using compress_map [of keep "[0..<num_rows c]" "row_at A c"] assms(1) by (simp add: rows_def)
qed

text \<open>Densifying on a component keeps the rows that have it.\<close>

lemma densified_rows:
  assumes ok: "columns_ok A c" and heap: "heap_unset B c" and B: "lenient B"
    and a: "get_array (chunk_components c) component = Some a"
  shows "\<exists>c' b. densified B A new_id c component = Some (c', b) \<and> columns_ok A c' \<and> heap_unset B c' \<and>
           num_rows c' \<le> num_rows c \<and> map fst (chunk_timelines c') = map fst (chunk_timelines c) \<and>
           rows A c' = filter (\<lambda>r. rw_cells r component \<noteq> None) (rows A c)"
proof (cases "chunk_is_empty c \<or> la_nulls A a = None")
  case True
  then have "densified B A new_id c component = Some (c, False)"
    using a by (auto simp: densified_def)
  moreover have "rw_cells r component \<noteq> None" if "r \<in> set (rows A c)" for r
    using that True a
    by (auto simp: rows_def chunk_is_empty_def get_array_cell [OF a] la_cell_def la_is_valid_def)
  then have "filter (\<lambda>r. rw_cells r component \<noteq> None) (rows A c) = rows A c" by (rule filter_True [OF ballI])
  ultimately show ?thesis using ok heap by (metis order_refl)
next
  case False
  then obtain validity where v: "la_nulls A a = Some validity" by auto
  obtain col where col: "map_of (chunk_components c) component = Some col" "col_list_array col = a"
    using a by (auto simp: get_array_def)
  have comps: "components_ok A (num_rows c) (chunk_components c)"
    using ok by (simp add: columns_ok_def)
  have len: "la_len A a = num_rows c" "length validity = num_rows c"
    using comps map_of_SomeD [OF col(1)] col(2) nulls_len [OF v] by (auto simp: components_ok_def)
  have "\<exists>c'. filter_columns A new_id c validity (Some component) = Some c' \<and>
      picks A (compress validity [0..<num_rows c]) c c' \<and> chunk_ok B A c' \<and> chunk_id c' = new_id"
  proof (rule filter_columns_picks [OF ok len(2)])
    fix k col' assume "Some component = Some k" "(k, col') \<in> set (chunk_components c)"
    then have "map_of (chunk_components c) component = Some col'"
      using comps by (auto simp: components_ok_def)
    then show "validity = la_validity A (col_list_array col')"
      using col v nulls_validity by simp
  qed
  then obtain c' where c': "filter_columns A new_id c validity (Some component) = Some c'"
    "picks A (compress validity [0..<num_rows c]) c c'" "chunk_ok B A c'" by blast
  have "set (compress validity [0..<num_rows c]) \<subseteq> {0..<num_rows c}"
    using set_compress [of validity "[0..<num_rows c]"] by simp
  then have "rows A c' = map (row_at A c) (compress validity [0..<num_rows c])"
    by (intro picks_rows [OF c'(2) comps]) auto
  also have "\<dots> = filter (\<lambda>r. rw_cells r component \<noteq> None) (rows A c)"
    using len by (intro compress_rows)
      (simp_all add: get_array_cell [OF a] la_cell_def la_is_valid_def v)
  finally have rows: "rows A c' = filter (\<lambda>r. rw_cells r component \<noteq> None) (rows A c)" .
  then have "num_rows c' \<le> num_rows c"
    by (metis length_filter_le length_rows)
  moreover have "densified B A new_id c component = Some (c', True)"
    using False a v c'(1) debug_checked_ok [OF c'(3) B] by (simp add: densified_def)
  moreover have "heap_unset B c'"
  proof -
    have "chunk_heap_size c' = 0"
      using c'(1) by (auto simp: filter_columns_def Let_def bind_eq_Some_conv)
    then show ?thesis by (simp add: heap_unset_def)
  qed
  moreover have "map fst (chunk_timelines c') = map fst (chunk_timelines c)"
    by (rule picks_sizes(3) [OF c'(2) comps])
  ultimately show ?thesis using rows c'(3) by (auto simp: chunk_ok_def)
qed

lemma chunk_times:
  assumes "columns_ok A c" "map_of (chunk_timelines c) timeline = Some tc"
  shows "tc_times tc = map (rw_time timeline) (rows A c)"
proof (rule nth_equalityI)
  show len: "length (tc_times tc) = length (map (rw_time timeline) (rows A c))"
    using assms(1) map_of_SomeD [OF assms(2)] by (auto simp: columns_ok_def timelines_ok_def)
  show "tc_times tc ! i = map (rw_time timeline) (rows A c) ! i" if "i < length (tc_times tc)" for i
    using that len by (simp add: rw_time_row_at [OF assms(2)])
qed

end

text \<open>On a time-sorted chunk that starts after the query, the search still answers with the first row.\<close>

lemma latest_at_before_start:
  assumes c: "columns_ok A c" "\<not> chunk_is_empty c" "map_of (chunk_timelines c) timeline = Some tc"
    and sorted: "tc_is_sorted tc" "as_i64 at < hd (tc_times tc)"
  shows "latest_at_index A c \<lparr>lq_timeline = Some timeline, lq_at = at\<rparr> component =
    (if rw_cells (row_at A c 0) component = None then None else Some 0)"
proof -
  have "length (tc_times tc) = num_rows c"
    using c(1) map_of_SomeD [OF c(3)] by (auto simp: columns_ok_def timelines_ok_def)
  then have ne: "tc_times tc \<noteq> []" using c(2) by (auto simp: chunk_is_empty_def)
  have "partition_point (\<lambda>t. t \<le> as_i64 at) (tc_times tc) = 0"
    using ne sorted(2) by (cases "tc_times tc") (auto simp: partition_point_def)
  moreover have "\<not> chunk_is_static c" using c(3) by (auto simp: chunk_is_static_def)
  ultimately show ?thesis
    using c(2,3) sorted(1) ne
    by (cases "get_array (chunk_components c) component") (auto simp: latest_at_index_def row_at_def get_array_def la_cell_def Let_def split: if_splits)
qed

lemma latest_at_before_start_answer:
  assumes "arrow_laws A" "columns_ok A c" "map_of (chunk_timelines c) timeline = Some tc" "time_ok at"
    and late: "\<not> chunk_is_empty c" "tc_is_sorted tc" "as_i64 at < hd (tc_times tc)"
  shows "latest_candidates A c timeline at component = [] \<and>
    (if rw_cells (row_at A c 0) component = None
     then latest_at A new_id c \<lparr>lq_timeline = Some timeline, lq_at = at\<rparr> component = Some None
     else \<exists>u. latest_at A new_id c \<lparr>lq_timeline = Some timeline, lq_at = at\<rparr> component = Some (Some u) \<and>
            unit_original_chunk_id u = chunk_id c \<and> rows A (unit_chunk u) = [row_at A c 0])"
proof -
  have tc: "tc_ok tc" "tc_times tc = map (rw_time timeline) (rows A c)"
    using assms(2) map_of_SomeD [OF assms(3)] arrow_laws.chunk_times [OF assms(1-3)] by (auto simp: columns_ok_def timelines_ok_def)
  have "as_i64 at < t" if "t \<in> set (tc_times tc)" for t
    using tc(1) late(2,3) that by (cases "tc_times tc") (auto simp: tc_ok_def intro: less_le_trans)
  then have "\<not> new_temporal (rw_time timeline r) \<le> at" if "r \<in> set (rows A c)" for r
    using that tc(1) new_temporal_less(1) [OF assms(4), of "rw_time timeline r"] unfolding tc(2) tc_ok_def by (force simp: not_le)
  then have "latest_candidates A c timeline at component = []" by (simp add: latest_candidates_def filter_empty_conv)
  moreover have "0 < num_rows c" using late(1) by (simp add: chunk_is_empty_def)
  ultimately show ?thesis
    using latest_at_before_start [OF assms(2) late(1) assms(3) late(2,3), of component]
      arrow_laws.unit_row [OF assms(1,2), of 0 new_id] by (auto simp: latest_at_def)
qed

text \<open>
  C24. A latest-at query on a sound chunk whose row ids are not zero answers with nothing exactly when no row that has the
  component is at or before the query time; otherwise its answer is a single row, derived
  from this chunk, that has the component, is not later than the query and is maximal by
  time and then row id among all such rows. This holds for the binary search on time-sorted
  chunks as for the scan of unsorted ones, with two exceptions that the statement spells out.
  The binary search never looks at the time of the first row: a time-sorted chunk
  that starts after the query has no row to answer with, and still answers with its first row if that row has the component.
  And on a time-sorted chunk that is not sorted by row id, the answer is maximal by time only.
\<close>

theorem latest_at_is_latest:
  assumes "arrow_laws A" "columns_ok A c" "map_of (chunk_timelines c) timeline = Some tc"
    and "time_ok at" "at \<noteq> STATIC" "\<forall>r \<in> set (chunk_row_ids c). tuid_ZERO < r"
  shows "if tc_is_sorted tc \<and> \<not> chunk_is_empty c \<and> as_i64 at < hd (tc_times tc)
         then latest_candidates A c timeline at component = [] \<and>
           (if rw_cells (row_at A c 0) component = None
            then latest_at A new_id c \<lparr>lq_timeline = Some timeline, lq_at = at\<rparr> component = Some None
            else \<exists>u. latest_at A new_id c \<lparr>lq_timeline = Some timeline, lq_at = at\<rparr> component = Some (Some u) \<and>
                   unit_original_chunk_id u = chunk_id c \<and> rows A (unit_chunk u) = [row_at A c 0])
         else if latest_candidates A c timeline at component = []
         then latest_at A new_id c \<lparr>lq_timeline = Some timeline, lq_at = at\<rparr> component = Some None
         else \<exists>u r. latest_at A new_id c \<lparr>lq_timeline = Some timeline, lq_at = at\<rparr> component = Some (Some u) \<and>
                unit_original_chunk_id u = chunk_id c \<and> rows A (unit_chunk u) = [r] \<and>
                r \<in> set (latest_candidates A c timeline at component) \<and>
                (\<forall>s \<in> set (latest_candidates A c timeline at component).
                   if tc_is_sorted tc \<and> \<not> chunk_is_sorted c
                   then new_temporal (rw_time timeline s) \<le> new_temporal (rw_time timeline r)
                   else rw_key timeline s \<le> rw_key timeline r)"
proof (cases "tc_is_sorted tc \<and> \<not> chunk_is_empty c \<and> as_i64 at < hd (tc_times tc)")
  case True
  then show ?thesis using latest_at_before_start_answer [OF assms(1-4), of component new_id] by simp
next
  case False
  then have start: "tc_is_sorted tc \<Longrightarrow> \<not> chunk_is_empty c \<Longrightarrow> hd (tc_times tc) \<le> as_i64 at" by auto
  show ?thesis
  proof (cases "tc_is_sorted tc \<and> \<not> chunk_is_sorted c")
    case True
    with latest_at_by_key [OF assms(1,2) latest_at_index_by_time [OF assms(2,3,4)], of component new_id] start
    show ?thesis unfolding if_not_P [OF False] by (simp split: if_splits)
  next
    case sorted: False
    then have "is_latest (\<lambda>i. rw_cells (row_at A c i) component \<noteq> None \<and> new_temporal (rw_time timeline (row_at A c i)) \<le> at)
        (\<lambda>i. rw_key timeline (row_at A c i)) (num_rows c)
        (latest_at_index A c \<lparr>lq_timeline = Some timeline, lq_at = at\<rparr> component)"
      by (intro latest_at_index_latest [OF assms(2-6)]) (use start in auto)
    from latest_at_by_key [OF assms(1,2) this, of new_id] sorted show ?thesis unfolding if_not_P [OF False] if_not_P [OF sorted] by (simp split: if_splits)
  qed
qed

theorem latest_at_is_latest_witness:
  "\<exists>u r. latest_at mem_arrow (demo_id 8) demo_chunk \<lparr>lq_timeline = Some ''frame'', lq_at = time_MAX\<rparr> ''c'' = Some (Some u) \<and>
     unit_original_chunk_id u = chunk_id demo_chunk \<and> rows mem_arrow (unit_chunk u) = [r] \<and>
     r \<in> set (latest_candidates mem_arrow demo_chunk ''frame'' time_MAX ''c'')"
proof -
  have tc: "map_of (chunk_timelines demo_chunk) ''frame'' = Some demo_times"
    by (simp add: demo_chunk_def)
  have "row_at mem_arrow demo_chunk 0 \<in> set (latest_candidates mem_arrow demo_chunk ''frame'' time_MAX ''c'')"
    by (simp add: latest_candidates_def rows_def demo_chunk_sel demo_cells)
  then have "latest_candidates mem_arrow demo_chunk ''frame'' time_MAX ''c'' \<noteq> []" by auto
  moreover have "time_MAX \<noteq> STATIC" by (simp add: time_MAX_def STATIC_def)
  ultimately show ?thesis
    using latest_at_is_latest [OF mem.arrow_laws_axioms demo_chunk_ok tc, of time_MAX "''c''" "demo_id 8"]
      demo_ids demo_chunk_sel by auto
qed

section \<open>Ranges\<close>

text \<open>The rows in the order in which a range query returns them.\<close>

definition in_time_order :: "string \<Rightarrow> 'v row list \<Rightarrow> 'v row list" where
  "in_time_order timeline rs =
     (if sorted (map (rw_time timeline) rs) then rs
      else sort_key (\<lambda>r. (rw_time timeline r, rw_id r)) rs)"

definition range_rows :: "RangeQuery \<Rightarrow> 'v row list \<Rightarrow> 'v row list" where
  "range_rows query rs =
     (let time = (\<lambda>r. new_temporal (rw_time (rq_timeline query) r));
          before = length (filter (\<lambda>r. time r < range_min (rq_range query)) rs);
          upto = length (filter (\<lambda>r. time r \<le> range_max (rq_range query)) rs)
      in if opt_include_extended_bounds (rq_options query)
         then drop (before - 1) (take (upto + 1) rs)
         else filter (\<lambda>r. range_contains (rq_range query) (time r)) rs)"

definition project :: "RangeQuery \<Rightarrow> string \<Rightarrow> 'v row \<Rightarrow> 'v row" where
  "project query component r =
     (if opt_keep_extra_components (rq_options query) then id else keep_components {component})
     ((if opt_keep_extra_timelines (rq_options query) then id else keep_timelines {rq_timeline query}) r)"

lemma sorted_in_time_order: "sorted (map (rw_time timeline) (in_time_order timeline rs))"
proof (cases "sorted (map (rw_time timeline) rs)")
  case False
  have "sorted (map (\<lambda>r. (rw_time timeline r, rw_id r)) (sort_key (\<lambda>r. (rw_time timeline r, rw_id r)) rs))"
    by (rule sorted_sort_key)
  then have "sorted (map (rw_time timeline) (sort_key (\<lambda>r. (rw_time timeline r, rw_id r)) rs))"
    unfolding sorted_map by (rule sorted_wrt_mono_rel [rotated]) (auto simp: less_eq_prod_def)
  then show ?thesis using False by (simp add: in_time_order_def)
qed (simp add: in_time_order_def)

lemma has_timeline:
  "map fst xs = map fst ys \<Longrightarrow> map_of ys k = Some v \<Longrightarrow> \<exists>w. map_of xs k = Some w"
  by (metis domIff dom_map_of_conv_image_fst list.set_map not_None_eq option.distinct(1))

text \<open>The rows that a range query considers: without the component, densifying does nothing.\<close>

definition has_cell :: "'a Chunk \<Rightarrow> string \<Rightarrow> 'v row \<Rightarrow> bool" where
  "has_cell c component r \<longleftrightarrow> get_array (chunk_components c) component = None \<or> rw_cells r component \<noteq> None"

context arrow_laws
begin

lemma sorted_by_timeline_rows:
  assumes ok: "columns_ok A c" and heap: "heap_unset B c" and B: "lenient B"
    and tc: "map_of (chunk_timelines c) timeline = Some tc"
  shows "\<exists>c'. sorted_by_timeline_if_unsorted B A new_id c timeline = Some c' \<and> columns_ok A c' \<and>
           map fst (chunk_timelines c') = map fst (chunk_timelines c) \<and>
           rows A c' = in_time_order timeline (rows A c)"
proof -
  have sorted: "tc_is_sorted tc \<longleftrightarrow> sorted (map (rw_time timeline) (rows A c))"
    using ok map_of_SomeD [OF tc] chunk_times [OF ok tc]
    by (auto simp: columns_ok_def timelines_ok_def tc_ok_def)
  show ?thesis
  proof (cases "tc_is_sorted tc")
    case True
    then show ?thesis
      using ok tc sorted by (simp add: sorted_by_timeline_if_unsorted_def in_time_order_def)
  next
    case False
    then show ?thesis
      using sorted_by_timeline [OF ok heap B tc False, of new_id] sorted ok
      by (auto simp: in_time_order_def columns_ok_def dest: picks_sizes(3))
  qed
qed

text \<open>The index arithmetic on a chunk whose rows are in time order.\<close>

lemma range_slice_rows:
  assumes ok: "columns_ok A c" and tc: "map_of (chunk_timelines c) (rq_timeline query) = Some tc"
    and sorted: "sorted (map (rw_time (rq_timeline query)) (rows A c))" and r: "range_ok (rq_range query)"
    and n: "num_rows c \<le> n"
    and idx: "(start_index, end_index) =
        (if opt_include_extended_bounds (rq_options query)
         then (partition_point (\<lambda>t. t < as_i64 (range_min (rq_range query))) (tc_times tc) - 1,
               min n (partition_point (\<lambda>t. t \<le> as_i64 (range_max (rq_range query))) (tc_times tc) + 1))
         else (partition_point (\<lambda>t. t < as_i64 (range_min (rq_range query))) (tc_times tc),
               partition_point (\<lambda>t. t \<le> as_i64 (range_max (rq_range query))) (tc_times tc)))"
  shows "rows A (row_sliced_shallow A new_id c start_index (end_index - start_index)) = range_rows query (rows A c)"
proof -
  let ?time = "rw_time (rq_timeline query)"
  let ?lo = "range_min (rq_range query)" and ?hi = "range_max (rq_range query)"
  have ts: "tc_times tc = map ?time (rows A c)" by (rule chunk_times [OF ok tc])
  have "i64_MIN \<notin> set (tc_times tc)"
    using ok map_of_SomeD [OF tc] by (auto simp: columns_ok_def timelines_ok_def tc_ok_def)
  then have temporal: "?time x \<noteq> i64_MIN" if "x \<in> set (rows A c)" for x
    using that unfolding ts by force
  have okr: "time_ok ?lo" "time_ok ?hi" using r by (simp_all add: range_ok_def)
  have lo: "new_temporal (?time x) < ?lo \<longleftrightarrow> ?time x < as_i64 ?lo" if "x \<in> set (rows A c)" for x
    using temporal [OF that] by (rule new_temporal_less(2) [OF okr(1)])
  have hi: "new_temporal (?time x) \<le> ?hi \<longleftrightarrow> ?time x \<le> as_i64 ?hi" if "x \<in> set (rows A c)" for x
    using new_temporal_less(1) [OF okr(2) temporal [OF that]] by (simp add: not_less [symmetric])
  have counts: "partition_point (\<lambda>t. t < as_i64 ?lo) (tc_times tc) =
        length (filter (\<lambda>x. new_temporal (?time x) < ?lo) (rows A c))"
    "partition_point (\<lambda>t. t \<le> as_i64 ?hi) (tc_times tc) =
        length (filter (\<lambda>x. new_temporal (?time x) \<le> ?hi) (rows A c))"
    unfolding ts using sorted lo hi
    by (subst partition_point_count, auto intro!: arg_cong [where f = length] filter_cong)+
  have slice: "rows A (row_sliced_shallow A new_id c i m) = take m (drop i (rows A c))" for i m
    unfolding row_sliced_shallow_def by (rule row_sliced_rows [OF ok])
  show ?thesis
  proof (cases "opt_include_extended_bounds (rq_options query)")
    case True
    have "take (min n e - s) (drop s (rows A c)) = drop s (take e (rows A c))" for e s
      using n by (simp add: drop_take [symmetric] min_def)
    then show ?thesis
      using True idx by (simp add: slice range_rows_def counts)
  next
    case False
    have "filter (\<lambda>x. as_i64 ?lo \<le> ?time x \<and> ?time x \<le> as_i64 ?hi) (rows A c) =
          filter (\<lambda>x. range_contains (rq_range query) (new_temporal (?time x))) (rows A c)"
      using lo hi by (intro filter_cong) (auto simp: range_contains_def not_less [symmetric])
    then show ?thesis
      using False idx partition_points_range [OF sorted, of "as_i64 ?hi" "as_i64 ?lo"]
      by (simp add: slice range_rows_def ts)
  qed
qed

lemma densified_has_cell:
  assumes ok: "columns_ok A c" and heap: "heap_unset B c" and B: "lenient B"
  shows "\<exists>c' b. densified B A new_id c component = Some (c', b) \<and> columns_ok A c' \<and> heap_unset B c' \<and>
           num_rows c' \<le> num_rows c \<and> map fst (chunk_timelines c') = map fst (chunk_timelines c) \<and>
           rows A c' = filter (has_cell c component) (rows A c)"
proof (cases "get_array (chunk_components c) component")
  case None
  then have "densified B A new_id c component = Some (c, False)" by (simp add: densified_def)
  moreover have "filter (has_cell c component) (rows A c) = rows A c" using None by (simp add: has_cell_def)
  ultimately show ?thesis using ok heap by (metis order_refl)
next
  case (Some a)
  then have eq: "has_cell c component = (\<lambda>r. rw_cells r component \<noteq> None)" by (simp add: fun_eq_iff has_cell_def)
  show ?thesis unfolding eq by (rule densified_rows [OF ok heap B Some])
qed

lemma range_temporal_has_cell:
  assumes ok: "columns_ok A c" and heap: "heap_unset B c" and B: "lenient B"
    and tc: "map_of (chunk_timelines c) (rq_timeline query) = Some tc"
    and r: "range_ok (rq_range query)" and n: "num_rows c \<le> n"
  shows "\<exists>c'. range_temporal B A new_id n c query component = Some c' \<and>
           rows A c' = range_rows query (in_time_order (rq_timeline query) (filter (has_cell c component) (rows A c)))"
proof -
  let ?tl = "rq_timeline query"
  obtain c1 b where c1: "densified B A new_id c component = Some (c1, b)" "columns_ok A c1" "heap_unset B c1"
    "num_rows c1 \<le> num_rows c" "map fst (chunk_timelines c1) = map fst (chunk_timelines c)"
    "rows A c1 = filter (has_cell c component) (rows A c)"
    using densified_has_cell [OF ok heap B, of new_id component] by blast
  obtain tc1 where tc1: "map_of (chunk_timelines c1) ?tl = Some tc1"
    using has_timeline [OF c1(5) tc] by blast
  have "\<exists>c2. (if tc_is_sorted tc then Some c1 else sorted_by_timeline_if_unsorted B A new_id c1 ?tl) = Some c2 \<and>
      columns_ok A c2 \<and> map fst (chunk_timelines c2) = map fst (chunk_timelines c1) \<and>
      rows A c2 = in_time_order ?tl (rows A c1)"
  proof (cases "tc_is_sorted tc")
    case True
    then have "sorted (map (rw_time ?tl) (rows A c))"
      using ok map_of_SomeD [OF tc] chunk_times [OF ok tc]
      by (auto simp: columns_ok_def timelines_ok_def tc_ok_def)
    then have "sorted (map (rw_time ?tl) (rows A c1))"
      unfolding c1(6) by (rule sorted_filter)
    then show ?thesis using True c1(2) by (simp add: in_time_order_def)
  next
    case False
    then show ?thesis using sorted_by_timeline_rows [OF c1(2,3) B tc1, of new_id] by simp
  qed
  then obtain c2 where c2: "(if tc_is_sorted tc then Some c1
        else sorted_by_timeline_if_unsorted B A new_id c1 ?tl) = Some c2"
    "columns_ok A c2" "map fst (chunk_timelines c2) = map fst (chunk_timelines c1)"
    "rows A c2 = in_time_order ?tl (rows A c1)" by blast
  obtain tc2 where tc2: "map_of (chunk_timelines c2) ?tl = Some tc2"
    using has_timeline [OF c2(3) tc1] by blast
  have "num_rows c2 \<le> n"
    using arg_cong [OF c2(4), of length] c1(4) n by (simp add: in_time_order_def split: if_splits)
  moreover have "sorted (map (rw_time ?tl) (rows A c2))"
    unfolding c2(4) by (rule sorted_in_time_order)
  ultimately show ?thesis
    using range_slice_rows [OF c2(2) tc2 _ r] c2(1,4) tc2 c1(1,6)
    by (simp add: range_temporal_def tc Let_def)
qed

end

text \<open>Dropping columns commutes with selecting and ordering rows.\<close>

lemma project_sel [simp]:
  "rw_time (rq_timeline query) (project query component r) = rw_time (rq_timeline query) r"
  "rw_id (project query component r) = rw_id r"
  "rw_cells (project query component r) component = rw_cells r component"
  by (simp_all add: project_def keep_timelines_def keep_components_def rw_time_def)

lemma range_rows_project:
  "range_rows query (map (project query component) rs) = map (project query component) (range_rows query rs)"
  by (simp add: range_rows_def Let_def filter_map comp_def drop_map take_map)

lemma in_time_order_project:
  "in_time_order (rq_timeline query) (map (project query component) rs) =
   map (project query component) (in_time_order (rq_timeline query) rs)"
  using map_sort_key [of "project query component" "\<lambda>r. (rw_time (rq_timeline query) r, rw_id r)" rs]
  by (simp add: in_time_order_def comp_def)

lemma debug_checked_same: "debug_checked B A c = Some c' \<Longrightarrow> c' = c"
  by (simp add: debug_checked_def split: if_splits sum.splits)

text \<open>The answer of a static chunk: at most one row, the one with the greatest row id among those that have the component.\<close>

definition static_answer :: "string \<Rightarrow> 'v row list \<Rightarrow> 'v row list \<Rightarrow> bool" where
  "static_answer component all answer \<longleftrightarrow>
     (if \<forall>r \<in> set all. rw_cells r component = None then answer = []
      else \<exists>r \<in> set all. answer = [r] \<and> rw_cells r component \<noteq> None \<and>
             (\<forall>s \<in> set all. rw_cells s component \<noteq> None \<longrightarrow> rw_id s \<le> rw_id r))"

context arrow_laws
begin

lemma range_columns:
  assumes ok: "columns_ok A c" and heap: "heap_unset B c" and B: "lenient B"
  shows "\<exists>c'. do { chunk \<leftarrow> (if opt_keep_extra_timelines (rq_options query) then Some c
                             else timeline_sliced B A new_id c (rq_timeline query));
                  if opt_keep_extra_components (rq_options query) then Some chunk
                  else component_sliced B A new_id chunk component } = Some c' \<and>
           columns_ok A c' \<and> heap_unset B c' \<and> num_rows c' = num_rows c \<and>
           rows A c' = map (project query component) (rows A c) \<and>
           map_of (chunk_timelines c') (rq_timeline query) = map_of (chunk_timelines c) (rq_timeline query) \<and>
           get_array (chunk_components c') component = get_array (chunk_components c) component"
proof -
  obtain c1 where c1: "(if opt_keep_extra_timelines (rq_options query) then Some c
        else timeline_sliced B A new_id c (rq_timeline query)) = Some c1"
    "columns_ok A c1" "heap_unset B c1" "num_rows c1 = num_rows c"
    "rows A c1 = map (if opt_keep_extra_timelines (rq_options query) then id
                      else keep_timelines {rq_timeline query}) (rows A c)"
    "map_of (chunk_timelines c1) (rq_timeline query) = map_of (chunk_timelines c) (rq_timeline query)"
    "chunk_components c1 = chunk_components c"
    using timeline_sliced [OF ok B, of new_id "rq_timeline query"] ok heap
    by (cases "opt_keep_extra_timelines (rq_options query)") (auto simp: chunk_ok_def heap_unset_def)
  obtain c2 where "(if opt_keep_extra_components (rq_options query) then Some c1
        else component_sliced B A new_id c1 component) = Some c2"
    "columns_ok A c2" "heap_unset B c2" "num_rows c2 = num_rows c1"
    "rows A c2 = map (if opt_keep_extra_components (rq_options query) then id
                      else keep_components {component}) (rows A c1)"
    "chunk_timelines c2 = chunk_timelines c1"
    "get_array (chunk_components c2) component = get_array (chunk_components c1) component"
    using component_sliced [OF c1(2) B, of new_id component] c1(2,3)
    by (cases "opt_keep_extra_components (rq_options query)") (auto simp: chunk_ok_def heap_unset_def)
  then show ?thesis
    using c1 by (simp add: project_def comp_def)
qed

lemma emptied_rows: "columns_ok A c \<Longrightarrow> rows A (emptied A new_id c) = []"
  using picks_rows [OF emptied_picks(1)] by (simp add: columns_ok_def)

lemma range_query_cases:
  assumes ok: "columns_ok A c" and heap: "heap_unset B c" and B: "lenient B" and r: "range_ok (rq_range query)"
    and tl: "map_of (chunk_timelines c) (rq_timeline query) \<noteq> None \<or> opt_keep_extra_timelines (rq_options query) \<and> \<not> chunk_is_static c"
  shows "\<exists>c'. range_query B A new_id c query component = Some c' \<and>
           rows A c' = (if map_of (chunk_timelines c) (rq_timeline query) = None then []
             else map (project query component) (range_rows query (in_time_order (rq_timeline query)
               (filter (has_cell c component) (rows A c)))))"
proof (cases "chunk_is_empty c")
  case True
  then have "rows A c = []" by (simp add: rows_def chunk_is_empty_def)
  then show ?thesis
    using True by (simp add: range_query_def range_rows_def in_time_order_def)
next
  case False
  obtain c1 where c1: "do { chunk \<leftarrow> (if opt_keep_extra_timelines (rq_options query) then Some c
                             else timeline_sliced B A new_id c (rq_timeline query));
                  if opt_keep_extra_components (rq_options query) then Some chunk
                  else component_sliced B A new_id chunk component } = Some c1"
    "columns_ok A c1" "heap_unset B c1" "num_rows c1 = num_rows c"
    "rows A c1 = map (project query component) (rows A c)"
    "map_of (chunk_timelines c1) (rq_timeline query) = map_of (chunk_timelines c) (rq_timeline query)"
    "get_array (chunk_components c1) component = get_array (chunk_components c) component"
    using range_columns [OF ok heap B, of query new_id component] by auto
  have "\<not> chunk_is_static c1"
  proof (cases "map_of (chunk_timelines c) (rq_timeline query)")
    case None
    then have "opt_keep_extra_timelines (rq_options query)" "\<not> chunk_is_static c" using tl by auto
    then show ?thesis
      using c1(1) component_sliced [OF ok B, of new_id component]
      by (auto simp: chunk_is_static_def split: if_splits)
  qed (use c1(6) in \<open>auto simp: chunk_is_static_def\<close>)
  then have run: "range_query B A new_id c query component = range_temporal B A new_id (num_rows c) c1 query component"
    using False c1(1) by (auto simp: range_query_def bind_eq_Some_conv)
  show ?thesis
  proof (cases "map_of (chunk_timelines c) (rq_timeline query)")
    case None
    then show ?thesis using c1(6) emptied_rows [OF c1(2)] by (simp add: run range_temporal_def)
  next
    case (Some tc)
    have "filter (has_cell c1 component) (map (project query component) (rows A c)) =
        map (project query component) (filter (has_cell c component) (rows A c))"
      by (simp add: filter_map comp_def has_cell_def [abs_def] c1(7))
    then show ?thesis
      using range_temporal_has_cell [OF c1(2,3) B _ r, where n = "num_rows c" and new_id = new_id and component = component] Some c1(4,5,6)
      unfolding run by (simp add: in_time_order_project range_rows_project)
  qed
qed

lemma static_query_rows:
  assumes ok: "columns_ok A c" and st: "chunk_is_static c" and ids: "\<forall>r \<in> set (chunk_row_ids c). tuid_ZERO < r"
  shows "\<exists>c'. (do { answer \<leftarrow> latest_at A new_id c query component;
                  case answer of Some u \<Rightarrow> Some (unit_chunk u) | None \<Rightarrow> Some (emptied A new_id c) }) = Some c' \<and>
              static_answer component (rows A c) (rows A c')"
proof (cases "latest_at_index A c query component")
  case None
  then have "\<forall>r \<in> set (rows A c). rw_cells r component = None"
    using latest_at_index_static [OF assms, of component query] by (auto simp: is_latest_def rows_def)
  then show ?thesis using None emptied_rows [OF ok] by (simp add: latest_at_def static_answer_def)
next
  case (Some i)
  then have i: "i < num_rows c" "rw_cells (row_at A c i) component \<noteq> None"
    "\<forall>j < num_rows c. rw_cells (row_at A c j) component \<noteq> None \<longrightarrow> rw_id (row_at A c j) \<le> rw_id (row_at A c i)"
    using latest_at_index_static [OF assms, of component query] by (auto simp: is_latest_def)
  then have "row_at A c i \<in> set (rows A c)" by (simp add: rows_def)
  moreover have "\<forall>s \<in> set (rows A c). rw_cells s component \<noteq> None \<longrightarrow> rw_id s \<le> rw_id (row_at A c i)"
    using i(3) by (auto simp: rows_def)
  ultimately have "static_answer component (rows A c) [row_at A c i]" using i(2) unfolding static_answer_def by auto
  then show ?thesis using unit_row [OF ok i(1), of new_id] Some by (auto simp: latest_at_def)
qed

lemma chunk_row_ids_rows: "chunk_row_ids c = map rw_id (rows A c)"
  by (simp add: rows_def comp_def rw_id_row_at num_rows_def map_nth)

lemma range_query_all:
  assumes ok: "columns_ok A c" and heap: "heap_unset B c" and B: "lenient B" and r: "range_ok (rq_range query)"
    and ids: "map_of (chunk_timelines c) (rq_timeline query) = None \<longrightarrow> (\<forall>r \<in> set (chunk_row_ids c). tuid_ZERO < r)"
  shows "\<exists>c'. range_query B A new_id c query component = Some c' \<and>
           (if map_of (chunk_timelines c) (rq_timeline query) \<noteq> None
            then rows A c' = map (project query component) (range_rows query (in_time_order (rq_timeline query)
                   (filter (has_cell c component) (rows A c))))
            else if opt_keep_extra_timelines (rq_options query) \<and> \<not> chunk_is_static c then rows A c' = []
            else static_answer component (map (project query component) (rows A c)) (rows A c'))"
proof (cases "map_of (chunk_timelines c) (rq_timeline query) \<noteq> None \<or> opt_keep_extra_timelines (rq_options query) \<and> \<not> chunk_is_static c")
  case True
  then show ?thesis using range_query_cases [OF ok heap B r True, of new_id component] by auto
next
  case static: False
  show ?thesis
  proof (cases "chunk_is_empty c")
    case True
    then have "rows A c = []" by (simp add: rows_def chunk_is_empty_def)
    then show ?thesis using True static by (auto simp: range_query_def static_answer_def)
  next
    case False
    obtain c1 where c1: "do { chunk \<leftarrow> (if opt_keep_extra_timelines (rq_options query) then Some c
                               else timeline_sliced B A new_id c (rq_timeline query));
                    if opt_keep_extra_components (rq_options query) then Some chunk
                    else component_sliced B A new_id chunk component } = Some c1"
      "columns_ok A c1" "rows A c1 = map (project query component) (rows A c)"
      using range_columns [OF ok heap B, of query new_id component] by auto
    have "chunk_is_static c1"
      using c1(1) static
      by (auto simp: chunk_is_static_def timeline_sliced_def component_sliced_def components_sliced_def
          bind_eq_Some_conv dest!: debug_checked_same split: if_splits)
    moreover have "\<forall>r \<in> set (chunk_row_ids c1). tuid_ZERO < r"
      using ids static unfolding chunk_row_ids_rows [of c1] chunk_row_ids_rows [of c] c1(3) by auto
    moreover have "range_query B A new_id c query component = (do { answer \<leftarrow> latest_at A new_id c1 latest_at_query_static component;
        case answer of Some u \<Rightarrow> Some (unit_chunk u) | None \<Rightarrow> Some (emptied A new_id c1) })"
      using False c1(1) \<open>chunk_is_static c1\<close> by (auto simp: range_query_def bind_eq_Some_conv)
    ultimately show ?thesis
      using static_query_rows [OF c1(2), of new_id latest_at_query_static component] static unfolding c1(3) by auto
  qed
qed

end

text \<open>
  C25. What a range query answers on a sound chunk, where it does not panic. If the chunk has the timeline, the answer is, in time order
  (unsorted chunks are sorted by time and row id first) and cut down to the requested columns, the
  rows that have the component and whose time lies in the range; with extended bounds, also the nearest such row on either side of the range,
  where there is one. A chunk that lacks the component altogether is not filtered: all its rows in the range are returned.
  If the chunk is temporal but lacks the timeline, the answer is empty when the extra timelines are kept.
  Otherwise, for a static chunk and for a temporal one whose timelines were all dropped, the
  answer ignores the range: it is the row with the greatest row id among those that have the component (row ids are not zero).
  The build does not check contents very strictly, and in debug builds the cached
  heap size of the chunk is unset, since sorting keeps the cache while it rebuilds the columns.
\<close>

theorem range_query_exact:
  assumes "arrow_laws A" "columns_ok A c" "heap_unset B c" "lenient B" "range_ok (rq_range query)"
    and "map_of (chunk_timelines c) (rq_timeline query) = None \<longrightarrow> (\<forall>r \<in> set (chunk_row_ids c). tuid_ZERO < r)"
  shows "\<exists>c'. range_query B A new_id c query component = Some c' \<and>
           (if map_of (chunk_timelines c) (rq_timeline query) \<noteq> None
            then rows A c' = map (project query component) (range_rows query (in_time_order (rq_timeline query)
                   (filter (has_cell c component) (rows A c))))
            else if opt_keep_extra_timelines (rq_options query) \<and> \<not> chunk_is_static c then rows A c' = []
            else static_answer component (map (project query component) (rows A c)) (rows A c'))"
  using assms by (rule arrow_laws.range_query_all)

definition demo_build :: "'a build" where
  "demo_build = \<lparr>debug_assertions = True, very_strict = False, hs_entity_path = \<lambda>_. 0, hs_row_ids = \<lambda>_. 0,
     hs_timelines = \<lambda>_. 0, hs_components = \<lambda>_. 0\<rparr>"

lemma demo_build: "lenient demo_build" "heap_unset demo_build demo_chunk"
  by (simp_all add: lenient_def heap_unset_def demo_build_def demo_chunk_sel)

theorem range_query_exact_witness:
  "\<exists>c'. range_query demo_build mem_arrow (demo_id 8) demo_chunk (range_query_everything ''frame'') ''c'' = Some c' \<and>
     rows mem_arrow c' = map (project (range_query_everything ''frame'') ''c'')
       (range_rows (range_query_everything ''frame'') (in_time_order ''frame''
         (filter (has_cell demo_chunk ''c'') (rows mem_arrow demo_chunk))))"
proof -
  have tl: "rq_timeline (range_query_everything ''frame'') = ''frame''"
    by (simp add: range_query_everything_def)
  have "map_of (chunk_timelines demo_chunk) ''frame'' = Some demo_times"
    by (simp add: demo_chunk_def)
  moreover have "range_ok (rq_range (range_query_everything ''frame''))"
    by (simp add: range_query_everything_def range_ok_def range_EVERYTHING_def)
       (simp add: time_MIN_def time_MAX_def STATIC_def)
  ultimately show ?thesis
    using range_query_exact [OF mem.arrow_laws_axioms demo_chunk_ok demo_build(2,1),
        of "range_query_everything ''frame''" "demo_id 8" "''c''"] tl by auto
qed

end
