(* ===== verification/Chunk_Merge.thy ===== *)
theory Chunk_Merge
  imports Chunk_Query
begin

text \<open>
  Concatenation (\<open>src/crates/store/dl_chunk/src/merge.rs\<close>) and splitting (\<open>split.rs\<close>) of chunks.
  Concatenating yields the rows of both chunks, in row id order; splitting yields pieces
  whose rows, put together again, are those of the chunk. The warnings about timelines that
  become unsorted are left out.
\<close>

section \<open>Compatibility\<close>

definition overlaps_on_row_id :: "'a Chunk \<Rightarrow> 'a Chunk \<Rightarrow> bool" where
  "overlaps_on_row_id cl cr =
     (case row_id_range cl of
        None \<Rightarrow> False
      | Some (cl0, cl1) \<Rightarrow>
          (case row_id_range cr of None \<Rightarrow> False | Some (cr0, cr1) \<Rightarrow> cl0 \<le> cr1 \<and> cr0 \<le> cl1))"

definition overlaps_on_time :: "'a Chunk \<Rightarrow> 'a Chunk \<Rightarrow> bool" where
  "overlaps_on_time cl cr =
     list_ex (\<lambda>(timeline, lhs_tc). case map_of (chunk_timelines cr) timeline of
                Some rhs_tc \<Rightarrow> intersects (tc_time_range lhs_tc) (tc_time_range rhs_tc)
              | None \<Rightarrow> False) (chunk_timelines cl)"

definition same_entity_paths :: "'a Chunk \<Rightarrow> 'a Chunk \<Rightarrow> bool" where
  "same_entity_paths cl cr = path_eq (chunk_entity_path cl) (chunk_entity_path cr)"

definition same_timelines :: "'a Chunk \<Rightarrow> 'a Chunk \<Rightarrow> bool" where
  "same_timelines cl cr \<longleftrightarrow> length (chunk_timelines cl) = length (chunk_timelines cr) \<and>
     list_all (\<lambda>(name, lhs_tc). case map_of (chunk_timelines cr) name of
                 Some rhs_tc \<Rightarrow> tc_timeline lhs_tc = tc_timeline rhs_tc
               | None \<Rightarrow> False) (chunk_timelines cl)"

definition same_datatypes :: "('a, 'd, 'v) arrow \<Rightarrow> 'a Chunk \<Rightarrow> 'a Chunk \<Rightarrow> bool" where
  "same_datatypes A cl cr =
     list_all (\<lambda>(_, lhs). case map_of (chunk_components cr) (cd_component (col_descriptor lhs)) of
                 Some rhs \<Rightarrow> la_data_type A (col_list_array lhs) = la_data_type A (col_list_array rhs)
               | None \<Rightarrow> True) (chunk_components cl)"

definition concatenable :: "('a, 'd, 'v) arrow \<Rightarrow> 'a Chunk \<Rightarrow> 'a Chunk \<Rightarrow> bool" where
  "concatenable A cl cr \<longleftrightarrow> same_entity_paths cl cr \<and> same_timelines cl cr \<and> same_datatypes A cl cr"

section \<open>Concatenation\<close>

text \<open>The time columns paired by name; both errors are excluded by the check before.\<close>

fun concat_timelines :: "Timelines \<Rightarrow> Timelines \<Rightarrow> (ChunkError, Timelines) result" where
  "concat_timelines [] trs = Ok []"
| "concat_timelines ((name, lhs_tc) # tls) trs =
     try_bind (ok_or (map_of trs name) (Malformed (MissingTimeline name))) (\<lambda>rhs_tc.
     try_bind (ok_or (tc_concatenated lhs_tc rhs_tc) (Malformed (TimelineDiffers name))) (\<lambda>tc.
     try_bind (concat_timelines tls trs) (\<lambda>rest. Ok ((name, tc) # rest))))"

text \<open>First pass: right onto left, padded at the back where the right chunk lacks the component.\<close>

definition concat_onto_left ::
  "('a, 'd, 'v) arrow \<Rightarrow> nat \<Rightarrow> 'a ChunkComponents \<Rightarrow> 'a SerializedComponentColumn
   \<Rightarrow> 'a SerializedComponentColumn option" where
  "concat_onto_left A n rhs_per_component lhs =
     (case map_of rhs_per_component (cd_component (col_descriptor lhs)) of
        Some rhs \<Rightarrow>
          map_option (\<lambda>a. \<lparr>col_list_array = a, col_descriptor = col_descriptor lhs\<rparr>)
            (la_concat A (col_list_array lhs) (col_list_array rhs))
      | None \<Rightarrow>
          Some \<lparr>col_list_array = pad_list_array_back A (col_list_array lhs) n,
                col_descriptor = col_descriptor lhs\<rparr>)"

text \<open>Second pass: the components that only the right chunk has, padded at the front.\<close>

definition concat_onto_right ::
  "('a, 'd, 'v) arrow \<Rightarrow> nat \<Rightarrow> 'a ChunkComponents \<Rightarrow> 'a ChunkComponents \<Rightarrow> 'a SerializedComponentColumn
   \<Rightarrow> (string \<times> 'a SerializedComponentColumn) option" where
  "concat_onto_right A n components lhs_per_component rhs =
     (if contains_component components (cd_component (col_descriptor rhs)) then None
      else
        map_option (\<lambda>a. (cd_component (col_descriptor rhs),
                         \<lparr>col_list_array = a, col_descriptor = col_descriptor rhs\<rparr>))
          (case map_of lhs_per_component (cd_component (col_descriptor rhs)) of
             Some lhs \<Rightarrow> la_concat A (col_list_array lhs) (col_list_array rhs)
           | None \<Rightarrow> Some (pad_list_array_front A (col_list_array rhs) n)))"

definition concat_components ::
  "('a, 'd, 'v) arrow \<Rightarrow> nat \<Rightarrow> 'a ChunkComponents \<Rightarrow> 'a ChunkComponents \<Rightarrow> 'a ChunkComponents" where
  "concat_components A n lhs_per_component rhs_per_component =
     (let components = components_from_iter
            (List.map_filter (concat_onto_left A n rhs_per_component) (map snd lhs_per_component));
          rhs = List.map_filter (concat_onto_right A n components lhs_per_component) (map snd rhs_per_component)
      in fold (\<lambda>(k, col) comps. AList.update k col comps) rhs components)"

definition concatenated_unsorted ::
  "('a, 'd, 'v) arrow \<Rightarrow> ChunkId \<Rightarrow> 'a Chunk \<Rightarrow> 'a Chunk \<Rightarrow> (ChunkError, 'a Chunk) result" where
  "concatenated_unsorted A new_id cl cr =
     (if \<not> concatenable A cl cr
      then Err (Malformed (if \<not> same_entity_paths cl cr then DifferentEntityPaths
                           else if \<not> same_timelines cl cr then DifferentTimelines
                           else if \<not> same_datatypes A cl cr then DifferentDatatypes
                           else Incompatible))
      else case row_id_range cl of
        None \<Rightarrow> Ok cr
      | Some (_, cl1) \<Rightarrow>
          (case row_id_range cr of
             None \<Rightarrow> Ok cl
           | Some (cr0, _) \<Rightarrow>
               let is_sorted = chunk_is_sorted cl \<and> chunk_is_sorted cr \<and> cl1 \<le> cr0
               in try_bind (ok_or (k_concat (k_ids A) [chunk_row_ids cl, chunk_row_ids cr]) ArrowError) (\<lambda>row_ids.
                  try_bind (concat_timelines (chunk_timelines cl) (chunk_timelines cr)) (\<lambda>timelines.
                    Ok \<lparr>chunk_id = new_id, chunk_entity_path = chunk_entity_path cl, chunk_heap_size = 0,
                        chunk_is_sorted = is_sorted, chunk_row_ids = row_ids, chunk_timelines = timelines,
                        chunk_components = concat_components A (num_rows cl + num_rows cr)
                          (chunk_components cl) (chunk_components cr)\<rparr>))))"

text \<open>\<open>Option\<close>'s derived order: \<open>None\<close> first.\<close>

fun opt_less :: "'e :: linorder option \<Rightarrow> 'e option \<Rightarrow> bool" where
  "opt_less None (Some _) = True"
| "opt_less (Some a) (Some b) = (a < b)"
| "opt_less _ None = False"

text \<open>A panic in a debug build is the error \<open>Panicked\<close>.\<close>

definition concat_and_sort ::
  "'a build \<Rightarrow> ('a, 'd, 'v) arrow \<Rightarrow> ChunkId \<Rightarrow> 'a Chunk \<Rightarrow> 'a Chunk \<Rightarrow> (ChunkError, 'a Chunk) result" where
  "concat_and_sort B A new_id left right =
     (let left_rowid_min = map_option fst (row_id_range right);
          right_rowid_min = map_option fst (row_id_range left)
      in try_bind (if opt_less right_rowid_min left_rowid_min then concatenated_unsorted A new_id left right
                   else concatenated_unsorted A new_id right left) (\<lambda>compacted.
         try_bind (ok_or (sort_by_row_ids_if_needed B A new_id compacted) Panicked) (\<lambda>compacted.
         try_bind (sanity_check B A compacted) (\<lambda>_. Ok compacted))))"

section \<open>Splitting\<close>

record ChunkSplitConfig =
  chunk_max_bytes :: u64
  chunk_max_rows :: u64
  chunk_max_rows_if_unsorted :: u64

text \<open>The \<open>while\<close> loop; \<open>ids\<close> are the ids of the pieces.\<close>

partial_function (option) split_loop ::
  "('a, 'd, 'v) arrow \<Rightarrow> (nat \<Rightarrow> ChunkId) \<Rightarrow> 'a Chunk \<Rightarrow> nat \<Rightarrow> nat \<Rightarrow> nat \<Rightarrow> 'a Chunk list option" where
  "split_loop A ids c target_rows start_idx k =
     (if start_idx < num_rows c
      then let remaining_rows = num_rows c - start_idx;
               chunk_size = min remaining_rows target_rows
           in do { rest \<leftarrow> split_loop A ids c target_rows (start_idx + chunk_size) (Suc k);
                   Some (row_sliced_deep A (ids k) c start_idx chunk_size # rest) }
      else Some [])"

text \<open>\<open>stack_size\<close> is the size of the structure itself, which \<open>total_size_bytes\<close> adds to the heap size.\<close>

definition split_chunk_if_needed ::
  "'a build \<Rightarrow> ('a, 'd, 'v) arrow \<Rightarrow> (nat \<Rightarrow> ChunkId) \<Rightarrow> u64 \<Rightarrow> ChunkSplitConfig \<Rightarrow> 'a Chunk \<Rightarrow> 'a Chunk list option" where
  "split_chunk_if_needed B A ids stack_size cfg c =
     (let chunk_size_bytes = stack_size + fst (heap_size_bytes B c);
          chunk_num_rows = (word_of_nat (num_rows c) :: u64)
      in if chunk_num_rows \<le> 1 then Some [c]
         else
           let needs_split_bytes = 0 < chunk_max_bytes cfg \<and> chunk_max_bytes cfg < chunk_size_bytes;
               needs_split_rows = 0 < chunk_max_rows cfg \<and> chunk_max_rows cfg < chunk_num_rows;
               needs_split_unsorted = 0 < chunk_max_rows_if_unsorted cfg \<and>
                 chunk_max_rows_if_unsorted cfg < chunk_num_rows \<and> \<not> all_timelines_sorted c
           in if \<not> needs_split_bytes \<and> \<not> needs_split_rows \<and> \<not> needs_split_unsorted then Some [c]
              else
                let target_rows =
                      (if needs_split_unsorted then chunk_max_rows_if_unsorted cfg
                       else if needs_split_rows then chunk_max_rows cfg
                       else let bytes_per_row = chunk_size_bytes div max chunk_num_rows 1
                            in chunk_max_bytes cfg div max bytes_per_row 1)
                in split_loop A ids c (unat (max target_rows 1)) 0 0)"

section \<open>Splitting keeps the rows\<close>

context arrow_laws
begin

lemma split_loop_total:
  assumes ok: "columns_ok A c" and target: "0 < target_rows"
  shows "\<exists>ps. split_loop A ids c target_rows start k = Some ps \<and> concat (map (rows A) ps) = drop start (rows A c) \<and>
           (\<forall>p \<in> set ps. columns_ok A p \<and> num_rows p \<le> target_rows \<and> num_rows p \<le> num_rows c)"
proof (induction "num_rows c - start" arbitrary: start k rule: less_induct)
  case less
  show ?case
  proof (cases "start < num_rows c")
    case False
    then show ?thesis by (subst split_loop.simps) simp
  next
    case True
    let ?n = "min (num_rows c - start) target_rows"
    let ?p = "row_sliced_deep A (ids k) c start ?n"
    have "num_rows c - (start + ?n) < num_rows c - start" using True target by auto
    from less [OF this, of "Suc k"] obtain ps where
      ps: "split_loop A ids c target_rows (start + ?n) (Suc k) = Some ps"
        "concat (map (rows A) ps) = drop (start + ?n) (rows A c)"
        "\<forall>p \<in> set ps. columns_ok A p \<and> num_rows p \<le> target_rows \<and> num_rows p \<le> num_rows c" by blast
    have eq: "split_loop A ids c target_rows start k = Some (?p # ps)"
      using True ps(1) by (subst split_loop.simps) simp
    have rows: "rows A ?p = take ?n (drop start (rows A c))"
      unfolding row_sliced_deep_def by (rule row_sliced_rows [OF ok])
    then have "num_rows ?p = length (take ?n (drop start (rows A c)))" by (metis length_rows)
    then have "num_rows ?p \<le> target_rows" "num_rows ?p \<le> num_rows c" by auto
    moreover have "columns_ok A ?p"
      unfolding row_sliced_deep_def using row_sliced_picks(2) [OF ok] by (simp add: chunk_ok_def)
    moreover have "rows A ?p @ drop (start + ?n) (rows A c) = drop start (rows A c)"
      unfolding rows by (metis add.commute append_take_drop_id drop_drop)
    ultimately show ?thesis using eq ps by simp
  qed
qed

end

text \<open>
  C27. Splitting a sound chunk always terminates, and the rows of the pieces, put together, are the
  rows of the chunk; the pieces are sound. No piece has more rows than the limit that applies
  to the chunk: the one for unsorted chunks when some timeline is unsorted, the one for
  sorted chunks otherwise (a limit of zero is none). Splitting by size in bytes only divides
  further.
\<close>

theorem split_keeps_rows:
  assumes "arrow_laws A" "columns_ok A c" "num_rows c < 2 ^ 64"
  shows "\<exists>ps. split_chunk_if_needed B A ids stack_size cfg c = Some ps \<and>
           concat (map (rows A) ps) = rows A c \<and> (\<forall>p \<in> set ps. columns_ok A p) \<and>
           (\<not> all_timelines_sorted c \<and> 0 < chunk_max_rows_if_unsorted cfg \<longrightarrow>
              (\<forall>p \<in> set ps. num_rows p \<le> unat (chunk_max_rows_if_unsorted cfg))) \<and>
           (all_timelines_sorted c \<and> 0 < chunk_max_rows cfg \<longrightarrow>
              (\<forall>p \<in> set ps. num_rows p \<le> unat (chunk_max_rows cfg)))"
proof -
  let ?n = "word_of_nat (num_rows c) :: u64"
  have n: "unat ?n = num_rows c" using assms(3) by (simp add: unat_of_nat take_bit_nat_eq_self)
  have le: "num_rows c \<le> unat w" if "\<not> w < ?n" for w :: u64
    using that n by (simp add: not_less word_le_nat_alt)
  have pos: "1 \<le> unat w" if "0 < w" for w :: u64
    using that by (simp add: word_less_nat_alt)
  have loop: "\<exists>ps. split_loop A ids c t 0 0 = Some ps \<and> concat (map (rows A) ps) = rows A c \<and>
      (\<forall>p \<in> set ps. columns_ok A p \<and> num_rows p \<le> t \<and> num_rows p \<le> num_rows c)" if "0 < t" for t
    using arrow_laws.split_loop_total [OF assms(1,2) that, of ids 0 0] by simp
  have max1: "unat (max w 1) = max (unat w) 1" for w :: u64
    by (auto simp: max_def word_le_nat_alt)
  consider (one) "?n \<le> 1" | (many) "\<not> ?n \<le> 1" by blast
  then show ?thesis
  proof cases
    case one
    then have "num_rows c \<le> 1" using n by (simp add: word_le_nat_alt)
    then show ?thesis
      using one assms(2) pos by (auto simp: split_chunk_if_needed_def Let_def intro: order_trans)
  next
    case many
    let ?bytes = "stack_size + fst (heap_size_bytes B c)"
    let ?rows = "0 < chunk_max_rows cfg \<and> chunk_max_rows cfg < ?n"
    let ?unsorted = "0 < chunk_max_rows_if_unsorted cfg \<and> chunk_max_rows_if_unsorted cfg < ?n \<and> \<not> all_timelines_sorted c"
    let ?target = "if ?unsorted then chunk_max_rows_if_unsorted cfg
        else if ?rows then chunk_max_rows cfg
        else chunk_max_bytes cfg div max (?bytes div max ?n 1) 1"
    have bound: "num_rows p \<le> unat w" if "num_rows p \<le> num_rows c" "\<not> w < ?n" for p :: "'a Chunk" and w
      using that le by (blast intro: order_trans)
    have "split_chunk_if_needed B A ids stack_size cfg c = Some [c] \<and> \<not> ?rows \<and> \<not> ?unsorted \<or>
          split_chunk_if_needed B A ids stack_size cfg c = split_loop A ids c (unat (max ?target 1)) 0 0"
      using many by (simp add: split_chunk_if_needed_def Let_def)
    then show ?thesis
    proof
      assume "split_chunk_if_needed B A ids stack_size cfg c = Some [c] \<and> \<not> ?rows \<and> \<not> ?unsorted"
      then show ?thesis using assms(2) le by auto
    next
      assume split: "split_chunk_if_needed B A ids stack_size cfg c = split_loop A ids c (unat (max ?target 1)) 0 0"
      have "0 < unat (max ?target 1)" unfolding max1 by linarith
      from loop [OF this] obtain ps where ps: "split_loop A ids c (unat (max ?target 1)) 0 0 = Some ps" "concat (map (rows A) ps) = rows A c"
        "\<And>p. p \<in> set ps \<Longrightarrow> columns_ok A p \<and> num_rows p \<le> unat (max ?target 1) \<and> num_rows p \<le> num_rows c"
        by blast
      have "num_rows p \<le> unat (chunk_max_rows_if_unsorted cfg)"
        if "\<not> all_timelines_sorted c" "0 < chunk_max_rows_if_unsorted cfg" "p \<in> set ps" for p
        using ps(3) [OF that(3)] that(1,2) pos [OF that(2)] bound unfolding max1 by (auto split: if_splits)
      moreover have "num_rows p \<le> unat (chunk_max_rows cfg)"
        if "all_timelines_sorted c" "0 < chunk_max_rows cfg" "p \<in> set ps" for p
        using ps(3) [OF that(3)] that(1,2) pos [OF that(2)] bound unfolding max1 by (auto split: if_splits)
      ultimately show ?thesis using split ps by auto
    qed
  qed
qed

theorem split_keeps_rows_witness:
  "\<exists>ps. split_chunk_if_needed demo_build mem_arrow (\<lambda>_. demo_id 8) 0
          \<lparr>chunk_max_bytes = 0, chunk_max_rows = 2, chunk_max_rows_if_unsorted = 1\<rparr> demo_chunk = Some ps \<and>
        concat (map (rows mem_arrow) ps) = rows mem_arrow demo_chunk \<and>
        (\<forall>p \<in> set ps. num_rows p \<le> 1)"
proof -
  have "\<not> all_timelines_sorted demo_chunk"
    by (simp add: all_timelines_sorted_def demo_chunk_def demo_times_facts(3))
  then show ?thesis
    using split_keeps_rows [OF mem.arrow_laws_axioms demo_chunk_ok, of demo_build "\<lambda>_. demo_id 8" 0
        "\<lparr>chunk_max_bytes = 0, chunk_max_rows = 2, chunk_max_rows_if_unsorted = 1\<rparr>"]
    by (auto simp: demo_chunk_sel)
qed

section \<open>Concatenation keeps the rows\<close>

lemma map_filter_Some: "(\<And>x. x \<in> set xs \<Longrightarrow> f x = Some (g x)) \<Longrightarrow> List.map_filter f xs = map g xs"
  by (induction xs) (auto simp: List.map_filter_simps)

lemma map_filter_filter:
  "(\<And>x. x \<in> set xs \<Longrightarrow> f x = (if P x then Some (g x) else None)) \<Longrightarrow>
   List.map_filter f xs = map g (filter P xs)"
  by (induction xs) (auto simp: List.map_filter_simps)

lemma fold_update_fresh:
  assumes "distinct (map fst ys)" "\<forall>y \<in> set ys. fst y \<notin> fst ` set xs"
  shows "fold (\<lambda>(k, col) comps. AList.update k col comps) ys xs = xs @ ys"
  using assms
proof (induction ys arbitrary: xs)
  case (Cons y ys)
  have "fold (\<lambda>(k, col) comps. AList.update k col comps) ys (xs @ [y]) = (xs @ [y]) @ ys"
    using Cons.prems by (intro Cons.IH) (auto simp: image_iff)
  then show ?case
    using Cons.prems by (cases y) (simp add: update_fresh)
qed simp

lemma map_of_filter_key: "map_of (filter (\<lambda>(k, _). P k) xs) k = (if P k then map_of xs k else None)"
  by (induction xs) auto

lemma keyed_filter:
  "(\<forall>(k, x) \<in> set xs. f x = k) \<Longrightarrow>
   map (\<lambda>x. (f x, h x)) (filter (\<lambda>x. P (f x)) (map snd xs)) = map (\<lambda>(k, x). (k, h x)) (filter (\<lambda>(k, _). P k) xs)"
  by (induction xs) auto

text \<open>The columns that have to be padded are packed.\<close>

definition pads_packed :: "('a, 'd, 'v) arrow \<Rightarrow> 'a Chunk \<Rightarrow> 'a Chunk \<Rightarrow> bool" where
  "pads_packed A cl cr \<longleftrightarrow> (\<forall>(k, col) \<in> set (chunk_components cl).
     map_of (chunk_components cr) k = None \<longrightarrow> la_packed A (col_list_array col))"

text \<open>The cells of a component over \<open>n\<close> rows, none of them if it is missing.\<close>

definition cells_of :: "('a, 'd, 'v) arrow \<Rightarrow> nat \<Rightarrow> 'a ChunkComponents \<Rightarrow> string \<Rightarrow> 'v list option list" where
  "cells_of A n comps k =
     (case map_of comps k of None \<Rightarrow> replicate n None | Some col \<Rightarrow> la_cells A (col_list_array col))"

context arrow_laws
begin

lemma concat_onto_left_cells:
  assumes n: "la_len A (col_list_array lhs) = nl"
    and R: "components_ok A nr R"
    and types: "\<And>rhs. map_of R (cd_component (col_descriptor lhs)) = Some rhs \<Longrightarrow>
        la_data_type A (col_list_array lhs) = la_data_type A (col_list_array rhs)"
    and packed: "map_of R (cd_component (col_descriptor lhs)) = None \<Longrightarrow> la_packed A (col_list_array lhs)"
  shows "\<exists>a. concat_onto_left A (nl + nr) R lhs = Some \<lparr>col_list_array = a, col_descriptor = col_descriptor lhs\<rparr> \<and>
           la_cells A a = la_cells A (col_list_array lhs) @ cells_of A nr R (cd_component (col_descriptor lhs))"
proof (cases "map_of R (cd_component (col_descriptor lhs))")
  case None
  then show ?thesis
    using pad_back_cells [OF packed [OF None], of "nl + nr"] n by (simp add: concat_onto_left_def cells_of_def)
next
  case (Some rhs)
  then show ?thesis
    using concatenating [OF types [OF Some]] by (auto simp: concat_onto_left_def cells_of_def)
qed

lemma concat_components_cells:
  assumes L: "components_ok A nl L" and R: "components_ok A nr R"
    and types: "\<And>k lhs rhs. (k, lhs) \<in> set L \<Longrightarrow> map_of R k = Some rhs \<Longrightarrow>
        la_data_type A (col_list_array lhs) = la_data_type A (col_list_array rhs)"
    and packed: "\<And>k lhs. (k, lhs) \<in> set L \<Longrightarrow> map_of R k = None \<Longrightarrow> la_packed A (col_list_array lhs)"
      "\<And>k rhs. (k, rhs) \<in> set R \<Longrightarrow> map_of L k = None \<Longrightarrow> la_packed A (col_list_array rhs)"
  shows "components_ok A (nl + nr) (concat_components A (nl + nr) L R)"
    and "\<And>k. (map_of (concat_components A (nl + nr) L R) k = None \<longleftrightarrow> map_of L k = None \<and> map_of R k = None) \<and>
              cells_of A (nl + nr) (concat_components A (nl + nr) L R) k = cells_of A nl L k @ cells_of A nr R k"
proof -
  define g where "g lhs = \<lparr>col_list_array = col_list_array (the (concat_onto_left A (nl + nr) R lhs)),
      col_descriptor = col_descriptor lhs\<rparr>" for lhs
  define h where "h rhs = \<lparr>col_list_array = pad_list_array_front A (col_list_array rhs) (nl + nr),
      col_descriptor = col_descriptor rhs\<rparr>" for rhs :: "'a SerializedComponentColumn"
  have g: "concat_onto_left A (nl + nr) R lhs = Some (g lhs)"
      "la_cells A (col_list_array (g lhs)) = la_cells A (col_list_array lhs) @ cells_of A nr R k"
    if l: "(k, lhs) \<in> set L" for k lhs
  proof -
    have k: "cd_component (col_descriptor lhs) = k" "la_len A (col_list_array lhs) = nl"
      using l L by (auto simp: components_ok_def)
    show "concat_onto_left A (nl + nr) R lhs = Some (g lhs)"
      "la_cells A (col_list_array (g lhs)) = la_cells A (col_list_array lhs) @ cells_of A nr R k"
      using concat_onto_left_cells [OF k(2) R] types [OF l] packed(1) [OF l] by (auto simp: g_def k(1))
  qed
  have first: "components_from_iter (List.map_filter (concat_onto_left A (nl + nr) R) (map snd L)) =
      map (\<lambda>(k, lhs). (k, g lhs)) L" (is "_ = ?first")
  proof -
    have "List.map_filter (concat_onto_left A (nl + nr) R) (map snd L) = map g (map snd L)"
      using g(1) by (intro map_filter_Some) auto
    then show ?thesis
      using components_from_iter_map [OF L, of g] by (simp add: g_def case_prod_unfold comp_def)
  qed
  have keys: "contains_component ?first k \<longleftrightarrow> k \<in> fst ` set L" for k
    using map_of_eq_None_iff [of L k] by (auto simp: contains_component_def map_of_map)
  let ?R = "filter (\<lambda>(k, _). k \<notin> fst ` set L) R"
  have "concat_onto_right A (nl + nr) ?first L rhs =
      (if cd_component (col_descriptor rhs) \<notin> fst ` set L
       then Some (cd_component (col_descriptor rhs), h rhs) else None)" for rhs
    using map_of_eq_None_iff [of L "cd_component (col_descriptor rhs)"]
    by (cases "map_of L (cd_component (col_descriptor rhs))") (simp_all only: concat_onto_right_def keys h_def, auto)
  then have "List.map_filter (concat_onto_right A (nl + nr) ?first L) (map snd R) =
      map (\<lambda>rhs. (cd_component (col_descriptor rhs), h rhs))
        (filter (\<lambda>rhs. cd_component (col_descriptor rhs) \<notin> fst ` set L) (map snd R))"
    by (intro map_filter_filter) simp
  also have "\<dots> = map (\<lambda>(k, rhs). (k, h rhs)) ?R"
    using R by (intro keyed_filter) (auto simp: components_ok_def)
  finally have second: "List.map_filter (concat_onto_right A (nl + nr) ?first L) (map snd R) =
      map (\<lambda>(k, rhs). (k, h rhs)) ?R" .
  have dist: "distinct (map fst L)" "distinct (map fst ?R)"
    using L R by (auto simp: components_ok_def intro: distinct_map_filter)
  have eq: "concat_components A (nl + nr) L R = ?first @ map (\<lambda>(k, rhs). (k, h rhs)) ?R" (is "_ = ?comps")
    unfolding concat_components_def Let_def first second
    by (rule fold_update_fresh) (use dist in \<open>force simp: case_prod_unfold comp_def\<close>)+
  have h: "la_cells A (col_list_array (h rhs)) = replicate nl None @ la_cells A (col_list_array rhs)"
    if "(k, rhs) \<in> set R" "map_of L k = None" for k rhs
  proof -
    have "la_len A (col_list_array rhs) = nr" using that(1) R by (auto simp: components_ok_def)
    then show ?thesis using pad_front_cells [OF packed(2) [OF that], of "nl + nr"] by (simp add: h_def)
  qed
  have map_of: "map_of ?comps k = (case map_of L k of Some lhs \<Rightarrow> Some (g lhs) | None \<Rightarrow> map_option h (map_of R k))" for k
    using map_of_eq_None_iff [of L k]
    by (auto simp: map_of_map map_add_def map_of_filter_key split: option.split)
  have cells: "cells_of A (nl + nr) ?comps k = cells_of A nl L k @ cells_of A nr R k" for k
  proof (cases "map_of L k")
    case None
    then show ?thesis
      using h [OF map_of_SomeD None] unfolding cells_of_def map_of
      by (cases "map_of R k") (simp_all add: replicate_add)
  next
    case (Some lhs)
    then show ?thesis
      using g(2) [OF map_of_SomeD [OF Some]] unfolding cells_of_def map_of by simp
  qed
  show "(map_of (concat_components A (nl + nr) L R) k = None \<longleftrightarrow> map_of L k = None \<and> map_of R k = None) \<and>
        cells_of A (nl + nr) (concat_components A (nl + nr) L R) k = cells_of A nl L k @ cells_of A nr R k" for k
    unfolding eq using cells map_of by (auto split: option.splits)
  have len: "length (cells_of A n X k) = n" if "components_ok A n X" for n X k
    using that by (auto simp: cells_of_def components_ok_def dest: map_of_SomeD split: option.split)
  have distinct: "distinct (map fst ?comps)"
    using dist by (force simp: case_prod_unfold comp_def)
  have "la_len A (col_list_array col) = nl + nr" if "(k, col) \<in> set ?comps" for k col
  proof -
    have "map_of ?comps k = Some col" using distinct that by (rule map_of_is_SomeI)
    then have "la_cells A (col_list_array col) = cells_of A nl L k @ cells_of A nr R k"
      using cells [of k] by (simp add: cells_of_def [of A "nl + nr"])
    then show ?thesis
      using len [OF L] len [OF R] by (metis length_append length_la_cells)
  qed
  moreover have "cd_component (col_descriptor col) = k" if "(k, col) \<in> set ?comps" for k col
    using that L R by (auto simp: components_ok_def g_def h_def)
  ultimately show "components_ok A (nl + nr) (concat_components A (nl + nr) L R)"
    unfolding eq components_ok_def using distinct by blast
qed

lemma cells_of_nth:
  assumes "components_ok A n comps" "i < n"
  shows "cells_of A n comps k ! i = Option.bind (map_of comps k) (\<lambda>col. la_cell A (col_list_array col) i)"
  using assms
  by (auto simp: cells_of_def components_ok_def nth_la_cells dest!: map_of_SomeD split: option.split)

lemma concat_timelines_times:
  assumes "timelines_ok nl tls" "timelines_ok nr trs" and n: "0 < nl" "0 < nr"
    and "\<forall>(name, l) \<in> set tls. \<exists>r. map_of trs name = Some r \<and> tc_timeline l = tc_timeline r"
  shows "\<exists>ts. concat_timelines tls trs = Ok ts \<and> timelines_ok (nl + nr) ts \<and> map fst ts = map fst tls \<and>
           (\<forall>name l r. map_of tls name = Some l \<longrightarrow> map_of trs name = Some r \<longrightarrow>
              map_option tc_times (map_of ts name) = Some (tc_times l @ tc_times r))"
  using assms
proof (induction tls)
  case (Cons nl_l tls)
  obtain name l where nl_l: "nl_l = (name, l)" by (cases nl_l)
  obtain r where r: "map_of trs name = Some r" "tc_timeline l = tc_timeline r"
    using Cons.prems(5) nl_l by auto
  have l: "tc_ok l" "length (tc_times l) = nl" "tc_ok r" "length (tc_times r) = nr"
    using Cons.prems(1,2) map_of_SomeD [OF r(1)] by (auto simp: timelines_ok_def nl_l)
  then obtain tc where tc: "tc_concatenated l r = Some tc" "tc_ok tc" "tc_times tc = tc_times l @ tc_times r"
    using tc_concatenated [OF l(1,3) r(2)] n by fastforce
  obtain ts where ts: "concat_timelines tls trs = Ok ts" "timelines_ok (nl + nr) ts" "map fst ts = map fst tls"
    "\<forall>name l r. map_of tls name = Some l \<longrightarrow> map_of trs name = Some r \<longrightarrow>
       map_option tc_times (map_of ts name) = Some (tc_times l @ tc_times r)"
  proof -
    have ok: "timelines_ok nl tls" using Cons.prems(1) by (simp add: timelines_ok_def)
    have same: "\<forall>(name, l) \<in> set tls. \<exists>r. map_of trs name = Some r \<and> tc_timeline l = tc_timeline r"
      using Cons.prems(5) by simp
    from Cons.IH [OF ok Cons.prems(2) n same] show thesis by (elim exE conjE) (rule that)
  qed
  have "fst ` set ts = fst ` set tls" using ts(3) by (metis list.set_map)
  then have "name \<notin> fst ` set ts"
    using Cons.prems(1) by (simp add: timelines_ok_def nl_l)
  then have "timelines_ok (nl + nr) ((name, tc) # ts)"
    using ts(2) tc l by (simp add: timelines_ok_def)
  moreover have "concat_timelines (nl_l # tls) trs = Ok ((name, tc) # ts)"
    using ts(1) tc(1) r(1) by (simp add: nl_l)
  moreover have "map_option tc_times (map_of ((name, tc) # ts) k) = Some (tc_times l' @ tc_times r')"
    if "map_of (nl_l # tls) k = Some l'" "map_of trs k = Some r'" for k l' r'
    using that ts(4) tc(3) r(1) by (simp add: nl_l split: if_splits)
  ultimately show ?case
    using ts(3) nl_l by (intro exI [of _ "(name, tc) # ts"]) simp
qed (simp add: timelines_ok_def)

lemma rows_append:
  assumes n: "num_rows c = num_rows cl + num_rows cr" and ids: "chunk_row_ids c = chunk_row_ids cl @ chunk_row_ids cr"
    and times: "\<And>name. (map_of (chunk_timelines cl) name = None \<and> map_of (chunk_timelines cr) name = None \<and>
        map_of (chunk_timelines c) name = None) \<or>
      (\<exists>l r. map_of (chunk_timelines cl) name = Some l \<and> map_of (chunk_timelines cr) name = Some r \<and>
         map_option tc_times (map_of (chunk_timelines c) name) = Some (tc_times l @ tc_times r))"
    and cells: "\<And>k. cells_of A (num_rows c) (chunk_components c) k =
      cells_of A (num_rows cl) (chunk_components cl) k @ cells_of A (num_rows cr) (chunk_components cr) k"
    and ok: "columns_ok A cl" "columns_ok A cr" "components_ok A (num_rows c) (chunk_components c)"
  shows "rows A c = rows A cl @ rows A cr"
proof (rule nth_equalityI)
  show "length (rows A c) = length (rows A cl @ rows A cr)" by (simp add: n)
  fix i assume "i < length (rows A c)"
  then have i: "i < num_rows c" by simp
  have len_l: "length (tc_times l) = num_rows cl" if "map_of (chunk_timelines cl) name = Some l" for name l
    using that ok(1) by (auto simp: columns_ok_def timelines_ok_def dest!: map_of_SomeD)
  have row: "row_at A c i = (if i < num_rows cl then row_at A cl i else row_at A cr (i - num_rows cl))"
  proof (rule row.equality)
    show "rw_times (row_at A c i) = rw_times (if i < num_rows cl then row_at A cl i else row_at A cr (i - num_rows cl))"
    proof
      fix name
      show "rw_times (row_at A c i) name =
          rw_times (if i < num_rows cl then row_at A cl i else row_at A cr (i - num_rows cl)) name"
        using times [of name] len_l [of name] by (auto simp: row_at_def nth_append)
    qed
    have cells_l: "length (cells_of A (num_rows cl) (chunk_components cl) k) = num_rows cl" for k
      using ok(1) by (auto simp: columns_ok_def components_ok_def cells_of_def dest: map_of_SomeD split: option.split)
    have "Option.bind (map_of (chunk_components c) k) (\<lambda>col. la_cell A (col_list_array col) i) =
        (if i < num_rows cl then Option.bind (map_of (chunk_components cl) k) (\<lambda>col. la_cell A (col_list_array col) i)
         else Option.bind (map_of (chunk_components cr) k) (\<lambda>col. la_cell A (col_list_array col) (i - num_rows cl)))" for k
    proof -
      have "cells_of A (num_rows c) (chunk_components c) k ! i =
          (if i < num_rows cl then cells_of A (num_rows cl) (chunk_components cl) k ! i
           else cells_of A (num_rows cr) (chunk_components cr) k ! (i - num_rows cl))"
        by (simp add: cells nth_append cells_l)
      then show ?thesis
        using i n ok cells_of_nth [OF ok(3) i] by (auto simp: cells_of_nth columns_ok_def)
    qed
    then show "rw_cells (row_at A c i) =
        rw_cells (if i < num_rows cl then row_at A cl i else row_at A cr (i - num_rows cl))"
      by (auto simp: row_at_def fun_eq_iff)
  qed (use i n in \<open>auto simp: row_at_def ids nth_append num_rows_def\<close>)
  then show "rows A c ! i = (rows A cl @ rows A cr) ! i"
    using i n by (auto simp: nth_append)
qed

lemma row_id_range_bounds:
  assumes "columns_ok A c"
  shows "row_id_range c = (if num_rows c = 0 then None
           else Some (Min (set (chunk_row_ids c)), Max (set (chunk_row_ids c))))"
  using assms
  by (auto simp: row_id_range_def chunk_is_empty_def num_rows_def columns_ok_def iter_min_eq iter_max_eq
      Min_sorted Max_sorted)

lemma same_timelines_keys:
  assumes "same_timelines cl cr" "timelines_ok nl (chunk_timelines cl)" "timelines_ok nr (chunk_timelines cr)"
  shows "map_of (chunk_timelines cl) name = None \<longleftrightarrow> map_of (chunk_timelines cr) name = None"
proof -
  have sub: "fst ` set (chunk_timelines cl) \<subseteq> fst ` set (chunk_timelines cr)"
    using assms(1) by (force simp: same_timelines_def list_all_iff split: option.splits dest: map_of_SomeD)
  have card: "card (fst ` set tls) = length tls" if "timelines_ok n tls" for n tls
    using that distinct_card [of "map fst tls"] by (simp add: timelines_ok_def)
  have "fst ` set (chunk_timelines cl) = fst ` set (chunk_timelines cr)"
    using sub assms by (intro card_subset_eq) (simp_all add: card [OF assms(2)] card [OF assms(3)] same_timelines_def)
  then show ?thesis by (simp add: map_of_eq_None_iff)
qed

lemma concatenated_unsorted_rows:
  assumes cl: "columns_ok A cl" and cr: "columns_ok A cr" and conc: "concatenable A cl cr"
    and packed: "pads_packed A cl cr" "pads_packed A cr cl"
  shows "\<exists>c. concatenated_unsorted A new_id cl cr = Ok c \<and> columns_ok A c \<and> rows A c = rows A cl @ rows A cr \<and>
           chunk_heap_size c \<in> {0, chunk_heap_size cl, chunk_heap_size cr}"
proof (cases "num_rows cl = 0 \<or> num_rows cr = 0")
  case True
  then show ?thesis
    using conc row_id_range_bounds [OF cl] row_id_range_bounds [OF cr] cl cr
    by (cases "num_rows cl = 0") (simp_all add: concatenated_unsorted_def rows_def)
next
  case False
  let ?nl = "num_rows cl" and ?nr = "num_rows cr"
  have ok: "timelines_ok ?nl (chunk_timelines cl)" "timelines_ok ?nr (chunk_timelines cr)"
    "components_ok A ?nl (chunk_components cl)" "components_ok A ?nr (chunk_components cr)"
    using cl cr by (simp_all add: columns_ok_def)
  have same: "same_timelines cl cr" "same_datatypes A cl cr" using conc by (simp_all add: concatenable_def)
  have "\<forall>(name, l) \<in> set (chunk_timelines cl). \<exists>r. map_of (chunk_timelines cr) name = Some r \<and> tc_timeline l = tc_timeline r"
    using same(1) by (auto simp: same_timelines_def list_all_iff split: option.splits)
  then obtain ts where ts: "concat_timelines (chunk_timelines cl) (chunk_timelines cr) = Ok ts"
    "timelines_ok (?nl + ?nr) ts" "map fst ts = map fst (chunk_timelines cl)"
    "\<And>name l r. map_of (chunk_timelines cl) name = Some l \<Longrightarrow> map_of (chunk_timelines cr) name = Some r \<Longrightarrow>
       map_option tc_times (map_of ts name) = Some (tc_times l @ tc_times r)"
    using concat_timelines_times [OF ok(1,2)] False by auto
  let ?comps = "concat_components A (?nl + ?nr) (chunk_components cl) (chunk_components cr)"
  have types: "la_data_type A (col_list_array lhs) = la_data_type A (col_list_array rhs)"
    if "(k, lhs) \<in> set (chunk_components cl)" "map_of (chunk_components cr) k = Some rhs" for k lhs rhs
    using that same(2) ok(3) by (fastforce simp: same_datatypes_def list_all_iff components_ok_def)
  note comps = concat_components_cells [OF ok(3,4) types]
  have comps_ok: "components_ok A (?nl + ?nr) ?comps"
    by (rule comps(1)) (use packed in \<open>auto simp: pads_packed_def\<close>)
  have cells: "cells_of A (?nl + ?nr) ?comps k =
      cells_of A ?nl (chunk_components cl) k @ cells_of A ?nr (chunk_components cr) k" for k
    by (rule comps(2) [THEN conjunct2]) (use packed in \<open>auto simp: pads_packed_def\<close>)
  let ?ids = "chunk_row_ids cl @ chunk_row_ids cr"
  define c where "c = \<lparr>chunk_id = new_id, chunk_entity_path = chunk_entity_path cl, chunk_heap_size = 0,
    chunk_is_sorted = (chunk_is_sorted cl \<and> chunk_is_sorted cr \<and>
      Max (set (chunk_row_ids cl)) \<le> Min (set (chunk_row_ids cr))),
    chunk_row_ids = ?ids, chunk_timelines = ts, chunk_components = ?comps\<rparr>"
  have ne: "chunk_row_ids cl \<noteq> []" "chunk_row_ids cr \<noteq> []" using False by (auto simp: num_rows_def)
  have n: "num_rows c = ?nl + ?nr" by (simp add: c_def num_rows_def)
  have "k_concat (k_ids A) [chunk_row_ids cl, chunk_row_ids cr] = Some ?ids"
    using kernel_laws.k_concat [OF ids_laws] by simp
  then have "concatenated_unsorted A new_id cl cr = Ok c"
    using conc False row_id_range_bounds [OF cl] row_id_range_bounds [OF cr] ts(1)
    by (simp add: concatenated_unsorted_def c_def)
  moreover have "sorted ?ids \<longleftrightarrow> sorted (chunk_row_ids cl) \<and> sorted (chunk_row_ids cr) \<and>
      Max (set (chunk_row_ids cl)) \<le> Min (set (chunk_row_ids cr))"
    using ne by (auto simp: sorted_append)
  then have "columns_ok A c"
    using cl cr ts(2) comps_ok n by (simp add: columns_ok_def c_def)
  moreover have "rows A c = rows A cl @ rows A cr"
  proof (rule rows_append [OF n _ _ _ cl cr])
    fix name
    have "map_of ts name = None \<longleftrightarrow> map_of (chunk_timelines cl) name = None"
      using ts(3) by (metis list.set_map map_of_eq_None_iff)
    then show "(map_of (chunk_timelines cl) name = None \<and> map_of (chunk_timelines cr) name = None \<and>
          map_of (chunk_timelines c) name = None) \<or>
        (\<exists>l r. map_of (chunk_timelines cl) name = Some l \<and> map_of (chunk_timelines cr) name = Some r \<and>
           map_option tc_times (map_of (chunk_timelines c) name) = Some (tc_times l @ tc_times r))"
      using same_timelines_keys [OF same(1) ok(1,2), of name] ts(4) [of name] by (auto simp: c_def)
  qed (use cells comps_ok n in \<open>simp_all add: c_def\<close>)
  ultimately show ?thesis by (auto simp: c_def)
qed

lemma same_timelines_sym:
  assumes "columns_ok A cl" "columns_ok A cr" "same_timelines cl cr"
  shows "same_timelines cr cl"
proof -
  have ok: "timelines_ok (num_rows cl) (chunk_timelines cl)" "timelines_ok (num_rows cr) (chunk_timelines cr)"
    using assms(1,2) by (simp_all add: columns_ok_def)
  have "\<exists>l. map_of (chunk_timelines cl) name = Some l \<and> tc_timeline r = tc_timeline l"
    if "(name, r) \<in> set (chunk_timelines cr)" for name r
  proof -
    have r: "map_of (chunk_timelines cr) name = Some r"
      using ok(2) that by (simp add: timelines_ok_def)
    then obtain l where l: "map_of (chunk_timelines cl) name = Some l"
      using same_timelines_keys [OF assms(3) ok, of name] by auto
    then show ?thesis
      using assms(3) r map_of_SomeD [OF l] by (fastforce simp: same_timelines_def list_all_iff)
  qed
  then show ?thesis
    using assms(3) by (fastforce simp: same_timelines_def list_all_iff)
qed

lemma same_datatypes_sym:
  assumes "columns_ok A cl" "columns_ok A cr" "same_datatypes A cl cr"
  shows "same_datatypes A cr cl"
proof -
  have ok: "components_ok A (num_rows cl) (chunk_components cl)" "components_ok A (num_rows cr) (chunk_components cr)"
    using assms(1,2) by (simp_all add: columns_ok_def)
  have "la_data_type A (col_list_array r) = la_data_type A (col_list_array l)"
    if "(k, r) \<in> set (chunk_components cr)" "map_of (chunk_components cl) k = Some l" for k r l
  proof -
    have "map_of (chunk_components cr) k = Some r"
      using ok(2) that(1) by (simp add: components_ok_def)
    moreover have "(k, l) \<in> set (chunk_components cl)" "cd_component (col_descriptor l) = k"
      using that(2) ok(1) by (auto simp: components_ok_def dest: map_of_SomeD)
    ultimately show ?thesis
      using assms(3) by (fastforce simp: same_datatypes_def list_all_iff)
  qed
  then show ?thesis
    using ok(2) by (fastforce simp: same_datatypes_def list_all_iff components_ok_def split: option.split)
qed

lemma concatenable_sym:
  assumes "columns_ok A cl" "columns_ok A cr"
  shows "concatenable A cl cr \<longleftrightarrow> concatenable A cr cl"
  using same_timelines_sym same_datatypes_sym assms
  by (auto simp: concatenable_def same_entity_paths_def path_eq_def)

lemma sanity_check_ok:
  assumes "columns_ok A c" "heap_unset B c" "\<not> very_strict B"
  shows "sanity_check B A c = Ok ()"
proof (cases "debug_assertions B")
  case True
  then show ?thesis
    using assms
    by (subst sanity_check_iff)
       (auto simp: chunk_ok_def heap_ok_def heap_unset_def columns_ok_def timelines_ok_def components_ok_def tc_ok_def)
next
  case False
  have "check_timelines B n tls = Ok ()" if "timelines_ok n tls" for n tls
    using that False by (induction B n tls rule: check_timelines.induct) (auto simp: timelines_ok_def tc_sanity_check_def)
  then show ?thesis
    using assms False
    by (simp add: sanity_check_def warn_if_out_of_order_def columns_ok_def check_components_iff components_ok_def)
qed

end

lemma concat_and_sort_result:
  assumes "arrow_laws A" "columns_ok A left" "columns_ok A right"
    and "pads_packed A left right" "pads_packed A right left"
    and "heap_unset B left" "heap_unset B right" "\<not> very_strict B"
  shows "if concatenable A left right
         then \<exists>c. concat_and_sort B A new_id left right = Ok c \<and> columns_ok A c \<and> chunk_is_sorted c \<and>
                rows A c = sort_key rw_id
                  (if opt_less (map_option fst (row_id_range left)) (map_option fst (row_id_range right))
                   then rows A left @ rows A right else rows A right @ rows A left)
         else \<exists>e. concat_and_sort B A new_id left right = Err (Malformed e)"
proof -
  let ?first = "opt_less (map_option fst (row_id_range left)) (map_option fst (row_id_range right))"
  define cl where "cl = (if ?first then left else right)"
  define cr where "cr = (if ?first then right else left)"
  have eq: "concat_and_sort B A new_id left right =
      try_bind (concatenated_unsorted A new_id cl cr) (\<lambda>compacted.
      try_bind (ok_or (sort_by_row_ids_if_needed B A new_id compacted) Panicked) (\<lambda>compacted.
      try_bind (sanity_check B A compacted) (\<lambda>_. Ok compacted)))"
    by (simp add: concat_and_sort_def cl_def cr_def)
  have conc: "concatenable A cl cr \<longleftrightarrow> concatenable A left right"
    using arrow_laws.concatenable_sym [OF assms(1-3)] by (simp add: cl_def cr_def)
  show ?thesis
  proof (cases "concatenable A left right")
    case True
    have ok: "columns_ok A cl" "columns_ok A cr" "pads_packed A cl cr" "pads_packed A cr cl"
      using assms by (simp_all add: cl_def cr_def)
    obtain c where c: "concatenated_unsorted A new_id cl cr = Ok c" "columns_ok A c"
      "rows A c = rows A cl @ rows A cr" "chunk_heap_size c \<in> {0, chunk_heap_size cl, chunk_heap_size cr}"
      using arrow_laws.concatenated_unsorted_rows [OF assms(1) ok(1,2) _ ok(3,4), of new_id] True conc by blast
    have heap: "heap_unset B c"
      using c(4) assms(6,7) by (auto simp: heap_unset_def cl_def cr_def)
    have "lenient B" using assms(8) by (simp add: lenient_def)
    then obtain c' where c': "sort_by_row_ids_if_needed B A new_id c = Some c'" "columns_ok A c'" "chunk_is_sorted c'"
      "rows A c' = sort_key rw_id (rows A c)" "chunk_heap_size c' = chunk_heap_size c"
      using arrow_laws.sort_by_row_ids [OF assms(1) c(2) heap, of new_id] by blast
    have "sanity_check B A c' = Ok ()"
      using heap c'(2,5) assms(8) by (intro arrow_laws.sanity_check_ok [OF assms(1)]) (simp_all add: heap_unset_def)
    then show ?thesis
      using True c c' by (auto simp: eq cl_def cr_def)
  next
    case False
    then show ?thesis using conc by (simp add: eq concatenated_unsorted_def)
  qed
qed

text \<open>
  C26. Merging two sound chunks of the same entity, with the same timelines and the same
  datatypes, always succeeds if the columns of the components that only one of the chunks has are packed,
  and the result holds exactly the rows of both, stably sorted by row id,
  where the chunk with the smaller first row id comes first; components that only one chunk has
  are null on the rows of the other. The result is sound and sorted. If the chunks are not
  concatenable, the merge is an error. A column that is not packed, one that was sliced without copying for instance, is excluded because padding it
  loses cells: the padding restarts the offsets at zero over the whole child array. The build does not check contents very strictly, and
  in debug builds the cached heap sizes are unset.
\<close>

theorem concat_and_sort_rows:
  assumes "arrow_laws A" "columns_ok A left" "columns_ok A right"
    and "pads_packed A left right" "pads_packed A right left"
    and "heap_unset B left" "heap_unset B right" "\<not> very_strict B"
  shows "if concatenable A left right
         then \<exists>c. concat_and_sort B A new_id left right = Ok c \<and> columns_ok A c \<and> chunk_is_sorted c \<and>
                rows A c = sort_key rw_id
                  (if opt_less (map_option fst (row_id_range left)) (map_option fst (row_id_range right))
                   then rows A left @ rows A right else rows A right @ rows A left)
         else \<exists>e. concat_and_sort B A new_id left right = Err (Malformed e)"
  using assms by (rule concat_and_sort_result)

text \<open>The demo chunk and a later row with another component.\<close>

definition demo_late :: "nat mem_array Chunk" where
  "demo_late = demo_chunk\<lparr>chunk_row_ids := [demo_id 2],
     chunk_timelines := [(''frame'', tc_new None \<lparr>timeline_name = ''frame'', timeline_typ = Sequence\<rparr> [i64_of_int 5])],
     chunk_components := [(''d'', \<lparr>col_list_array = MemArray [] [([4], True)] [] False,
        col_descriptor = \<lparr>cd_archetype = None, cd_component = ''d'', cd_component_type = None\<rparr>\<rparr>)]\<rparr>"

lemma demo_late_ok:
  "columns_ok mem_arrow demo_late" "heap_unset demo_build demo_late"
  "concatenable mem_arrow demo_chunk demo_late"
  "pads_packed mem_arrow demo_chunk demo_late" "pads_packed mem_arrow demo_late demo_chunk"
  "map_option fst (row_id_range demo_late) = Some (demo_id 2)"
  "map_option fst (row_id_range demo_chunk) = Some (demo_id 1)"
proof -
  have "ival (i64_of_int 5) = 5" by (simp add: ival_of_int in_i64_def)
  then have "tc_ok (tc_new None \<lparr>timeline_name = ''frame'', timeline_typ = Sequence\<rparr> [i64_of_int 5])"
    by (intro tc_new_ok) (auto simp flip: ival_inject)
  then show "columns_ok mem_arrow demo_late"
    by (simp add: columns_ok_def demo_late_def demo_chunk_def num_rows_def timelines_ok_def components_ok_def)
  have "la_packed mem_arrow (MemArray [] [([7 :: nat], True), ([], False), ([8, 9], True)] [] True)"
    "la_packed mem_arrow (MemArray [] [([4 :: nat], True)] [] False)"
    by (simp_all add: la_packed_def cell_lens_def la_cells_def la_cell_def la_is_valid_def mem_arrow_def upt_rec)
  then show "pads_packed mem_arrow demo_chunk demo_late" "pads_packed mem_arrow demo_late demo_chunk"
    by (simp_all add: demo_late_def demo_chunk_def pads_packed_def)
qed (simp_all add: demo_late_def demo_chunk_def heap_unset_def concatenable_def same_entity_paths_def path_eq_def
  same_timelines_def same_datatypes_def demo_times_def row_id_range_def chunk_is_empty_def
  num_rows_def)

theorem concat_and_sort_rows_witness:
  "\<exists>c. concat_and_sort demo_build mem_arrow (demo_id 8) demo_late demo_chunk = Ok c \<and> chunk_is_sorted c \<and>
       rows mem_arrow c = sort_key rw_id (rows mem_arrow demo_chunk @ rows mem_arrow demo_late)"
proof -
  have "concatenable mem_arrow demo_late demo_chunk"
    using mem.concatenable_sym [OF demo_chunk_ok demo_late_ok(1)] demo_late_ok(3) by simp
  moreover have "\<not> demo_id 2 < demo_id 1" "\<not> very_strict (demo_build :: nat mem_array build)"
    using demo_id_less(1) by (simp_all add: not_less less_imp_le demo_build_def)
  ultimately show ?thesis
    using concat_and_sort_rows [OF mem.arrow_laws_axioms demo_late_ok(1) demo_chunk_ok demo_late_ok(5,4,2)
        demo_build(2), of "demo_id 8"]
    by (auto simp: demo_late_ok)
qed

end
