(* ===== verification/Chunk_Auto.thy ===== *)
theory Chunk_Auto
  imports Chunk_Merge "HOL-Library.Char_ord"
begin

text \<open>
  The constructors of \<open>src/crates/store/dl_chunk/src/chunk.rs\<close> that order the rows by time and number them
  themselves (\<open>from_auto_row_ids\<close>, \<open>from_columns\<close>).
\<close>

section \<open>Automatic row ids\<close>

text \<open>
  The comparator of \<open>from_auto_row_ids\<close> orders rows by their times, timeline by timeline in the order of
  the names. It indexes the time columns before their lengths are checked: a column that is
  too short panics there as soon as there are two rows to compare.
\<close>

definition time_key :: "Timelines \<Rightarrow> nat \<Rightarrow> i64 list" where
  "time_key timelines i = map (\<lambda>name. tc_times (the (map_of timelines name)) ! i) (sort (map fst timelines))"

definition from_auto_row_ids ::
  "'a build \<Rightarrow> ('a, 'd, 'v) arrow \<Rightarrow> ChunkId \<Rightarrow> ChunkId \<Rightarrow> EntityPath \<Rightarrow> Timelines \<Rightarrow> 'a ChunkComponents
   \<Rightarrow> (ChunkError, 'a Chunk) result"
where
  "from_auto_row_ids B A new_id i path timelines components =
     (let n = (case list_arrays components of [] \<Rightarrow> 0 | list_array # _ \<Rightarrow> la_len A list_array)
      in if 2 \<le> n \<and> list_ex (\<lambda>(_, tc). length (tc_times tc) < n) timelines then Err Panicked
         else
           let swaps = sort_key (time_key timelines) [0..<n];
               placeholder_row_ids = auto_row_ids i n
           in try_bind (chunk_new B A i path (Some True) placeholder_row_ids timelines components) (\<lambda>chunk.
                let already_sorted = list_all (\<lambda>(to, from). to = from) (enumerate 0 swaps)
                in if already_sorted then Ok chunk
                   else ok_or (do { chunk \<leftarrow> shuffle_with A new_id swaps chunk;
                                    debug_checked B A
                                      (chunk\<lparr>chunk_row_ids := auto_row_ids (chunk_id chunk) n, chunk_is_sorted := True\<rparr>) })
                          Panicked))"

definition from_columns ::
  "'a build \<Rightarrow> ('a, 'd, 'v) arrow \<Rightarrow> ChunkId \<Rightarrow> ChunkId \<Rightarrow> EntityPath \<Rightarrow> TimeColumn list
   \<Rightarrow> (ComponentDescriptor \<times> 'a) list \<Rightarrow> (ChunkError, 'a Chunk) result"
where
  "from_columns B A new_id i path timelines components =
     from_auto_row_ids B A new_id i path
       (fold (\<lambda>tc. AList.update (timeline_name (tc_timeline tc)) tc) timelines [])
       (components_from_iter (map (\<lambda>(d, a). \<lparr>col_list_array = a, col_descriptor = d\<rparr>) components))"

section \<open>Successive identifiers\<close>

lemma tuid_next_greater:
  assumes "tuid_ok t" "unat (tuid_inc t) + 1 < 2 ^ 64"
  shows "t < tuid_next t" "tuid_ok (tuid_next t)" "unat (tuid_inc (tuid_next t)) = unat (tuid_inc t) + 1"
proof -
  have nx: "tuid_next t = from_nanos_and_inc (nanos_since_epoch t) (tuid_inc t + 1)"
    using assms(1)
    by (cases t) (simp add: tuid_next_def from_nanos_and_inc_def nanos_since_epoch_def tuid_inc_def tuid_ok_def to_from_be_bytes_8)
  then show ok: "tuid_ok (tuid_next t)" by simp
  show inc: "unat (tuid_inc (tuid_next t)) = unat (tuid_inc t) + 1"
    using assms(2) by (simp add: nx unat_word_ariths)
  have "unat (as_u128 t) < unat (as_u128 (tuid_next t))"
    unfolding unat_as_u128 inc by (simp add: nx)
  then show "t < tuid_next t"
    using assms(1) ok by (simp add: tuid_less_iff word_less_nat_alt)
qed

lemma successors_increase:
  assumes "tuid_ok t" "unat (tuid_inc t) + n < 2 ^ 64"
  shows "sorted_wrt (<) (t # successors (tuid_next t) n)"
  using assms
proof (induction n arbitrary: t)
  case (Suc n)
  have room: "unat (tuid_inc t) + 1 < 2 ^ 64" using Suc.prems(2) by simp
  note nx = tuid_next_greater [OF Suc.prems(1) room]
  have "sorted_wrt (<) (tuid_next t # successors (tuid_next (tuid_next t)) n)"
    using Suc.prems nx by (intro Suc.IH) simp_all
  then show ?case using nx(1) by (auto intro: less_trans)
qed simp

lemma length_successors [simp]: "length (successors t n) = n"
  by (induction n arbitrary: t) simp_all

lemma auto_row_ids_increase:
  assumes "tuid_ok t" "unat (tuid_inc t) + n < 2 ^ 64"
  shows "sorted_wrt (<) (auto_row_ids t n)" "sorted (auto_row_ids t n)" "length (auto_row_ids t n) = n"
  using successors_increase [OF assms] by (simp_all add: auto_row_ids_def strict_sorted_iff)

section \<open>Rows in time order\<close>

text \<open>What a row says, apart from its id, and its times in the order of the names.\<close>

definition content :: "'v row \<Rightarrow> (string \<rightharpoonup> i64) \<times> (string \<rightharpoonup> 'v list)" where
  "content r = (rw_times r, rw_cells r)"

definition times_of :: "string list \<Rightarrow> 'v row \<Rightarrow> i64 list" where
  "times_of names r = map (\<lambda>name. rw_time name r) (sort names)"

lemma time_key_row:
  assumes "chunk_timelines c = timelines"
  shows "time_key timelines i = times_of (map fst timelines) (row_at A c i)"
proof -
  have "tc_times (the (map_of timelines name)) ! i = rw_time name (row_at A c i)" if mem: "name \<in> fst ` set timelines" for name
  proof -
    obtain tc where "map_of timelines name = Some tc" using mem by (cases "map_of timelines name") (auto simp: map_of_eq_None_iff)
    then show ?thesis using assms rw_time_row_at [of c name tc A i] by simp
  qed
  then show ?thesis by (simp add: time_key_def times_of_def)
qed

lemma enumerate_identity:
  "list_all (\<lambda>(x, y). x = y) (enumerate 0 xs) \<Longrightarrow> xs = [0..<length xs]"
  by (rule nth_equalityI) (auto simp: list_all_length nth_enumerate_eq)

lemma contents_rows:
  assumes "chunk_timelines c = chunk_timelines d" "chunk_components c = chunk_components d" "num_rows c = num_rows d"
  shows "map content (rows A c) = map content (rows A d)"
  using assms by (simp add: rows_def content_def row_at_def)

context arrow_laws
begin

lemma from_auto_row_ids_rows:
  assumes ok: "timelines_ok n timelines" "components_ok A n components" and ne: "components \<noteq> []"
    and ids: "tuid_ok i" "unat (tuid_inc i) + n < 2 ^ 64" "tuid_ok new_id" "unat (tuid_inc new_id) + n < 2 ^ 64"
    and B: "\<not> very_strict B"
    and c0_def: "c0 = \<lparr>chunk_id = i, chunk_entity_path = path, chunk_heap_size = 0, chunk_is_sorted = True,
    chunk_row_ids = auto_row_ids i n, chunk_timelines = timelines, chunk_components = components\<rparr>"
  shows "\<exists>c. from_auto_row_ids B A new_id i path timelines components = Ok c \<and> columns_ok A c \<and>
           sorted_wrt (<) (chunk_row_ids c) \<and> num_rows c = n \<and>
           map content (rows A c) = map content (sort_key (times_of (map fst timelines)) (rows A c0))"
proof -
  have lens: "la_len A (col_list_array col) = n" if "(k, col) \<in> set components" for k col
    using that ok(2) by (auto simp: components_ok_def)
  then have n: "(case list_arrays components of [] \<Rightarrow> 0 | list_array # _ \<Rightarrow> la_len A list_array) = n"
    using ne by (cases components) (auto simp: list_arrays_def)
  have short: "\<not> list_ex (\<lambda>(_, tc). length (tc_times tc) < n) timelines"
    using ok(1) by (auto simp: list_ex_iff timelines_ok_def)
  have c0: "num_rows c0 = n" "columns_ok A c0" "heap_unset B c0"
    using ok auto_row_ids_increase [OF ids(1,2)] by (simp_all add: c0_def num_rows_def columns_ok_def heap_unset_def)
  have new: "chunk_new B A i path (Some True) (auto_row_ids i n) timelines components = Ok c0"
    using sanity_check_ok [OF c0(2,3) B] by (simp add: chunk_new_def Let_def c0_def)
  have tls: "chunk_timelines c0 = timelines" by (simp add: c0_def)
  let ?swaps = "sort_key (time_key timelines) [0..<n]"
  have swaps: "map (row_at A c0) ?swaps = sort_key (times_of (map fst timelines)) (rows A c0)"
    unfolding time_key_row [OF tls, of _ A]
    using map_sort_key [of "row_at A c0" "times_of (map fst timelines)" "[0..<n]"] by (simp add: rows_def c0(1))
  show ?thesis
  proof (cases "list_all (\<lambda>(x, y). x = y) (enumerate 0 ?swaps)")
    case True
    then have "sort_key (times_of (map fst timelines)) (rows A c0) = rows A c0"
      using enumerate_identity [OF True] unfolding swaps [symmetric] by (simp add: rows_def c0(1))
    then show ?thesis
      using n short new True c0 auto_row_ids_increase(1) [OF ids(1,2)]
      by (simp add: from_auto_row_ids_def Let_def c0_def)
  next
    case False
    then have "n \<noteq> 0" by (cases n) simp_all
    then obtain c' where c': "shuffle_with A new_id ?swaps c0 = Some c'" "picks A ?swaps c0 c'" "columns_ok A c'"
      "chunk_heap_size c' = chunk_heap_size c0"
      using shuffle_with_picks [OF c0(2), of ?swaps new_id] c0(1) by auto
    define c where "c = c'\<lparr>chunk_row_ids := auto_row_ids (chunk_id c') n, chunk_is_sorted := True\<rparr>"
    have "chunk_id c' = new_id" using c'(1) by (auto simp: shuffle_with_def Let_def bind_eq_Some_conv)
    then have c_ids: "chunk_row_ids c = auto_row_ids new_id n" by (simp add: c_def)
    note inc = auto_row_ids_increase [OF ids(3,4)]
    have n': "num_rows c' = n" "num_rows c = n"
      using c'(2) inc(3) by (simp_all add: picks_def num_rows_def c_ids)
    then have "columns_ok A c"
      using c'(3) inc(2) c_ids by (simp add: columns_ok_def) (simp add: c_def)
    moreover have "debug_checked B A c = Some c"
      using calculation c'(4) B by (intro debug_checked_columns) (simp_all add: heap_unset_def lenient_def c_def c0_def)
    moreover have "rows A c' = map (row_at A c0) ?swaps"
      using c0 by (intro picks_rows [OF c'(2)]) (simp_all add: columns_ok_def)
    moreover have "map content (rows A c) = map content (rows A c')"
      by (rule contents_rows) (use n' in \<open>simp_all add: c_def\<close>)
    ultimately show ?thesis
      using n short new False c'(1) inc(1) c_ids n'(2) swaps
      by (simp add: from_auto_row_ids_def Let_def c_def [symmetric])
  qed
qed

end

text \<open>
  C31. Building a chunk from sound columns without row ids always succeeds: the result is sound, its row ids are
  strictly increasing, and its rows are those of the columns, stably sorted by their times, compared timeline
  by timeline in the order of the names. The counter of the chunk id has room for the rows.
\<close>

theorem from_auto_row_ids_sorts:
  assumes "arrow_laws A" "timelines_ok n timelines" "components_ok A n components" "components \<noteq> []"
    and "tuid_ok i" "unat (tuid_inc i) + n < 2 ^ 64" "tuid_ok new_id" "unat (tuid_inc new_id) + n < 2 ^ 64"
    and "\<not> very_strict B"
    and "c0 = \<lparr>chunk_id = i, chunk_entity_path = path, chunk_heap_size = 0, chunk_is_sorted = True,
               chunk_row_ids = auto_row_ids i n, chunk_timelines = timelines, chunk_components = components\<rparr>"
  shows "\<exists>c. from_auto_row_ids B A new_id i path timelines components = Ok c \<and> columns_ok A c \<and>
           sorted_wrt (<) (chunk_row_ids c) \<and> num_rows c = n \<and>
           map content (rows A c) = map content (sort_key (times_of (map fst timelines)) (rows A c0))"
  by (rule arrow_laws.from_auto_row_ids_rows [OF assms])

theorem from_auto_row_ids_sorts_witness:
  "\<exists>c. from_auto_row_ids demo_build mem_arrow (demo_id 8) (demo_id 9) (chunk_entity_path demo_chunk)
         (chunk_timelines demo_chunk) (chunk_components demo_chunk) = Ok c \<and>
       sorted_wrt (<) (chunk_row_ids c) \<and> num_rows c = 3"
proof -
  have ok: "timelines_ok 3 (chunk_timelines demo_chunk)" "components_ok mem_arrow 3 (chunk_components demo_chunk)"
    using demo_chunk_ok demo_chunk_sel(1) by (simp_all add: columns_ok_def)
  have id: "tuid_ok (demo_id k)" "unat (tuid_inc (demo_id k)) + 3 < 2 ^ 64" for k
  proof -
    show "tuid_ok (demo_id k)" by (simp add: tuid_ok_def demo_id_def)
    have "unat (tuid_inc (demo_id k)) = unat k"
      using unsigned_less [of k, where 'a = nat]
      by (simp add: tuid_inc_def demo_id_def from_be_bytes_def unsigned_ucast_eq take_bit_nat_eq_self)
    then show "unat (tuid_inc (demo_id k)) + 3 < 2 ^ 64" using unsigned_less [of k, where 'a = nat] by simp
  qed
  have "chunk_components demo_chunk \<noteq> []" "\<not> very_strict (demo_build :: nat mem_array build)"
    by (simp_all add: demo_chunk_def demo_build_def)
  from from_auto_row_ids_sorts [OF mem.arrow_laws_axioms ok this(1) id [of 9] id [of 8] this(2) refl]
  show ?thesis by blast
qed

end
