(* ===== verification/Chunk_Rows.thy ===== *)
theory Chunk_Rows
  imports Chunk_Query
begin

text \<open>
  What the operations on single chunks mean for their rows: slicing is \<open>take\<close> and \<open>drop\<close>, filtering keeps the
  rows of a mask, sorting is a stable sort, and looking up a cell finds its row. The second
  property is about the sanity check, which tests the invariant that all of them keep.
\<close>

context arrow_laws
begin

lemma filtered_rows:
  assumes ok: "columns_ok A c" and B: "lenient B" and heap: "heap_unset B c" and len: "length keep = num_rows c"
  shows "\<exists>c'. filtered B A new_id c keep = Some (Some c') \<and> columns_ok A c' \<and> rows A c' = compress keep (rows A c)"
proof (cases "chunk_is_empty c \<or> length (filter id keep) = 0")
  case True
  have "rows A c = []" if "chunk_is_empty c" using that by (simp add: chunk_is_empty_def rows_def)
  moreover have "compress keep (rows A c) = []" if "length (filter id keep) = 0"
    using that length_compress [of keep "rows A c"] len by simp
  moreover have "rows A (emptied A new_id c) = []" by (simp add: rows_def num_rows_def emptied_def)
  moreover have "columns_ok A (emptied A new_id c)"
    using emptied_picks(2) [OF ok] by (simp add: chunk_ok_def)
  ultimately show ?thesis
    using True len ok by (cases "chunk_is_empty c") (auto simp: filtered_def compress_def)
next
  case False
  obtain c' where c': "filter_columns A new_id c keep None = Some c'" "chunk_ok B A c'"
    "picks A (compress keep [0..<num_rows c]) c c'"
    using filter_columns_picks [OF ok len, of None new_id B] by auto
  have idx: "compress keep (rows A c) = map (row_at A c) (compress keep [0..<num_rows c])"
    unfolding rows_def using len by (intro compress_map) simp
  have "set (compress keep [0..<num_rows c]) \<subseteq> {0..<num_rows c}"
    using set_compress [of keep "[0..<num_rows c]"] by auto
  then have "rows A c' = map (row_at A c) (compress keep [0..<num_rows c])"
    using ok by (intro picks_rows [OF c'(3)]) (auto simp: columns_ok_def)
  then show ?thesis
    using False len c' debug_checked_ok [OF c'(2) B] idx by (auto simp: filtered_def chunk_ok_def)
qed

lemma cell_row:
  assumes ok: "columns_ok A c" and dist: "distinct (chunk_row_ids c)"
  shows "cell A c row_id component =
           (case find (\<lambda>r. rw_id r = row_id) (rows A c) of None \<Rightarrow> None | Some r \<Rightarrow> rw_cells r component)"
proof -
  have sorted: "chunk_is_sorted c \<longleftrightarrow> sorted (chunk_row_ids c)" using ok by (simp add: columns_ok_def)
  have cell: "cell A c row_id component =
      Option.bind (row_index_of c row_id) (\<lambda>i. rw_cells (row_at A c i) component)"
    by (auto simp: cell_def row_index_of_def get_array_def row_at_def la_cell_def bind_map_option comp_def
        split: bind_split)
  show ?thesis
  proof (cases "row_index_of c row_id")
    case None
    then have "row_id \<notin> set (chunk_row_ids c)" using row_index_of_correct(1) [OF sorted] by blast
    then have "find (\<lambda>r. rw_id r = row_id) (rows A c) = None"
      unfolding map_rw_id_rows [of A c, symmetric] by (auto simp: find_None_iff)
    then show ?thesis using None by (simp add: cell)
  next
    case (Some i)
    then have i: "i < num_rows c" "chunk_row_ids c ! i = row_id"
      using row_index_of_correct(2) [OF sorted] by blast+
    have "find (\<lambda>r. rw_id r = row_id) (rows A c) = Some (row_at A c i)"
      unfolding find_Some_iff
    proof (intro exI conjI allI impI)
      show "i < length (rows A c)" "rw_id (rows A c ! i) = row_id" "row_at A c i = rows A c ! i"
        using i by (simp_all add: rw_id_row_at)
      fix j assume "j < i"
      then show "rw_id (rows A c ! j) \<noteq> row_id"
        using i dist by (auto simp: rw_id_row_at num_rows_def nth_eq_iff_index_eq)
    qed
    then show ?thesis using Some by (simp add: cell)
  qed
qed

end

text \<open>
  C29. On a sound chunk, in every build that is not very strict, the operations on rows are the corresponding operations on the
  list of rows, and their results are sound again: row slices (shallow or deep) are \<open>take\<close> of \<open>drop\<close>, with indices
  out of range clamped; filters keep the rows of the mask and refuse masks of another length; sorting by row
  id is a stable sort; and, for distinct row ids, looking up a cell finds the row by its id, whether by
  binary search or by scanning.
\<close>

theorem row_operations_are_list_operations:
  assumes "arrow_laws A" "columns_ok A c" "lenient B" "heap_unset B c"
  shows "columns_ok A (row_sliced_impl A new_id c i n deep)
    \<and> rows A (row_sliced_impl A new_id c i n deep) = take n (drop i (rows A c))
    \<and> (if length keep = num_rows c
       then \<exists>c'. filtered B A new_id c keep = Some (Some c') \<and> columns_ok A c' \<and> rows A c' = compress keep (rows A c)
       else filtered B A new_id c keep = Some None)
    \<and> (\<exists>c'. sort_by_row_ids_if_needed B A new_id c = Some c' \<and> columns_ok A c' \<and> chunk_is_sorted c' \<and>
           rows A c' = sort_key rw_id (rows A c))
    \<and> (distinct (chunk_row_ids c) \<longrightarrow>
        cell A c row_id component =
          (case find (\<lambda>r. rw_id r = row_id) (rows A c) of None \<Rightarrow> None | Some r \<Rightarrow> rw_cells r component))"
proof -
  note slice = arrow_laws.row_sliced_picks(2) [OF assms(1,2), of B new_id i n deep]
    arrow_laws.row_sliced_rows [OF assms(1,2), of new_id i n deep]
  have "\<exists>c'. filtered B A new_id c keep = Some (Some c') \<and> columns_ok A c' \<and> rows A c' = compress keep (rows A c)"
    if "length keep = num_rows c"
    using arrow_laws.filtered_rows [OF assms(1-4) that] .
  moreover have "filtered B A new_id c keep = Some None" if "length keep \<noteq> num_rows c"
    using that by (simp add: filtered_def)
  ultimately show ?thesis
    using slice arrow_laws.sort_by_row_ids [OF assms(1,2,4,3), of new_id]
      arrow_laws.cell_row [OF assms(1,2), of row_id component]
    by (auto simp: chunk_ok_def)
qed

theorem row_operations_are_list_operations_witness:
  "rows mem_arrow (row_sliced_impl mem_arrow (demo_id 8) demo_chunk 1 5 True) = drop 1 (rows mem_arrow demo_chunk)
   \<and> cell mem_arrow demo_chunk (demo_id 3) ''c'' = Some [8, 9]"
proof -
  have dist: "distinct (chunk_row_ids demo_chunk)"
    using demo_id_less by (auto simp: demo_chunk_def)
  have rows: "rows mem_arrow demo_chunk = map (row_at mem_arrow demo_chunk) [0, 1, 2]"
    by (simp add: rows_def demo_chunk_sel upt_rec numeral_2_eq_2)
  have ids: "chunk_row_ids demo_chunk = [demo_id 1, demo_id 2, demo_id 3]" by (simp add: demo_chunk_def)
  have "find (\<lambda>r. rw_id r = demo_id 3) (rows mem_arrow demo_chunk) = Some (row_at mem_arrow demo_chunk 2)"
    unfolding rows using demo_id_less by (auto simp: rw_id_row_at ids)
  then show ?thesis
    using row_operations_are_list_operations [OF mem.arrow_laws_axioms demo_chunk_ok demo_build(1,2),
        of "demo_id 8" 1 5 True "[]" "demo_id 3" "''c''"] dist demo_cells(3)
    by (auto simp: demo_chunk_sel split: if_splits)
qed

text \<open>What the sanity check still tests in a release build: the lengths and the names of the columns.\<close>

definition shape_ok :: "('a, 'd, 'v) arrow \<Rightarrow> 'a Chunk \<Rightarrow> bool" where
  "shape_ok A c \<longleftrightarrow> (\<forall>(_, tc) \<in> set (chunk_timelines c). length (tc_times tc) = num_rows c) \<and>
     (\<forall>(k, col) \<in> set (chunk_components c). cd_component (col_descriptor col) = k \<and> la_len A (col_list_array col) = num_rows c)"

lemma check_timelines_release:
  "\<not> debug_assertions B \<Longrightarrow> check_timelines B n tls = Ok () \<longleftrightarrow> (\<forall>(_, tc) \<in> set tls. length (tc_times tc) = n)"
  by (induction B n tls rule: check_timelines.induct) (auto simp: try_bind_Ok_iff tc_sanity_check_def)

lemma sanity_check_release:
  assumes "arrow_laws A" "\<not> debug_assertions B" "\<not> very_strict B"
  shows "sanity_check B A c = Ok () \<longleftrightarrow> shape_ok A c"
  using assms(2,3) arrow_laws.check_components_iff [OF assms(1)]
  by (simp add: sanity_check_def warn_if_out_of_order_def try_bind_Ok_iff check_timelines_release shape_ok_def)

text \<open>
  C30. What the sanity check accepts, in a build that is not very strict. In a debug build, a chunk passes exactly when it satisfies the
  invariant: a cached size that is unset or right, a cached order of the row ids that is right, time columns that are
  as long as the row ids, with a right cached order and a tight time range, and component columns that are as long as the row ids and filed under their own name. In a
  release build only the lengths and the names are tested, so that a wrong cached order or time range passes.
  Neither build rejects a component column that has only nulls: the check meant for it looks at the length of the validity bitmap, which the check of the row count has settled already.
  Hence \<open>Chunk::new\<close>, given the parts of a chunk, returns the chunk made of them when that passes, an error otherwise,
  and computes the order of the row ids when it is not given.
\<close>

theorem sanity_check_exact:
  assumes "arrow_laws A" "\<not> very_strict B"
    and "distinct (map fst timelines)" "distinct (map fst components)"
    and "\<forall>(_, tc) \<in> set timelines. range_ok (tc_time_range tc)"
    and c: "c = \<lparr>chunk_id = i, chunk_entity_path = path, chunk_heap_size = hs, chunk_is_sorted = is_sorted,
                 chunk_row_ids = row_ids, chunk_timelines = timelines, chunk_components = components\<rparr>"
  shows "(sanity_check B A c = Ok () \<longleftrightarrow> (if debug_assertions B then chunk_ok B A c else shape_ok A c))
    \<and> (chunk_new B A i path (Some is_sorted) row_ids timelines components = Ok c' \<longleftrightarrow>
         c' = c\<lparr>chunk_heap_size := 0\<rparr> \<and> (if debug_assertions B then chunk_ok B A c' else shape_ok A c'))
    \<and> (chunk_new B A i path None row_ids timelines components = Ok c' \<longleftrightarrow>
         c' = c\<lparr>chunk_heap_size := 0, chunk_is_sorted := sorted row_ids\<rparr> \<and>
         (if debug_assertions B
          then timelines_ok (length row_ids) timelines \<and> components_ok A (length row_ids) components else shape_ok A c'))"
proof -
  have check: "sanity_check B A c' = Ok () \<longleftrightarrow> (if debug_assertions B then chunk_ok B A c' else shape_ok A c')"
    if "chunk_timelines c' = timelines" "chunk_components c' = components" for c'
    using arrow_laws.sanity_check_iff [OF assms(1) _ assms(2), of c'] sanity_check_release [OF assms(1) _ assms(2), of c'] assms(3-5) that by simp
  show ?thesis
    by (auto simp: c chunk_new_def Let_def try_bind_Ok_iff check chunk_ok_def heap_ok_def columns_ok_def num_rows_def
        is_row_ids_sorted_uncached_def windows_sorted_iff)
qed

theorem sanity_check_exact_witness:
  "sanity_check demo_build mem_arrow demo_chunk = Ok () \<and>
   chunk_new demo_build mem_arrow (demo_id 9) (chunk_entity_path demo_chunk) None (chunk_row_ids demo_chunk)
     (chunk_timelines demo_chunk) (chunk_components demo_chunk) = Ok demo_chunk"
proof -
  have ok: "timelines_ok (length (chunk_row_ids demo_chunk)) (chunk_timelines demo_chunk)"
    "components_ok mem_arrow (length (chunk_row_ids demo_chunk)) (chunk_components demo_chunk)"
    "sorted (chunk_row_ids demo_chunk)" "chunk_ok demo_build mem_arrow demo_chunk"
    using demo_chunk_ok demo_chunk_sel
    by (auto simp: columns_ok_def num_rows_def chunk_ok_def heap_ok_def)
  have "distinct (map fst (chunk_timelines demo_chunk))" "distinct (map fst (chunk_components demo_chunk))"
    "\<forall>(_, tc) \<in> set (chunk_timelines demo_chunk). range_ok (tc_time_range tc)"
    "debug_assertions (demo_build :: nat mem_array build)" "\<not> very_strict (demo_build :: nat mem_array build)"
    using ok(1,2) by (auto simp: timelines_ok_def components_ok_def tc_ok_def demo_build_def)
  then show ?thesis
    using sanity_check_exact [OF mem.arrow_laws_axioms, of demo_build "chunk_timelines demo_chunk"
        "chunk_components demo_chunk" demo_chunk "demo_id 9" "chunk_entity_path demo_chunk" 0 True
        "chunk_row_ids demo_chunk" demo_chunk] ok
    by (simp add: demo_chunk_def)
qed

end
