(* ===== verification/Chunk_Stats.thy ===== *)
theory Chunk_Stats
  imports Chunk_Query
begin

text \<open>
  What \<open>src/crates/store/dl_chunk/src/chunk.rs\<close> computes about the content of a chunk: the
  number of events in all, per component and per time, and the time and row id range
  of each component. Sums are 64-bit words that wrap, as in a release build.
\<close>

section \<open>Event counts\<close>

definition null_count :: "bool list \<Rightarrow> nat" where
  "null_count validity = length (filter Not validity)"

definition column_events :: "('a, 'd, 'v) arrow \<Rightarrow> 'a \<Rightarrow> u64" where
  "column_events A list_array =
     (case la_nulls A list_array of
        None \<Rightarrow> word_of_nat (la_len A list_array)
      | Some validity \<Rightarrow> word_of_nat (length validity) - word_of_nat (null_count validity))"

definition num_events_cumulative :: "('a, 'd, 'v) arrow \<Rightarrow> 'a Chunk \<Rightarrow> u64" where
  "num_events_cumulative A c = sum_list (map (column_events A) (list_arrays (chunk_components c)))"

definition num_events_for_component :: "('a, 'd, 'v) arrow \<Rightarrow> 'a Chunk \<Rightarrow> string \<Rightarrow> u64 option" where
  "num_events_for_component A c component =
     map_option (column_events A) (get_array (chunk_components c) component)"

text \<open>One column added to the raw counts; a bitmap longer than the counts indexes out of range.\<close>

definition count_column :: "('a, 'd, 'v) arrow \<Rightarrow> 'a \<Rightarrow> u64 list \<Rightarrow> u64 list option" where
  "count_column A list_array counts_raw =
     (case la_nulls A list_array of
        Some validity \<Rightarrow>
          if length validity \<le> length counts_raw
          then Some (fold (\<lambda>(i, is_valid) counts. counts[i := counts ! i + of_bool is_valid])
                       (enumerate 0 validity) counts_raw)
          else None
      | None \<Rightarrow> Some (map (\<lambda>count. count + 1) counts_raw))"

fun count_columns :: "('a, 'd, 'v) arrow \<Rightarrow> 'a list \<Rightarrow> u64 list \<Rightarrow> u64 list option" where
  "count_columns A [] counts_raw = Some counts_raw"
| "count_columns A (list_array # rest) counts_raw =
     Option.bind (count_column A list_array counts_raw) (count_columns A rest)"

text \<open>The loop that merges neighbours of equal time; its state is \<open>counts\<close>, \<open>cur_time\<close>, \<open>cur_count\<close>.\<close>

definition merge_step ::
  "TimeInt \<times> u64 \<Rightarrow> (TimeInt \<times> u64) list \<times> TimeInt \<times> u64 \<Rightarrow> (TimeInt \<times> u64) list \<times> TimeInt \<times> u64" where
  "merge_step = (\<lambda>(time, n) (counts, cur_time, cur_count).
     if time = cur_time then (counts, cur_time, cur_count + n)
     else (counts @ [(cur_time, cur_count)], time, n))"

definition num_events_cumulative_per_unique_time_sorted ::
  "('a, 'd, 'v) arrow \<Rightarrow> 'a Chunk \<Rightarrow> TimeColumn \<Rightarrow> (TimeInt \<times> u64) list option" where
  "num_events_cumulative_per_unique_time_sorted A c time_column =
     do { counts_raw \<leftarrow> count_columns A (list_arrays (chunk_components c)) (replicate (num_rows c) 0);
          Some (case column_times time_column of
             [] \<Rightarrow> []
           | cur_time # _ \<Rightarrow>
               (case fold merge_step (zip (column_times time_column) counts_raw) ([], cur_time, 0) of
                  (counts, cur_time, cur_count) \<Rightarrow>
                    if map_option fst (last_opt counts) \<noteq> Some cur_time
                    then counts @ [(cur_time, cur_count)] else counts)) }"

text \<open>\<open>*acc.entry(time).or_default() += n\<close>\<close>

definition add_entry :: "TimeInt \<Rightarrow> u64 \<Rightarrow> (TimeInt \<times> u64) list \<Rightarrow> (TimeInt \<times> u64) list" where
  "add_entry time n acc =
     AList.update time ((case map_of acc time of None \<Rightarrow> 0 | Some m \<Rightarrow> m) + n) acc"

definition add_column ::
  "('a, 'd, 'v) arrow \<Rightarrow> TimeColumn \<Rightarrow> 'a \<Rightarrow> (TimeInt \<times> u64) list \<Rightarrow> (TimeInt \<times> u64) list" where
  "add_column A time_column list_array acc =
     (case la_nulls A list_array of
        Some validity \<Rightarrow>
          fold (\<lambda>(time, is_valid) acc. add_entry time (of_bool is_valid) acc)
            (zip (column_times time_column) validity) acc
      | None \<Rightarrow> fold (\<lambda>time acc. add_entry time 1 acc) (column_times time_column) acc)"

definition num_events_cumulative_per_unique_time_unsorted ::
  "('a, 'd, 'v) arrow \<Rightarrow> 'a Chunk \<Rightarrow> TimeColumn \<Rightarrow> (TimeInt \<times> u64) list" where
  "num_events_cumulative_per_unique_time_unsorted A c time_column =
     sort_key fst (fold (add_column A time_column) (list_arrays (chunk_components c)) [])"

text \<open>\<open>None\<close> is a panic, of the assertion in a debug build or of an index.\<close>

definition num_events_cumulative_per_unique_time ::
  "'a build \<Rightarrow> ('a, 'd, 'v) arrow \<Rightarrow> 'a Chunk \<Rightarrow> string \<Rightarrow> (TimeInt \<times> u64) list option" where
  "num_events_cumulative_per_unique_time B A c timeline =
     (if chunk_is_static c then Some [(STATIC, num_events_cumulative A c)]
      else case map_of (chunk_timelines c) timeline of
        None \<Rightarrow> Some []
      | Some time_column \<Rightarrow>
          let time_range = tc_time_range time_column
          in if range_min time_range = range_max time_range
             then Some [(range_min time_range, num_events_cumulative A c)]
             else do {
               counts \<leftarrow> (if tc_is_sorted time_column
                          then num_events_cumulative_per_unique_time_sorted A c time_column
                          else Some (num_events_cumulative_per_unique_time_unsorted A c time_column));
               if debug_assertions B \<and> \<not> sorted_wrt (<) (map fst counts) then None else Some counts })"

section \<open>Ranges of components\<close>

text \<open>
  \<open>min_by_key\<close> and \<open>max_by_key\<close> over the valid times are their minimum and maximum; the first
  valid time and the last one when the times are sorted.
\<close>

definition valid_times :: "bool list \<Rightarrow> i64 list \<Rightarrow> i64 list" where
  "valid_times validity ts = map snd (filter (\<lambda>(i, _). validity ! i) (enumerate 0 ts))"

definition tc_component_range :: "('a, 'd, 'v) arrow \<Rightarrow> TimeColumn \<Rightarrow> 'a \<Rightarrow> AbsoluteTimeRange option" where
  "tc_component_range A tc list_array =
     (case la_nulls A list_array of
        Some validity \<Rightarrow>
          if validity = [] then None
          else if null_count validity = 0 then Some (tc_time_range tc)
          else
            let valid = valid_times validity (tc_times tc);
                time_min = (case (if windows_sorted (tc_times tc) then first valid else iter_min valid) of
                   None \<Rightarrow> time_MAX | Some time \<Rightarrow> new_temporal time);
                time_max = (case (if windows_sorted (tc_times tc) then first (rev valid) else iter_max (rev valid)) of
                   None \<Rightarrow> time_MIN | Some time \<Rightarrow> new_temporal time)
            in Some (range_new (Ok time_min) (Ok time_max))
      | None \<Rightarrow> Some (tc_time_range tc))"

definition tc_time_range_per_component ::
  "('a, 'd, 'v) arrow \<Rightarrow> TimeColumn \<Rightarrow> 'a ChunkComponents \<Rightarrow> (string \<times> AbsoluteTimeRange) list" where
  "tc_time_range_per_component A tc components =
     List.map_filter (\<lambda>(component, column).
       map_option (Pair component) (tc_component_range A tc (col_list_array column))) components"

definition time_range_per_component ::
  "('a, 'd, 'v) arrow \<Rightarrow> 'a Chunk \<Rightarrow> (string \<times> (string \<times> AbsoluteTimeRange) list) list" where
  "time_range_per_component A c =
     map (\<lambda>(timeline_name, time_column).
       (timeline_name, tc_time_range_per_component A time_column (chunk_components c))) (chunk_timelines c)"

text \<open>The two loops of the branch for sorted row ids, and those of the other branch.\<close>

definition last_valid_id :: "('a, 'd, 'v) arrow \<Rightarrow> 'a \<Rightarrow> (nat \<times> RowId) list \<Rightarrow> RowId option" where
  "last_valid_id A a irs = fold (\<lambda>(i, row_id) acc. if la_is_valid A a i then Some row_id else acc) irs None"

definition row_id_range_per_component :: "('a, 'd, 'v) arrow \<Rightarrow> 'a Chunk \<Rightarrow> (string \<times> RowId \<times> RowId) list" where
  "row_id_range_per_component A c =
     (let row_ids = enumerate 0 (chunk_row_ids c) in
      if chunk_is_sorted c
      then List.map_filter (\<lambda>(component, column).
             let row_id_min = last_valid_id A (col_list_array column) row_ids;
                 row_id_max = last_valid_id A (col_list_array column) (rev row_ids)
             in do { mn \<leftarrow> row_id_min; mx \<leftarrow> row_id_max; Some (component, mn, mx) }) (chunk_components c)
      else map (\<lambda>(component, column).
             let row_id_min = fold (\<lambda>(i, row_id) acc.
                   if la_is_valid A (col_list_array column) i \<and> acc < row_id then row_id else acc) row_ids tuid_MAX;
                 row_id_max = fold (\<lambda>(i, row_id) acc.
                   if la_is_valid A (col_list_array column) i \<and> row_id < acc then row_id else acc) (rev row_ids) tuid_ZERO
             in (component, row_id_min, row_id_max)) (chunk_components c))"

section \<open>Adding up\<close>

text \<open>What a list of dated counts adds up to at one time, and at every time in order.\<close>

definition tsum :: "'t \<Rightarrow> ('t \<times> u64) list \<Rightarrow> u64" where
  "tsum t ps = (\<Sum>(s, n)\<leftarrow>ps. if s = t then n else 0)"

definition agg :: "('t :: linorder \<times> u64) list \<Rightarrow> ('t \<times> u64) list" where
  "agg ps = map (\<lambda>t. (t, tsum t ps)) (sorted_list_of_set (fst ` set ps))"

lemma tsum_simps [simp]:
  "tsum t [] = 0" "tsum t ((s, n) # ps) = (if s = t then n else 0) + tsum t ps"
  "tsum t (ps @ qs) = tsum t ps + tsum t qs"
  by (simp_all add: tsum_def)

lemma tsum_absent: "t \<notin> fst ` set ps \<Longrightarrow> tsum t ps = 0"
  by (induction ps) auto

lemma agg_absorb: "agg ((t, m) # (t, n) # ps) = agg ((t, m + n) # ps)"
  by (simp add: agg_def add_ac)

lemma agg_zero: "t \<in> fst ` set ps \<Longrightarrow> agg ((t, 0) # ps) = agg ps"
  by (simp add: agg_def insert_absorb)

lemma sorted_list_of_set_least:
  fixes t :: "'t :: linorder"
  assumes "finite S" "\<forall>s \<in> S. t < s"
  shows "sorted_list_of_set (insert t S) = t # sorted_list_of_set S"
  using assms by (subst sorted_list_of_set_insert) (auto intro: insort_is_Cons simp: less_imp_le)

lemma agg_least:
  assumes "\<forall>s \<in> fst ` set ps. t < s"
  shows "agg ((t, n) # ps) = (t, n) # agg ps"
proof -
  have "t \<notin> fst ` set ps" using assms by blast
  then show ?thesis
    using sorted_list_of_set_least [OF _ assms] assms by (auto simp: agg_def tsum_absent)
qed

lemma merge_steps:
  assumes "sorted (cur # map fst ps)" "\<forall>s \<in> fst ` set counts. s < cur"
  shows "case fold merge_step ps (counts, cur, n) of (counts', cur', n') \<Rightarrow>
           counts' @ [(cur', n')] = counts @ agg ((cur, n) # ps) \<and> (\<forall>s \<in> fst ` set counts'. s < cur')"
  using assms
proof (induction ps arbitrary: cur n counts)
  case Nil
  then show ?case by (simp add: agg_def)
next
  case (Cons p ps)
  obtain t m where p: "p = (t, m)" by (cases p)
  show ?case
  proof (cases "t = cur")
    case True
    then show ?thesis
      using Cons.IH [of cur counts "n + m"] Cons.prems by (simp add: p merge_step_def agg_absorb)
  next
    case False
    then have "cur < t" using Cons.prems by (auto simp: p)
    then have "agg ((cur, n) # p # ps) = (cur, n) # agg (p # ps)"
      using Cons.prems by (intro agg_least) (auto simp: p)
    moreover have "\<forall>s \<in> set counts. fst s < t" using Cons.prems(2) \<open>cur < t\<close> by (auto intro: less_trans)
    ultimately show ?thesis
      using Cons.IH [of t "counts @ [(cur, n)]" m] Cons.prems False \<open>cur < t\<close> by (simp add: p merge_step_def)
  qed
qed

lemma sort_key_alist:
  assumes "distinct (map fst al)"
  shows "sort_key fst al = map (\<lambda>t. (t, the (map_of al t))) (sorted_list_of_set (fst ` set al))"
proof -
  have keys: "map fst (sort_key fst al) = sorted_list_of_set (fst ` set al)"
  proof -
    have "sort (map fst al) = map fst (sort_key fst al)"
      using map_sort_key [of fst id al] by (simp add: id_def)
    then show ?thesis
      using assms by (metis list.set_map sorted_list_of_set_sort_remdups distinct_remdups_id)
  qed
  have "map (\<lambda>t. (t, the (map_of al t))) (map fst (sort_key fst al)) = sort_key fst al"
    using assms by (auto intro!: map_idI)
  then show ?thesis by (simp only: keys)
qed

lemma add_entries:
  assumes "distinct (map fst acc)"
  shows "distinct (map fst (fold (\<lambda>(t, n). add_entry t n) ps acc)) \<and>
         fst ` set (fold (\<lambda>(t, n). add_entry t n) ps acc) = fst ` set acc \<union> fst ` set ps \<and>
         (\<forall>t \<in> fst ` set acc \<union> fst ` set ps.
            map_of (fold (\<lambda>(t, n). add_entry t n) ps acc) t = Some ((case map_of acc t of None \<Rightarrow> 0 | Some m \<Rightarrow> m) + tsum t ps))"
  using assms
proof (induction ps arbitrary: acc)
  case Nil
  then show ?case by (auto simp: Nil.prems)
next
  case (Cons p ps)
  obtain t n where p: "p = (t, n)" by (cases p)
  let ?acc = "add_entry t n acc"
  have acc: "distinct (map fst ?acc)" "fst ` set ?acc = insert t (fst ` set acc)"
    "map_of ?acc = (map_of acc)(t \<mapsto> (case map_of acc t of None \<Rightarrow> 0 | Some m \<Rightarrow> m) + n)"
    using Cons.prems by (simp_all add: add_entry_def distinct_update dom_update update_conv')
  show ?case
    using Cons.IH [OF acc(1)] unfolding p fold_Cons comp_apply prod.case acc(2,3)
    by (auto simp: add_ac simp del: map_of_eq_Some_iff)
qed

lemma sorted_entries: "sort_key fst (fold (\<lambda>(t, n). add_entry t n) ps []) = agg ps"
proof -
  let ?acc = "fold (\<lambda>(t, n). add_entry t n) ps []"
  have acc: "distinct (map fst ?acc)" "fst ` set ?acc = fst ` set ps"
    "\<forall>t \<in> fst ` set ps. map_of ?acc t = Some (tsum t ps)"
    using add_entries [of "[]" ps] by (simp_all del: map_of_eq_Some_iff)
  show ?thesis
    unfolding sort_key_alist [OF acc(1)] acc(2) agg_def using acc(3) by (auto simp del: map_of_eq_Some_iff)
qed

lemma sum_list_swap:
  fixes f :: "'b \<Rightarrow> 'c \<Rightarrow> 'm :: comm_monoid_add"
  shows "(\<Sum>a\<leftarrow>as. \<Sum>i\<leftarrow>is. f a i) = (\<Sum>i\<leftarrow>is. \<Sum>a\<leftarrow>as. f a i)"
  by (induction as) (simp_all add: sum_list_addf)

lemma sum_list_of_bool: "(\<Sum>x\<leftarrow>xs. of_bool (P x) :: u64) = word_of_nat (length (filter P xs))"
  by (induction xs) auto

lemma of_nat_sum_list: "word_of_nat (sum_list xs) = (\<Sum>x\<leftarrow>xs. word_of_nat x :: u64)"
  by (induction xs) simp_all

lemma tsum_map: "tsum t (map (\<lambda>i. (ts i, f i)) is) = (\<Sum>i\<leftarrow>is. if ts i = t then f i else 0)"
  by (induction "is") auto

lemma fold_enumerate_add:
  fixes cs :: "u64 list" and f :: "'b \<Rightarrow> u64"
  assumes "k + length vs \<le> length cs"
  defines "F \<equiv> \<lambda>(i, v) cs :: u64 list. cs[i := cs ! i + f v]"
  shows "length (fold F (enumerate k vs) cs) = length cs \<and>
         (\<forall>j < length cs. fold F (enumerate k vs) cs ! j =
            cs ! j + (if k \<le> j \<and> j < k + length vs then f (vs ! (j - k)) else 0))"
  using assms(1)
proof (induction vs arbitrary: k cs)
  case (Cons v vs)
  have "fold F (enumerate k (v # vs)) cs = fold F (enumerate (Suc k) vs) (cs[k := cs ! k + f v])"
    by (simp add: F_def)
  then show ?case
    using Cons.IH [of "Suc k" "cs[k := cs ! k + f v]"] Cons.prems
    by (auto simp: nth_list_update nth_Cons' Suc_diff_le Suc_le_eq le_less)
qed auto

context arrow_laws
begin

lemma validity_nth: "la_nulls A a = Some validity \<Longrightarrow> la_is_valid A a i = validity ! i"
  by (simp add: la_is_valid_def)

lemma count_column_valid:
  assumes "la_len A a = length cs"
  shows "count_column A a cs = Some (map (\<lambda>i. cs ! i + of_bool (la_is_valid A a i)) [0..<length cs])"
proof (cases "la_nulls A a")
  case None
  then show ?thesis
    by (auto simp: count_column_def la_is_valid_def intro!: nth_equalityI)
next
  case (Some validity)
  then have len: "length validity = length cs" using nulls_len assms by simp
  then show ?thesis
    using fold_enumerate_add [of 0 validity cs "of_bool :: bool \<Rightarrow> u64"] Some
    by (auto simp: count_column_def validity_nth intro!: nth_equalityI)
qed

lemma count_columns_valid:
  assumes "\<forall>a \<in> set as. la_len A a = length cs"
  shows "count_columns A as cs =
           Some (map (\<lambda>i. cs ! i + (\<Sum>a\<leftarrow>as. of_bool (la_is_valid A a i))) [0..<length cs])"
  using assms
proof (induction as arbitrary: cs)
  case Nil
  then show ?case by (simp add: map_nth)
next
  case (Cons a as)
  then show ?case by (simp add: count_column_valid add_ac)
qed

lemma column_events_valid:
  "column_events A a = (\<Sum>i\<leftarrow>[0..<la_len A a]. of_bool (la_is_valid A a i))"
proof (cases "la_nulls A a")
  case None
  then show ?thesis by (simp add: column_events_def la_is_valid_def sum_list_triv)
next
  case (Some validity)
  have "null_count validity + length (filter id validity) = length validity"
    by (induction validity) (auto simp: null_count_def)
  then have "word_of_nat (length validity) = (word_of_nat (null_count validity) + word_of_nat (length (filter id validity)) :: u64)"
    by (metis of_nat_add)
  moreover have "filter id validity = filter id (map (\<lambda>i. validity ! i) [0..<length validity])" by (simp add: map_nth)
  then have "length (filter id validity) = length (filter (\<lambda>i. validity ! i) [0..<length validity])"
    by (simp add: filter_map comp_def)
  ultimately show ?thesis
    using nulls_len [OF Some] by (simp add: column_events_def Some validity_nth [OF Some] sum_list_of_bool)
qed

lemma row_events:
  assumes "components_ok A (num_rows c) (chunk_components c)"
  shows "word_of_nat (card (dom (rw_cells (row_at A c i)))) =
           (\<Sum>a\<leftarrow>list_arrays (chunk_components c). of_bool (la_is_valid A a i) :: u64)"
proof -
  let ?valid = "filter (\<lambda>(k, col). la_is_valid A (col_list_array col) i) (chunk_components c)"
  have dist: "distinct (map fst (chunk_components c))" using assms by (simp add: components_ok_def)
  have "dom (rw_cells (row_at A c i)) = fst ` set ?valid"
  proof (intro equalityI subsetI)
    fix k assume "k \<in> dom (rw_cells (row_at A c i))"
    then obtain col where "map_of (chunk_components c) k = Some col" "la_is_valid A (col_list_array col) i"
      by (auto simp: row_at_def la_cell_def bind_eq_Some_conv split: if_splits)
    then show "k \<in> fst ` set ?valid" by (force dest: map_of_SomeD)
  next
    fix k assume "k \<in> fst ` set ?valid"
    then obtain col where "(k, col) \<in> set (chunk_components c)" "la_is_valid A (col_list_array col) i" by auto
    then show "k \<in> dom (rw_cells (row_at A c i))"
      using dist by (auto simp: row_at_def la_cell_def)
  qed
  moreover have "distinct (map fst ?valid)" using dist by (rule distinct_map_filter)
  ultimately have "card (dom (rw_cells (row_at A c i))) = length ?valid"
    using distinct_card [of "map fst ?valid"] by simp
  then show ?thesis
    by (simp add: list_arrays_def sum_list_of_bool filter_map comp_def case_prod_unfold)
qed

lemma total_events:
  assumes "components_ok A (num_rows c) (chunk_components c)"
  shows "num_events_cumulative A c = word_of_nat (\<Sum>r\<leftarrow>rows A c. card (dom (rw_cells r)))"
proof -
  have "column_events A a = (\<Sum>i\<leftarrow>[0..<num_rows c]. of_bool (la_is_valid A a i))"
    if "a \<in> set (list_arrays (chunk_components c))" for a
    using that assms by (auto simp: column_events_valid list_arrays_def components_ok_def)
  then have "num_events_cumulative A c =
      (\<Sum>a\<leftarrow>list_arrays (chunk_components c). \<Sum>i\<leftarrow>[0..<num_rows c]. of_bool (la_is_valid A a i))"
    unfolding num_events_cumulative_def by (metis (no_types, lifting) map_cong)
  also have "\<dots> = (\<Sum>i\<leftarrow>[0..<num_rows c]. word_of_nat (card (dom (rw_cells (row_at A c i)))))"
    by (subst sum_list_swap) (simp add: row_events [OF assms])
  also have "\<dots> = word_of_nat (\<Sum>r\<leftarrow>rows A c. card (dom (rw_cells r)))"
    by (simp add: rows_def comp_def of_nat_sum_list)
  finally show ?thesis .
qed

lemma add_column_entries:
  assumes "la_len A a = n" "length (tc_times tc) = n"
  shows "add_column A tc a acc = fold (\<lambda>(t, n). add_entry t n)
           (map (\<lambda>i. (column_times tc ! i, of_bool (la_is_valid A a i))) [0..<n]) acc"
proof (cases "la_nulls A a")
  case None
  have "column_times tc = map (\<lambda>i. column_times tc ! i) [0..<n]"
    using assms(2) by (metis column_times_def length_map map_nth)
  then have "fold (\<lambda>time. add_entry time 1) (column_times tc) acc =
      fold (\<lambda>time. add_entry time 1) (map (\<lambda>i. column_times tc ! i) [0..<n]) acc" by simp
  then show ?thesis
    by (simp add: add_column_def None la_is_valid_def fold_map comp_def)
next
  case (Some validity)
  have "length validity = n" using nulls_len [OF Some] assms(1) by simp
  then have "zip (column_times tc) validity = map (\<lambda>i. (column_times tc ! i, validity ! i)) [0..<n]"
    using assms(2) by (intro nth_equalityI) (simp_all add: column_times_def)
  then show ?thesis
    by (simp add: add_column_def Some fold_map comp_def validity_nth [OF Some])
qed

lemma unsorted_counts:
  assumes comps: "components_ok A (num_rows c) (chunk_components c)"
    and tc: "length (tc_times tc) = num_rows c" and ne: "chunk_components c \<noteq> []"
  shows "num_events_cumulative_per_unique_time_unsorted A c tc =
           agg (map (\<lambda>i. (column_times tc ! i, word_of_nat (card (dom (rw_cells (row_at A c i)))))) [0..<num_rows c])"
proof -
  let ?as = "list_arrays (chunk_components c)"
  let ?entries = "\<lambda>a. map (\<lambda>i. (column_times tc ! i, of_bool (la_is_valid A a i) :: u64)) [0..<num_rows c]"
  let ?rows = "map (\<lambda>i. (column_times tc ! i, word_of_nat (card (dom (rw_cells (row_at A c i)))) :: u64)) [0..<num_rows c]"
  let ?ps = "concat (map ?entries ?as)"
  have entries: "fold (add_column A tc) as acc = fold (\<lambda>(t, n). add_entry t n) (concat (map ?entries as)) acc"
    if "set as \<subseteq> set ?as" for as acc
    using that comps
    by (induction as arbitrary: acc) (auto simp: add_column_entries [OF _ tc] list_arrays_def components_ok_def)
  have keys: "fst ` set ?ps = fst ` set ?rows"
  proof -
    have "?as \<noteq> []" using ne by (simp add: list_arrays_def)
    then show ?thesis by (simp add: image_UN image_image)
  qed
  have sums: "tsum t ?ps = tsum t ?rows" for t
  proof -
    have "tsum t (concat (map ?entries as)) = (\<Sum>a\<leftarrow>as. tsum t (?entries a))" for as
      by (induction as) simp_all
    then have "tsum t ?ps = (\<Sum>a\<leftarrow>?as. \<Sum>i\<leftarrow>[0..<num_rows c].
        if column_times tc ! i = t then of_bool (la_is_valid A a i) else 0)"
      by (simp add: tsum_map)
    also have "\<dots> = (\<Sum>i\<leftarrow>[0..<num_rows c]. \<Sum>a\<leftarrow>?as.
        if column_times tc ! i = t then of_bool (la_is_valid A a i) else 0)"
      by (rule sum_list_swap)
    also have "\<dots> = tsum t ?rows"
      unfolding tsum_map row_events [OF comps] by (intro arg_cong [of _ _ sum_list] map_cong) simp_all
    finally show ?thesis .
  qed
  have "num_events_cumulative_per_unique_time_unsorted A c tc = agg ?ps"
    unfolding num_events_cumulative_per_unique_time_unsorted_def sorted_entries [symmetric]
    using entries [of ?as "[]"] by simp
  also have "\<dots> = agg ?rows" by (simp only: agg_def keys sums)
  finally show ?thesis .
qed

lemma sorted_counts:
  assumes comps: "components_ok A (num_rows c) (chunk_components c)"
    and tc: "length (tc_times tc) = num_rows c" and sorted: "sorted (tc_times tc)" and ne: "num_rows c \<noteq> 0"
  shows "num_events_cumulative_per_unique_time_sorted A c tc =
           Some (agg (map (\<lambda>i. (column_times tc ! i, word_of_nat (card (dom (rw_cells (row_at A c i)))))) [0..<num_rows c]))"
proof -
  let ?as = "list_arrays (chunk_components c)"
  let ?counts = "map (\<lambda>i. word_of_nat (card (dom (rw_cells (row_at A c i)))) :: u64) [0..<num_rows c]"
  let ?rows = "map (\<lambda>i. (column_times tc ! i, word_of_nat (card (dom (rw_cells (row_at A c i)))) :: u64)) [0..<num_rows c]"
  have "\<forall>a \<in> set ?as. la_len A a = num_rows c"
    using comps by (auto simp: list_arrays_def components_ok_def)
  then have counts: "count_columns A ?as (replicate (num_rows c) 0) = Some ?counts"
    using count_columns_valid [of ?as "replicate (num_rows c) 0"] by (simp add: row_events [OF comps])
  have rows: "zip (column_times tc) ?counts = ?rows"
    using tc by (intro nth_equalityI) (simp_all add: column_times_def)
  obtain t ts where ts: "column_times tc = t # ts" using tc ne by (cases "tc_times tc") (auto simp: column_times_def)
  have sorted_times: "sorted (column_times tc)"
    unfolding column_times_def sorted_map
    by (rule sorted_wrt_mono_rel [OF _ sorted]) (rule monoD [OF mono_new_temporal])
  have fst_rows: "map fst ?rows = column_times tc"
    using tc by (intro nth_equalityI) (simp_all add: column_times_def)
  obtain counts cur n where f: "fold merge_step ?rows ([], t, 0) = (counts, cur, n)" by (rule prod_cases3)
  have "sorted (t # map fst ?rows)"
    unfolding fst_rows using sorted_times unfolding ts by simp
  from merge_steps [OF this, of "[]" 0] have
    m: "counts @ [(cur, n)] = agg ((t, 0) # ?rows)" "\<forall>s \<in> fst ` set counts. s < cur"
    unfolding f by auto
  have "t \<in> fst ` set ?rows" using fst_rows ts by (metis list.set_intros(1) list.set_map)
  then have "agg ((t, 0) # ?rows) = agg ?rows" by (rule agg_zero)
  moreover have "map_option fst (last_opt counts) \<noteq> Some cur"
    using m(2) by (cases counts rule: rev_cases) (auto simp: last_opt_def)
  ultimately show ?thesis
    unfolding num_events_cumulative_per_unique_time_sorted_def counts using rows f m(1) ts by simp
qed

lemma agg_times:
  assumes tc: "tc_ok tc" "length (tc_times tc) = n"
  shows "agg (map (\<lambda>i. (column_times tc ! i, word_of_nat (g i))) [0..<n]) =
           map (\<lambda>t. (new_temporal t, word_of_nat (\<Sum>i\<leftarrow>filter (\<lambda>i. tc_times tc ! i = t) [0..<n]. g i)))
             (sorted_list_of_set (set (tc_times tc)))"
proof -
  let ?ps = "map (\<lambda>i. (column_times tc ! i, word_of_nat (g i) :: u64)) [0..<n]"
  have times: "t \<noteq> i64_MIN" if "t \<in> set (tc_times tc)" for t
    using that tc(1) by (auto simp: tc_ok_def)
  have inj: "new_temporal s = new_temporal t \<longleftrightarrow> s = t" if "s \<in> set (tc_times tc)" "t \<in> set (tc_times tc)" for s t
    using times [OF that(1)] times [OF that(2)] as_i64_new_temporal by metis
  have "fst ` set ?ps = set (column_times tc)"
  proof -
    have "map fst ?ps = column_times tc"
      using tc(2) by (intro nth_equalityI) (simp_all add: column_times_def)
    then show ?thesis by (metis list.set_map)
  qed
  moreover have "sorted_list_of_set (set (column_times tc)) = map new_temporal (sorted_list_of_set (set (tc_times tc)))"
  proof (rule sorted_list_of_set_unique [THEN iffD1], simp, intro conjI)
    show "sorted_wrt (<) (map new_temporal (sorted_list_of_set (set (tc_times tc))))"
      unfolding sorted_wrt_map
    proof (rule sorted_wrt_mono_rel [OF _ strict_sorted_list_of_set])
      fix s t assume "s \<in> set (sorted_list_of_set (set (tc_times tc)))" "t \<in> set (sorted_list_of_set (set (tc_times tc)))" "s < t"
      then show "new_temporal s < new_temporal t"
        using inj [of s t] monoD [OF mono_new_temporal, of s t] by (simp add: order_less_le)
    qed
    have "card (new_temporal ` set (tc_times tc)) = card (set (tc_times tc))"
      using inj by (intro card_image inj_onI) blast
    then show "length (map new_temporal (sorted_list_of_set (set (tc_times tc)))) = card (set (column_times tc))"
      by (simp add: column_times_def)
  qed (simp add: column_times_def)
  moreover have "tsum (new_temporal t) ?ps = word_of_nat (\<Sum>i\<leftarrow>filter (\<lambda>i. tc_times tc ! i = t) [0..<n]. g i)"
    if "t \<in> set (tc_times tc)" for t
  proof -
    have "tsum (new_temporal t) ?ps = (\<Sum>i\<leftarrow>[0..<n]. if tc_times tc ! i = t then word_of_nat (g i) else 0)"
      unfolding tsum_map using tc(2) inj [OF _ that]
      by (intro arg_cong [of _ _ sum_list] map_cong) (simp_all add: column_times_def)
    also have "\<dots> = word_of_nat (\<Sum>i\<leftarrow>filter (\<lambda>i. tc_times tc ! i = t) is. g i)"
      if "is = [0..<n]" for "is"
      unfolding that [symmetric] by (induction "is") simp_all
    finally show ?thesis by simp
  qed
  ultimately show ?thesis unfolding agg_def by simp
qed

end

text \<open>
  C28. On a sound chunk, the events counted per time are exactly the cells of its rows: one entry for every
  distinct time of the timeline, in increasing order, each with the number of cells that the rows at that time
  have; whether the time column is sorted (one pass that merges neighbours) or not (a hash
  map that is sorted afterwards), and in debug builds without tripping the assertion. The
  cumulative count is the number of all cells of the chunk, modulo \<open>2 ^ 64\<close>.
\<close>

theorem event_counts_exact:
  assumes "arrow_laws A" "columns_ok A c" "map_of (chunk_timelines c) timeline = Some tc"
    and "num_rows c \<noteq> 0" "chunk_components c \<noteq> [] \<or> tc_is_sorted tc"
  shows "num_events_cumulative_per_unique_time B A c timeline =
           Some (map (\<lambda>t. (new_temporal t,
               word_of_nat (\<Sum>r\<leftarrow>filter (\<lambda>r. rw_time timeline r = t) (rows A c). card (dom (rw_cells r)))))
             (sorted_list_of_set (set (tc_times tc)))) \<and>
         num_events_cumulative A c = word_of_nat (\<Sum>r\<leftarrow>rows A c. card (dom (rw_cells r)))"
proof -
  have comps: "components_ok A (num_rows c) (chunk_components c)"
    and tc: "tc_ok tc" "length (tc_times tc) = num_rows c"
    using assms(2) map_of_SomeD [OF assms(3)] by (auto simp: columns_ok_def timelines_ok_def)
  note total = arrow_laws.total_events [OF assms(1) comps]
  let ?counts = "map (\<lambda>t. (new_temporal t, word_of_nat (\<Sum>r\<leftarrow>filter (\<lambda>r. rw_time timeline r = t) (rows A c). card (dom (rw_cells r)))))
      (sorted_list_of_set (set (tc_times tc)))"
  have rows: "(\<Sum>r\<leftarrow>filter (\<lambda>r. rw_time timeline r = t) (rows A c). card (dom (rw_cells r))) =
      (\<Sum>i\<leftarrow>filter (\<lambda>i. tc_times tc ! i = t) [0..<num_rows c]. card (dom (rw_cells (row_at A c i))))" for t
    by (simp add: rows_def filter_map comp_def rw_time_row_at [OF assms(3)])
  let ?agg = "agg (map (\<lambda>i. (column_times tc ! i, word_of_nat (card (dom (rw_cells (row_at A c i)))) :: u64)) [0..<num_rows c])"
  have agg: "?agg = ?counts" unfolding rows by (rule arrow_laws.agg_times [OF assms(1) tc])
  have static: "\<not> chunk_is_static c" using assms(3) by (auto simp: chunk_is_static_def)
  have "num_events_cumulative_per_unique_time B A c timeline = Some ?counts"
  proof (cases "range_min (tc_time_range tc) = range_max (tc_time_range tc)")
    case True
    define t where "t = as_i64 (range_min (tc_time_range tc))"
    have ne: "tc_times tc \<noteq> []" using tc(2) assms(4) by auto
    then have t: "t = Min (set (tc_times tc))" "t = Max (set (tc_times tc))"
      using True tc(1) unfolding t_def tc_ok_def by metis+
    have mem: "t \<in> set (tc_times tc)" unfolding t(1) using ne by (intro Min_in) simp_all
    have eq: "s = t" if "s \<in> set (tc_times tc)" for s
    proof (rule antisym)
      show "s \<le> t" unfolding t(2) using that by simp
      show "t \<le> s" unfolding t(1) using that by simp
    qed
    then have one: "set (tc_times tc) = {t}" using mem by blast
    have "rw_time timeline r = t" if r: "r \<in> set (rows A c)" for r
    proof -
      obtain i where "i < num_rows c" "r = row_at A c i" using r by (auto simp: rows_def)
      then show ?thesis using eq tc(2) by (simp add: rw_time_row_at [OF assms(3)])
    qed
    then have "filter (\<lambda>r. rw_time timeline r = t) (rows A c) = rows A c" by simp
    moreover have "range_min (tc_time_range tc) \<noteq> STATIC"
      using mem tc(1) by (auto simp: t_def tc_ok_def STATIC_def)
    then have "range_min (tc_time_range tc) = new_temporal t"
      using tc(1) new_temporal_as_i64 by (simp add: t_def tc_ok_def range_ok_def)
    ultimately show ?thesis
      using True static assms(3) total one by (simp add: num_events_cumulative_per_unique_time_def)
  next
    case False
    have "(if tc_is_sorted tc then num_events_cumulative_per_unique_time_sorted A c tc
        else Some (num_events_cumulative_per_unique_time_unsorted A c tc)) = Some ?agg"
      using arrow_laws.sorted_counts [OF assms(1) comps tc(2) _ assms(4)] arrow_laws.unsorted_counts [OF assms(1) comps tc(2)]
        assms(5) tc(1) by (auto simp: tc_ok_def)
    moreover have "sorted_wrt (<) (map fst ?agg)" by (simp add: agg_def comp_def)
    ultimately show ?thesis
      using static assms(3) False by (simp add: num_events_cumulative_per_unique_time_def agg)
  qed
  then show ?thesis using total by blast
qed

theorem event_counts_exact_witness:
  "\<exists>counts. num_events_cumulative_per_unique_time demo_build mem_arrow demo_chunk ''frame'' = Some counts \<and>
     map fst counts = map new_temporal (sorted_list_of_set (set (tc_times demo_times))) \<and>
     num_events_cumulative mem_arrow demo_chunk = 2"
proof -
  have tc: "map_of (chunk_timelines demo_chunk) ''frame'' = Some demo_times" "num_rows demo_chunk \<noteq> 0"
    "chunk_components demo_chunk \<noteq> []" by (simp_all add: demo_chunk_def num_rows_def)
  have dom: "dom (rw_cells (row_at mem_arrow demo_chunk i)) = (if i = 1 then {} else {''c''})" if "i < 3" for i
  proof -
    have i: "i = 0 \<or> i = 1 \<or> i = 2" using that by linarith
    have "k = ''c''" if "k \<in> dom (rw_cells (row_at mem_arrow demo_chunk i))" for k
      using that by (auto simp: row_at_def demo_chunk_def bind_eq_Some_conv split: if_splits)
    then have "dom (rw_cells (row_at mem_arrow demo_chunk i)) =
        (if rw_cells (row_at mem_arrow demo_chunk i) ''c'' = None then {} else {''c''})"
      by (auto simp del: not_None_eq)
    then show ?thesis using i demo_cells by (auto simp: numeral_2_eq_2)
  qed
  have "(\<Sum>r\<leftarrow>rows mem_arrow demo_chunk. card (dom (rw_cells r))) = 2"
    using dom by (simp add: rows_def demo_chunk_sel upt_rec numeral_3_eq_3)
  then show ?thesis
    using event_counts_exact [OF mem.arrow_laws_axioms demo_chunk_ok tc(1,2) disjI1 [OF tc(3)], of demo_build]
    by (simp add: comp_def)
qed

section \<open>Time ranges of components\<close>

lemma map_of_map_filter:
  assumes "distinct (map fst xs)"
  shows "map_of (List.map_filter (\<lambda>(k, x). map_option (Pair k) (f x)) xs) k = Option.bind (map_of xs k) f"
  using assms
proof (induction xs)
  case (Cons y xs)
  obtain k' x where y: "y = (k', x)" by (cases y)
  have "map_of xs k' = None" using Cons.prems by (simp add: y map_of_eq_None_iff)
  then show ?case
    using Cons by (auto simp: y List.map_filter_simps split: option.split)
qed (simp add: List.map_filter_simps)

context arrow_laws
begin

lemma valid_times_rows:
  assumes tc: "map_of (chunk_timelines c) timeline = Some tc" "length (tc_times tc) = num_rows c"
    and col: "map_of (chunk_components c) component = Some col"
    and nulls: "la_nulls A (col_list_array col) = Some validity"
  shows "valid_times validity (tc_times tc) =
           map (rw_time timeline) (filter (\<lambda>r. rw_cells r component \<noteq> None) (rows A c))"
proof -
  have "enumerate 0 (tc_times tc) = map (\<lambda>i. (i, tc_times tc ! i)) [0..<num_rows c]"
    using tc(2) by (intro nth_equalityI) (simp_all add: nth_enumerate_eq)
  then show ?thesis
    using validity_nth [OF nulls]
    by (simp add: valid_times_def rows_def filter_map comp_def rw_time_row_at [OF tc(1)])
       (simp add: row_at_def col la_cell_def)
qed

lemma component_range_rows:
  assumes tc: "map_of (chunk_timelines c) timeline = Some tc" "length (tc_times tc) = num_rows c" "tc_ok tc"
    and col: "map_of (chunk_components c) component = Some col" "la_len A (col_list_array col) = num_rows c"
    and ne: "num_rows c \<noteq> 0"
  defines "ts \<equiv> map (rw_time timeline) (filter (\<lambda>r. rw_cells r component \<noteq> None) (rows A c))"
  shows "\<exists>r. tc_component_range A tc (col_list_array col) = Some r \<and>
           range_min r = (if ts = [] then time_MAX else new_temporal (Min (set ts))) \<and>
           range_max r = (if ts = [] then time_MIN else new_temporal (Max (set ts)))"
proof -
  have "tc_times tc \<noteq> []" using tc(2) ne by auto
  then have whole: "range_min (tc_time_range tc) = new_temporal (Min (set (tc_times tc)))"
    "range_max (tc_time_range tc) = new_temporal (Max (set (tc_times tc)))"
    using tc(3) new_temporal_as_i64 [of "range_min (tc_time_range tc)"] new_temporal_as_i64 [of "range_max (tc_time_range tc)"]
    by (simp_all add: tc_ok_def range_ok_def)
  have all: "ts = tc_times tc" if valid: "\<And>i. i < num_rows c \<Longrightarrow> la_is_valid A (col_list_array col) i"
  proof -
    have "rw_cells r component \<noteq> None" if "r \<in> set (rows A c)" for r
      using that valid by (auto simp: rows_def row_at_def col la_cell_def)
    then have "ts = map (rw_time timeline) (rows A c)" unfolding ts_def by (simp add: filter_id_conv)
    also have "\<dots> = tc_times tc"
      using tc(2) by (intro nth_equalityI) (simp_all add: rw_time_row_at [OF tc(1)])
    finally show ?thesis .
  qed
  show ?thesis
  proof (cases "la_nulls A (col_list_array col)")
    case None
    then have "ts = tc_times tc" by (intro all) (simp add: la_is_valid_def)
    then show ?thesis using None whole \<open>tc_times tc \<noteq> []\<close> by (simp add: tc_component_range_def)
  next
    case (Some validity)
    have len: "length validity = num_rows c" using nulls_len [OF Some] col(2) by simp
    show ?thesis
    proof (cases "null_count validity = 0")
      case True
      then have "validity ! i" if "i < num_rows c" for i
        using that len by (auto simp: null_count_def filter_empty_conv)
      then have "ts = tc_times tc" by (intro all) (simp add: validity_nth [OF Some])
      then show ?thesis
        using Some True whole \<open>tc_times tc \<noteq> []\<close> len ne by (auto simp: tc_component_range_def)
    next
      case False
      have valid: "valid_times validity (tc_times tc) = ts"
        unfolding ts_def by (rule valid_times_rows [OF tc(1,2) col(1) Some])
      have sorted: "sorted ts" if "sorted (tc_times tc)"
      proof -
        have "sorted (map (rw_time timeline) (rows A c))"
          using that tc(2) by (auto simp: sorted_iff_nth_mono rw_time_row_at [OF tc(1)])
        then show ?thesis unfolding ts_def by (rule sorted_filter)
      qed
      have "first ts = Some (Min (set ts)) \<and> first (rev ts) = Some (Max (set ts))" if "sorted ts" "ts \<noteq> []"
        using that by (simp add: first_def Min_sorted Max_sorted hd_rev)
      moreover have "range_min (range_new (Ok time_MAX) (Ok time_MIN)) = time_MAX"
        "range_max (range_new (Ok time_MAX) (Ok time_MIN)) = time_MIN"
        by (simp_all add: range_new_def saturated_temporal_def time_MAX_def time_MIN_def STATIC_def)
      ultimately show ?thesis
        using False Some len ne sorted
        by (auto simp: tc_component_range_def valid Let_def windows_sorted_iff iter_min_eq iter_max_eq first_def)
    qed
  qed
qed

end

text \<open>
  C32. The time range that a sound chunk reports for a component on a timeline is tight: it runs from the earliest to the
  latest time of the rows that have a cell of the component, whether the column is dense or sparse and the
  times are sorted or not; it is inverted (from the last time to the first, so that it contains nothing) when no row has one.
\<close>

theorem component_ranges_exact:
  assumes "arrow_laws A" "columns_ok A c" "map_of (chunk_timelines c) timeline = Some tc"
    and "map_of (chunk_components c) component = Some col" "num_rows c \<noteq> 0"
  shows "\<exists>rs r. map_of (time_range_per_component A c) timeline = Some rs \<and> map_of rs component = Some r \<and>
           (let ts = map (rw_time timeline) (filter (\<lambda>r. rw_cells r component \<noteq> None) (rows A c))
            in range_min r = (if ts = [] then time_MAX else new_temporal (Min (set ts))) \<and>
               range_max r = (if ts = [] then time_MIN else new_temporal (Max (set ts))))"
proof -
  have ok: "tc_ok tc" "length (tc_times tc) = num_rows c" "la_len A (col_list_array col) = num_rows c"
    "distinct (map fst (chunk_components c))"
    using assms(2) map_of_SomeD [OF assms(3)] map_of_SomeD [OF assms(4)]
    by (auto simp: columns_ok_def timelines_ok_def components_ok_def)
  obtain r where r: "tc_component_range A tc (col_list_array col) = Some r"
    "range_min r = (let ts = map (rw_time timeline) (filter (\<lambda>r. rw_cells r component \<noteq> None) (rows A c))
       in if ts = [] then time_MAX else new_temporal (Min (set ts)))"
    "range_max r = (let ts = map (rw_time timeline) (filter (\<lambda>r. rw_cells r component \<noteq> None) (rows A c))
       in if ts = [] then time_MIN else new_temporal (Max (set ts)))"
    using arrow_laws.component_range_rows [OF assms(1,3) ok(2,1) assms(4) ok(3) assms(5)] unfolding Let_def by blast
  have "map_of (time_range_per_component A c) timeline =
      Some (tc_time_range_per_component A tc (chunk_components c))"
    by (simp add: time_range_per_component_def map_of_map assms(3))
  moreover have "map_of (tc_time_range_per_component A tc (chunk_components c)) component = Some r"
    unfolding tc_time_range_per_component_def
    using map_of_map_filter [OF ok(4), of "\<lambda>col. tc_component_range A tc (col_list_array col)" component] assms(4) r(1)
    by simp
  ultimately show ?thesis
    using r(2,3) unfolding Let_def by blast
qed

theorem component_ranges_exact_witness:
  "\<exists>rs r. map_of (time_range_per_component mem_arrow demo_chunk) ''frame'' = Some rs \<and> map_of rs ''c'' = Some r"
proof -
  have "map_of (chunk_timelines demo_chunk) ''frame'' = Some demo_times" "num_rows demo_chunk \<noteq> 0"
    "\<exists>col. map_of (chunk_components demo_chunk) ''c'' = Some col" by (simp_all add: demo_chunk_def num_rows_def)
  then show ?thesis
    using component_ranges_exact [OF mem.arrow_laws_axioms demo_chunk_ok] by blast
qed

text \<open>
  \<open>row_id_range_per_component\<close> reports the ranges upside down: on a sorted chunk, the last row id with a cell is called
  the minimum and the first the maximum, and on an unsorted one every component gets the extremes.
\<close>

lemma last_valid_id_filter:
  "last_valid_id A a irs = last_opt (map snd (filter (\<lambda>(i, _). la_is_valid A a i) irs))"
proof -
  have "fold (\<lambda>(i, row_id) acc. if la_is_valid A a i then Some row_id else acc) irs acc =
      (case last_opt (map snd (filter (\<lambda>(i, _). la_is_valid A a i) irs)) of None \<Rightarrow> acc | Some r \<Rightarrow> Some r)" for acc
    by (induction irs arbitrary: acc) (auto simp: last_opt_def)
  then show ?thesis by (simp add: last_valid_id_def split: option.split)
qed

lemma row_id_range_per_component_upside_down:
  assumes "chunk_is_sorted c" "map_of (chunk_components c) component = Some col" "distinct (map fst (chunk_components c))"
    and ids: "ids = map snd (filter (\<lambda>(i, _). la_is_valid A (col_list_array col) i) (enumerate 0 (chunk_row_ids c)))" "ids \<noteq> []"
  shows "map_of (row_id_range_per_component A c) component = Some (last ids, hd ids)"
proof -
  let ?irs = "enumerate 0 (chunk_row_ids c)"
  let ?f = "\<lambda>col. do { mn \<leftarrow> last_valid_id A (col_list_array col) ?irs;
                     mx \<leftarrow> last_valid_id A (col_list_array col) (rev ?irs); Some (mn, mx) }"
  have "row_id_range_per_component A c =
      List.map_filter (\<lambda>(k, col). map_option (Pair k) (?f col)) (chunk_components c)"
    using assms(1)
    by (auto simp: row_id_range_per_component_def Let_def case_prod_unfold map_option_bind comp_def intro!: arg_cong2 [of _ _ _ _ List.map_filter] ext split: bind_split)
  moreover have "?f col = Some (last ids, hd ids)"
    using ids by (simp add: last_valid_id_filter last_opt_def rev_filter [symmetric] rev_map [symmetric] last_rev)
  ultimately show ?thesis
    using map_of_map_filter [OF assms(3), of ?f component] assms(2) by simp
qed

end
