(* ===== verification/Store_Index.thy ===== *)
theory Store_Index
  imports Chunk_Stats
begin

text \<open>
  The index of the chunk store by time (\<open>ChunkIdSetPerTime\<close> in
  \<open>src/crates/store/dl_chunk_store/src/store.rs\<close>): how chunks are entered (\<open>writes.rs\<close>) and removed
  (\<open>gc.rs\<close>), and the searches that pick the chunks relevant to a query (\<open>query.rs\<close>). A
  \<open>BTreeMap\<close> keyed by time is a list of entries in strictly increasing order, a \<open>BTreeSet\<close> of ids a strictly increasing list.
\<close>

section \<open>Ordered maps of id sets\<close>

type_synonym ChunkIdSet = "ChunkId list"
type_synonym time_map = "(TimeInt \<times> ChunkIdSet) list"

text \<open>\<open>map.entry(time).or_default().insert(id)\<close>\<close>

fun entry_insert :: "TimeInt \<Rightarrow> ChunkId \<Rightarrow> time_map \<Rightarrow> time_map" where
  "entry_insert t i [] = [(t, [i])]"
| "entry_insert t i ((t', ids) # m) =
     (if t < t' then (t, [i]) # (t', ids) # m
      else if t = t' then (t', insort_insert i ids) # m
      else (t', ids) # entry_insert t i m)"

text \<open>The id is removed from an occupied entry, and the entry too when it becomes empty; the flag tells whether it was occupied.\<close>

fun entry_remove :: "TimeInt \<Rightarrow> ChunkId \<Rightarrow> time_map \<Rightarrow> time_map \<times> bool" where
  "entry_remove t i [] = ([], False)"
| "entry_remove t i ((t', ids) # m) =
     (if t = t'
      then let ids = remove1 i ids in (if ids = [] then m else (t', ids) # m, True)
      else map_prod (Cons (t', ids)) id (entry_remove t i m))"

section \<open>The index\<close>

record ChunkIdSetPerTime =
  max_interval_length :: u64
  per_start_time :: time_map
  per_end_time :: time_map

definition index_default :: ChunkIdSetPerTime where
  "index_default = \<lparr>max_interval_length = 0, per_start_time = [], per_end_time = []\<rparr>"

definition index_add :: "ChunkId \<Rightarrow> AbsoluteTimeRange \<Rightarrow> ChunkIdSetPerTime \<Rightarrow> ChunkIdSetPerTime" where
  "index_add i time_range idx =
     \<lparr>max_interval_length = max (max_interval_length idx) (abs_length time_range),
      per_start_time = entry_insert (range_min time_range) i (per_start_time idx),
      per_end_time = entry_insert (range_max time_range) i (per_end_time idx)\<rparr>"

definition index_remove :: "ChunkId \<Rightarrow> AbsoluteTimeRange \<Rightarrow> ChunkIdSetPerTime \<Rightarrow> ChunkIdSetPerTime \<times> bool" where
  "index_remove i time_range idx =
     (let (starts, b1) = entry_remove (range_min time_range) i (per_start_time idx);
          (ends, b2) = entry_remove (range_max time_range) i (per_end_time idx)
      in (idx\<lparr>per_start_time := starts, per_end_time := ends\<rparr>, b1 \<or> b2))"

text \<open>\<open>u64::saturating_cast::<i64>\<close> of \<open>dl_int\<close>.\<close>

definition saturating_cast :: "u64 \<Rightarrow> i64" where
  "saturating_cast w = (if uint w \<le> i64_max then i64_of_int (uint w) else i64_MAX)"

section \<open>Searches\<close>

definition index_latest_at :: "TimeInt \<Rightarrow> ChunkIdSetPerTime \<Rightarrow> ChunkId list option" where
  "index_latest_at at idx =
     do { (upper_bound, _) \<leftarrow> last_opt (filter (\<lambda>(t, _). t \<le> at) (per_start_time idx));
          let lower_bound = saturating_sub (as_i64 upper_bound) (saturating_cast (max_interval_length idx));
          Some (concat (map snd (takeWhile (\<lambda>(t, _). lower_bound \<le> as_i64 t)
                  (rev (filter (\<lambda>(t, _). t \<le> at) (per_start_time idx)))))) }"

definition range_bounds :: "RangeQuery \<Rightarrow> ChunkIdSetPerTime \<Rightarrow> TimeInt \<times> TimeInt" where
  "range_bounds query idx =
     (let r = rq_range query;
          extended = opt_include_extended_bounds (rq_options query);
          query_min = (if extended then new_temporal (saturating_sub (as_i64 (range_min r)) (i64_of_int 1)) else range_min r);
          query_max = (if extended then new_temporal (saturating_add (as_i64 (range_max r)) (i64_of_int 1)) else range_max r);
          query_min = new_temporal (saturating_sub (as_i64 query_min) (saturating_cast (max_interval_length idx)));
          start_time = (case last_opt (filter (\<lambda>(t, _). t \<le> query_min) (per_start_time idx)) of
             None \<Rightarrow> time_MIN | Some (t, _) \<Rightarrow> t);
          end_time = (case last_opt (filter (\<lambda>(t, _). t \<le> query_max) (per_start_time idx)) of
             None \<Rightarrow> start_time | Some (t, _) \<Rightarrow> t)
      in (start_time, max start_time end_time))"

definition index_range :: "RangeQuery \<Rightarrow> ChunkIdSetPerTime list \<Rightarrow> ChunkId list" where
  "index_range query idxs =
     concat (map (\<lambda>idx. case range_bounds query idx of (start_time, end_time) \<Rightarrow>
       concat (map snd (filter (\<lambda>(t, _). start_time \<le> t \<and> t \<le> end_time) (per_start_time idx)))) idxs)"

section \<open>Maps of id sets\<close>

definition map_ok :: "time_map \<Rightarrow> bool" where
  "map_ok m \<longleftrightarrow> sorted_wrt (<) (map fst m) \<and> (\<forall>(t, ids) \<in> set m. ids \<noteq> [] \<and> sorted_wrt (<) ids)"

text \<open>The pairs of a time and an id that a map holds.\<close>

definition pairs :: "time_map \<Rightarrow> (TimeInt \<times> ChunkId) set" where
  "pairs m = {(t, i). \<exists>ids. (t, ids) \<in> set m \<and> i \<in> set ids}"

lemma pairs_simps [simp]:
  "pairs [] = {}" "pairs ((t, ids) # m) = Pair t ` set ids \<union> pairs m"
  by (auto simp: pairs_def)

lemma map_ok_simps [simp]:
  "map_ok []"
  "map_ok ((t, ids) # m) \<longleftrightarrow> (\<forall>u \<in> fst ` set m. t < u) \<and> ids \<noteq> [] \<and> sorted_wrt (<) ids \<and> map_ok m"
  by (auto simp: map_ok_def)

lemma insort_insert_strict:
  "sorted_wrt (<) (insort_insert i ids) \<longleftrightarrow> sorted_wrt (<) ids" if "sorted_wrt (<) ids" for i :: ChunkId
  using that by (auto simp: insort_insert_key_def strict_sorted_iff sorted_insort distinct_insort)

lemma entry_insert:
  assumes "map_ok m"
  shows "map_ok (entry_insert t i m)" "pairs (entry_insert t i m) = insert (t, i) (pairs m)"
proof -
  have set: "fst ` set (entry_insert t i m) = insert t (fst ` set m)" for t i m
    by (induction t i m rule: entry_insert.induct) auto
  show "map_ok (entry_insert t i m)"
    using assms
  proof (induction t i m rule: entry_insert.induct)
    case (2 t i t' ids m)
    have "\<forall>u \<in> fst ` set (entry_insert t i m). t' < u" if "\<not> t < t'" "t \<noteq> t'"
      unfolding set using that "2.prems" by auto
    moreover have "insort_insert i ids \<noteq> []" by (cases ids) (auto simp: insort_insert_key_def)
    ultimately show ?case
      using 2 by (auto simp: insort_insert_strict intro: less_trans)
  qed simp
  show "pairs (entry_insert t i m) = insert (t, i) (pairs m)"
    using assms by (induction t i m rule: entry_insert.induct) (auto simp: set_insort_insert)
qed

lemma entry_remove:
  assumes "map_ok m"
  shows "map_ok (fst (entry_remove t i m))" "pairs (fst (entry_remove t i m)) = pairs m - {(t, i)}"
    "snd (entry_remove t i m) \<longleftrightarrow> t \<in> fst ` set m"
proof -
  have keys: "fst ` set (fst (entry_remove t i m)) \<subseteq> fst ` set m" for t i m
    by (induction t i m rule: entry_remove.induct) (auto simp: Let_def)
  have "map_ok (fst (entry_remove t i m)) \<and> pairs (fst (entry_remove t i m)) = pairs m - {(t, i)} \<and>
      (snd (entry_remove t i m) \<longleftrightarrow> t \<in> fst ` set m)"
    using assms
  proof (induction t i m rule: entry_remove.induct)
    case (2 t i t' ids m)
    have dist: "sorted_wrt (<) ids" "distinct ids" using "2.prems" by (simp_all add: strict_sorted_iff)
    have "(t, i) \<notin> pairs m" if "t = t'" using that "2.prems" by (auto simp: pairs_def)
    moreover have "\<forall>u \<in> fst ` set m. t' < u" using "2.prems" by simp
    then have "\<forall>u \<in> fst ` set (fst (entry_remove t i m)). t' < u" using keys by blast
    moreover have "sorted_wrt (<) (remove1 i ids)"
      using dist by (simp add: strict_sorted_iff sorted_remove1)
    moreover have "set (remove1 i ids) = set ids - {i}" using dist(2) by simp
    ultimately show ?case
      using 2 by (auto simp: Let_def)
  qed simp
  then show "map_ok (fst (entry_remove t i m))" "pairs (fst (entry_remove t i m)) = pairs m - {(t, i)}"
    "snd (entry_remove t i m) \<longleftrightarrow> t \<in> fst ` set m" by blast+
qed

section \<open>The index against its entries\<close>

text \<open>
  \<open>index_ok idx es\<close>: the index holds exactly the entries \<open>es\<close>, an id with its range each. The longest interval is only an upper bound,
  because removal does not lower it.
\<close>

definition index_ok :: "ChunkIdSetPerTime \<Rightarrow> (ChunkId \<times> AbsoluteTimeRange) set \<Rightarrow> bool" where
  "index_ok idx es \<longleftrightarrow> map_ok (per_start_time idx) \<and> map_ok (per_end_time idx) \<and>
     pairs (per_start_time idx) = (\<lambda>(i, r). (range_min r, i)) ` es \<and>
     pairs (per_end_time idx) = (\<lambda>(i, r). (range_max r, i)) ` es \<and>
     (\<forall>(i, r) \<in> es. abs_length r \<le> max_interval_length idx)"

lemma index_default_ok: "index_ok index_default {}"
  by (simp add: index_ok_def index_default_def)

lemma index_add_ok: "index_ok idx es \<Longrightarrow> index_ok (index_add i r idx) (insert (i, r) es)"
  by (auto simp: index_ok_def index_add_def entry_insert intro: max.coboundedI1)

lemma index_remove_ok:
  assumes "index_ok idx es" "\<forall>(j, s) \<in> es. j = i \<longrightarrow> s = r"
  shows "index_ok (fst (index_remove i r idx)) (es - {(i, r)})"
proof -
  have "(\<lambda>(i, r). (f r, i)) ` es - {(f r, i)} = (\<lambda>(i, r). (f r, i)) ` (es - {(i, r)})"
    for f :: "AbsoluteTimeRange \<Rightarrow> TimeInt"
    using assms(2) by (auto simp: image_iff)
  then show ?thesis
    using assms(1) entry_remove [of "per_start_time idx" "range_min r" i] entry_remove [of "per_end_time idx" "range_max r" i]
    by (auto simp: index_ok_def index_remove_def Let_def case_prod_unfold)
qed

lemma takeWhile_closed:
  "sorted_wrt (\<lambda>x y. P y \<longrightarrow> P x) xs \<Longrightarrow> takeWhile P xs = filter P xs"
  by (induction xs) (auto simp: filter_empty_conv)

lemma last_below:
  assumes "map_ok m" "last_opt (filter (\<lambda>(t, _). t \<le> at) m) = Some (u, ids)"
  shows "u \<le> at" "(u, ids) \<in> set m" "\<And>t i. (t, i) \<in> pairs m \<Longrightarrow> t \<le> at \<Longrightarrow> t \<le> u"
proof -
  let ?m = "filter (\<lambda>(t, _). t \<le> at) m"
  obtain ys where m: "?m = ys @ [(u, ids)]"
    using assms(2) by (cases ?m rule: rev_cases) (auto simp: last_opt_def)
  then have "(u, ids) \<in> set ?m" by simp
  then show "u \<le> at" "(u, ids) \<in> set m" by auto
  have "sorted_wrt (<) (map fst ?m)"
    using assms(1) by (simp add: map_ok_def sorted_wrt_map sorted_wrt_filter)
  then have less: "\<forall>x \<in> set ys. fst x < u" unfolding m by (auto simp: sorted_wrt_append)
  show "t \<le> u" if pair: "(t, i) \<in> pairs m" "t \<le> at" for t i
  proof -
    obtain js where "(t, js) \<in> set ?m" using pair by (auto simp: pairs_def)
    then show ?thesis using less unfolding m by force
  qed
qed

lemma none_below:
  "last_opt (filter (\<lambda>(t, _). t \<le> at) m) = None \<Longrightarrow> (t, i) \<in> pairs m \<Longrightarrow> \<not> t \<le> at"
  by (auto simp: last_opt_def pairs_def filter_empty_conv split: if_splits)

lemma ival_saturating_cast: "uint w \<le> i64_max \<Longrightarrow> ival (saturating_cast w) = uint w"
  by (auto simp: saturating_cast_def in_i64_def intro!: ival_of_int order_trans [OF _ uint_ge_0])

text \<open>The entries are ranges of temporal times, and no interval is longer than an \<open>i64\<close> can tell.\<close>

definition entries_ok :: "ChunkIdSetPerTime \<Rightarrow> (ChunkId \<times> AbsoluteTimeRange) set \<Rightarrow> bool" where
  "entries_ok idx es \<longleftrightarrow> index_ok idx es \<and> uint (max_interval_length idx) \<le> i64_max \<and> (\<forall>(i, r) \<in> es. range_ok r)"

lemma entry_length:
  assumes "entries_ok idx es" "(i, r) \<in> es"
  shows "tval (range_max r) - tval (range_min r) \<le> uint (max_interval_length idx)"
proof -
  have "abs_length r \<le> max_interval_length idx" using assms by (auto simp: entries_ok_def index_ok_def)
  then have "\<bar>tval (range_min r) - tval (range_max r)\<bar> \<le> uint (max_interval_length idx)"
    by (simp add: abs_length_def word_le_def uint_abs_diff)
  then show ?thesis by linarith
qed

lemma index_latest_at_set:
  assumes "map_ok (per_start_time idx)" "index_latest_at at idx = Some ids"
    and keys: "\<forall>t \<in> fst ` set (per_start_time idx). time_ok t"
  obtains u us where "(u, us) \<in> set (per_start_time idx)" "u \<le> at"
    "set ids = {i. \<exists>t. (t, i) \<in> pairs (per_start_time idx) \<and> t \<le> at \<and>
       saturating_sub (as_i64 u) (saturating_cast (max_interval_length idx)) \<le> as_i64 t}"
proof -
  let ?m = "filter (\<lambda>(t, _). t \<le> at) (per_start_time idx)"
  obtain u us where u: "last_opt ?m = Some (u, us)"
    using assms(2) by (auto simp: index_latest_at_def bind_eq_Some_conv)
  let ?lower = "saturating_sub (as_i64 u) (saturating_cast (max_interval_length idx))"
  have sorted: "sorted_wrt (\<lambda>x y. fst y < fst x) (rev ?m)"
    using assms(1) by (simp add: map_ok_def sorted_wrt_map sorted_wrt_filter sorted_wrt_rev)
  have "sorted_wrt (\<lambda>x y. (\<lambda>(t, _). ?lower \<le> as_i64 t) y \<longrightarrow> (\<lambda>(t, _). ?lower \<le> as_i64 t) x) (rev ?m)"
    using keys
    by (intro sorted_wrt_mono_rel [OF _ sorted])
       (auto simp: time_less_iff less_eq_i64_def elim!: order_trans)
  then have "ids = concat (map snd (filter (\<lambda>(t, _). ?lower \<le> as_i64 t) (rev ?m)))"
    using assms(2) u by (simp add: index_latest_at_def takeWhile_closed)
  then have "set ids = {i. \<exists>t. (t, i) \<in> pairs (per_start_time idx) \<and> t \<le> at \<and> ?lower \<le> as_i64 t}"
    by (auto simp: pairs_def) blast
  with last_below(1,2) [OF assms(1) u] show thesis by (intro that)
qed

lemma entries_range:
  assumes "entries_ok idx es" "(i, r) \<in> es"
  shows "time_ok (range_min r)" "time_ok (range_max r)" "range_min r \<noteq> STATIC" "range_max r \<noteq> STATIC"
proof -
  have "range_ok r" using assms by (auto simp: entries_ok_def)
  then show "time_ok (range_min r)" "time_ok (range_max r)" "range_min r \<noteq> STATIC" "range_max r \<noteq> STATIC"
    by (simp_all add: range_ok_def)
qed

lemma entries_keys:
  assumes "entries_ok idx es" "t \<in> fst ` set (per_start_time idx)"
  shows "time_ok t" "t \<noteq> STATIC" "\<exists>i r. (i, r) \<in> es \<and> range_min r = t"
proof -
  obtain ids where ids: "(t, ids) \<in> set (per_start_time idx)" using assms(2) by auto
  then have "ids \<noteq> []" using assms(1) by (auto simp: entries_ok_def index_ok_def map_ok_def)
  then have "(t, hd ids) \<in> pairs (per_start_time idx)" using ids by (auto simp: pairs_def)
  then have "(t, hd ids) \<in> (\<lambda>(i, r). (range_min r, i)) ` es" using assms(1) by (simp add: entries_ok_def index_ok_def)
  then show "\<exists>i r. (i, r) \<in> es \<and> range_min r = t" by auto
  then show "time_ok t" "t \<noteq> STATIC" using assms(1) by (auto simp: entries_ok_def range_ok_def)
qed

lemma index_latest_at_covers:
  assumes ok: "entries_ok idx es" and ids: "index_latest_at at idx = Some ids"
  shows "i \<in> set ids \<Longrightarrow> \<exists>r. (i, r) \<in> es \<and> range_min r \<le> at"
    and "(i, r) \<in> es \<Longrightarrow> range_min r \<le> at \<Longrightarrow>
         i \<in> set ids \<or> (\<exists>j s. (j, s) \<in> es \<and> j \<in> set ids \<and> range_min s \<le> at \<and> range_max r < range_min s)"
proof -
  let ?L = "uint (max_interval_length idx)"
  have pairs: "pairs (per_start_time idx) = (\<lambda>(i, r). (range_min r, i)) ` es" and m: "map_ok (per_start_time idx)"
    and L: "?L \<le> i64_max"
    using ok by (simp_all add: entries_ok_def index_ok_def)
  have keys: "\<forall>t \<in> fst ` set (per_start_time idx). time_ok t" using entries_keys(1) [OF ok] by blast
  obtain u us where
    u: "(u, us) \<in> set (per_start_time idx)" "u \<le> at"
    and set_ids: "set ids = {i. \<exists>t. (t, i) \<in> pairs (per_start_time idx) \<and> t \<le> at \<and>
       saturating_sub (as_i64 u) (saturating_cast (max_interval_length idx)) \<le> as_i64 t}"
    by (rule index_latest_at_set [OF m ids keys])
  have lower: "saturating_sub (as_i64 u) (saturating_cast (max_interval_length idx)) \<le> as_i64 t \<longleftrightarrow> tval u - ?L \<le> tval t" for t
    unfolding less_eq_i64_def ival_saturating_sub ival_saturating_cast [OF L]
    using ival_range [of "as_i64 u"] ival_range [of "as_i64 t"] uint_ge_0 [of "max_interval_length idx"] by linarith
  show "\<exists>r. (i, r) \<in> es \<and> range_min r \<le> at" if "i \<in> set ids"
    using that unfolding set_ids pairs by auto
  have mem: "i \<in> set ids" if "(i, r) \<in> es" "range_min r \<le> at" "tval u - ?L \<le> tval (range_min r)" for i r
    using that unfolding set_ids pairs lower by force
  show "i \<in> set ids \<or> (\<exists>j s. (j, s) \<in> es \<and> j \<in> set ids \<and> range_min s \<le> at \<and> range_max r < range_min s)"
    if ir: "(i, r) \<in> es" "range_min r \<le> at"
  proof (cases "tval u - ?L \<le> tval (range_min r)")
    case True
    then show ?thesis using mem ir by blast
  next
    case False
    obtain j s where js: "(j, s) \<in> es" "range_min s = u"
      using entries_keys(3) [OF ok, of u] u(1) by force
    have "j \<in> set ids"
      by (rule mem [OF js(1)]) (use js u uint_ge_0 [of "max_interval_length idx"] in simp_all)
    moreover have "tval (range_max r) < tval u"
      using False entry_length [OF ok ir(1)] by linarith
    then have "range_max r < range_min s"
      using entries_range [OF ok ir(1)] entries_range [OF ok js(1)] js(2) by (simp add: time_less_iff)
    ultimately show ?thesis using js u(2) by blast
  qed
qed

lemma index_latest_at_None:
  assumes "entries_ok idx es" "index_latest_at at idx = None" "(i, r) \<in> es"
  shows "\<not> range_min r \<le> at"
proof -
  have "last_opt (filter (\<lambda>(t, _). t \<le> at) (per_start_time idx)) = None"
    using assms(2) by (auto simp: index_latest_at_def bind_eq_None_conv split: prod.splits)
  moreover have "(range_min r, i) \<in> pairs (per_start_time idx)"
    using assms(1,3) by (auto simp: entries_ok_def index_ok_def)
  ultimately show ?thesis using none_below by blast
qed

lemma index_range_covers:
  assumes ok: "entries_ok idx es" and q: "range_ok (rq_range query)"
  shows "i \<in> set (index_range query [idx]) \<Longrightarrow> \<exists>r. (i, r) \<in> es"
    and "(i, r) \<in> es \<Longrightarrow> intersects r (rq_range query) \<Longrightarrow> i \<in> set (index_range query [idx])"
proof -
  let ?L = "uint (max_interval_length idx)"
  obtain lo hi where bounds: "range_bounds query idx = (lo, hi)" by (cases "range_bounds query idx")
  have pairs: "pairs (per_start_time idx) = (\<lambda>(i, r). (range_min r, i)) ` es" and m: "map_ok (per_start_time idx)"
    and L: "?L \<le> i64_max"
    using ok by (simp_all add: entries_ok_def index_ok_def)
  have set_ids: "set (index_range query [idx]) = {i. \<exists>t. (t, i) \<in> pairs (per_start_time idx) \<and> lo \<le> t \<and> t \<le> hi}"
    by (auto simp: index_range_def bounds pairs_def) blast
  then show "\<exists>r. (i, r) \<in> es" if "i \<in> set (index_range query [idx])"
    using that pairs by auto
  show "i \<in> set (index_range query [idx])" if ir: "(i, r) \<in> es" and x: "intersects r (rq_range query)"
  proof -
    let ?q = "rq_range query" and ?ext = "opt_include_extended_bounds (rq_options query)"
    define qmin where "qmin = (if ?ext then new_temporal (saturating_sub (as_i64 (range_min ?q)) (i64_of_int 1)) else range_min ?q)"
    define qmax where "qmax = (if ?ext then new_temporal (saturating_add (as_i64 (range_max ?q)) (i64_of_int 1)) else range_max ?q)"
    define cut where "cut = new_temporal (saturating_sub (as_i64 qmin) (saturating_cast (max_interval_length idx)))"
    let ?lo = "case last_opt (filter (\<lambda>(t, _). t \<le> cut) (per_start_time idx)) of None \<Rightarrow> time_MIN | Some (t, _) \<Rightarrow> t"
    let ?hi = "case last_opt (filter (\<lambda>(t, _). t \<le> qmax) (per_start_time idx)) of None \<Rightarrow> ?lo | Some (t, _) \<Rightarrow> t"
    have "range_bounds query idx = (?lo, max ?lo ?hi)"
      unfolding range_bounds_def Let_def qmin_def qmax_def cut_def ..
    then have lohi: "lo = ?lo" "hi = max ?lo ?hi" unfolding bounds prod.inject by (rule conjunct1, rule conjunct2)
    note r = entries_range [OF ok ir]
    have q': "time_ok (range_min ?q)" "time_ok (range_max ?q)" using q by (simp_all add: range_ok_def)
    have one: "ival (i64_of_int 1) = 1" by (simp add: ival_of_int in_i64_def)
    have pair: "(range_min r, i) \<in> pairs (per_start_time idx)" unfolding pairs using ir by force
    have rmin: "i64_min + 1 \<le> tval (range_min r)"
      using r(1,3) tval_static_iff [of "range_min r"] ival_range [of "as_i64 (range_min r)"] by linarith
    have "range_min r \<le> range_max ?q" "range_min ?q \<le> range_max r" using x by (simp_all add: intersects_def)
    then have le: "tval (range_min r) \<le> tval (range_max ?q)" "tval (range_min ?q) \<le> tval (range_max r)"
      using r q' by (simp_all add: time_le_iff)
    have "tval qmin \<le> tval (range_min ?q) \<or> tval qmin = i64_min + 1"
      unfolding qmin_def by (auto simp: tval_new_temporal ival_saturating_sub one)
    then have "tval cut \<le> tval (range_min r)"
      unfolding cut_def tval_new_temporal ival_saturating_sub ival_saturating_cast [OF L]
      using le(2) entry_length [OF ok ir] rmin uint_ge_0 [of "max_interval_length idx"] by linarith
    then have cut: "cut \<le> range_min r" using r(1) by (simp add: time_le_iff cut_def)
    have "tval (range_max ?q) \<le> tval qmax"
      unfolding qmax_def using ival_range [of "as_i64 (range_max ?q)"]
      by (auto simp: tval_new_temporal ival_saturating_add one)
    then have qmax: "range_min r \<le> qmax"
      using le(1) r(1) q' by (auto simp: time_le_iff qmax_def)
    have "?lo \<le> range_min r"
    proof (cases "last_opt (filter (\<lambda>(t, _). t \<le> cut) (per_start_time idx))")
      case None
      then show ?thesis using r(1) rmin by (simp add: time_le_iff)
    next
      case (Some tu)
      then have "fst tu \<le> cut" using last_below(1) [OF m, of cut "fst tu" "snd tu"] by simp
      then show ?thesis using Some cut by (cases tu) simp
    qed
    moreover have "range_min r \<le> ?hi"
    proof (cases "last_opt (filter (\<lambda>(t, _). t \<le> qmax) (per_start_time idx))")
      case None
      then show ?thesis using none_below [OF None pair] qmax by simp
    next
      case (Some tu)
      then have "range_min r \<le> fst tu" using last_below(3) [OF m _ pair qmax, of "fst tu" "snd tu"] by simp
      then show ?thesis using Some by (cases tu) simp
    qed
    ultimately have "lo \<le> range_min r" "range_min r \<le> hi"
      unfolding lohi by (blast, blast intro: max.coboundedI2)
    then show ?thesis unfolding set_ids using pair by blast
  qed
qed

section \<open>The contract of the index\<close>

text \<open>
  What the queries of the store rely on: every id a search returns belongs to an entry, a latest-at search skips an entry only
  if a returned one starts after the skipped one ends, and a range search skips none that intersects the queried range.
\<close>

locale chunk_index =
  fixes holds :: "'i \<Rightarrow> (ChunkId \<times> AbsoluteTimeRange) set \<Rightarrow> bool"
    and search_latest :: "TimeInt \<Rightarrow> 'i \<Rightarrow> ChunkId list option"
    and search_range :: "RangeQuery \<Rightarrow> 'i list \<Rightarrow> ChunkId list"
  assumes latest_sound: "holds idx es \<Longrightarrow> search_latest at idx = Some ids \<Longrightarrow> i \<in> set ids \<Longrightarrow>
      \<exists>r. (i, r) \<in> es \<and> range_min r \<le> at"
    and latest_covers: "holds idx es \<Longrightarrow> search_latest at idx = Some ids \<Longrightarrow> (i, r) \<in> es \<Longrightarrow> range_min r \<le> at \<Longrightarrow>
      i \<in> set ids \<or> (\<exists>j s. (j, s) \<in> es \<and> j \<in> set ids \<and> range_min s \<le> at \<and> range_max r < range_min s)"
    and latest_none: "holds idx es \<Longrightarrow> search_latest at idx = None \<Longrightarrow> (i, r) \<in> es \<Longrightarrow> \<not> range_min r \<le> at"
    and range_sound: "holds idx es \<Longrightarrow> range_ok (rq_range query) \<Longrightarrow> i \<in> set (search_range query [idx]) \<Longrightarrow> \<exists>r. (i, r) \<in> es"
    and range_covers: "holds idx es \<Longrightarrow> range_ok (rq_range query) \<Longrightarrow> (i, r) \<in> es \<Longrightarrow> intersects r (rq_range query) \<Longrightarrow>
      i \<in> set (search_range query [idx])"
begin

text \<open>
  With the times \<open>T i\<close> at which chunk \<open>i\<close> has data, a time that lies in the range of its entry and that a latest-at search does not
  cover is superseded by a later one that it does, if every returned chunk has data at the start of its entry.
\<close>

lemma latest_dominates:
  assumes "holds idx es" "(i, r) \<in> es" "range_min r \<le> t" "t \<le> range_max r" "t \<le> at"
    and starts: "\<And>ids j s. search_latest at idx = Some ids \<Longrightarrow> j \<in> set ids \<Longrightarrow> (j, s) \<in> es \<Longrightarrow> range_min s \<in> T j"
  shows "\<exists>ids. search_latest at idx = Some ids \<and> (i \<in> set ids \<or> (\<exists>j \<in> set ids. \<exists>u \<in> T j. t < u \<and> u \<le> at))"
proof -
  have "range_min r \<le> at" using assms(3,5) by (blast intro: order_trans)
  then obtain ids where ids: "search_latest at idx = Some ids"
    using latest_none [OF assms(1) _ assms(2)] by (cases "search_latest at idx") auto
  from latest_covers [OF assms(1) ids assms(2) \<open>range_min r \<le> at\<close>] show ?thesis
  proof (elim disjE exE conjE)
    fix j s assume js: "(j, s) \<in> es" "j \<in> set ids" "range_min s \<le> at" "range_max r < range_min s"
    then have "t < range_min s" using assms(4) by (blast intro: le_less_trans)
    then show ?thesis using ids js starts by blast
  qed (use ids in blast)
qed

lemma range_complete:
  assumes "holds idx es" "range_ok (rq_range query)" "(i, r) \<in> es" "range_min r \<le> t" "t \<le> range_max r"
    and "range_min (rq_range query) \<le> t" "t \<le> range_max (rq_range query)"
  shows "i \<in> set (search_range query [idx])" and "intersects r (rq_range query)"
  using range_covers [OF assms(1-3)] assms(4-7)
  by (auto simp: intersects_def intro: order_trans)

end

interpretation per_time: chunk_index entries_ok index_latest_at index_range
  using index_latest_at_covers index_latest_at_None index_range_covers by unfold_locales blast+

text \<open>
  C36. The index against the set of entries it stands for. A new index is empty, adding a chunk with its range adds that entry, and removing
  it takes exactly that entry away. As long as no interval exceeds what an \<open>i64\<close> can measure, a latest-at search is then sound and skips
  an entry that starts in time only when it returns one that starts after the skipped one ends, it finds nothing
  only when no entry starts in time, and a range search returns every entry that meets the queried range.
\<close>

theorem index_refines_entries:
  assumes "index_ok idx es" "\<forall>(j, s) \<in> es. j = i \<longrightarrow> s = r"
  shows "index_ok index_default {} \<and> index_ok (index_add i r idx) (insert (i, r) es)
    \<and> index_ok (fst (index_remove i r idx)) (es - {(i, r)})
    \<and> (uint (max_interval_length idx) \<le> i64_max \<and> (\<forall>(j, s) \<in> es. range_ok s) \<longrightarrow>
         (case index_latest_at at idx of
            None \<Rightarrow> \<forall>(j, s) \<in> es. at < range_min s
          | Some ids \<Rightarrow>
              (\<forall>j \<in> set ids. \<exists>s. (j, s) \<in> es \<and> range_min s \<le> at) \<and>
              (\<forall>(j, s) \<in> es. range_min s \<le> at \<longrightarrow> j \<in> set ids \<or>
                 (\<exists>k v. (k, v) \<in> es \<and> k \<in> set ids \<and> range_min v \<le> at \<and> range_max s < range_min v)))
         \<and> (range_ok (rq_range query) \<longrightarrow>
              (\<forall>j \<in> set (index_range query [idx]). \<exists>s. (j, s) \<in> es) \<and>
              (\<forall>(j, s) \<in> es. intersects s (rq_range query) \<longrightarrow> j \<in> set (index_range query [idx]))))"
proof (intro conjI impI, goal_cases)
  case 4
  then have ok: "entries_ok idx es" using assms(1) by (simp add: entries_ok_def)
  then show ?case
    using per_time.latest_none [OF ok, of at] per_time.latest_sound [OF ok, of at] per_time.latest_covers [OF ok, of at]
    by (cases "index_latest_at at idx") (fastforce simp: not_le)+
next
  case 5
  then have ok: "entries_ok idx es" using assms(1) by (simp add: entries_ok_def)
  then show ?case using per_time.range_sound [OF ok] 5 by blast
next
  case 6
  then have ok: "entries_ok idx es" using assms(1) by (simp add: entries_ok_def)
  then show ?case using per_time.range_covers [OF ok] 6 by blast
qed (rule index_default_ok index_add_ok [OF assms(1)] index_remove_ok [OF assms])+

text \<open>Two chunks that overlap, one of them long: the one that starts first is still found.\<close>

definition demo_range :: "int \<Rightarrow> int \<Rightarrow> AbsoluteTimeRange" where
  "demo_range a b = range_new (Ok (new_temporal (i64_of_int a))) (Ok (new_temporal (i64_of_int b)))"

definition demo_index :: ChunkIdSetPerTime where
  "demo_index = index_add (demo_id 2) (demo_range 8 9) (index_add (demo_id 1) (demo_range 2 20) index_default)"

definition demo_entries :: "(ChunkId \<times> AbsoluteTimeRange) set" where
  "demo_entries = {(demo_id 2, demo_range 8 9), (demo_id 1, demo_range 2 20)}"

theorem index_refines_entries_witness:
  "index_ok (fst (index_remove (demo_id 2) (demo_range 8 9) demo_index)) (demo_entries - {(demo_id 2, demo_range 8 9)})
    \<and> demo_id 1 \<in> set (index_range (range_query_new ''t'' (demo_range 15 16)) [demo_index])"
proof -
  have ok: "index_ok demo_index demo_entries"
    unfolding demo_index_def demo_entries_def by (intro index_add_ok index_default_ok)
  have uniq: "\<forall>(j, s) \<in> demo_entries. j = demo_id 2 \<longrightarrow> s = demo_range 8 9"
    by (simp add: demo_entries_def demo_id_def)
  have len: "uint (max_interval_length demo_index) \<le> i64_max" by code_simp
  have ranges: "\<forall>(j, s) \<in> demo_entries. range_ok s" "range_ok (demo_range 15 16)"
    by (simp_all add: demo_entries_def demo_range_def del: range_new_new)
  have "intersects (demo_range 2 20) (demo_range 15 16)" by code_simp
  then show ?thesis
    using index_refines_entries [OF ok uniq, of time_ZERO "range_query_new ''t'' (demo_range 15 16)"] len ranges
    by (auto simp: demo_entries_def range_query_new_def)
qed

end
