(* ===== verification/Store_Lineage.thy ===== *)
theory Store_Lineage
  imports Chunk
begin

text \<open>
  Where the chunks of a store come from (\<open>src/crates/store/dl_chunk_store/src/lineage.rs\<close>, and the reference
  counting of \<open>writes.rs\<close>). Hash maps keyed by chunk id are association lists; a new key goes to the end. The four
  maps that dropping a lineage touches form a record that the state of the store extends. Reference counts are \<open>u32\<close>.
  The main results: reference counts stay exact, dropping terminates and never removes an entry that is still
  referenced, and the searches along the lineage return and find exactly the roots.
\<close>

section \<open>Data\<close>

datatype ChunkDirectLineage =
    SplitFrom ChunkId "ChunkId list"
  | CompactedFrom "ChunkId list"
  | RootFromManifest bool
  | Volatile

datatype 'a ChunkDirectLineageReport =
    ReportSplitFrom "'a Chunk" "'a Chunk list"
  | ReportCompactedFrom "(ChunkId \<times> 'a Chunk) list"
  | ReportRootFromManifest bool
  | ReportVolatile

record TrackedDirectChunkLineage =
  lineage :: ChunkDirectLineage
  ref_count :: u32
  manifest_descendant :: bool

record LineageDroppingCtx =
  chunks_lineage :: "(ChunkId \<times> TrackedDirectChunkLineage) list"
  leaky_compactions :: "(ChunkId \<times> ChunkId) list"
  split_on_ingest :: "ChunkId list"
  dangling_splits :: "(ChunkId \<times> ChunkId list) list"

fun lineage_of_report :: "'a ChunkDirectLineageReport \<Rightarrow> ChunkDirectLineage" where
  "lineage_of_report (ReportSplitFrom chunk siblings) = SplitFrom (chunk_id chunk) (map chunk_id siblings)"
| "lineage_of_report (ReportCompactedFrom chunks) = CompactedFrom (map fst chunks)"
| "lineage_of_report (ReportRootFromManifest b) = RootFromManifest b"
| "lineage_of_report ReportVolatile = Volatile"

fun iter_referenced_chunks :: "ChunkDirectLineage \<Rightarrow> ChunkId list" where
  "iter_referenced_chunks (SplitFrom i _) = [i]"
| "iter_referenced_chunks (CompactedFrom chunks) = chunks"
| "iter_referenced_chunks _ = []"

section \<open>Lookups\<close>

definition direct_lineage :: "'z LineageDroppingCtx_scheme \<Rightarrow> ChunkId \<Rightarrow> ChunkDirectLineage option" where
  "direct_lineage s i = map_option lineage (map_of (chunks_lineage s) i)"

definition descends_from_manifest :: "'z LineageDroppingCtx_scheme \<Rightarrow> ChunkId \<Rightarrow> bool" where
  "descends_from_manifest s i \<longleftrightarrow> (case map_of (chunks_lineage s) i of None \<Rightarrow> False | Some l \<Rightarrow> manifest_descendant l)"

definition is_root_chunk :: "'z LineageDroppingCtx_scheme \<Rightarrow> ChunkId \<Rightarrow> bool" where
  "is_root_chunk s i \<longleftrightarrow> (case direct_lineage s i of
     None \<Rightarrow> True
   | Some (RootFromManifest _) \<Rightarrow> True
   | Some Volatile \<Rightarrow> True
   | Some _ \<Rightarrow> False)"

text \<open>
  The recursions over the lineage take a bound on their depth and are \<open>None\<close> when it is exceeded. As many levels as there are
  entries are enough for a lineage without cycles.
\<close>

fun collect_root_ids :: "nat \<Rightarrow> 'z LineageDroppingCtx_scheme \<Rightarrow> ChunkId \<Rightarrow> ChunkId list option" where
  "collect_root_ids 0 s i = None"
| "collect_root_ids (Suc n) s i =
     (case direct_lineage s i of
        Some (SplitFrom j _) \<Rightarrow> collect_root_ids n s j
      | Some (CompactedFrom js) \<Rightarrow> map_option concat (those (map (collect_root_ids n s) js))
      | Some _ \<Rightarrow> Some [i]
      | None \<Rightarrow> Some [])"

definition find_root_chunks :: "'z LineageDroppingCtx_scheme \<Rightarrow> ChunkId \<Rightarrow> ChunkId list option" where
  "find_root_chunks s i = collect_root_ids (Suc (length (chunks_lineage s))) s i"

fun collect_root_manifest_chunks :: "nat \<Rightarrow> 'z LineageDroppingCtx_scheme \<Rightarrow> ChunkId \<Rightarrow> ChunkId list option" where
  "collect_root_manifest_chunks 0 s i = None"
| "collect_root_manifest_chunks (Suc n) s i =
     (case direct_lineage s i of
        Some (SplitFrom j _) \<Rightarrow> collect_root_manifest_chunks n s j
      | Some (CompactedFrom js) \<Rightarrow> map_option concat (those (map (collect_root_manifest_chunks n s) js))
      | Some (RootFromManifest _) \<Rightarrow> Some [i]
      | _ \<Rightarrow> Some [])"

definition find_root_manifest_chunks :: "'z LineageDroppingCtx_scheme \<Rightarrow> ChunkId \<Rightarrow> ChunkId list option" where
  "find_root_manifest_chunks s i = collect_root_manifest_chunks (Suc (length (chunks_lineage s))) s i"

text \<open>
  With debug assertions the whole tree is searched, and a split under a compaction is a panic; without them only the chunk's own entry is
  read. The loop over the parents stops at the first that descends from a split.
\<close>

fun any_until :: "('e \<Rightarrow> bool option) \<Rightarrow> 'e list \<Rightarrow> bool option" where
  "any_until f [] = Some False"
| "any_until f (x # xs) = do { b \<leftarrow> f x; if b then Some True else any_until f xs }"

fun split_recurse :: "nat \<Rightarrow> 'z LineageDroppingCtx_scheme \<Rightarrow> ChunkId \<Rightarrow> bool \<Rightarrow> bool option" where
  "split_recurse 0 s i compaction_found = None"
| "split_recurse (Suc n) s i compaction_found =
     (case direct_lineage s i of
        Some (SplitFrom _ _) \<Rightarrow> if compaction_found then None else Some True
      | Some (CompactedFrom js) \<Rightarrow> any_until (\<lambda>j. split_recurse n s j True) js
      | _ \<Rightarrow> Some False)"

definition descends_from_a_split :: "bool \<Rightarrow> 'z LineageDroppingCtx_scheme \<Rightarrow> ChunkId \<Rightarrow> bool option" where
  "descends_from_a_split debug s i =
     (if debug then split_recurse (Suc (length (chunks_lineage s))) s i False
      else Some (case direct_lineage s i of Some (SplitFrom _ _) \<Rightarrow> True | _ \<Rightarrow> False))"

fun compaction_recurse :: "nat \<Rightarrow> bool \<Rightarrow> 'z LineageDroppingCtx_scheme \<Rightarrow> ChunkId \<Rightarrow> bool \<Rightarrow> bool option" where
  "compaction_recurse 0 debug s i split_found = None"
| "compaction_recurse (Suc n) debug s i split_found =
     (case direct_lineage s i of
        Some (SplitFrom j _) \<Rightarrow> compaction_recurse n debug s j True
      | Some (CompactedFrom _) \<Rightarrow> if debug \<and> split_found then None else Some True
      | _ \<Rightarrow> Some False)"

definition descends_from_a_compaction :: "bool \<Rightarrow> 'z LineageDroppingCtx_scheme \<Rightarrow> ChunkId \<Rightarrow> bool option" where
  "descends_from_a_compaction debug s i = compaction_recurse (Suc (length (chunks_lineage s))) debug s i False"

section \<open>Updates\<close>

text \<open>\<open>get_mut\<close>: the entry is changed when there is one.\<close>

definition modify_lineage ::
  "ChunkId \<Rightarrow> (TrackedDirectChunkLineage \<Rightarrow> TrackedDirectChunkLineage) \<Rightarrow> 'z LineageDroppingCtx_scheme \<Rightarrow> 'z LineageDroppingCtx_scheme" where
  "modify_lineage i f s =
     (case map_of (chunks_lineage s) i of
        None \<Rightarrow> s
      | Some l \<Rightarrow> s\<lparr>chunks_lineage := AList.update i (f l) (chunks_lineage s)\<rparr>)"

definition add_ref :: "TrackedDirectChunkLineage \<Rightarrow> TrackedDirectChunkLineage" where
  "add_ref l = l\<lparr>ref_count := ref_count l + 1\<rparr>"

definition sub_ref :: "TrackedDirectChunkLineage \<Rightarrow> TrackedDirectChunkLineage" where
  "sub_ref l = l\<lparr>ref_count := (if ref_count l = 0 then 0 else ref_count l - 1)\<rparr>"

text \<open>
  The result is \<open>None\<close> when a debug assertion fails: the entry exists with another lineage, other than a manifest entry that would become volatile.
\<close>

definition insert_lineage_if_missing ::
  "bool \<Rightarrow> ChunkId \<Rightarrow> 'a ChunkDirectLineageReport \<Rightarrow> 'z LineageDroppingCtx_scheme \<Rightarrow> 'z LineageDroppingCtx_scheme option" where
  "insert_lineage_if_missing debug i report s =
     (let lineage' = lineage_of_report report;
          from_manifest = (case lineage' of
             SplitFrom j _ \<Rightarrow> descends_from_manifest s j
           | CompactedFrom js \<Rightarrow> list_ex (descends_from_manifest s) js
           | RootFromManifest _ \<Rightarrow> True
           | Volatile \<Rightarrow> False)
      in case map_of (chunks_lineage s) i of
           None \<Rightarrow>
             Some (fold (\<lambda>j. modify_lineage j add_ref) (iter_referenced_chunks lineage')
               (s\<lparr>chunks_lineage := AList.update i
                  \<lparr>lineage = lineage', ref_count = 0, manifest_descendant = from_manifest\<rparr> (chunks_lineage s)\<rparr>))
         | Some l \<Rightarrow>
             if debug \<and> \<not> ((\<exists>b \<in> {True, False}. lineage l = RootFromManifest b) \<and> lineage' = Volatile) \<and> lineage l \<noteq> lineage'
             then None else Some s)"

text \<open>The work list of the loop; its head is the end of the vector.\<close>

datatype Op = DropRef ChunkId | Remove ChunkId

lemma length_update_present:
  "map_of al i \<noteq> None \<Longrightarrow> length (AList.update i v al) = length al"
proof (induction al)
  case (Cons x al)
  then show ?case by (cases x) (auto split: if_splits)
qed simp

lemma length_delete_present: "map_of al i \<noteq> None \<Longrightarrow> length (AList.delete i al) < length al"
  unfolding AList.delete_eq by (rule length_filter_less [of "(i, the (map_of al i))"]) (auto dest: map_of_SomeD)

definition drop_refs :: "Op list \<Rightarrow> nat" where
  "drop_refs ops = length (filter (\<lambda>op. case op of DropRef _ \<Rightarrow> True | Remove _ \<Rightarrow> False) ops)"

text \<open>One turn of the loop: what it pushes on the work list, and the new maps.\<close>

fun drop_step :: "Op \<Rightarrow> 'z LineageDroppingCtx_scheme \<Rightarrow> Op list \<times> 'z LineageDroppingCtx_scheme" where
  "drop_step (DropRef i) s =
     (case map_of (chunks_lineage s) i of
        None \<Rightarrow> ([], s)
      | Some l \<Rightarrow>
          let l = sub_ref l;
              s = s\<lparr>chunks_lineage := AList.update i l (chunks_lineage s)\<rparr>
          in if manifest_descendant l \<or> 0 < ref_count l then ([], s)
             else case lineage l of
                SplitFrom _ siblings \<Rightarrow>
                  if list_ex (\<lambda>j. case map_of (chunks_lineage s) j of None \<Rightarrow> False | Some l \<Rightarrow> 0 < ref_count l) siblings
                  then ([], s)
                  else (map Remove (i # rev siblings), s)
              | _ \<Rightarrow> ([Remove i], s))"
| "drop_step (Remove i) s =
     (case map_of (chunks_lineage s) i of
        None \<Rightarrow> ([], s)
      | Some l \<Rightarrow>
          (map DropRef (rev (iter_referenced_chunks (lineage l))),
           s\<lparr>chunks_lineage := AList.delete i (chunks_lineage s),
             leaky_compactions := AList.delete i (leaky_compactions s),
             split_on_ingest := removeAll i (split_on_ingest s),
             dangling_splits := AList.delete i (dangling_splits s)\<rparr>))"

lemma drop_refs_map [simp]:
  "drop_refs (map Remove is) = 0" "drop_refs (xs @ ys) = drop_refs xs + drop_refs ys"
  "drop_refs (DropRef i # ops) = Suc (drop_refs ops)" "drop_refs (Remove i # ops) = drop_refs ops" "drop_refs [] = 0"
  by (simp_all add: drop_refs_def filter_map comp_def)

lemma drop_step_decreases:
  assumes "drop_step op s = (new, s')"
  shows "length (chunks_lineage s') < length (chunks_lineage s) \<or> length (chunks_lineage s') = length (chunks_lineage s) \<and>
    (drop_refs (new @ ops) < drop_refs (op # ops) \<or> drop_refs (new @ ops) = drop_refs (op # ops) \<and> new = [])"
proof (cases op)
  case (DropRef i)
  then show ?thesis
    using assms by (cases "map_of (chunks_lineage s) i")
      (auto simp: Let_def length_update_present split: if_splits ChunkDirectLineage.splits)
next
  case (Remove i)
  then show ?thesis
    using assms by (cases "map_of (chunks_lineage s) i") (auto simp: length_delete_present)
qed

function drop_loop :: "Op list \<Rightarrow> 'z LineageDroppingCtx_scheme \<Rightarrow> 'z LineageDroppingCtx_scheme" where
  "drop_loop [] s = s"
| "drop_loop (op # ops) s = (case drop_step op s of (new, s') \<Rightarrow> drop_loop (new @ ops) s')"
  by pat_completeness auto
termination
proof (relation "measures [\<lambda>(ops, s). length (chunks_lineage s), \<lambda>(ops, s). drop_refs ops, \<lambda>(ops, s). length ops]", goal_cases)
  case (2 op ops s new s')
  then show ?case using drop_step_decreases [of op s new s' ops] by (auto dest: sym)
qed simp

definition drop_lineage_reference :: "ChunkId \<Rightarrow> 'z LineageDroppingCtx_scheme \<Rightarrow> 'z LineageDroppingCtx_scheme" where
  "drop_lineage_reference i s = drop_loop [DropRef i] s"

section \<open>Well-formed lineages\<close>

text \<open>Every entry refers to entries before it: ids are unique, no reference dangles and there is no cycle.\<close>

fun topo :: "ChunkId set \<Rightarrow> (ChunkId \<times> TrackedDirectChunkLineage) list \<Rightarrow> bool" where
  "topo seen [] \<longleftrightarrow> True"
| "topo seen ((i, l) # g) \<longleftrightarrow>
     i \<notin> seen \<and> set (iter_referenced_chunks (lineage l)) \<subseteq> seen \<and> topo (insert i seen) g"

definition refs_to :: "(ChunkId \<times> TrackedDirectChunkLineage) list \<Rightarrow> ChunkId \<Rightarrow> nat" where
  "refs_to g i = (\<Sum>(_, l) \<leftarrow> g. count_list (iter_referenced_chunks (lineage l)) i)"

text \<open>
  With \<open>P\<close> the chunks that are loaded and \<open>ops\<close> the work left: each count is the number of references, from loaded chunks, from
  other entries and from drops to come, and what is about to be removed has none.
\<close>

definition counts_ok :: "ChunkId set \<Rightarrow> Op list \<Rightarrow> 'z LineageDroppingCtx_scheme \<Rightarrow> bool" where
  "counts_ok P ops s \<longleftrightarrow> topo {} (chunks_lineage s) \<and>
     (\<forall>i l. map_of (chunks_lineage s) i = Some l \<longrightarrow>
        unat (ref_count l) = of_bool (i \<in> P) + refs_to (chunks_lineage s) i + count_list ops (DropRef i) \<and>
        (Remove i \<in> set ops \<longrightarrow> ref_count l = 0))"

lemma topo_fresh: "topo seen g \<Longrightarrow> (i, l) \<in> set g \<Longrightarrow> i \<notin> seen"
  by (induction seen g rule: topo.induct) auto

lemma topo_distinct: "topo seen g \<Longrightarrow> distinct (map fst g)"
  by (induction seen g rule: topo.induct) (auto dest: topo_fresh)

lemma topo_closed:
  "topo seen g \<Longrightarrow> (i, l) \<in> set g \<Longrightarrow> j \<in> set (iter_referenced_chunks (lineage l)) \<Longrightarrow> j \<in> seen \<or> j \<in> fst ` set g"
  by (induction seen g rule: topo.induct) auto

lemma topo_update:
  "map_of g i = Some l \<Longrightarrow> lineage l' = lineage l \<Longrightarrow> topo seen (AList.update i l' g) = topo seen g"
  by (induction seen g rule: topo.induct) (auto split: if_splits)

lemma topo_append:
  "topo seen (g @ [(i, l)]) \<longleftrightarrow> topo seen g \<and> i \<notin> seen \<union> fst ` set g \<and>
     set (iter_referenced_chunks (lineage l)) \<subseteq> seen \<union> fst ` set g"
  by (induction seen g rule: topo.induct) auto

lemma topo_delete:
  "topo seen g \<Longrightarrow> refs_to g i = 0 \<Longrightarrow> topo (seen - {i}) (AList.delete i g)"
proof (induction seen g rule: topo.induct)
  case (2 seen j l g)
  have "i \<notin> set (iter_referenced_chunks (lineage l))" and rest: "refs_to g i = 0"
    using "2.prems"(2) by (auto simp: refs_to_def count_list_0_iff)
  moreover have "topo (insert j seen - {i}) (AList.delete i g)" by (rule "2.IH") (use 2 rest in auto)
  ultimately show ?case using "2.prems"(1) by (cases "j = i") (auto simp: insert_Diff_if)
qed simp

lemma refs_to_simps [simp]:
  "refs_to [] i = 0"
  "refs_to ((j, l) # g) i = count_list (iter_referenced_chunks (lineage l)) i + refs_to g i"
  by (simp_all add: refs_to_def)

lemma refs_to_append [simp]: "refs_to (g @ h) i = refs_to g i + refs_to h i"
  by (simp add: refs_to_def)

lemma refs_to_update:
  "map_of g i = Some l \<Longrightarrow> lineage l' = lineage l \<Longrightarrow> refs_to (AList.update i l' g) j = refs_to g j"
  by (induction g) (auto split: if_splits)

lemma refs_to_absent: "topo seen g \<Longrightarrow> i \<notin> seen \<Longrightarrow> map_of g i = None \<Longrightarrow> refs_to g i = 0"
  by (induction seen g rule: topo.induct) (auto simp: count_list_0_iff split: if_splits)

lemma refs_to_delete:
  assumes "distinct (map fst g)" "map_of g i = Some l"
  shows "refs_to g j = refs_to (AList.delete i g) j + count_list (iter_referenced_chunks (lineage l)) j"
  using assms
proof (induction g)
  case (Cons x g)
  then show ?case by (cases x) (auto split: if_splits)
qed simp

lemma map_of_update [simp]: "map_of (AList.update i v al) j = (if j = i then Some v else map_of al j)"
  by (simp add: AList.update_conv')

lemma map_of_delete_if [simp]: "map_of (AList.delete i al) j = (if j = i then None else map_of al j)"
  by (simp add: AList.delete_conv')

lemma sub_ref_sel [simp]:
  "lineage (sub_ref l) = lineage l" "manifest_descendant (sub_ref l) = manifest_descendant l"
  "unat (ref_count (sub_ref l)) = unat (ref_count l) - 1"
  by (auto simp: sub_ref_def unat_minus_one)

lemma sub_ref_zero [simp]: "ref_count l = 0 \<Longrightarrow> ref_count (sub_ref l) = 0"
  by (simp add: sub_ref_def)

lemma count_list_map_DropRef [simp]:
  "count_list (map DropRef is) (DropRef i) = count_list is i"
  "count_list (map Remove is) (DropRef i) = 0"
  by (induction "is") auto

text \<open>How the steps of the loop keep the counts.\<close>

lemma counts_ok_skip:
  "counts_ok P (op # ops) s \<Longrightarrow> map_of (chunks_lineage s) i = None \<Longrightarrow> op = DropRef i \<or> op = Remove i \<Longrightarrow> counts_ok P ops s"
  by (auto simp: counts_ok_def)

lemma counts_ok_drop:
  assumes "counts_ok P (DropRef i # ops) s" "map_of (chunks_lineage s) i = Some l"
  shows "counts_ok P ops (s\<lparr>chunks_lineage := AList.update i (sub_ref l) (chunks_lineage s)\<rparr>)"
  using assms unfolding counts_ok_def
  by (auto simp: topo_update [OF assms(2)] refs_to_update [OF assms(2)] unat_eq_0)

lemma counts_ok_remove:
  assumes ok: "counts_ok P (Remove i # ops) s" and l: "map_of (chunks_lineage s) i = Some l"
  shows "counts_ok P (rev (map DropRef (iter_referenced_chunks (lineage l))) @ ops)
    (s\<lparr>chunks_lineage := AList.delete i (chunks_lineage s), leaky_compactions := x, split_on_ingest := y, dangling_splits := z\<rparr>)"
proof -
  have "ref_count l = 0" using ok l by (auto simp: counts_ok_def)
  then have "refs_to (chunks_lineage s) i = 0" using ok l by (fastforce simp: counts_ok_def)
  then have "topo {} (AList.delete i (chunks_lineage s))"
    using topo_delete [of "{}" "chunks_lineage s" i] ok by (simp add: counts_ok_def)
  moreover have "distinct (map fst (chunks_lineage s))" using ok by (auto simp: counts_ok_def dest: topo_distinct)
  ultimately show ?thesis
    using ok refs_to_delete [OF _ l] by (auto simp: counts_ok_def image_iff)
qed

lemma counts_ok_schedule:
  assumes ok: "counts_ok P ops s" and zero: "\<And>j l. j \<in> set js \<Longrightarrow> map_of (chunks_lineage s) j = Some l \<Longrightarrow> ref_count l = 0"
  shows "counts_ok P (map Remove js @ ops) s"
  using ok unfolding counts_ok_def by (auto dest: zero)

lemma drop_step_DropRef:
  assumes "map_of (chunks_lineage s) i = Some l" "drop_step (DropRef i) s = (new, s')"
  obtains js where "s' = s\<lparr>chunks_lineage := AList.update i (sub_ref l) (chunks_lineage s)\<rparr>" "new = map Remove js"
    "\<And>j k. j \<in> set js \<Longrightarrow> map_of (chunks_lineage s') j = Some k \<Longrightarrow> ref_count k = 0"
proof -
  let ?s = "s\<lparr>chunks_lineage := AList.update i (sub_ref l) (chunks_lineage s)\<rparr>"
  consider "new = []" "s' = ?s"
    | "ref_count (sub_ref l) = 0" "new = map Remove [i]" "s' = ?s"
    | siblings where "ref_count (sub_ref l) = 0" "new = map Remove (i # rev siblings)" "s' = ?s"
      "\<not> list_ex (\<lambda>j. case map_of (chunks_lineage ?s) j of None \<Rightarrow> False | Some l \<Rightarrow> 0 < ref_count l) siblings"
    using assms by (auto simp: Let_def word_gt_0 simp del: map_of_update split: if_splits ChunkDirectLineage.splits)
  then show thesis
  proof cases
    case 1
    then show thesis by (intro that [of "[]"]) simp_all
  next
    case 2
    then show thesis by (intro that [of "[i]"]) simp_all
  next
    case (3 siblings)
    then show thesis
      by (intro that [of "i # rev siblings"]) (auto simp: list_ex_iff word_gt_0 split: option.splits if_splits)
  qed
qed

lemma drop_step_counts:
  assumes "counts_ok P (op # ops) s" "drop_step op s = (new, s')"
  shows "counts_ok P (new @ ops) s'"
proof (cases op)
  case (DropRef i)
  show ?thesis
  proof (cases "map_of (chunks_lineage s) i")
    case None
    then show ?thesis using assms counts_ok_skip [OF assms(1) None] DropRef by simp
  next
    case (Some l)
    note step = assms(2) [unfolded DropRef]
    obtain js where js: "s' = s\<lparr>chunks_lineage := AList.update i (sub_ref l) (chunks_lineage s)\<rparr>" "new = map Remove js"
      "\<And>j k. j \<in> set js \<Longrightarrow> map_of (chunks_lineage s') j = Some k \<Longrightarrow> ref_count k = 0"
      using drop_step_DropRef [OF Some step] by blast
    have "counts_ok P ops s'"
      unfolding js(1) using counts_ok_drop [OF _ Some] assms(1) DropRef by simp
    then show ?thesis unfolding js(2) by (rule counts_ok_schedule) (rule js(3))
  qed
next
  case (Remove i)
  then show ?thesis
    using assms counts_ok_remove [of P i ops s] counts_ok_skip [OF assms(1), of i]
    by (cases "map_of (chunks_lineage s) i") (auto simp: rev_map)
qed

lemma drop_loop_counts: "counts_ok P ops s \<Longrightarrow> counts_ok P [] (drop_loop ops s)"
proof (induction ops s rule: drop_loop.induct)
  case (2 op ops s)
  obtain new s' where step: "drop_step op s = (new, s')" by (cases "drop_step op s")
  show ?case using "2.IH" [OF step [symmetric] drop_step_counts [OF "2.prems" step]] step by simp
qed simp

text \<open>
  What the loop may do to the maps: entries are only removed or their count lowered, and the other maps lose exactly the keys whose entries are removed.
\<close>

definition dropped :: "'z LineageDroppingCtx_scheme \<Rightarrow> 'z LineageDroppingCtx_scheme \<Rightarrow> ChunkId \<Rightarrow> bool" where
  "dropped s s' i \<longleftrightarrow> map_of (chunks_lineage s) i \<noteq> None \<and> map_of (chunks_lineage s') i = None"

definition shrinks :: "'z LineageDroppingCtx_scheme \<Rightarrow> 'z LineageDroppingCtx_scheme \<Rightarrow> bool" where
  "shrinks s s' \<longleftrightarrow>
     (\<forall>i l'. map_of (chunks_lineage s') i = Some l' \<longrightarrow>
        (\<exists>l. map_of (chunks_lineage s) i = Some l \<and> lineage l' = lineage l \<and> manifest_descendant l' = manifest_descendant l)) \<and>
     map_of (leaky_compactions s') = map_of (leaky_compactions s) |` (- Collect (dropped s s')) \<and>
     set (split_on_ingest s') = set (split_on_ingest s) - Collect (dropped s s') \<and>
     map_of (dangling_splits s') = map_of (dangling_splits s) |` (- Collect (dropped s s')) \<and>
     LineageDroppingCtx.more s' = LineageDroppingCtx.more s"

lemma shrinks_refl: "shrinks s s"
  by (auto simp: shrinks_def dropped_def restrict_map_def fun_eq_iff)

lemma shrinks_trans:
  assumes "shrinks s s'" "shrinks s' s''"
  shows "shrinks s s''"
proof -
  have old: "map_of (chunks_lineage s) i \<noteq> None" if "map_of (chunks_lineage s') i \<noteq> None" for i
    using assms(1) that by (fastforce simp: shrinks_def)
  have gone: "map_of (chunks_lineage s'') i = None" if "map_of (chunks_lineage s') i = None" for i
    using assms(2) that by (fastforce simp: shrinks_def)
  have "- Collect (dropped s s'') = - Collect (dropped s s') \<inter> - Collect (dropped s' s'')"
    using old gone by (auto simp: dropped_def) (metis option.distinct(1))
  moreover have "\<exists>l. map_of (chunks_lineage s) i = Some l \<and> lineage l' = lineage l \<and> manifest_descendant l' = manifest_descendant l"
    if "map_of (chunks_lineage s'') i = Some l'" for i l'
    using assms that unfolding shrinks_def by metis
  ultimately show ?thesis
    using assms unfolding shrinks_def by (auto simp: Diff_eq)
qed

lemma drop_step_shrinks:
  assumes "drop_step op s = (new, s')"
  shows "shrinks s s'"
proof (cases op)
  case (DropRef i)
  have "shrinks s (s\<lparr>chunks_lineage := AList.update i (sub_ref l) (chunks_lineage s)\<rparr>)" if "map_of (chunks_lineage s) i = Some l" for l
    using that by (auto simp: shrinks_def dropped_def restrict_map_def fun_eq_iff split: if_splits)
  then show ?thesis
    using assms DropRef by (auto simp: Let_def shrinks_refl split: if_splits ChunkDirectLineage.splits option.splits)
next
  case (Remove i)
  have "shrinks s (s\<lparr>chunks_lineage := AList.delete i (chunks_lineage s), leaky_compactions := AList.delete i (leaky_compactions s),
      split_on_ingest := removeAll i (split_on_ingest s), dangling_splits := AList.delete i (dangling_splits s)\<rparr>)"
    if "map_of (chunks_lineage s) i = Some l" for l
    using that by (auto simp: shrinks_def dropped_def restrict_map_def fun_eq_iff)
  then show ?thesis
    using assms Remove by (auto simp: shrinks_refl split: option.splits)
qed

lemma drop_loop_shrinks: "shrinks s (drop_loop ops s)"
proof (induction ops s rule: drop_loop.induct)
  case (2 op ops s)
  obtain new s' where step: "drop_step op s = (new, s')" by (cases "drop_step op s")
  show ?case using shrinks_trans [OF drop_step_shrinks [OF step] "2.IH" [OF step [symmetric]]] step by simp
qed (simp add: shrinks_refl)

lemma add_refs:
  "topo seen (chunks_lineage (fold (\<lambda>j. modify_lineage j add_ref) is s)) = topo seen (chunks_lineage s)" "refs_to (chunks_lineage (fold (\<lambda>j. modify_lineage j add_ref) is s)) = refs_to (chunks_lineage s)"
  "map_of (chunks_lineage (fold (\<lambda>j. modify_lineage j add_ref) is s)) i = map_option (\<lambda>l. l\<lparr>ref_count := ref_count l + word_of_nat (count_list is i)\<rparr>) (map_of (chunks_lineage s) i)"
  "(fold (\<lambda>j. modify_lineage j add_ref) is s)\<lparr>chunks_lineage := x\<rparr> = s\<lparr>chunks_lineage := x\<rparr>"
proof (induction "is" arbitrary: s)
  case (Cons j js)
  { case 1 show ?case using Cons(1) by (auto simp: modify_lineage_def add_ref_def topo_update split: option.splits) }
  { case 2 show ?case using Cons(2) by (auto simp: modify_lineage_def add_ref_def refs_to_update split: option.splits) }
  { case 3 show ?case using Cons(3) by (auto simp: modify_lineage_def add_ref_def split: option.splits) }
  { case 4 show ?case using Cons(4) by (auto simp: modify_lineage_def add_ref_def split: option.splits) }
qed (auto simp: option.map_ident)

lemma update_absent: "i \<notin> fst ` set al \<Longrightarrow> AList.update i v al = al @ [(i, v)]"
  by (induction al) auto

lemma unat_plus_of_nat: "unat w + n < 2 ^ 32 \<Longrightarrow> unat (w + word_of_nat n) = unat w + n" for w :: u32
  by (simp add: unat_word_ariths unat_of_nat)

lemma insert_lineage_counts:
  assumes ok: "counts_ok P [] s" and new: "map_of (chunks_lineage s) i = None" "i \<notin> P"
    and refs: "set (iter_referenced_chunks (lineage_of_report report)) \<subseteq> fst ` set (chunks_lineage s)"
    and room: "\<And>j l. map_of (chunks_lineage s) j = Some l \<Longrightarrow>
      unat (ref_count l) + count_list (iter_referenced_chunks (lineage_of_report report)) j < 2 ^ 32"
  shows "\<exists>s'. insert_lineage_if_missing debug i report s = Some s' \<and> counts_ok P [] s' \<and>
    direct_lineage s' = (direct_lineage s)(i \<mapsto> lineage_of_report report) \<and> s'\<lparr>chunks_lineage := []\<rparr> = s\<lparr>chunks_lineage := []\<rparr>"
proof -
  let ?refs = "iter_referenced_chunks (lineage_of_report report)"
  define b where "b = (case lineage_of_report report of SplitFrom j _ \<Rightarrow> descends_from_manifest s j
    | CompactedFrom js \<Rightarrow> list_ex (descends_from_manifest s) js | RootFromManifest _ \<Rightarrow> True | Volatile \<Rightarrow> False)"
  let ?l = "\<lparr>lineage = lineage_of_report report, ref_count = 0, manifest_descendant = b\<rparr>"
  let ?s = "s\<lparr>chunks_lineage := AList.update i ?l (chunks_lineage s)\<rparr>"
  have "insert_lineage_if_missing debug i report s = Some (fold (\<lambda>j. modify_lineage j add_ref) ?refs ?s)"
    using new(1) by (simp add: insert_lineage_if_missing_def Let_def b_def)
  moreover
  have i: "i \<notin> fst ` set (chunks_lineage s)" using new(1) by (simp add: map_of_eq_None_iff)
  have app: "AList.update i ?l (chunks_lineage s) = chunks_lineage s @ [(i, ?l)]"
    using i by (rule update_absent)
  have topo: "topo {} (chunks_lineage s)" using ok by (simp add: counts_ok_def)
  have none: "refs_to (chunks_lineage s) i = 0" using refs_to_absent [OF topo _ new(1)] by simp
  have "i \<notin> set ?refs" using refs i by blast
  then have "count_list ?refs i = 0" by simp
  then have "unat (ref_count l) = of_bool (j \<in> P) + (refs_to (chunks_lineage s) j + count_list ?refs j)"
    if "map_of (chunks_lineage (fold (\<lambda>j. modify_lineage j add_ref) ?refs ?s)) j = Some l" for j l
    using that ok new(2) none room [of j]
    by (cases "j = i") (auto simp: add_refs counts_ok_def unat_plus_of_nat)
  then have "counts_ok P [] (fold (\<lambda>j. modify_lineage j add_ref) ?refs ?s)"
    using refs i topo by (auto simp: counts_ok_def add_refs(1,2) app topo_append simp del: add_refs(3))
  moreover have "direct_lineage (fold (\<lambda>j. modify_lineage j add_ref) ?refs ?s) = (direct_lineage s)(i \<mapsto> lineage_of_report report)"
    by (auto simp: direct_lineage_def add_refs fun_eq_iff option.map_comp comp_def)
  moreover have "(fold (\<lambda>j. modify_lineage j add_ref) ?refs ?s)\<lparr>chunks_lineage := []\<rparr> = s\<lparr>chunks_lineage := []\<rparr>"
    by (simp add: add_refs)
  ultimately show ?thesis by blast
qed

lemma load_counts:
  assumes "counts_ok P [] s" "map_of (chunks_lineage s) i = Some l" "i \<notin> P" "unat (ref_count l) + 1 < 2 ^ 32"
  shows "counts_ok (insert i P) [] (modify_lineage i add_ref s)"
  using assms by (auto simp: counts_ok_def modify_lineage_def add_ref_def topo_update refs_to_update unat_word_ariths)

lemma unload_counts:
  "counts_ok P [] s \<Longrightarrow> i \<in> P \<Longrightarrow> counts_ok (P - {i}) [DropRef i] s"
  by (auto simp: counts_ok_def)

lemma drop_step_keeps:
  assumes "counts_ok P (op # ops) s" "drop_step op s = (new, s')" "i \<in> P" "map_of (chunks_lineage s) i \<noteq> None"
  shows "map_of (chunks_lineage s') i \<noteq> None"
proof (cases op)
  case (DropRef j)
  then show ?thesis
    using assms(2,4) by (auto simp: Let_def split: option.splits if_splits ChunkDirectLineage.splits)
next
  case (Remove j)
  have "i \<noteq> j" using assms(1,3,4) Remove by (fastforce simp: counts_ok_def)
  then show ?thesis using assms(2,4) Remove by (auto split: option.splits)
qed

lemma drop_loop_keeps:
  "counts_ok P ops s \<Longrightarrow> i \<in> P \<Longrightarrow> map_of (chunks_lineage s) i \<noteq> None \<Longrightarrow> map_of (chunks_lineage (drop_loop ops s)) i \<noteq> None"
proof (induction ops s rule: drop_loop.induct)
  case (2 op ops s)
  obtain new s' where step: "drop_step op s = (new, s')" by (cases "drop_step op s")
  show ?case
    using "2.IH" [OF step [symmetric] drop_step_counts [OF "2.prems"(1) step] "2.prems"(2) drop_step_keeps [OF "2.prems"(1) step "2.prems"(2,3)]]
      step by simp
qed simp

text \<open>The loop leaves no entry that nothing refers to, other than the ones the code keeps on purpose and those that were there before.\<close>

definition settled :: "'z LineageDroppingCtx_scheme \<Rightarrow> Op list \<Rightarrow> 'z LineageDroppingCtx_scheme \<Rightarrow> bool" where
  "settled s0 ops s \<longleftrightarrow>
     (\<forall>j l. map_of (chunks_lineage s) j = Some l \<and> ref_count l = 0 \<and> \<not> manifest_descendant l \<and> (\<forall>k ks. lineage l \<noteq> SplitFrom k ks) \<longrightarrow>
        Remove j \<in> set ops \<or> (\<exists>l0. map_of (chunks_lineage s0) j = Some l0 \<and> ref_count l0 = 0))"

lemma drop_step_settled:
  assumes "settled s0 (op # ops) s" "drop_step op s = (new, s')"
  shows "settled s0 (new @ ops) s'"
proof (cases op)
  case (DropRef i)
  have old: "Remove j \<in> set ops \<or> (\<exists>l0. map_of (chunks_lineage s0) j = Some l0 \<and> ref_count l0 = 0)"
    if "map_of (chunks_lineage s) j = Some l" "ref_count l = 0" "\<not> manifest_descendant l" "\<forall>k ks. lineage l \<noteq> SplitFrom k ks" for j l
    using assms(1) that by (auto simp: settled_def DropRef)
  show ?thesis
  proof (cases "map_of (chunks_lineage s) i")
    case None
    then show ?thesis using assms DropRef by (simp add: settled_def)
  next
    case (Some l)
    obtain js where s': "s' = s\<lparr>chunks_lineage := AList.update i (sub_ref l) (chunks_lineage s)\<rparr>"
      by (rule drop_step_DropRef [OF Some assms(2) [unfolded DropRef]])
    have "Remove i \<in> set new" if "ref_count (sub_ref l) = 0" "\<not> manifest_descendant l" "\<forall>k ks. lineage l \<noteq> SplitFrom k ks"
      using assms(2) that Some unfolding DropRef by (cases "lineage l") (auto simp: Let_def)
    then show ?thesis using old unfolding settled_def s' by (auto split: if_splits)
  qed
next
  case (Remove i)
  have old: "Remove j \<in> set ops \<or> (\<exists>l0. map_of (chunks_lineage s0) j = Some l0 \<and> ref_count l0 = 0)"
    if "map_of (chunks_lineage s) j = Some l" "ref_count l = 0" "\<not> manifest_descendant l" "\<forall>k ks. lineage l \<noteq> SplitFrom k ks" "j \<noteq> i" for j l
    using assms(1) that by (auto simp: settled_def Remove)
  have "set ops \<subseteq> set (new @ ops)" by simp
  moreover have "map_of (chunks_lineage s') j = Some l \<Longrightarrow> map_of (chunks_lineage s) j = Some l \<and> (j \<noteq> i)" for j l
    using assms(2) Remove by (cases "map_of (chunks_lineage s) i") (auto split: if_splits)
  ultimately show ?thesis using old unfolding settled_def by blast
qed

lemma drop_loop_settled: "settled s0 ops s \<Longrightarrow> settled s0 [] (drop_loop ops s)"
proof (induction ops s rule: drop_loop.induct)
  case (2 op ops s)
  obtain new s' where step: "drop_step op s = (new, s')" by (cases "drop_step op s")
  show ?case using "2.IH" [OF step [symmetric] drop_step_settled [OF "2.prems" step]] step by simp
qed simp

lemma drop_leaves_referenced:
  assumes "counts_ok P [] s" "i \<in> P" "map_of (chunks_lineage (drop_lineage_reference i s)) j = Some l'" "ref_count l' = 0"
    "\<not> manifest_descendant l'" "\<forall>k ks. lineage l' \<noteq> SplitFrom k ks"
  shows "\<exists>l. map_of (chunks_lineage s) j = Some l \<and> ref_count l = 0"
proof -
  have "settled s [DropRef i] s" by (auto simp: settled_def)
  from drop_loop_settled [OF this] show ?thesis using assms(3-) by (auto simp: settled_def drop_lineage_reference_def)
qed

text \<open>
  C37. Reference counting of the lineage. Let every count be the number of loaded chunks and of other entries that refer to the entry, and every entry
  refer to earlier ones only. Recording a new chunk whose sources are known, loading a chunk and dropping a loaded
  chunk keep it so (counts that would pass the width of the counter aside). The loop that drops a chunk
  ends, removes no entry of a chunk that is still loaded nor anything such an entry is derived from, changes nothing else about the entries it keeps,
  removes the same keys from the three other maps, and reclaims the entry of a chunk that nothing else refers to.
  It leaves no entry that nothing refers to any more unless nothing referred to it before the drop either: the entries the code keeps on purpose are the exceptions,
  namely the descendants of the manifest and the chunks split from another one (they wait for their siblings).
\<close>

theorem reference_counts_exact:
  assumes ok: "counts_ok P [] s"
  shows "(map_of (chunks_lineage s) i = None \<and> i \<notin> P
      \<and> set (iter_referenced_chunks (lineage_of_report report)) \<subseteq> fst ` set (chunks_lineage s)
      \<and> (\<forall>j l. map_of (chunks_lineage s) j = Some l \<longrightarrow> unat (ref_count l) + count_list (iter_referenced_chunks (lineage_of_report report)) j < 2 ^ 32)
      \<longrightarrow> (\<exists>s'. insert_lineage_if_missing debug i report s = Some s' \<and> counts_ok P [] s' \<and>
            direct_lineage s' = (direct_lineage s)(i \<mapsto> lineage_of_report report)))
    \<and> (\<forall>l. map_of (chunks_lineage s) i = Some l \<and> i \<notin> P \<and> unat (ref_count l) + 1 < 2 ^ 32
      \<longrightarrow> counts_ok (insert i P) [] (modify_lineage i add_ref s))
    \<and> (i \<in> P \<longrightarrow> (let s' = drop_lineage_reference i s in
         counts_ok (P - {i}) [] s' \<and> shrinks s s'
         \<and> (\<forall>j \<in> P - {i}. map_of (chunks_lineage s) j \<noteq> None \<longrightarrow> map_of (chunks_lineage s') j \<noteq> None)
         \<and> (\<forall>l. map_of (chunks_lineage s) i = Some l \<and> refs_to (chunks_lineage s) i = 0 \<and> \<not> manifest_descendant l
              \<and> (\<forall>j js. lineage l \<noteq> SplitFrom j js) \<longrightarrow> map_of (chunks_lineage s') i = None)
         \<and> (\<forall>j l'. map_of (chunks_lineage s') j = Some l' \<and> ref_count l' = 0 \<and> \<not> manifest_descendant l'
              \<and> (\<forall>k ks. lineage l' \<noteq> SplitFrom k ks) \<longrightarrow> (\<exists>l. map_of (chunks_lineage s) j = Some l \<and> ref_count l = 0))))"
proof (intro conjI allI impI)
  assume new: "map_of (chunks_lineage s) i = None \<and> i \<notin> P
      \<and> set (iter_referenced_chunks (lineage_of_report report)) \<subseteq> fst ` set (chunks_lineage s)
      \<and> (\<forall>j l. map_of (chunks_lineage s) j = Some l \<longrightarrow> unat (ref_count l) + count_list (iter_referenced_chunks (lineage_of_report report)) j < 2 ^ 32)"
  then show "\<exists>s'. insert_lineage_if_missing debug i report s = Some s' \<and> counts_ok P [] s' \<and>
            direct_lineage s' = (direct_lineage s)(i \<mapsto> lineage_of_report report)"
    using insert_lineage_counts [OF ok, of i report debug] by blast
next
  fix l assume "map_of (chunks_lineage s) i = Some l \<and> i \<notin> P \<and> unat (ref_count l) + 1 < 2 ^ 32"
  then show "counts_ok (insert i P) [] (modify_lineage i add_ref s)" using load_counts [OF ok] by blast
next
  assume i: "i \<in> P"
  let ?s = "drop_lineage_reference i s"
  have start: "counts_ok (P - {i}) [DropRef i] s" by (rule unload_counts [OF ok i])
  have "map_of (chunks_lineage ?s) i = None"
    if l: "map_of (chunks_lineage s) i = Some l" "refs_to (chunks_lineage s) i = 0" "\<not> manifest_descendant l"
      "\<forall>j js. lineage l \<noteq> SplitFrom j js" for l
  proof -
    have "unat (ref_count (sub_ref l)) = 0" using ok l i by (simp add: counts_ok_def)
    then have "ref_count (sub_ref l) = 0" using unat_eq_0 by blast
    then obtain t where t: "drop_loop [DropRef i] s = drop_loop (map DropRef (rev (iter_referenced_chunks (lineage l)))) t"
        "map_of (chunks_lineage t) i = None"
      using l by (cases "lineage l") (auto simp: Let_def)
    then show ?thesis
      using drop_loop_shrinks [of t "map DropRef (rev (iter_referenced_chunks (lineage l)))"]
      by (fastforce simp: drop_lineage_reference_def shrinks_def)
  qed
  moreover have "\<forall>j l'. map_of (chunks_lineage ?s) j = Some l' \<and> ref_count l' = 0 \<and> \<not> manifest_descendant l'
              \<and> (\<forall>k ks. lineage l' \<noteq> SplitFrom k ks) \<longrightarrow> (\<exists>l. map_of (chunks_lineage s) j = Some l \<and> ref_count l = 0)"
    using drop_leaves_referenced [OF ok i] by blast
  moreover have "counts_ok (P - {i}) [] ?s" "shrinks s ?s"
    "\<forall>j \<in> P - {i}. map_of (chunks_lineage s) j \<noteq> None \<longrightarrow> map_of (chunks_lineage ?s) j \<noteq> None"
    using drop_loop_counts [OF start] drop_loop_keeps [OF start] drop_loop_shrinks [of s "[DropRef i]"]
    by (auto simp: drop_lineage_reference_def)
  ultimately show "let s' = ?s in counts_ok (P - {i}) [] s' \<and> shrinks s s'
         \<and> (\<forall>j \<in> P - {i}. map_of (chunks_lineage s) j \<noteq> None \<longrightarrow> map_of (chunks_lineage s') j \<noteq> None)
         \<and> (\<forall>l. map_of (chunks_lineage s) i = Some l \<and> refs_to (chunks_lineage s) i = 0 \<and> \<not> manifest_descendant l
              \<and> (\<forall>j js. lineage l \<noteq> SplitFrom j js) \<longrightarrow> map_of (chunks_lineage s') i = None)
         \<and> (\<forall>j l'. map_of (chunks_lineage s') j = Some l' \<and> ref_count l' = 0 \<and> \<not> manifest_descendant l'
              \<and> (\<forall>k ks. lineage l' \<noteq> SplitFrom k ks) \<longrightarrow> (\<exists>l. map_of (chunks_lineage s) j = Some l \<and> ref_count l = 0))"
    unfolding Let_def by blast
qed

text \<open>Two chunks compacted into a third: unloading it reclaims all three.\<close>

definition demo_lineage :: LineageDroppingCtx where
  "demo_lineage = \<lparr>chunks_lineage =
      [(demo_id 1, \<lparr>lineage = Volatile, ref_count = 1, manifest_descendant = False\<rparr>),
       (demo_id 2, \<lparr>lineage = Volatile, ref_count = 1, manifest_descendant = False\<rparr>),
       (demo_id 3, \<lparr>lineage = CompactedFrom [demo_id 1, demo_id 2], ref_count = 1, manifest_descendant = False\<rparr>)],
    leaky_compactions = [(demo_id 1, demo_id 3), (demo_id 2, demo_id 3)], split_on_ingest = [], dangling_splits = []\<rparr>"

theorem reference_counts_exact_witness:
  "counts_ok {} [] (drop_lineage_reference (demo_id 3) demo_lineage)
    \<and> map_of (chunks_lineage (drop_lineage_reference (demo_id 3) demo_lineage)) (demo_id 3) = None
    \<and> chunks_lineage (drop_lineage_reference (demo_id 3) demo_lineage) = []"
proof -
  have ids: "demo_id 1 \<noteq> demo_id 2" "demo_id 1 \<noteq> demo_id 3" "demo_id 2 \<noteq> demo_id 3" by (simp_all add: demo_id_def)
  have ok: "counts_ok {demo_id 3} [] demo_lineage"
    using ids by (auto simp: counts_ok_def demo_lineage_def split: if_splits)
  have "chunks_lineage (drop_lineage_reference (demo_id 3) demo_lineage) = []" by code_simp
  then show ?thesis
    using reference_counts_exact [OF ok, of "demo_id 3"] by (auto simp: Let_def)
qed

section \<open>Searching the lineage\<close>

inductive derives :: "'z LineageDroppingCtx_scheme \<Rightarrow> ChunkId \<Rightarrow> ChunkId \<Rightarrow> bool" for s where
  derives_refl: "derives s i i"
| derives_step: "direct_lineage s i = Some l \<Longrightarrow> j \<in> set (iter_referenced_chunks l) \<Longrightarrow> derives s j k \<Longrightarrow> derives s i k"

inductive_cases derives_cases: "derives s i k"

lemma derives_unfold:
  "derives s i k \<longleftrightarrow> i = k \<or> (\<exists>l j. direct_lineage s i = Some l \<and> j \<in> set (iter_referenced_chunks l) \<and> derives s j k)"
  by (auto intro: derives.intros elim: derives_cases)

definition depth :: "'z LineageDroppingCtx_scheme \<Rightarrow> ChunkId \<Rightarrow> nat" where
  "depth s i = length (takeWhile (\<lambda>(j, _). j \<noteq> i) (chunks_lineage s))"

lemma depth_bound: "depth s i \<le> length (chunks_lineage s)"
  by (simp add: depth_def length_takeWhile_le)

lemma depth_less:
  assumes "topo {} (chunks_lineage s)" "direct_lineage s i = Some l" "j \<in> set (iter_referenced_chunks l)"
  shows "depth s j < depth s i"
proof -
  have "topo seen g \<Longrightarrow> map_of g i = Some l' \<Longrightarrow> j \<in> set (iter_referenced_chunks (lineage l')) \<Longrightarrow>
      j \<in> seen \<or> length (takeWhile (\<lambda>(k, _). k \<noteq> j) g) < length (takeWhile (\<lambda>(k, _). k \<noteq> i) g)" for seen g l'
    by (induction seen g rule: topo.induct) (auto split: if_splits)
  from this [of "{}" "chunks_lineage s"] show ?thesis
    using assms by (auto simp: direct_lineage_def depth_def)
qed

definition is_origin :: "'z LineageDroppingCtx_scheme \<Rightarrow> ChunkId \<Rightarrow> bool" where
  "is_origin s i \<longleftrightarrow> direct_lineage s i \<in> {Some Volatile, Some (RootFromManifest True), Some (RootFromManifest False)}"

lemma those_all_Some: "(\<And>x. x \<in> set xs \<Longrightarrow> f x \<noteq> None) \<Longrightarrow> those (map f xs) = Some (map (the \<circ> f) xs)"
proof (induction xs)
  case (Cons x xs)
  from Cons.prems [of x] obtain y where "f x = Some y" by auto
  with Cons show ?case by simp
qed simp

lemma collect_root_ids_exact:
  assumes "topo {} (chunks_lineage s)"
  shows "depth s i < n \<Longrightarrow> \<exists>roots. collect_root_ids n s i = Some roots \<and> set roots = {r. derives s i r \<and> is_origin s r}"
proof (induction n arbitrary: i)
  case (Suc n)
  have IH: "\<exists>roots. collect_root_ids n s j = Some roots \<and> set roots = {r. derives s j r \<and> is_origin s r}"
    if "direct_lineage s i = Some l" "j \<in> set (iter_referenced_chunks l)" for l j
    by (rule Suc.IH) (use depth_less [OF assms that] Suc.prems in linarith)
  have origins: "{r. derives s i r \<and> is_origin s r} = (if is_origin s i then {i} else {}) \<union>
      (case direct_lineage s i of None \<Rightarrow> {} | Some l \<Rightarrow> \<Union>j \<in> set (iter_referenced_chunks l). {r. derives s j r \<and> is_origin s r})"
    by (subst derives_unfold) (auto split: option.splits)
  show ?case
  proof (cases "direct_lineage s i")
    case None
    then show ?thesis unfolding origins by (auto simp: is_origin_def)
  next
    case (Some l)
    show ?thesis
    proof (cases l)
      case (SplitFrom j js)
      then show ?thesis using IH [OF Some, of j] Some unfolding origins by (auto simp: is_origin_def)
    next
      case (CompactedFrom js)
      have some: "collect_root_ids n s j \<noteq> None" and
        sets: "set (the (collect_root_ids n s j)) = {r. derives s j r \<and> is_origin s r}" if "j \<in> set js" for j
        using IH [OF Some, of j] by (simp_all add: CompactedFrom that) (elim exE conjE, simp)+
      have "set (concat (map (the \<circ> collect_root_ids n s) js)) = (\<Union>j \<in> set js. {r. derives s j r \<and> is_origin s r})"
        using sets by auto
      then show ?thesis
        using those_all_Some [of js "collect_root_ids n s", OF some] Some CompactedFrom unfolding origins
        by (simp add: is_origin_def)
    next
      case (RootFromManifest b)
      then show ?thesis using Some unfolding origins by (cases b) (simp_all add: is_origin_def)
    next
      case Volatile
      then show ?thesis using Some unfolding origins by (simp add: is_origin_def)
    qed
  qed
qed simp

lemma collect_root_manifest_chunks_filter:
  "collect_root_manifest_chunks n s i =
     map_option (filter (\<lambda>r. \<exists>b. direct_lineage s r = Some (RootFromManifest b))) (collect_root_ids n s i)"
proof (induction n arbitrary: i)
  case (Suc n)
  have "those (map (\<lambda>j. map_option P (f j)) js) = map_option (map P) (those (map f js))"
    for P :: "ChunkId list \<Rightarrow> ChunkId list" and f :: "ChunkId \<Rightarrow> ChunkId list option" and js
    by (induction js) (auto simp: option.map_comp comp_def split: option.splits)
  moreover have "collect_root_manifest_chunks n s = (\<lambda>j. map_option
      (filter (\<lambda>r. \<exists>b. direct_lineage s r = Some (RootFromManifest b))) (collect_root_ids n s j))"
    using Suc.IH by blast
  ultimately show ?case
    by (auto simp: option.map_comp comp_def filter_concat split: option.splits ChunkDirectLineage.splits)
qed simp

text \<open>
  C38. The searches for the origins of a chunk. On a lineage without cycles they return, within as many levels as there are entries, and
  find exactly the ids that the chunk is derived from, through any number of splits and compactions, and
  that come from memory or from a manifest; the search for manifest roots keeps those of a manifest. A chunk
  counts as a root exactly when it is unknown or its own only origin.
\<close>

theorem root_searches_exact:
  assumes "topo {} (chunks_lineage s)"
  shows "(\<exists>roots. find_root_chunks s i = Some roots \<and> set roots = {r. derives s i r \<and> is_origin s r})
    \<and> (\<exists>roots. find_root_manifest_chunks s i = Some roots \<and>
          set roots = {r. derives s i r \<and> (\<exists>b. direct_lineage s r = Some (RootFromManifest b))})
    \<and> (is_root_chunk s i \<longleftrightarrow> direct_lineage s i = None \<or> find_root_chunks s i = Some [i] \<and> is_origin s i)"
proof -
  have "depth s i < Suc (length (chunks_lineage s))" using depth_bound [of s i] by simp
  then obtain roots where roots: "find_root_chunks s i = Some roots" "set roots = {r. derives s i r \<and> is_origin s r}"
    using collect_root_ids_exact [OF assms] unfolding find_root_chunks_def by blast
  have bool: "is_origin s r" if "direct_lineage s r = Some (RootFromManifest b)" for r b
    using that by (cases b) (auto simp: is_origin_def)
  have "find_root_manifest_chunks s i = Some (filter (\<lambda>r. \<exists>b. direct_lineage s r = Some (RootFromManifest b)) roots)"
    using roots(1) by (simp add: find_root_manifest_chunks_def find_root_chunks_def collect_root_manifest_chunks_filter)
  moreover have "is_root_chunk s i \<longleftrightarrow> direct_lineage s i = None \<or> find_root_chunks s i = Some [i] \<and> is_origin s i"
    by (auto simp: is_root_chunk_def find_root_chunks_def is_origin_def split: option.splits ChunkDirectLineage.splits)
  ultimately show ?thesis using roots bool by auto
qed

theorem root_searches_exact_witness:
  "find_root_chunks demo_lineage (demo_id 3) = Some [demo_id 1, demo_id 2]
    \<and> find_root_manifest_chunks demo_lineage (demo_id 3) = Some [] \<and> \<not> is_root_chunk demo_lineage (demo_id 3)
    \<and> {demo_id 1, demo_id 2} = {r. derives demo_lineage (demo_id 3) r \<and> is_origin demo_lineage r}"
proof -
  have ok: "topo {} (chunks_lineage demo_lineage)" by (simp add: demo_lineage_def demo_id_def)
  have "find_root_chunks demo_lineage (demo_id 3) = Some [demo_id 1, demo_id 2]"
    "find_root_manifest_chunks demo_lineage (demo_id 3) = Some []" "\<not> is_root_chunk demo_lineage (demo_id 3)"
    by code_simp+
  then show ?thesis using root_searches_exact [OF ok, of "demo_id 3"] by auto
qed

text \<open>
  Without debug assertions only the entry of the chunk itself is inspected. That is right as long as no compaction has a split chunk among its sources,
  and then the search of the whole tree never panics.
\<close>

lemma any_until_False: "(\<And>x. x \<in> set xs \<Longrightarrow> f x = Some False) \<Longrightarrow> any_until f xs = Some False"
  by (induction xs) auto

lemma descends_from_a_split_debug:
  assumes topo: "topo {} (chunks_lineage s)"
    and unmixed: "\<And>i js j. direct_lineage s i = Some (CompactedFrom js) \<Longrightarrow> j \<in> set js \<Longrightarrow>
      (\<nexists>k ks. direct_lineage s j = Some (SplitFrom k ks))"
  shows "descends_from_a_split True s i = descends_from_a_split False s i"
proof -
  have below: "split_recurse n s i b = Some False"
    if "depth s i < n" "\<nexists>k ks. direct_lineage s i = Some (SplitFrom k ks)" for n i b
    using that
  proof (induction n arbitrary: i b)
    case (Suc n)
    have "any_until (\<lambda>j. split_recurse n s j True) js = Some False" if js: "direct_lineage s i = Some (CompactedFrom js)" for js
    proof (rule any_until_False)
      fix j assume j: "j \<in> set js"
      then have "depth s j < n" using depth_less [OF topo js] Suc.prems(1) by fastforce
      then show "split_recurse n s j True = Some False" by (rule Suc.IH) (rule unmixed [OF js j])
    qed
    then show ?case using Suc.prems(2) by (auto split: option.splits ChunkDirectLineage.splits)
  qed simp
  show ?thesis
  proof (cases "\<exists>k ks. direct_lineage s i = Some (SplitFrom k ks)")
    case False
    have "depth s i < Suc (length (chunks_lineage s))" using depth_bound [of s i] by simp
    from below [OF this False] False show ?thesis
      by (auto simp del: split_recurse.simps simp: descends_from_a_split_def split: option.splits ChunkDirectLineage.splits)
  qed (auto simp: descends_from_a_split_def)
qed

end
