(* ===== verification/Hash_Map.thy ===== *)
theory Hash_Map
  imports Entity_Path "HOL-Library.AList"
begin

text \<open>
  The maps of the store as association lists: hash maps keyed by strings or ids with \<^const>\<open>map_of\<close> and \<open>AList\<close>, hash maps
  keyed by entity paths, whose equality is that of their hashes, and ordered maps kept in key order. An insertion
  under a present key keeps the key and replaces the value.
\<close>

definition or_default :: "'v \<Rightarrow> 'v option \<Rightarrow> 'v" where
  "or_default d x = (case x of None \<Rightarrow> d | Some v \<Rightarrow> v)"

lemma or_default_simps [simp]: "or_default d None = d" "or_default d (Some v) = v"
  by (simp_all add: or_default_def)

section \<open>Maps keyed by entity paths\<close>

type_synonym 'v path_map = "(EntityPath \<times> 'v) list"

fun path_get :: "EntityPath \<Rightarrow> 'v path_map \<Rightarrow> 'v option" where
  "path_get p [] = None"
| "path_get p ((q, v) # m) = (if path_eq q p then Some v else path_get p m)"

fun path_put :: "EntityPath \<Rightarrow> 'v \<Rightarrow> 'v path_map \<Rightarrow> 'v path_map" where
  "path_put p v [] = [(p, v)]"
| "path_put p v ((q, w) # m) = (if path_eq q p then (q, v) # m else (q, w) # path_put p v m)"

definition path_remove :: "EntityPath \<Rightarrow> 'v path_map \<Rightarrow> 'v path_map" where
  "path_remove p m = filter (\<lambda>(q, _). \<not> path_eq q p) m"

lemma path_eq_refl [simp]: "path_eq p p"
  by (simp add: path_eq_def)

lemma path_eq_sym: "path_eq p q \<longleftrightarrow> path_eq q p"
  by (auto simp: path_eq_def)

lemma path_eq_trans: "path_eq p q \<Longrightarrow> path_eq q r \<Longrightarrow> path_eq p r"
  by (simp add: path_eq_def)

lemma path_get_cong: "path_eq p q \<Longrightarrow> path_get p m = path_get q m"
  by (induction m) (auto simp: path_eq_def)

lemma path_get_put: "path_get q (path_put p v m) = (if path_eq p q then Some v else path_get q m)"
  by (induction m) (auto simp: path_eq_def)

lemma path_get_remove: "path_get q (path_remove p m) = (if path_eq p q then None else path_get q m)"
  by (induction m) (auto simp: path_eq_def path_remove_def)

text \<open>No two keys are equal, so that the entries are exactly what lookups find.\<close>

definition path_keys :: "'v path_map \<Rightarrow> bool" where
  "path_keys m \<longleftrightarrow> distinct (map (ep_hash \<circ> fst) m)"

lemma path_get_set:
  assumes "path_keys m"
  shows "v \<in> snd ` set m \<longleftrightarrow> (\<exists>p. path_get p m = Some v)"
  using assms
proof (induction m)
  case (Cons qw m)
  obtain q w where qw: "qw = (q, w)" by (cases qw)
  have IH: "v \<in> snd ` set m \<longleftrightarrow> (\<exists>p. path_get p m = Some v)" using Cons by (simp add: path_keys_def)
  have none: "path_get p m = None" if "path_eq q p" for p
  proof -
    have "ep_hash q \<notin> (ep_hash \<circ> fst) ` set m" using Cons.prems by (simp add: path_keys_def qw)
    then show ?thesis using that by (induction m) (auto simp: path_eq_def)
  qed
  show ?case
    using none by (auto simp: qw IH intro: path_eq_refl) (metis option.distinct(1))+
qed simp

lemma path_keys_put [simp]: "path_keys m \<Longrightarrow> path_keys (path_put p v m)"
proof (induction m)
  case (Cons qw m)
  have "(ep_hash \<circ> fst) ` set (path_put p v m) \<subseteq> insert (ep_hash p) ((ep_hash \<circ> fst) ` set m)" for m :: "'a path_map"
    by (induction m) (force split: if_splits)+
  then show ?case using Cons by (cases qw) (force simp: path_keys_def path_eq_def)
qed (simp add: path_keys_def)

lemma path_keys_remove [simp]: "path_keys m \<Longrightarrow> path_keys (path_remove p m)"
  by (auto simp: path_keys_def path_remove_def distinct_map filter_map inj_on_def)

section \<open>Ordered maps\<close>

fun ordered_put :: "'k :: linorder \<Rightarrow> 'v \<Rightarrow> ('k \<times> 'v) list \<Rightarrow> ('k \<times> 'v) list" where
  "ordered_put k v [] = [(k, v)]"
| "ordered_put k v ((k', v') # m) =
     (if k < k' then (k, v) # (k', v') # m
      else if k = k' then (k, v) # m
      else (k', v') # ordered_put k v m)"

lemma map_of_ordered_put [simp]: "map_of (ordered_put k v m) = (map_of m)(k \<mapsto> v)"
  by (induction k v m rule: ordered_put.induct) (auto simp: fun_eq_iff)

lemma ordered_put_keys: "fst ` set (ordered_put k v m) = insert k (fst ` set m)"
  by (induction k v m rule: ordered_put.induct) auto

lemma ordered_put_sorted:
  "sorted_wrt (<) (map fst m) \<Longrightarrow> sorted_wrt (<) (map fst (ordered_put k v m))"
proof (induction k v m rule: ordered_put.induct)
  case (2 k v k' v' m)
  then have "\<forall>x \<in> fst ` set (ordered_put k v m). k' < x" if "\<not> k < k'" "k \<noteq> k'"
    using that unfolding ordered_put_keys by auto
  then show ?case using 2 by (auto intro: less_trans)
qed simp

lemma delete_sorted: "sorted_wrt (<) (map fst m) \<Longrightarrow> sorted_wrt (<) (map fst (AList.delete k m))"
  by (simp add: AList.delete_eq sorted_wrt_map sorted_wrt_filter)

end
