(* ===== verification/Chunk_Store.thy ===== *)
theory Chunk_Store
  imports Store_Index Store_Lineage Hash_Map
begin

text \<open>
  The state of the chunk store (\<open>src/crates/store/dl_chunk_store/src/store.rs\<close>) and its queries (\<open>query.rs\<close>): the chunks that are
  loaded, the ids of all chunks indexed by entity, timeline, component and time, and the tracker that queries write to.
  The four maps of the lineage are the record this one extends. The schema, the entity tree, the
  identity of the store and its subscribers are left out. An operation that fails a debug assertion or panics is \<open>None\<close>.
\<close>

section \<open>State\<close>

record ChunkStoreConfig =
  enable_changelog :: bool
  cfg_chunk_max_bytes :: u64
  cfg_chunk_max_rows :: u64
  cfg_chunk_max_rows_if_unsorted :: u64

record ChunkStoreChunkStats =
  stat_num_chunks :: u64
  stat_total_size_bytes :: u64
  stat_num_rows :: u64
  stat_num_events :: u64

record QueriedChunkIdTracker =
  used_physical :: "ChunkId set"
  transient_used_physical :: "ChunkId set"
  missing_virtual :: "ChunkId set"
  transient_missing_virtual :: "ChunkId set"
  indicated_virtual :: "ChunkId set"

type_synonym ChunkIdSetPerTimePerComponent = "(string \<times> ChunkIdSetPerTime) list"
type_synonym ChunkIdSetPerTimePerTimeline = "(string \<times> ChunkIdSetPerTime) list"

record 'a ChunkStore = LineageDroppingCtx +
  config :: ChunkStoreConfig
  physical_chunks_per_chunk_id :: "(ChunkId \<times> 'a Chunk) list"
  physical_chunk_ids_per_min_row_id :: "(RowId \<times> ChunkId) list"
  temporal_chunk_ids_per_entity_per_component :: "(string \<times> ChunkIdSetPerTimePerComponent) list path_map"
  temporal_chunk_ids_per_entity :: "ChunkIdSetPerTimePerTimeline path_map"
  temporal_physical_chunks_stats :: ChunkStoreChunkStats
  static_chunk_ids_per_entity :: "(string \<times> ChunkId) list path_map"
  static_chunks_stats :: ChunkStoreChunkStats
  queried_chunk_id_tracker :: QueriedChunkIdTracker
  insert_id :: u64
  gc_id :: u64

definition stats_default :: ChunkStoreChunkStats where
  "stats_default = \<lparr>stat_num_chunks = 0, stat_total_size_bytes = 0, stat_num_rows = 0, stat_num_events = 0\<rparr>"

definition tracker_default :: QueriedChunkIdTracker where
  "tracker_default = \<lparr>used_physical = {}, transient_used_physical = {}, missing_virtual = {},
     transient_missing_virtual = {}, indicated_virtual = {}\<rparr>"

definition store_new :: "ChunkStoreConfig \<Rightarrow> 'a ChunkStore" where
  "store_new cfg = \<lparr>chunks_lineage = [], leaky_compactions = [], split_on_ingest = [], dangling_splits = [],
     config = cfg, physical_chunks_per_chunk_id = [], physical_chunk_ids_per_min_row_id = [],
     temporal_chunk_ids_per_entity_per_component = [], temporal_chunk_ids_per_entity = [],
     temporal_physical_chunks_stats = stats_default, static_chunk_ids_per_entity = [],
     static_chunks_stats = stats_default, queried_chunk_id_tracker = tracker_default, insert_id = 0, gc_id = 0\<rparr>"

abbreviation physical :: "'a ChunkStore \<Rightarrow> ChunkId \<Rightarrow> 'a Chunk option" where
  "physical s \<equiv> map_of (physical_chunks_per_chunk_id s)"

text \<open>The chained \<open>get\<close> calls that find the index of a component or of a timeline.\<close>

definition component_indexes :: "'a ChunkStore \<Rightarrow> EntityPath \<Rightarrow> string \<Rightarrow> ChunkIdSetPerTimePerComponent option" where
  "component_indexes s p timeline =
     do { per_timeline \<leftarrow> path_get p (temporal_chunk_ids_per_entity_per_component s); map_of per_timeline timeline }"

definition component_index :: "'a ChunkStore \<Rightarrow> EntityPath \<Rightarrow> string \<Rightarrow> string \<Rightarrow> ChunkIdSetPerTime option" where
  "component_index s p timeline component =
     do { per_component \<leftarrow> component_indexes s p timeline; map_of per_component component }"

definition timeline_index :: "'a ChunkStore \<Rightarrow> EntityPath \<Rightarrow> string \<Rightarrow> ChunkIdSetPerTime option" where
  "timeline_index s p timeline =
     do { per_timeline \<leftarrow> path_get p (temporal_chunk_ids_per_entity s); map_of per_timeline timeline }"

definition static_chunk_id :: "'a ChunkStore \<Rightarrow> EntityPath \<Rightarrow> string \<Rightarrow> ChunkId option" where
  "static_chunk_id s p component =
     do { per_component \<leftarrow> path_get p (static_chunk_ids_per_entity s); map_of per_component component }"

section \<open>What an entity has\<close>

definition all_components :: "'a ChunkStore \<Rightarrow> string set" where
  "all_components s = set
     (concat (map (map fst \<circ> snd) (static_chunk_ids_per_entity s)) @
      concat (map (\<lambda>(_, per_timeline). concat (map (map fst \<circ> snd) per_timeline))
        (temporal_chunk_ids_per_entity_per_component s)))"

definition all_components_on_timeline :: "'a ChunkStore \<Rightarrow> string option \<Rightarrow> EntityPath \<Rightarrow> string set option" where
  "all_components_on_timeline s timeline p =
     (let nonempty = (\<lambda>x. do { names \<leftarrow> x; if names = {} then None else Some names });
          static_components = nonempty (map_option (set \<circ> map fst) (path_get p (static_chunk_ids_per_entity s)));
          temporal_components = nonempty (map_option (\<lambda>per_timeline.
              set (map fst (or_default [] (do { timeline \<leftarrow> timeline; map_of per_timeline timeline }))))
            (path_get p (temporal_chunk_ids_per_entity_per_component s)))
      in case (static_components, temporal_components) of
           (None, None) \<Rightarrow> None
         | (None, Some comps) \<Rightarrow> Some comps
         | (Some comps, None) \<Rightarrow> Some comps
         | (Some static_comps, Some temporal_comps) \<Rightarrow> Some (static_comps \<union> temporal_comps))"

definition entity_has_static_component :: "'a ChunkStore \<Rightarrow> EntityPath \<Rightarrow> string \<Rightarrow> bool" where
  "entity_has_static_component s p component \<longleftrightarrow>
     (case path_get p (static_chunk_ids_per_entity s) of
        None \<Rightarrow> False | Some per_component \<Rightarrow> map_of per_component component \<noteq> None)"

definition entity_has_temporal_component :: "'a ChunkStore \<Rightarrow> EntityPath \<Rightarrow> string \<Rightarrow> bool" where
  "entity_has_temporal_component s p component \<longleftrightarrow>
     (case path_get p (temporal_chunk_ids_per_entity_per_component s) of
        None \<Rightarrow> False
      | Some per_timeline \<Rightarrow> list_ex (\<lambda>(_, per_component). map_of per_component component \<noteq> None) per_timeline)"

definition entity_has_temporal_component_on_timeline :: "'a ChunkStore \<Rightarrow> string \<Rightarrow> EntityPath \<Rightarrow> string \<Rightarrow> bool" where
  "entity_has_temporal_component_on_timeline s timeline p component \<longleftrightarrow>
     (case component_indexes s p timeline of
        None \<Rightarrow> False | Some per_component \<Rightarrow> map_of per_component component \<noteq> None)"

definition entity_has_component_on_timeline :: "'a ChunkStore \<Rightarrow> string option \<Rightarrow> EntityPath \<Rightarrow> string \<Rightarrow> bool" where
  "entity_has_component_on_timeline s timeline p component \<longleftrightarrow>
     entity_has_static_component s p component \<or>
     (case timeline of None \<Rightarrow> False | Some timeline \<Rightarrow> entity_has_temporal_component_on_timeline s timeline p component)"

definition entity_has_component :: "'a ChunkStore \<Rightarrow> EntityPath \<Rightarrow> string \<Rightarrow> bool" where
  "entity_has_component s p component \<longleftrightarrow>
     entity_has_static_component s p component \<or> entity_has_temporal_component s p component"

definition entity_has_data :: "'a ChunkStore \<Rightarrow> EntityPath \<Rightarrow> bool" where
  "entity_has_data s p \<longleftrightarrow>
     path_get p (static_chunk_ids_per_entity s) \<noteq> None \<or> path_get p (temporal_chunk_ids_per_entity s) \<noteq> None"

definition any_physical :: "'a ChunkStore \<Rightarrow> ChunkIdSetPerTime list \<Rightarrow> bool" where
  "any_physical s idxs = list_ex (\<lambda>i. physical s i \<noteq> None) (concat (concat (map (map snd \<circ> per_start_time) idxs)))"

definition entity_has_physical_static_data :: "'a ChunkStore \<Rightarrow> EntityPath \<Rightarrow> bool" where
  "entity_has_physical_static_data s p \<longleftrightarrow>
     (case path_get p (static_chunk_ids_per_entity s) of
        None \<Rightarrow> False | Some per_component \<Rightarrow> list_ex (\<lambda>(_, i). physical s i \<noteq> None) per_component)"

definition entity_has_physical_temporal_data :: "'a ChunkStore \<Rightarrow> EntityPath \<Rightarrow> bool" where
  "entity_has_physical_temporal_data s p \<longleftrightarrow>
     (case path_get p (temporal_chunk_ids_per_entity_per_component s) of
        None \<Rightarrow> False | Some per_timeline \<Rightarrow> any_physical s (concat (map (map snd \<circ> snd) per_timeline)))"

definition entity_has_physical_temporal_data_on_timeline :: "'a ChunkStore \<Rightarrow> EntityPath \<Rightarrow> string \<Rightarrow> bool" where
  "entity_has_physical_temporal_data_on_timeline s p timeline \<longleftrightarrow>
     (case component_indexes s p timeline of
        None \<Rightarrow> False | Some per_component \<Rightarrow> any_physical s (map snd per_component))"

definition entity_has_physical_temporal_data_on_timeline_for_component ::
  "'a ChunkStore \<Rightarrow> EntityPath \<Rightarrow> string \<Rightarrow> string \<Rightarrow> bool" where
  "entity_has_physical_temporal_data_on_timeline_for_component s p timeline component \<longleftrightarrow>
     (case component_index s p timeline component of None \<Rightarrow> False | Some idx \<Rightarrow> any_physical s [idx])"

definition entity_has_physical_data_on_timeline :: "'a ChunkStore \<Rightarrow> string \<Rightarrow> EntityPath \<Rightarrow> bool" where
  "entity_has_physical_data_on_timeline s timeline p \<longleftrightarrow>
     entity_has_physical_static_data s p \<or> entity_has_physical_temporal_data_on_timeline s p timeline"

definition entity_has_physical_data :: "'a ChunkStore \<Rightarrow> EntityPath \<Rightarrow> bool" where
  "entity_has_physical_data s p \<longleftrightarrow> entity_has_physical_static_data s p \<or> entity_has_physical_temporal_data s p"

section \<open>Times\<close>

definition entity_min_time :: "'a ChunkStore \<Rightarrow> string \<Rightarrow> EntityPath \<Rightarrow> TimeInt option" where
  "entity_min_time s timeline p =
     do { per_component \<leftarrow> component_indexes s p timeline;
          let time_min = fold (\<lambda>(_, idx) time_min. case first (per_start_time idx) of
                None \<Rightarrow> time_min | Some (time, _) \<Rightarrow> min time_min time) per_component time_MAX;
          if time_min \<noteq> time_MAX then Some time_min else None }"

definition index_time_range :: "ChunkIdSetPerTime \<Rightarrow> AbsoluteTimeRange option" where
  "index_time_range idx =
     do { (start, _) \<leftarrow> first (per_start_time idx);
          (end_time, _) \<leftarrow> last_opt (per_end_time idx);
          Some (range_new (Ok start) (Ok end_time)) }"

definition entity_time_range :: "'a ChunkStore \<Rightarrow> string \<Rightarrow> EntityPath \<Rightarrow> AbsoluteTimeRange option" where
  "entity_time_range s timeline p = Option.bind (timeline_index s p timeline) index_time_range"

text \<open>\<open>reduce\<close>\<close>

fun reduce :: "('e \<Rightarrow> 'e \<Rightarrow> 'e) \<Rightarrow> 'e list \<Rightarrow> 'e option" where
  "reduce f [] = None"
| "reduce f (x # xs) = Some (fold (\<lambda>y acc. f acc y) xs x)"

definition time_range :: "'a ChunkStore \<Rightarrow> string \<Rightarrow> AbsoluteTimeRange option" where
  "time_range s timeline =
     reduce range_union (List.map_filter (\<lambda>(_, per_timeline). Option.bind (map_of per_timeline timeline) index_time_range)
       (temporal_chunk_ids_per_entity s))"

definition search_chunk_by_time ::
  "'a ChunkStore \<Rightarrow> string \<Rightarrow> (TimeColumn \<Rightarrow> TimeInt option) \<Rightarrow> ChunkId \<Rightarrow> TimeInt option" where
  "search_chunk_by_time s timeline search i =
     do { chunk \<leftarrow> physical s i; time_col \<leftarrow> map_of (chunk_timelines chunk) timeline; search time_col }"

fun opt_min :: "TimeInt option \<Rightarrow> TimeInt option \<Rightarrow> TimeInt option" where
  "opt_min (Some a) (Some b) = Some (min a b)"
| "opt_min None b = b"
| "opt_min a None = a"

fun opt_max :: "TimeInt option \<Rightarrow> TimeInt option \<Rightarrow> TimeInt option" where
  "opt_max (Some a) (Some b) = Some (max a b)"
| "opt_max None b = b"
| "opt_max a None = a"

text \<open>
  The loop over the entries of a map, which ends at the first entry whose time satisfies \<open>stop\<close> with the result so far.
\<close>

fun scan_until ::
  "(TimeInt \<Rightarrow> TimeInt \<Rightarrow> bool) \<Rightarrow> (TimeInt option \<Rightarrow> TimeInt option \<Rightarrow> TimeInt option) \<Rightarrow> (ChunkId \<Rightarrow> TimeInt option) \<Rightarrow>
   time_map \<Rightarrow> TimeInt option \<Rightarrow> TimeInt option" where
  "scan_until stop better search [] result = result"
| "scan_until stop better search ((time, ids) # m) result =
     (if (case result of None \<Rightarrow> False | Some r \<Rightarrow> stop r time) then result
      else scan_until stop better search m (fold (\<lambda>i result. better result (search i)) ids result))"

definition next_time_on_timeline :: "'a ChunkStore \<Rightarrow> string \<Rightarrow> TimeInt \<Rightarrow> TimeInt option" where
  "next_time_on_timeline s timeline after =
     (let search = search_chunk_by_time s timeline (\<lambda>tc. find_next_time tc after) in
      fold (\<lambda>(_, per_timeline) result.
        case map_of per_timeline timeline of
          None \<Rightarrow> result
        | Some per_time \<Rightarrow>
            let result = scan_until (\<le>) opt_min search (filter (\<lambda>(t, _). after < t) (per_start_time per_time)) result
            in scan_until (\<lambda>_ _. False) opt_min search (rev (filter (\<lambda>(t, _). t \<le> after) (per_start_time per_time))) result)
        (temporal_chunk_ids_per_entity s) None)"

definition prev_time_on_timeline :: "'a ChunkStore \<Rightarrow> string \<Rightarrow> TimeInt \<Rightarrow> TimeInt option" where
  "prev_time_on_timeline s timeline before =
     (let search = search_chunk_by_time s timeline (\<lambda>tc. find_prev_time tc before) in
      fold (\<lambda>(_, per_timeline) result.
        case map_of per_timeline timeline of
          None \<Rightarrow> result
        | Some per_time \<Rightarrow>
            let result = scan_until (\<ge>) opt_max search (rev (filter (\<lambda>(t, _). t < before) (per_end_time per_time))) result
            in scan_until (\<lambda>_ _. False) opt_max search (filter (\<lambda>(t, _). before \<le> t) (per_end_time per_time)) result)
        (temporal_chunk_ids_per_entity s) None)"

text \<open>The distance of a chunk, by binary search on sorted times and by scanning, and the chunks by descending distance.\<close>

definition nearest_fast :: "TimeInt \<Rightarrow> TimeColumn \<Rightarrow> u64 option" where
  "nearest_fast time tc =
     (if tc_is_sorted tc
      then let raw = tc_times tc;
               pivot = partition_point (\<lambda>t. t < as_i64 time) raw;
               get = (\<lambda>i. if i < length raw then Some (raw ! i) else None);
               min_value1 = map_option (\<lambda>t. abs_diff t (as_i64 time)) (get (pivot - 1));
               min_value2 = map_option (\<lambda>t. abs_diff t (as_i64 time)) (get pivot)
           in iter_min (List.map_filter id [min_value1, min_value2])
      else iter_min (map (\<lambda>t. abs_diff (as_i64 t) (as_i64 time)) (column_times tc)))"

definition nearest_slow :: "TimeInt \<Rightarrow> TimeColumn \<Rightarrow> u64 option" where
  "nearest_slow time tc = iter_min (map (\<lambda>t. abs_diff (as_i64 t) (as_i64 time)) (column_times tc))"

definition furthest_first :: "(TimeColumn \<Rightarrow> u64 option) \<Rightarrow> 'a ChunkStore \<Rightarrow> string \<Rightarrow> 'a Chunk list" where
  "furthest_first nearest s timeline =
     map fst (sort_key (\<lambda>(_, dist). - uint dist)
       (List.map_filter (\<lambda>(_, chunk).
          do { tc \<leftarrow> map_of (chunk_timelines chunk) timeline; dist \<leftarrow> nearest tc; Some (chunk, dist) })
        (physical_chunks_per_chunk_id s)))"

definition find_temporal_chunks_furthest_from :: "'a ChunkStore \<Rightarrow> string \<Rightarrow> TimeInt \<Rightarrow> 'a Chunk list" where
  "find_temporal_chunks_furthest_from s timeline time = furthest_first (nearest_fast time) s timeline"

definition find_temporal_chunks_furthest_from_slow :: "'a ChunkStore \<Rightarrow> string \<Rightarrow> TimeInt \<Rightarrow> 'a Chunk list" where
  "find_temporal_chunks_furthest_from_slow s timeline time = furthest_first (nearest_slow time) s timeline"

section \<open>Relevant chunks\<close>

datatype ChunkTrackingMode = Ignore | Report | ReportTransient | PanicOnMissing

record 'a QueryResults =
  qr_chunks :: "'a Chunk list"
  qr_missing_virtual :: "ChunkId list"

definition is_partial :: "'a QueryResults \<Rightarrow> bool" where
  "is_partial r \<longleftrightarrow> qr_missing_virtual r \<noteq> []"

definition results_is_empty :: "'a QueryResults \<Rightarrow> bool" where
  "results_is_empty r \<longleftrightarrow> qr_chunks r = [] \<and> qr_missing_virtual r = []"

definition to_iter :: "'a QueryResults \<Rightarrow> 'a Chunk list option" where
  "to_iter r = (if qr_missing_virtual r = [] then Some (qr_chunks r) else None)"

fun collect_chunks ::
  "(ChunkId \<Rightarrow> 'a Chunk option) \<Rightarrow> ChunkTrackingMode \<Rightarrow> ChunkId list \<Rightarrow> ('a Chunk list \<times> ChunkId list) option" where
  "collect_chunks get mode [] = Some ([], [])"
| "collect_chunks get mode (i # ids) =
     (case get i of
        Some chunk \<Rightarrow> map_option (apfst (Cons chunk)) (collect_chunks get mode ids)
      | None \<Rightarrow>
          (case mode of
             Ignore \<Rightarrow> collect_chunks get mode ids
           | PanicOnMissing \<Rightarrow> None
           | _ \<Rightarrow> map_option (apsnd (Cons i)) (collect_chunks get mode ids)))"

definition track :: "ChunkTrackingMode \<Rightarrow> ChunkId list \<Rightarrow> ChunkId list \<Rightarrow> QueriedChunkIdTracker \<Rightarrow> QueriedChunkIdTracker" where
  "track mode used missing tracker =
     (case mode of
        Report \<Rightarrow> tracker\<lparr>missing_virtual := missing_virtual tracker \<union> set missing,
                        used_physical := used_physical tracker \<union> set used\<rparr>
      | ReportTransient \<Rightarrow> tracker\<lparr>transient_missing_virtual := transient_missing_virtual tracker \<union> set missing,
                        transient_used_physical := transient_used_physical tracker \<union> set used\<rparr>
      | _ \<Rightarrow> tracker)"

definition from_chunk_ids ::
  "bool \<Rightarrow> 'a ChunkStore \<Rightarrow> ChunkTrackingMode \<Rightarrow> ChunkId list \<Rightarrow> ('a QueryResults \<times> 'a ChunkStore) option" where
  "from_chunk_ids debug s mode ids =
     do { (chunks, missing) \<leftarrow> collect_chunks (physical s) mode ids;
          if debug \<and> (mode = Report \<or> mode = ReportTransient) \<and> list_ex (\<lambda>i. map_of (chunks_lineage s) i = None) missing then None
          else if debug \<and> \<not> distinct (map chunk_id chunks @ missing) then None
          else Some (\<lparr>qr_chunks = chunks, qr_missing_virtual = missing\<rparr>,
                     s\<lparr>queried_chunk_id_tracker := track mode (map chunk_id chunks) missing (queried_chunk_id_tracker s)\<rparr>) }"

definition latest_at_relevant_chunks ::
  "bool \<Rightarrow> 'a ChunkStore \<Rightarrow> ChunkTrackingMode \<Rightarrow> LatestAtQuery \<Rightarrow> EntityPath \<Rightarrow> string \<Rightarrow> ('a QueryResults \<times> 'a ChunkStore) option" where
  "latest_at_relevant_chunks debug s mode query p component =
     (case static_chunk_id s p component of
        Some i \<Rightarrow> from_chunk_ids debug s mode [i]
      | None \<Rightarrow>
          from_chunk_ids debug s mode (or_default []
            (do { timeline \<leftarrow> lq_timeline query;
                  idx \<leftarrow> component_index s p timeline component;
                  index_latest_at (lq_at query) idx })))"

text \<open>\<open>unique()\<close> keeps the first of equal elements.\<close>

definition unique :: "'e list \<Rightarrow> 'e list" where
  "unique xs = rev (remdups (rev xs))"

definition latest_at_relevant_chunks_for_all_components ::
  "bool \<Rightarrow> 'a ChunkStore \<Rightarrow> ChunkTrackingMode \<Rightarrow> LatestAtQuery \<Rightarrow> EntityPath \<Rightarrow> bool \<Rightarrow> ('a QueryResults \<times> 'a ChunkStore) option" where
  "latest_at_relevant_chunks_for_all_components debug s mode query p include_static =
     from_chunk_ids debug s mode
       (if include_static
        then let statics = or_default [] (path_get p (static_chunk_ids_per_entity s));
                 temporals = filter (\<lambda>(component, _). map_of statics component = None)
                   (or_default [] (Option.bind (lq_timeline query) (component_indexes s p)))
             in unique (map snd statics @ concat (List.map_filter (index_latest_at (lq_at query) \<circ> snd) temporals))
        else or_default []
          (do { timeline \<leftarrow> lq_timeline query; idx \<leftarrow> timeline_index s p timeline; index_latest_at (lq_at query) idx }))"

definition filter_chunks :: "('a Chunk \<Rightarrow> bool) \<Rightarrow> ('a QueryResults \<times> 'a ChunkStore) option \<Rightarrow> ('a QueryResults \<times> 'a ChunkStore) option" where
  "filter_chunks P = map_option (apfst (\<lambda>r. r\<lparr>qr_chunks := filter P (qr_chunks r)\<rparr>))"

definition range_relevant_chunks ::
  "bool \<Rightarrow> ('a, 'd, 'v) arrow \<Rightarrow> 'a ChunkStore \<Rightarrow> ChunkTrackingMode \<Rightarrow> RangeQuery \<Rightarrow> EntityPath \<Rightarrow> string \<Rightarrow>
   ('a QueryResults \<times> 'a ChunkStore) option" where
  "range_relevant_chunks debug A s mode query p component =
     (case static_chunk_id s p component of
        Some i \<Rightarrow> from_chunk_ids debug s mode [i]
      | None \<Rightarrow>
          filter_chunks (\<lambda>chunk. case map_of (chunk_timelines chunk) (rq_timeline query) of
              None \<Rightarrow> False
            | Some time_column \<Rightarrow>
                (case map_of (tc_time_range_per_component A time_column (chunk_components chunk)) component of
                   None \<Rightarrow> False | Some r \<Rightarrow> intersects r (rq_range query)))
            (from_chunk_ids debug s mode
              (index_range query (case component_index s p (rq_timeline query) component of None \<Rightarrow> [] | Some idx \<Rightarrow> [idx]))))"

definition range_relevant_chunks_for_all_components ::
  "bool \<Rightarrow> 'a ChunkStore \<Rightarrow> ChunkTrackingMode \<Rightarrow> RangeQuery \<Rightarrow> EntityPath \<Rightarrow> bool \<Rightarrow> ('a QueryResults \<times> 'a ChunkStore) option" where
  "range_relevant_chunks_for_all_components debug s mode query p include_static =
     filter_chunks (\<lambda>chunk. chunk_is_static chunk \<and> include_static \<or>
         (case map_of (chunk_timelines chunk) (rq_timeline query) of
            None \<Rightarrow> False | Some time_column \<Rightarrow> intersects (tc_time_range time_column) (rq_range query)))
       (from_chunk_ids debug s mode
         (if include_static
          then let statics = or_default [] (path_get p (static_chunk_ids_per_entity s));
                   temporals = filter (\<lambda>(component, _). map_of statics component = None)
                     (or_default [] (component_indexes s p (rq_timeline query)))
               in unique (map snd statics @ index_range query (map snd temporals))
          else index_range query (case timeline_index s p (rq_timeline query) of None \<Rightarrow> [] | Some idx \<Rightarrow> [idx])))"

section \<open>Tracking\<close>

definition take_tracked_chunk_ids :: "'a ChunkStore \<Rightarrow> QueriedChunkIdTracker \<times> 'a ChunkStore" where
  "take_tracked_chunk_ids s = (queried_chunk_id_tracker s, s\<lparr>queried_chunk_id_tracker := tracker_default\<rparr>)"

definition update_tracker :: "(QueriedChunkIdTracker \<Rightarrow> QueriedChunkIdTracker) \<Rightarrow> 'a ChunkStore \<Rightarrow> 'a ChunkStore" where
  "update_tracker f s = s\<lparr>queried_chunk_id_tracker := f (queried_chunk_id_tracker s)\<rparr>"

definition report_used_physical_chunk_id :: "bool \<Rightarrow> ChunkId \<Rightarrow> 'a ChunkStore \<Rightarrow> 'a ChunkStore option" where
  "report_used_physical_chunk_id debug i s =
     (if debug \<and> physical s i = None then None
      else Some (update_tracker (\<lambda>t. t\<lparr>used_physical := insert i (used_physical t)\<rparr>) s))"

definition report_missing_virtual_chunk_id :: "bool \<Rightarrow> ChunkId \<Rightarrow> 'a ChunkStore \<Rightarrow> 'a ChunkStore option" where
  "report_missing_virtual_chunk_id debug i s =
     (if debug \<and> map_of (chunks_lineage s) i = None then None
      else Some (update_tracker (\<lambda>t. t\<lparr>missing_virtual := insert i (missing_virtual t)\<rparr>) s))"

definition report_transient_used_physical_chunk_id :: "bool \<Rightarrow> ChunkId \<Rightarrow> 'a ChunkStore \<Rightarrow> 'a ChunkStore option" where
  "report_transient_used_physical_chunk_id debug i s =
     (if debug \<and> physical s i = None then None
      else Some (update_tracker (\<lambda>t. t\<lparr>transient_used_physical := insert i (transient_used_physical t)\<rparr>) s))"

definition report_transient_missing_virtual_chunk_id :: "bool \<Rightarrow> ChunkId \<Rightarrow> 'a ChunkStore \<Rightarrow> 'a ChunkStore option" where
  "report_transient_missing_virtual_chunk_id debug i s =
     (if debug \<and> map_of (chunks_lineage s) i = None then None
      else Some (update_tracker (\<lambda>t. t\<lparr>transient_missing_virtual := insert i (transient_missing_virtual t)\<rparr>) s))"

definition indicate_virtual_chunk_id :: "bool \<Rightarrow> ChunkId \<Rightarrow> 'a ChunkStore \<Rightarrow> 'a ChunkStore option" where
  "indicate_virtual_chunk_id debug i s =
     (if debug \<and> map_of (chunks_lineage s) i = None then None
      else Some (update_tracker (\<lambda>t. t\<lparr>indicated_virtual := insert i (indicated_virtual t)\<rparr>) s))"

definition use_chunk_or_report_missing :: "bool \<Rightarrow> ChunkId \<Rightarrow> 'a ChunkStore \<Rightarrow> ('a Chunk option \<times> 'a ChunkStore) option" where
  "use_chunk_or_report_missing debug i s =
     map_option (Pair (physical s i))
       (if physical s i \<noteq> None then report_used_physical_chunk_id debug i s else report_missing_virtual_chunk_id debug i s)"

definition use_transient_chunk_or_report_missing :: "bool \<Rightarrow> ChunkId \<Rightarrow> 'a ChunkStore \<Rightarrow> ('a Chunk option \<times> 'a ChunkStore) option" where
  "use_transient_chunk_or_report_missing debug i s =
     map_option (Pair (physical s i))
       (if physical s i \<noteq> None then report_transient_used_physical_chunk_id debug i s
        else report_transient_missing_virtual_chunk_id debug i s)"

definition use_chunk_or_indicate :: "bool \<Rightarrow> ChunkId \<Rightarrow> 'a ChunkStore \<Rightarrow> ('a Chunk option \<times> 'a ChunkStore) option" where
  "use_chunk_or_indicate debug i s =
     map_option (Pair (physical s i))
       (if physical s i \<noteq> None then report_used_physical_chunk_id debug i s else indicate_virtual_chunk_id debug i s)"

end
