(* ===== verification/Store_Query.thy ===== *)
theory Store_Query
  imports Chunk_Store
begin

text \<open>
  The invariant of the store, and the composition of its queries with those of the chunks: what a query on the
  store selects, the chunks' own queries can answer exactly.
\<close>

section \<open>The invariant\<close>

text \<open>The entries that the loaded chunks ask for.\<close>

definition timeline_entries :: "(ChunkId \<Rightarrow> 'a Chunk option) \<Rightarrow> EntityPath \<Rightarrow> string \<Rightarrow> (ChunkId \<times> AbsoluteTimeRange) set" where
  "timeline_entries P p timeline =
     {(i, r). \<exists>c tc. P i = Some c \<and> path_eq (chunk_entity_path c) p \<and>
        map_of (chunk_timelines c) timeline = Some tc \<and> r = tc_time_range tc}"

definition component_entries ::
  "('a, 'd, 'v) arrow \<Rightarrow> (ChunkId \<Rightarrow> 'a Chunk option) \<Rightarrow> EntityPath \<Rightarrow> string \<Rightarrow> string \<Rightarrow> (ChunkId \<times> AbsoluteTimeRange) set" where
  "component_entries A P p timeline component =
     {(i, r). \<exists>c tc. P i = Some c \<and> path_eq (chunk_entity_path c) p \<and>
        map_of (chunk_timelines c) timeline = Some tc \<and>
        map_of (tc_time_range_per_component A tc (chunk_components c)) component = Some r}"

text \<open>
  An index holds, besides chunks that are not loaded, exactly the entries of the loaded ones; each id has one range.
\<close>

definition indexes :: "ChunkIdSetPerTime option \<Rightarrow> (ChunkId \<times> AbsoluteTimeRange) set \<Rightarrow> ChunkId set \<Rightarrow> bool" where
  "indexes idx E loaded \<longleftrightarrow>
     (\<exists>es. index_ok (or_default index_default idx) es \<and> {(i, r) \<in> es. i \<in> loaded} = E \<and>
        (\<forall>(i, r) \<in> es. range_ok r) \<and> (\<forall>i r r'. (i, r) \<in> es \<longrightarrow> (i, r') \<in> es \<longrightarrow> r = r'))"

definition loaded_ok :: "('a, 'd, 'v) arrow \<Rightarrow> 'a ChunkStore \<Rightarrow> bool" where
  "loaded_ok A s \<longleftrightarrow> sorted_wrt (<) (map fst (physical_chunks_per_chunk_id s)) \<and>
     (\<forall>i c. physical s i = Some c \<longrightarrow> chunk_id c = i \<and> columns_ok A c \<and> chunk_is_sorted c \<and> \<not> chunk_is_empty c)"

text \<open>The indices hold the chunks of \<open>P\<close>, which may be more than the loaded ones.\<close>

definition tracks :: "('a, 'd, 'v) arrow \<Rightarrow> 'a ChunkStore \<Rightarrow> (ChunkId \<Rightarrow> 'a Chunk option) \<Rightarrow> bool" where
  "tracks A s P \<longleftrightarrow>
     (\<forall>p timeline. indexes (timeline_index s p timeline) (timeline_entries P p timeline) (dom P)) \<and>
     (\<forall>p timeline component. indexes (component_index s p timeline component)
        (component_entries A P p timeline component) (dom P))"

definition store_ok :: "('a, 'd, 'v) arrow \<Rightarrow> 'a ChunkStore \<Rightarrow> bool" where
  "store_ok A s \<longleftrightarrow> loaded_ok A s \<and> path_keys (temporal_chunk_ids_per_entity s) \<and> tracks A s (physical s)"

lemma loaded:
  assumes "loaded_ok A s" "physical s i = Some c"
  shows "chunk_id c = i" "columns_ok A c" "chunk_is_sorted c" "\<not> chunk_is_empty c" "num_rows c \<noteq> 0"
  using assms by (auto simp: loaded_ok_def chunk_is_empty_def)

text \<open>No interval of the index is longer than an \<open>i64\<close> can tell.\<close>

definition measurable :: "ChunkIdSetPerTime option \<Rightarrow> bool" where
  "measurable idx \<longleftrightarrow> uint (max_interval_length (or_default index_default idx)) \<le> i64_max"

lemma indexes_entries:
  assumes "indexes idx E loaded" "measurable idx"
  obtains es where "entries_ok (or_default index_default idx) es" "{(i, r) \<in> es. i \<in> loaded} = E"
    "\<forall>i r r'. (i, r) \<in> es \<longrightarrow> (i, r') \<in> es \<longrightarrow> r = r'"
  using assms by (auto simp: indexes_def entries_ok_def measurable_def)

lemma store_new_ok: "store_ok A (store_new cfg)"
proof -
  have "indexes None {} loaded" for loaded by (auto simp: indexes_def index_default_ok intro!: exI [of _ "{}"])
  then show ?thesis
    by (simp add: store_ok_def tracks_def loaded_ok_def store_new_def timeline_index_def component_index_def component_indexes_def
        timeline_entries_def component_entries_def path_keys_def)
qed

section \<open>Collecting chunks\<close>

lemma collect_chunks_eq:
  assumes "mode \<noteq> PanicOnMissing \<or> (\<forall>i \<in> set ids. get i \<noteq> None)"
  shows "collect_chunks get mode ids =
    Some (List.map_filter get ids, if mode = Ignore then [] else filter (\<lambda>i. get i = None) ids)"
  using assms
  by (induction ids) (auto simp: List.map_filter_simps split: option.splits ChunkTrackingMode.splits)

lemma collect_chunks_Some:
  assumes "collect_chunks get mode ids = Some (chunks, missing)"
  shows "chunks = List.map_filter get ids" "mode \<noteq> Ignore \<Longrightarrow> missing = filter (\<lambda>i. get i = None) ids"
proof -
  have "mode \<noteq> PanicOnMissing \<or> (\<forall>i \<in> set ids. get i \<noteq> None)"
    using assms by (induction ids arbitrary: chunks missing) (auto split: option.splits ChunkTrackingMode.splits)
  from collect_chunks_eq [OF this] assms show "chunks = List.map_filter get ids"
    "mode \<noteq> Ignore \<Longrightarrow> missing = filter (\<lambda>i. get i = None) ids" by auto
qed

lemma set_map_filter_get: "set (List.map_filter get ids) = {c. \<exists>i \<in> set ids. get i = Some c}"
  by (auto simp: List.map_filter_def image_iff) force

lemma from_chunk_ids_Some:
  assumes "from_chunk_ids debug s mode ids = Some (res, s')"
  shows "set (qr_chunks res) = {c. \<exists>i \<in> set ids. physical s i = Some c}"
    "mode \<noteq> Ignore \<Longrightarrow> qr_missing_virtual res = filter (\<lambda>i. physical s i = None) ids"
    "s'\<lparr>queried_chunk_id_tracker := t\<rparr> = s\<lparr>queried_chunk_id_tracker := t\<rparr>"
  using assms collect_chunks_Some [of "physical s" mode ids]
  by (auto simp: from_chunk_ids_def bind_eq_Some_conv set_map_filter_get split: if_splits)

section \<open>Entries against rows\<close>

context arrow_laws
begin

lemma component_range_spec:
  assumes ok: "columns_ok A c" "num_rows c \<noteq> 0" and tc: "map_of (chunk_timelines c) timeline = Some tc"
    and r: "map_of (tc_time_range_per_component A tc (chunk_components c)) component = Some r"
  defines "ts \<equiv> map (rw_time timeline) (filter (\<lambda>w. rw_cells w component \<noteq> None) (rows A c))"
  shows "range_min r = (if ts = [] then time_MAX else new_temporal (Min (set ts)))"
    "range_max r = (if ts = [] then time_MIN else new_temporal (Max (set ts)))" "range_ok r"
proof -
  have cols: "distinct (map fst (chunk_components c))" using ok by (simp add: columns_ok_def components_ok_def)
  obtain col where col: "map_of (chunk_components c) component = Some col" "tc_component_range A tc (col_list_array col) = Some r"
    using r map_of_map_filter [OF cols, of "\<lambda>col. tc_component_range A tc (col_list_array col)" component]
    by (auto simp: tc_time_range_per_component_def bind_eq_Some_conv)
  have tc': "length (tc_times tc) = num_rows c" "tc_ok tc" and len: "la_len A (col_list_array col) = num_rows c"
    using ok map_of_SomeD [OF tc] map_of_SomeD [OF col(1)]
    by (auto simp: columns_ok_def timelines_ok_def components_ok_def)
  show min_max: "range_min r = (if ts = [] then time_MAX else new_temporal (Min (set ts)))"
    "range_max r = (if ts = [] then time_MIN else new_temporal (Max (set ts)))"
    using component_range_rows [OF tc tc' col(1) len ok(2)] col(2) unfolding ts_def by auto
  show "range_ok r"
    unfolding range_ok_def min_max
    using not_static_iff [of time_MAX] not_static_iff [of time_MIN] not_static_iff [OF time_ok_new_temporal]
    by (simp add: tval_new_temporal)
qed

lemma component_entry:
  assumes s: "loaded_ok A s" and E: "(i, r) \<in> component_entries A (physical s) p timeline component"
  obtains c tc ts where "physical s i = Some c" "path_eq (chunk_entity_path c) p" "map_of (chunk_timelines c) timeline = Some tc"
    "ts = map (rw_time timeline) (filter (\<lambda>w. rw_cells w component \<noteq> None) (rows A c))"
    "range_min r = (if ts = [] then time_MAX else new_temporal (Min (set ts)))"
    "range_max r = (if ts = [] then time_MIN else new_temporal (Max (set ts)))"
proof -
  obtain c tc where c: "physical s i = Some c" "path_eq (chunk_entity_path c) p" "map_of (chunk_timelines c) timeline = Some tc"
    and r: "map_of (tc_time_range_per_component A tc (chunk_components c)) component = Some r"
    using E by (auto simp: component_entries_def)
  have ok: "columns_ok A c" "num_rows c \<noteq> 0" using loaded [OF s c(1)] by blast+
  show thesis using component_range_spec(1,2) [OF ok c(3) r] by (intro that [OF c refl])
qed

lemma component_entry_row:
  assumes s: "loaded_ok A s" and c: "physical s i = Some c" "path_eq (chunk_entity_path c) p"
    "map_of (chunk_timelines c) timeline = Some tc" and w: "w \<in> set (rows A c)" "rw_cells w component \<noteq> None"
  obtains r where "(i, r) \<in> component_entries A (physical s) p timeline component"
    "range_min r \<le> new_temporal (rw_time timeline w)" "new_temporal (rw_time timeline w) \<le> range_max r"
proof -
  have ok: "columns_ok A c" "num_rows c \<noteq> 0" using loaded [OF s c(1)] by blast+
  obtain col where col: "map_of (chunk_components c) component = Some col"
    using w by (auto simp: rows_def row_at_def bind_eq_Some_conv)
  have tc: "length (tc_times tc) = num_rows c" "tc_ok tc" and len: "la_len A (col_list_array col) = num_rows c"
    and cols: "distinct (map fst (chunk_components c))"
    using ok map_of_SomeD [OF c(3)] map_of_SomeD [OF col] by (auto simp: columns_ok_def timelines_ok_def components_ok_def)
  let ?ts = "map (rw_time timeline) (filter (\<lambda>r. rw_cells r component \<noteq> None) (rows A c))"
  have mem: "rw_time timeline w \<in> set ?ts" using w by auto
  then have ne: "?ts \<noteq> []" by (metis empty_iff list.set(1))
  obtain r where r: "tc_component_range A tc (col_list_array col) = Some r"
    "range_min r = new_temporal (Min (set ?ts))" "range_max r = new_temporal (Max (set ?ts))"
    using component_range_rows [OF c(3) tc col len ok(2)] unfolding if_not_P [OF ne] by blast
  have "map_of (tc_time_range_per_component A tc (chunk_components c)) component = Some r"
    using map_of_map_filter [OF cols, of "\<lambda>col. tc_component_range A tc (col_list_array col)" component] col r(1)
    by (simp add: tc_time_range_per_component_def)
  then have "(i, r) \<in> component_entries A (physical s) p timeline component"
    unfolding component_entries_def using c by blast
  moreover have "range_min r \<le> new_temporal (rw_time timeline w)" "new_temporal (rw_time timeline w) \<le> range_max r"
    unfolding r using mem by (auto intro!: monoD [OF mono_new_temporal] Min_le Max_ge simp del: set_map)
  ultimately show thesis by (rule that)
qed

end

lemma abs_length_inverted: "range_min r = time_MAX \<Longrightarrow> range_max r = time_MIN \<Longrightarrow> uint (abs_length r) > i64_max"
  by (simp add: abs_length_def uint_abs_diff)

section \<open>Latest-at\<close>

lemma new_temporal_le_iff: "time_ok at \<Longrightarrow> u \<noteq> i64_MIN \<Longrightarrow> new_temporal u \<le> at \<longleftrightarrow> u \<le> as_i64 at"
  using new_temporal_less(1) [of at u] by (auto simp: not_less [symmetric])

text \<open>A loaded chunk that has a candidate answers with one that is at least as recent.\<close>

lemma loaded_chunk_answer:
  assumes A: "arrow_laws A" and s: "loaded_ok A s" and c: "physical s i = Some c" "map_of (chunk_timelines c) timeline = Some tc"
    and at: "time_ok at" "at \<noteq> STATIC" and ids: "\<forall>r \<in> set (chunk_row_ids c). tuid_ZERO < r"
    and w: "w \<in> set (latest_candidates A c timeline at component)"
  shows "\<exists>u r. latest_at A new_id c \<lparr>lq_timeline = Some timeline, lq_at = at\<rparr> component = Some (Some u) \<and>
    rows A (unit_chunk u) = [r] \<and> r \<in> set (latest_candidates A c timeline at component) \<and> rw_key timeline w \<le> rw_key timeline r"
proof -
  note ok = loaded [OF s c(1)]
  have tc: "tc_ok tc" "length (tc_times tc) = num_rows c"
    using ok(2) map_of_SomeD [OF c(2)] by (auto simp: columns_ok_def timelines_ok_def)
  have "hd (tc_times tc) \<le> as_i64 at" if sorted: "tc_is_sorted tc"
  proof -
    obtain k where k: "k < num_rows c" "w = row_at A c k" "new_temporal (rw_time timeline w) \<le> at"
      using w by (auto simp: latest_candidates_def rows_def)
    then have time: "rw_time timeline w = tc_times tc ! k" "tc_times tc ! k \<in> set (tc_times tc)"
      using c(2) tc(2) by (auto simp: rw_time_def row_at_def)
    then have "tc_times tc ! k \<noteq> i64_MIN" using tc(1) unfolding tc_ok_def by metis
    then have "tc_times tc ! k \<le> as_i64 at"
      using k(3) new_temporal_le_iff [OF at(1)] time(1) by simp
    moreover have "hd (tc_times tc) \<le> tc_times tc ! k"
      using sorted tc k(1) by (cases "tc_times tc") (auto simp: tc_ok_def nth_Cons split: nat.splits)
    ultimately show ?thesis by (rule order_trans [rotated])
  qed
  then show ?thesis
    using latest_at_answer [OF A ok(2) c(2) at ids, of component new_id] ok(3) w by (auto split: if_splits)
qed

lemma latest_at_composes:
  assumes A: "arrow_laws A" and ok: "store_ok A s" and at: "time_ok at" "at \<noteq> STATIC"
    and rowids: "\<And>i c. physical s i = Some c \<Longrightarrow> \<forall>r \<in> set (chunk_row_ids c). tuid_ZERO < r"
    and static: "static_chunk_id s p component = None"
    and len: "measurable (component_index s p timeline component)"
    and query: "query = \<lparr>lq_timeline = Some timeline, lq_at = at\<rparr>"
    and res: "latest_at_relevant_chunks debug s mode query p component = Some (res, s')"
    and complete: "mode \<noteq> Ignore" "\<not> is_partial res"
    and c: "physical s i = Some c" "path_eq (chunk_entity_path c) p" "w \<in> set (latest_candidates A c timeline at component)"
    and tc: "map_of (chunk_timelines c) timeline = Some tc"
  shows "\<exists>d \<in> set (qr_chunks res). \<exists>u r. latest_at A new_id d query component = Some (Some u) \<and>
    rows A (unit_chunk u) = [r] \<and> r \<in> set (latest_candidates A d timeline at component) \<and> rw_key timeline w \<le> rw_key timeline r"
proof -
  let ?idx = "or_default index_default (component_index s p timeline component)"
  let ?E = "component_entries A (physical s) p timeline component"
  have s: "loaded_ok A s" and indexed: "indexes (component_index s p timeline component) ?E (dom (physical s))"
    using ok by (simp_all add: store_ok_def tracks_def)
  obtain es where es: "entries_ok ?idx es" "{(i, r) \<in> es. i \<in> dom (physical s)} = ?E"
    by (rule indexes_entries [OF indexed len])
  define T where "T j = {new_temporal (rw_time timeline v) | v d. physical s j = Some d \<and> v \<in> set (rows A d) \<and> rw_cells v component \<noteq> None}" for j
  define ids where "ids = or_default [] (index_latest_at at ?idx)"
  have none: "index_latest_at at index_default = None" by (simp add: index_latest_at_def index_default_def last_opt_def)
  have from_ids: "from_chunk_ids debug s mode ids = Some (res, s')"
    using res static none unfolding ids_def query
    by (cases "component_index s p timeline component") (simp_all add: latest_at_relevant_chunks_def)
  have found: "physical s j \<noteq> None" if "j \<in> set ids" for j
    using from_chunk_ids_Some(2) [OF from_ids complete(1)] complete(2) that by (auto simp: is_partial_def filter_empty_conv)
  have starts: "range_min sr \<in> T j"
    if j: "index_latest_at at ?idx = Some js" "j \<in> set js" "(j, sr) \<in> es" for js j sr
  proof -
    have "j \<in> set ids" using j(1,2) by (simp add: ids_def)
    then have "(j, sr) \<in> ?E" using found es(2) j(3) by auto
    then obtain d ts where d: "physical s j = Some d"
      "ts = map (rw_time timeline) (filter (\<lambda>w. rw_cells w component \<noteq> None) (rows A d))"
      "range_min sr = (if ts = [] then time_MAX else new_temporal (Min (set ts)))"
      "range_max sr = (if ts = [] then time_MIN else new_temporal (Max (set ts)))"
      by (rule arrow_laws.component_entry [OF A s])
    have "abs_length sr \<le> max_interval_length ?idx" "uint (max_interval_length ?idx) \<le> i64_max"
      using es(1) j(3) by (auto simp: entries_ok_def index_ok_def)
    then have "\<not> uint (abs_length sr) > i64_max" by (simp add: word_le_def)
    then have "ts \<noteq> []" using abs_length_inverted [of sr] d(3,4) by auto
    then have "Min (set ts) \<in> set ts" by (intro Min_in) auto
    then show ?thesis using d(1,3) \<open>ts \<noteq> []\<close> unfolding T_def d(2) by auto
  qed
  have w: "w \<in> set (rows A c)" "rw_cells w component \<noteq> None" "new_temporal (rw_time timeline w) \<le> at"
    using c(3) by (auto simp: latest_candidates_def)
  obtain r where r: "(i, r) \<in> ?E" "range_min r \<le> new_temporal (rw_time timeline w)" "new_temporal (rw_time timeline w) \<le> range_max r"
    by (rule arrow_laws.component_entry_row [OF A s c(1,2) tc w(1,2)])
  have "(i, r) \<in> es" using r(1) es(2) by auto
  from per_time.latest_dominates [where T = T, OF es(1) this r(2,3) w(3)] starts
  have "i \<in> set ids \<or> (\<exists>j \<in> set ids. \<exists>u \<in> T j. new_temporal (rw_time timeline w) < u \<and> u \<le> at)"
    by (auto simp: ids_def)
  then show ?thesis
  proof (elim disjE bexE conjE)
    assume "i \<in> set ids"
    then have "c \<in> set (qr_chunks res)" using from_chunk_ids_Some(1) [OF from_ids] c(1) by auto
    then show ?thesis
      using loaded_chunk_answer [OF A s c(1) tc at rowids [OF c(1)] c(3), of new_id] unfolding query by blast
  next
    fix j u assume j: "j \<in> set ids" "u \<in> T j" "new_temporal (rw_time timeline w) < u" "u \<le> at"
    then obtain d v where d: "physical s j = Some d" "v \<in> set (rows A d)" "rw_cells v component \<noteq> None" "u = new_temporal (rw_time timeline v)"
      by (auto simp: T_def)
    obtain js where "index_latest_at at ?idx = Some js" "j \<in> set js"
      using j(1) by (cases "index_latest_at at ?idx") (auto simp: ids_def)
    then obtain sr where "(j, sr) \<in> es" using per_time.latest_sound [OF es(1)] by blast
    then have "(j, sr) \<in> ?E" using es(2) d(1) by auto
    then obtain tc' where tc': "map_of (chunk_timelines d) timeline = Some tc'"
      using d(1) by (auto simp: component_entries_def)
    have v: "v \<in> set (latest_candidates A d timeline at component)" using d j(4) by (simp add: latest_candidates_def)
    have "rw_key timeline w \<le> rw_key timeline v" using j(3) d(4) by (simp add: rw_key_def less_eq_prod_def)
    moreover have "d \<in> set (qr_chunks res)" using from_chunk_ids_Some(1) [OF from_ids] j(1) d(1) by auto
    ultimately show ?thesis
      using loaded_chunk_answer [OF A s d(1) tc' at rowids [OF d(1)] v, of new_id] unfolding query by (blast intro: order_trans)
  qed
qed

section \<open>Range\<close>

lemma range_composes:
  assumes A: "arrow_laws A" and ok: "store_ok A s" and q: "range_ok (rq_range query)"
    and static: "static_chunk_id s p component = None"
    and len: "measurable (component_index s p (rq_timeline query) component)"
    and res: "range_relevant_chunks debug A s mode query p component = Some (res, s')"
  shows "c \<in> set (qr_chunks res) \<longleftrightarrow>
    (\<exists>i r. physical s i = Some c \<and> (i, r) \<in> component_entries A (physical s) p (rq_timeline query) component \<and> intersects r (rq_range query))"
proof -
  let ?opt = "component_index s p (rq_timeline query) component"
  let ?idx = "or_default index_default ?opt"
  let ?E = "component_entries A (physical s) p (rq_timeline query) component"
  have indexed: "indexes ?opt ?E (dom (physical s))" using ok by (simp add: store_ok_def tracks_def)
  obtain es where es: "entries_ok ?idx es" "{(i, r) \<in> es. i \<in> dom (physical s)} = ?E"
    by (rule indexes_entries [OF indexed len])
  define ids where "ids = index_range query (case ?opt of None \<Rightarrow> [] | Some idx \<Rightarrow> [idx])"
  have "index_range query [index_default] = []"
    by (simp add: index_range_def index_default_def split: prod.splits)
  then have ids: "set ids = set (index_range query [?idx])"
    unfolding ids_def by (cases ?opt) (simp_all add: index_range_def)
  obtain res0 where res0: "from_chunk_ids debug s mode ids = Some (res0, s')"
    "qr_chunks res = filter (\<lambda>chunk. case map_of (chunk_timelines chunk) (rq_timeline query) of
              None \<Rightarrow> False
            | Some time_column \<Rightarrow>
                (case map_of (tc_time_range_per_component A time_column (chunk_components chunk)) component of
                   None \<Rightarrow> False | Some r \<Rightarrow> intersects r (rq_range query))) (qr_chunks res0)"
    using res static unfolding ids_def by (auto simp: range_relevant_chunks_def filter_chunks_def)
  have mem: "c \<in> set (qr_chunks res) \<longleftrightarrow> (\<exists>i \<in> set ids. physical s i = Some c) \<and>
      (\<exists>tc r. map_of (chunk_timelines c) (rq_timeline query) = Some tc \<and>
         map_of (tc_time_range_per_component A tc (chunk_components c)) component = Some r \<and> intersects r (rq_range query))"
    unfolding res0(2) using from_chunk_ids_Some(1) [OF res0(1)] by (auto split: option.splits)
  show ?thesis
  proof
    assume "c \<in> set (qr_chunks res)"
    then obtain i tc r where i: "i \<in> set ids" "physical s i = Some c" "map_of (chunk_timelines c) (rq_timeline query) = Some tc"
      "map_of (tc_time_range_per_component A tc (chunk_components c)) component = Some r" "intersects r (rq_range query)"
      unfolding mem by blast
    obtain r' where "(i, r') \<in> es" using per_time.range_sound [OF es(1) q] i(1) ids by blast
    then have "(i, r') \<in> ?E" using es(2) i(2) by auto
    then have "(i, r) \<in> ?E" using i(2-4) by (auto simp: component_entries_def)
    then show "\<exists>i r. physical s i = Some c \<and> (i, r) \<in> ?E \<and> intersects r (rq_range query)" using i(2,5) by blast
  next
    assume "\<exists>i r. physical s i = Some c \<and> (i, r) \<in> ?E \<and> intersects r (rq_range query)"
    then obtain i r where i: "physical s i = Some c" "(i, r) \<in> ?E" "intersects r (rq_range query)" by blast
    then have "(i, r) \<in> es" using es(2) by auto
    then have "i \<in> set ids" using per_time.range_covers [OF es(1) q] i(3) ids by blast
    then show "c \<in> set (qr_chunks res)" unfolding mem using i by (auto simp: component_entries_def)
  qed
qed

section \<open>The next and the previous time\<close>

text \<open>The best element of a set for an order, and the loops that look for it.\<close>

locale best_of =
  fixes le :: "TimeInt \<Rightarrow> TimeInt \<Rightarrow> bool" and better :: "TimeInt option \<Rightarrow> TimeInt option \<Rightarrow> TimeInt option"
  assumes le_refl: "le a a" and le_trans: "le a b \<Longrightarrow> le b c \<Longrightarrow> le a c" and le_total: "le a b \<or> le b a"
    and better_Some: "better (Some a) (Some b) = Some (if le a b then a else b)"
    and better_None: "better None x = x" "better x None = x"
begin

definition is_best :: "TimeInt option \<Rightarrow> TimeInt set \<Rightarrow> bool" where
  "is_best x S \<longleftrightarrow> (case x of None \<Rightarrow> S = {} | Some a \<Rightarrow> a \<in> S \<and> (\<forall>b \<in> S. le a b))"

lemma is_best_better: "is_best x S \<Longrightarrow> is_best y T \<Longrightarrow> is_best (better x y) (S \<union> T)"
proof (cases x; cases y)
  fix a b assume "x = Some a" "y = Some b" "is_best x S" "is_best y T"
  then show "is_best (better x y) (S \<union> T)"
    using le_total [of a b] le_trans [of a b] le_trans [of b a] by (auto simp: is_best_def better_Some)
qed (auto simp: is_best_def better_None)

lemma is_best_fold:
  assumes "is_best x S" "\<And>i. i \<in> set is \<Longrightarrow> is_best (search i) (U i)"
  shows "is_best (fold (\<lambda>i r. better r (search i)) is x) (S \<union> (\<Union>i \<in> set is. U i))"
  using assms
proof (induction "is" arbitrary: x S)
  case (Cons i "is")
  have "is_best (fold (\<lambda>i r. better r (search i)) is (better x (search i))) ((S \<union> U i) \<union> (\<Union>i \<in> set is. U i))"
    by (rule Cons.IH) (use Cons.prems is_best_better in auto)
  then show ?case by (simp add: Un_assoc)
qed simp

lemma is_best_scan:
  assumes "is_best x S" "\<And>t ids i. (t, ids) \<in> set m \<Longrightarrow> i \<in> set ids \<Longrightarrow> is_best (search i) (U i)"
    and stop: "(\<forall>r t. \<not> stop r t) \<or> stop = le \<and> sorted_wrt le (map fst m) \<and>
      (\<forall>(t, ids) \<in> set m. \<forall>i \<in> set ids. \<forall>u \<in> U i. le t u)"
  shows "is_best (scan_until stop better search m x) (S \<union> (\<Union>(t, ids) \<in> set m. \<Union>i \<in> set ids. U i))"
  using assms
proof (induction m arbitrary: x S)
  case (Cons e m)
  obtain t ids where e: "e = (t, ids)" by (cases e)
  show ?case
  proof (cases "\<exists>r. x = Some r \<and> stop r t")
    case True
    then obtain r where r: "x = Some r" "stop r t" by blast
    have "le r u" if t': "(t', ids') \<in> set (e # m)" "i \<in> set ids'" "u \<in> U i" for t' ids' i u
    proof -
      have "le t t'" using t'(1) Cons.prems(3) r(2) le_refl by (auto simp: e)
      moreover have "le r t" "le t' u" using Cons.prems(3) r(2) t' by fastforce+
      ultimately show ?thesis using le_trans by blast
    qed
    then show ?thesis using Cons.prems(1) r by (auto simp: e is_best_def)
  next
    case False
    have "is_best (fold (\<lambda>i r. better r (search i)) ids x) (S \<union> (\<Union>i \<in> set ids. U i))"
      by (rule is_best_fold) (use Cons.prems(1,2) e in auto)
    then have "is_best (scan_until stop better search m (fold (\<lambda>i r. better r (search i)) ids x))
        ((S \<union> (\<Union>i \<in> set ids. U i)) \<union> (\<Union>(t, ids) \<in> set m. \<Union>i \<in> set ids. U i))"
      by (rule Cons.IH) (use Cons.prems(2,3) in \<open>auto simp: e\<close>)
    then show ?thesis using False by (cases x) (auto simp: e Un_assoc)
  qed
qed simp

lemma is_best_scans:
  assumes "is_best x S" "\<And>i. is_best (search i) (U i)"
    and m: "set m = set m1 \<union> set m2" "sorted_wrt le (map fst m1)"
    and bound: "\<And>t i u. (t, i) \<in> pairs m \<Longrightarrow> u \<in> U i \<Longrightarrow> le t u"
  shows "is_best (scan_until (\<lambda>_ _. False) better search m2 (scan_until le better search m1 x)) (S \<union> (\<Union>i \<in> snd ` pairs m. U i))"
proof -
  have Union: "(\<Union>i \<in> snd ` pairs m. U i) =
      (\<Union>(t, ids) \<in> set m1. \<Union>i \<in> set ids. U i) \<union> (\<Union>(t, ids) \<in> set m2. \<Union>i \<in> set ids. U i)"
    using m(1) by (fastforce simp: pairs_def)
  have "\<forall>(t, ids) \<in> set m1. \<forall>i \<in> set ids. \<forall>u \<in> U i. le t u"
    using bound m(1) by (fastforce simp: pairs_def)
  then have "is_best (scan_until le better search m1 x) (S \<union> (\<Union>(t, ids) \<in> set m1. \<Union>i \<in> set ids. U i))"
    by (intro is_best_scan) (use assms(1,2) m(2) in blast)+
  then have "is_best (scan_until (\<lambda>_ _. False) better search m2 (scan_until le better search m1 x))
      ((S \<union> (\<Union>(t, ids) \<in> set m1. \<Union>i \<in> set ids. U i)) \<union> (\<Union>(t, ids) \<in> set m2. \<Union>i \<in> set ids. U i))"
    by (rule is_best_scan) (use assms(2) in auto)
  then show ?thesis unfolding Union by (simp add: Un_assoc)
qed

end

interpretation earliest: best_of "(\<le>)" opt_min
proof
  show "opt_min x None = x" for x by (cases x) auto
qed (auto simp: min_def)

interpretation latest: best_of "(\<ge>)" opt_max
proof
  show "opt_max x None = x" for x by (cases x) auto
qed (auto simp: max_def)

definition chunk_times_on :: "'a ChunkStore \<Rightarrow> string \<Rightarrow> ChunkId \<Rightarrow> TimeInt set" where
  "chunk_times_on s timeline i =
     {u. \<exists>c tc. physical s i = Some c \<and> map_of (chunk_timelines c) timeline = Some tc \<and> u \<in> set (column_times tc)}"

definition store_times :: "'a ChunkStore \<Rightarrow> string \<Rightarrow> TimeInt set" where
  "store_times s timeline = (\<Union>i. chunk_times_on s timeline i)"

lemma tc_range_bounds:
  assumes "tc_ok tc" "u \<in> set (column_times tc)"
  shows "range_min (tc_time_range tc) \<le> u" "u \<le> range_max (tc_time_range tc)"
proof -
  obtain t where t: "t \<in> set (tc_times tc)" "u = new_temporal t" using assms(2) by (auto simp: column_times_def)
  have "range_min (tc_time_range tc) = new_temporal (Min (set (tc_times tc)))"
    "range_max (tc_time_range tc) = new_temporal (Max (set (tc_times tc)))"
    using assms(1) t(1) new_temporal_as_i64 [of "range_min (tc_time_range tc)"] new_temporal_as_i64 [of "range_max (tc_time_range tc)"]
    by (auto simp: tc_ok_def range_ok_def)
  then show "range_min (tc_time_range tc) \<le> u" "u \<le> range_max (tc_time_range tc)"
    using t by (auto intro!: monoD [OF mono_new_temporal] Min_le Max_ge)
qed

lemma loaded_column:
  assumes "loaded_ok A s" "physical s i = Some c" "map_of (chunk_timelines c) timeline = Some tc"
  shows "tc_ok tc" "length (tc_times tc) = num_rows c" "tc_times tc \<noteq> []"
proof -
  have "columns_ok A c" "num_rows c \<noteq> 0" using loaded [OF assms(1,2)] by blast+
  then show "tc_ok tc" "length (tc_times tc) = num_rows c" "tc_times tc \<noteq> []"
    using map_of_SomeD [OF assms(3)] by (auto simp: columns_ok_def timelines_ok_def)
qed

lemma search_is_best:
  assumes "loaded_ok A s" "time_ok t"
  shows "earliest.is_best (search_chunk_by_time s timeline (\<lambda>tc. find_next_time tc t) i) {u \<in> chunk_times_on s timeline i. t < u}"
    "latest.is_best (search_chunk_by_time s timeline (\<lambda>tc. find_prev_time tc t) i) {u \<in> chunk_times_on s timeline i. u < t}"
proof -
  have "earliest.is_best (search_chunk_by_time s timeline (\<lambda>tc. find_next_time tc t) i) {u \<in> chunk_times_on s timeline i. t < u} \<and>
    latest.is_best (search_chunk_by_time s timeline (\<lambda>tc. find_prev_time tc t) i) {u \<in> chunk_times_on s timeline i. u < t}"
  proof (cases "\<exists>c tc. physical s i = Some c \<and> map_of (chunk_timelines c) timeline = Some tc")
    case True
    then obtain c tc where c: "physical s i = Some c" "map_of (chunk_timelines c) timeline = Some tc" by blast
    then have "chunk_times_on s timeline i = set (column_times tc)" by (simp add: chunk_times_on_def)
    moreover note find_time_exact [OF loaded_column(1) [OF assms(1) c] assms(2)]
    moreover have "finite {u \<in> set (column_times tc). t < u}" "finite {u \<in> set (column_times tc). u < t}" by simp_all
    ultimately show ?thesis
      using c Min_in [of "{u \<in> set (column_times tc). t < u}"] Max_in [of "{u \<in> set (column_times tc). u < t}"]
      by (auto simp: search_chunk_by_time_def earliest.is_best_def latest.is_best_def Let_def
          intro: Min_le Max_ge split: if_splits)
  next
    case False
    then have "search_chunk_by_time s timeline search i = None" "chunk_times_on s timeline i = {}" for search
      by (auto simp: search_chunk_by_time_def chunk_times_on_def bind_eq_None_conv)
    then show ?thesis by (simp add: earliest.is_best_def latest.is_best_def)
  qed
  then show "earliest.is_best (search_chunk_by_time s timeline (\<lambda>tc. find_next_time tc t) i) {u \<in> chunk_times_on s timeline i. t < u}"
    "latest.is_best (search_chunk_by_time s timeline (\<lambda>tc. find_prev_time tc t) i) {u \<in> chunk_times_on s timeline i. u < t}" by blast+
qed

lemma entry_bounds:
  assumes s: "loaded_ok A s" and E: "{(i, r) \<in> es. i \<in> dom (physical s)} = timeline_entries (physical s) p timeline"
    and u: "(i, r) \<in> es" "u \<in> chunk_times_on s timeline i"
  shows "range_min r \<le> u" "u \<le> range_max r"
proof -
  obtain c tc where c: "physical s i = Some c" "map_of (chunk_timelines c) timeline = Some tc" "u \<in> set (column_times tc)"
    using u(2) by (auto simp: chunk_times_on_def)
  then have "(i, r) \<in> timeline_entries (physical s) p timeline" using u(1) E by auto
  then have "r = tc_time_range tc" using c by (auto simp: timeline_entries_def)
  then show "range_min r \<le> u" "u \<le> range_max r" using tc_range_bounds [OF loaded_column(1) [OF s c(1,2)] c(3)] by simp_all
qed

text \<open>What one index contributes.\<close>

lemma scan_index:
  assumes s: "loaded_ok A s" and t: "time_ok t" and idx: "indexes (Some idx) (timeline_entries (physical s) p timeline) (dom (physical s))"
  defines "U \<equiv> \<Union>i \<in> fst ` timeline_entries (physical s) p timeline. chunk_times_on s timeline i"
  shows "earliest.is_best x S \<Longrightarrow>
      earliest.is_best (scan_until (\<lambda>_ _. False) opt_min (search_chunk_by_time s timeline (\<lambda>tc. find_next_time tc t))
          (rev (filter (\<lambda>(u, _). u \<le> t) (per_start_time idx)))
        (scan_until (\<le>) opt_min (search_chunk_by_time s timeline (\<lambda>tc. find_next_time tc t))
          (filter (\<lambda>(u, _). t < u) (per_start_time idx)) x)) (S \<union> {u \<in> U. t < u})"
    and "latest.is_best x S \<Longrightarrow>
      latest.is_best (scan_until (\<lambda>_ _. False) opt_max (search_chunk_by_time s timeline (\<lambda>tc. find_prev_time tc t))
          (filter (\<lambda>(u, _). t \<le> u) (per_end_time idx))
        (scan_until (\<ge>) opt_max (search_chunk_by_time s timeline (\<lambda>tc. find_prev_time tc t))
          (rev (filter (\<lambda>(u, _). u < t) (per_end_time idx))) x)) (S \<union> {u \<in> U. u < t})"
proof -
  obtain es where es: "index_ok idx es" "{(i, r) \<in> es. i \<in> dom (physical s)} = timeline_entries (physical s) p timeline"
    using idx by (auto simp: indexes_def)
  have pairs: "pairs (per_start_time idx) = (\<lambda>(i, r). (range_min r, i)) ` es"
    "pairs (per_end_time idx) = (\<lambda>(i, r). (range_max r, i)) ` es"
    and sorted: "sorted_wrt (<) (map fst (per_start_time idx))" "sorted_wrt (<) (map fst (per_end_time idx))"
    using es(1) by (simp_all add: index_ok_def map_ok_def)
  have snds: "snd ` (\<lambda>(i, r). (f r, i)) ` es = fst ` es" for f :: "AbsoluteTimeRange \<Rightarrow> TimeInt" by force
  have U: "{u \<in> U. P u} = (\<Union>i \<in> fst ` es. {u \<in> chunk_times_on s timeline i. P u})" for P
    unfolding U_def es(2) [symmetric] by (auto simp: chunk_times_on_def)
  have sorted1: "sorted_wrt (\<le>) (map fst (filter (\<lambda>(u, _). t < u) (per_start_time idx)))"
    using sorted(1) by (simp add: sorted_wrt_map) (auto intro!: sorted_wrt_filter elim!: sorted_wrt_mono_rel [rotated])
  have sorted2: "sorted_wrt (\<ge>) (map fst (rev (filter (\<lambda>(u, _). u < t) (per_end_time idx))))"
    using sorted(2) by (simp add: sorted_wrt_map sorted_wrt_rev) (auto intro!: sorted_wrt_filter elim!: sorted_wrt_mono_rel [rotated])
  have bounds: "v \<le> u" if "(v, i) \<in> pairs (per_start_time idx)" "u \<in> chunk_times_on s timeline i" for v i u
    using that entry_bounds(1) [OF s es(2)] unfolding pairs by auto
  have bounds': "u \<le> v" if "(v, i) \<in> pairs (per_end_time idx)" "u \<in> chunk_times_on s timeline i" for v i u
    using that entry_bounds(2) [OF s es(2)] unfolding pairs by auto
  { assume "earliest.is_best x S"
    then show "earliest.is_best (scan_until (\<lambda>_ _. False) opt_min (search_chunk_by_time s timeline (\<lambda>tc. find_next_time tc t))
          (rev (filter (\<lambda>(u, _). u \<le> t) (per_start_time idx)))
        (scan_until (\<le>) opt_min (search_chunk_by_time s timeline (\<lambda>tc. find_next_time tc t))
          (filter (\<lambda>(u, _). t < u) (per_start_time idx)) x)) (S \<union> {u \<in> U. t < u})"
      unfolding U snds [symmetric, of range_min] pairs(1) [symmetric]
      by (rule earliest.is_best_scans [OF _ search_is_best(1) [OF s t] _ sorted1]) (auto dest: bounds) }
  { assume "latest.is_best x S"
    then show "latest.is_best (scan_until (\<lambda>_ _. False) opt_max (search_chunk_by_time s timeline (\<lambda>tc. find_prev_time tc t))
          (filter (\<lambda>(u, _). t \<le> u) (per_end_time idx))
        (scan_until (\<ge>) opt_max (search_chunk_by_time s timeline (\<lambda>tc. find_prev_time tc t))
          (rev (filter (\<lambda>(u, _). u < t) (per_end_time idx))) x)) (S \<union> {u \<in> U. u < t})"
      unfolding U snds [symmetric, of range_max] pairs(2) [symmetric]
      by (rule latest.is_best_scans [OF _ search_is_best(2) [OF s t] _ sorted2]) (auto dest: bounds') }
qed

lemma fold_entities:
  assumes "B x S" "\<And>e y T. e \<in> set m \<Longrightarrow> B y T \<Longrightarrow> B (f e y) (T \<union> W e)"
  shows "B (fold f m x) (S \<union> (\<Union>e \<in> set m. W e))"
  using assms
proof (induction m arbitrary: x S)
  case (Cons e m)
  have "B (fold f m (f e x)) ((S \<union> W e) \<union> (\<Union>e \<in> set m. W e))"
    by (rule Cons.IH) (use Cons.prems in auto)
  then show ?case by (simp add: Un_assoc)
qed simp

lemma path_get_key: "path_keys m \<Longrightarrow> (q, v) \<in> set m \<Longrightarrow> path_get q m = Some v"
proof (induction m)
  case (Cons e m)
  then show ?case by (cases e) (force simp: path_keys_def path_eq_def)
qed simp

lemma path_get_mem: "path_get p m = Some v \<Longrightarrow> \<exists>q. (q, v) \<in> set m \<and> path_eq q p"
  by (induction m) (auto split: if_splits)

lemma timeline_entries_cong: "path_eq p q \<Longrightarrow> timeline_entries P p timeline = timeline_entries P q timeline"
  by (auto simp: timeline_entries_def path_eq_def)

text \<open>The times that the entry of an entity contributes; together they are those of the store.\<close>

definition entity_times :: "'a ChunkStore \<Rightarrow> string \<Rightarrow> EntityPath \<times> ChunkIdSetPerTimePerTimeline \<Rightarrow> TimeInt set" where
  "entity_times s timeline e =
     (case map_of (snd e) timeline of None \<Rightarrow> {}
      | Some idx \<Rightarrow> \<Union>i \<in> fst ` timeline_entries (physical s) (fst e) timeline. chunk_times_on s timeline i)"

lemma store_times_entities:
  assumes "store_ok A s"
  shows "(\<Union>e \<in> set (temporal_chunk_ids_per_entity s). entity_times s timeline e) = store_times s timeline"
proof
  show "(\<Union>e \<in> set (temporal_chunk_ids_per_entity s). entity_times s timeline e) \<subseteq> store_times s timeline"
    by (auto simp: store_times_def entity_times_def split: option.splits)
  show "store_times s timeline \<subseteq> (\<Union>e \<in> set (temporal_chunk_ids_per_entity s). entity_times s timeline e)"
  proof
    fix u assume "u \<in> store_times s timeline"
    then obtain i c tc where c: "physical s i = Some c" "map_of (chunk_timelines c) timeline = Some tc" and u: "u \<in> chunk_times_on s timeline i"
      by (auto simp: store_times_def chunk_times_on_def)
    let ?p = "chunk_entity_path c"
    have E: "(i, tc_time_range tc) \<in> timeline_entries (physical s) ?p timeline" using c by (auto simp: timeline_entries_def)
    moreover have "indexes (timeline_index s ?p timeline) (timeline_entries (physical s) ?p timeline) (dom (physical s))"
      using assms by (simp add: store_ok_def tracks_def)
    ultimately obtain idx where "timeline_index s ?p timeline = Some idx"
      by (cases "timeline_index s ?p timeline") (auto simp: indexes_def index_ok_def index_default_def)
    then obtain v where v: "path_get ?p (temporal_chunk_ids_per_entity s) = Some v" "map_of v timeline = Some idx"
      by (auto simp: timeline_index_def bind_eq_Some_conv)
    obtain q where q: "(q, v) \<in> set (temporal_chunk_ids_per_entity s)" "path_eq q ?p" using path_get_mem [OF v(1)] by blast
    have "u \<in> entity_times s timeline (q, v)"
      using v(2) u E timeline_entries_cong [OF q(2)] by (force simp: entity_times_def)
    then show "u \<in> (\<Union>e \<in> set (temporal_chunk_ids_per_entity s). entity_times s timeline e)" using q(1) by blast
  qed
qed

lemma time_on_timeline_best:
  assumes ok: "store_ok A s" and t: "time_ok t"
  shows "earliest.is_best (next_time_on_timeline s timeline t) {u \<in> store_times s timeline. t < u}"
    "latest.is_best (prev_time_on_timeline s timeline t) {u \<in> store_times s timeline. u < t}"
proof -
  have s: "loaded_ok A s" and keys: "path_keys (temporal_chunk_ids_per_entity s)" using ok by (simp_all add: store_ok_def)
  have idx: "indexes (Some idx) (timeline_entries (physical s) q timeline) (dom (physical s))"
    if "(q, v) \<in> set (temporal_chunk_ids_per_entity s)" "map_of v timeline = Some idx" for q v idx
  proof -
    have "timeline_index s q timeline = Some idx" using path_get_key [OF keys that(1)] that(2) by (simp add: timeline_index_def)
    then show ?thesis using ok unfolding store_ok_def tracks_def by metis
  qed
  have times: "{u \<in> store_times s timeline. P u} =
      {} \<union> (\<Union>e \<in> set (temporal_chunk_ids_per_entity s). {u \<in> entity_times s timeline e. P u})" for P
    unfolding store_times_entities [OF ok, symmetric] by auto
  show "earliest.is_best (next_time_on_timeline s timeline t) {u \<in> store_times s timeline. t < u}"
    unfolding times next_time_on_timeline_def Let_def
  proof (rule fold_entities [where B = earliest.is_best], goal_cases)
    case (2 e y T)
    obtain q v where e: "e = (q, v)" by (rule prod.exhaust)
    show ?case
      using scan_index(1) [OF s t idx [of q v] 2(2)] 2 unfolding e
      by (cases "map_of v timeline") (simp_all add: entity_times_def)
  qed (simp add: earliest.is_best_def)
  show "latest.is_best (prev_time_on_timeline s timeline t) {u \<in> store_times s timeline. u < t}"
    unfolding times prev_time_on_timeline_def Let_def
  proof (rule fold_entities [where B = latest.is_best], goal_cases)
    case (2 e y T)
    obtain q v where e: "e = (q, v)" by (rule prod.exhaust)
    show ?case
      using scan_index(2) [OF s t idx [of q v] 2(2)] 2 unfolding e
      by (cases "map_of v timeline") (simp_all add: entity_times_def)
  qed (simp add: latest.is_best_def)
qed

section \<open>Distance\<close>

lemma abs_diff_le: "abs_diff a x \<le> abs_diff b x" if "ival x \<le> ival a \<and> ival a \<le> ival b \<or> ival b \<le> ival a \<and> ival a \<le> ival x"
  using that by (auto simp: word_le_def uint_abs_diff)

lemma nearest_fast_slow:
  assumes tc: "tc_ok tc"
  shows "nearest_fast time tc = nearest_slow time tc"
proof (cases "tc_is_sorted tc \<and> tc_times tc \<noteq> []")
  case True
  let ?xs = "tc_times tc" and ?x = "as_i64 time"
  let ?p = "partition_point (\<lambda>t. t < ?x) ?xs"
  have sorted: "sorted ?xs" and ne: "?xs \<noteq> []" using tc True by (simp_all add: tc_ok_def)
  have temporal: "t \<noteq> i64_MIN" if "t \<in> set ?xs" for t using tc that unfolding tc_ok_def by metis
  have raw: "map (\<lambda>t. abs_diff (as_i64 t) ?x) (column_times tc) = map (\<lambda>t. abs_diff t ?x) ?xs"
    using temporal by (simp add: column_times_def as_i64_new_temporal)
  define C where "C = set (List.map_filter (\<lambda>i. if i < length ?xs then Some (?xs ! i) else None) [?p - 1, ?p])"
  have below: "?xs ! i < ?x" if "i < ?p" for i
    using that unfolding partition_point_def by (metis nth_mem set_takeWhileD takeWhile_nth)
  have above: "\<not> ?xs ! ?p < ?x" if "?p < length ?xs"
    using that unfolding partition_point_def by (rule nth_length_takeWhile)
  have "\<exists>a \<in> C. abs_diff a ?x \<le> abs_diff (?xs ! i) ?x" if i: "i < length ?xs" for i
  proof (cases "i < ?p")
    case True
    then have "?xs ! i \<le> ?xs ! (?p - 1)" "?xs ! (?p - 1) < ?x" "?p - 1 < length ?xs"
      using sorted below [of "?p - 1"] partition_point_le [of "\<lambda>t. t < ?x" ?xs] i by (auto intro: sorted_nth_mono)
    then show ?thesis
      by (intro bexI [of _ "?xs ! (?p - 1)"] abs_diff_le) (auto simp: C_def List.map_filter_simps less_eq_i64_def less_i64_def)
  next
    case False
    then have p: "?p < length ?xs" using i by simp
    then have "?x \<le> ?xs ! ?p" "?xs ! ?p \<le> ?xs ! i" using above False sorted i by (auto intro: sorted_nth_mono)
    then show ?thesis using p
      by (intro bexI [of _ "?xs ! ?p"] abs_diff_le) (auto simp: C_def List.map_filter_simps less_eq_i64_def)
  qed
  then have covers: "\<exists>a \<in> C. abs_diff a ?x \<le> abs_diff b ?x" if "b \<in> set ?xs" for b using that by (auto simp: in_set_conv_nth)
  have sub: "C \<subseteq> set ?xs" by (auto simp: C_def List.map_filter_simps)
  have "finite C" by (simp add: C_def)
  have "hd ?xs \<in> set ?xs" using ne by simp
  then have "C \<noteq> {}" using covers by blast
  note this [simp] and \<open>finite C\<close> [simp]
  have "Min ((\<lambda>t. abs_diff t ?x) ` C) = Min ((\<lambda>t. abs_diff t ?x) ` set ?xs)"
  proof (rule antisym)
    show "Min ((\<lambda>t. abs_diff t ?x) ` set ?xs) \<le> Min ((\<lambda>t. abs_diff t ?x) ` C)"
      using sub \<open>C \<noteq> {}\<close> by (intro Min_antimono) auto
    have "Min ((\<lambda>t. abs_diff t ?x) ` C) \<le> abs_diff b ?x" if "b \<in> set ?xs" for b
      using covers [OF that] \<open>finite C\<close> by (auto intro: order_trans [OF Min_le])
    then show "Min ((\<lambda>t. abs_diff t ?x) ` C) \<le> Min ((\<lambda>t. abs_diff t ?x) ` set ?xs)" using ne by auto
  qed
  moreover have "nearest_fast time tc = (if C = {} then None else Some (Min ((\<lambda>t. abs_diff t ?x) ` C)))"
  proof -
    have pm: "?p - 1 < length ?xs" using partition_point_le [of "\<lambda>t. t < ?x" ?xs] ne by (cases ?xs) auto
    show ?thesis
      using True pm by (cases "?p < length ?xs") (auto simp: nearest_fast_def Let_def C_def List.map_filter_simps iter_min_eq)
  qed
  moreover have "nearest_slow time tc = Some (Min ((\<lambda>t. abs_diff t ?x) ` set ?xs))"
    unfolding nearest_slow_def raw using ne by (simp add: iter_min_eq)
  ultimately show ?thesis using \<open>C \<noteq> {}\<close> by simp
next
  case False
  then show ?thesis by (auto simp: nearest_fast_def nearest_slow_def column_times_def Let_def List.map_filter_simps)
qed

lemma map_filter_cong: "(\<And>x. x \<in> set xs \<Longrightarrow> f x = g x) \<Longrightarrow> List.map_filter f xs = List.map_filter g xs"
  by (induction xs) (auto simp: List.map_filter_simps split: option.splits)

lemma furthest_fast_slow:
  assumes s: "loaded_ok A s"
  shows "find_temporal_chunks_furthest_from s timeline time = find_temporal_chunks_furthest_from_slow s timeline time"
proof -
  have "map_of (physical_chunks_per_chunk_id s) i = Some c" if "(i, c) \<in> set (physical_chunks_per_chunk_id s)" for i c
    using s that by (intro map_of_is_SomeI) (auto simp: loaded_ok_def strict_sorted_iff)
  then have "nearest_fast time tc = nearest_slow time tc"
    if "(i, c) \<in> set (physical_chunks_per_chunk_id s)" "map_of (chunk_timelines c) timeline = Some tc" for i c tc
    using that by (intro nearest_fast_slow loaded_column(1) [OF s])
  then have "List.map_filter (\<lambda>(_, chunk). do { tc \<leftarrow> map_of (chunk_timelines chunk) timeline; dist \<leftarrow> nearest_fast time tc; Some (chunk, dist) })
        (physical_chunks_per_chunk_id s) =
      List.map_filter (\<lambda>(_, chunk). do { tc \<leftarrow> map_of (chunk_timelines chunk) timeline; dist \<leftarrow> nearest_slow time tc; Some (chunk, dist) })
        (physical_chunks_per_chunk_id s)"
    by (intro map_filter_cong) (auto split: option.splits simp: bind_eq_None_conv intro!: Option.bind_cong)
  then show ?thesis
    unfolding find_temporal_chunks_furthest_from_def find_temporal_chunks_furthest_from_slow_def furthest_first_def by simp
qed

end
