(* ===== verification/Store_Write.thy ===== *)
theory Store_Write
  imports Store_Query Chunk_Merge
begin

text \<open>
  How the store changes (\<open>src/crates/store/dl_chunk_store/src/writes.rs\<close> and \<open>gc.rs\<close>): entering a chunk into the
  indices, taking it out of the physical or of all of them, and what these do to the invariant of the store.
  The time budget of a sweep is an oracle that says after how many removals it is used up.
\<close>

section \<open>Statistics\<close>

definition stats_add :: "ChunkStoreChunkStats \<Rightarrow> ChunkStoreChunkStats \<Rightarrow> ChunkStoreChunkStats" where
  "stats_add a b = \<lparr>stat_num_chunks = stat_num_chunks a + stat_num_chunks b,
     stat_total_size_bytes = stat_total_size_bytes a + stat_total_size_bytes b,
     stat_num_rows = stat_num_rows a + stat_num_rows b, stat_num_events = stat_num_events a + stat_num_events b\<rparr>"

definition stats_sub :: "ChunkStoreChunkStats \<Rightarrow> ChunkStoreChunkStats \<Rightarrow> ChunkStoreChunkStats" where
  "stats_sub a b = \<lparr>stat_num_chunks = stat_num_chunks a - stat_num_chunks b,
     stat_total_size_bytes = stat_total_size_bytes a - stat_total_size_bytes b,
     stat_num_rows = stat_num_rows a - stat_num_rows b, stat_num_events = stat_num_events a - stat_num_events b\<rparr>"

definition total_size_bytes :: "'a build \<Rightarrow> u64 \<Rightarrow> 'a Chunk \<Rightarrow> u64" where
  "total_size_bytes B stack_size c = stack_size + fst (heap_size_bytes B c)"

definition stats_from_chunk :: "'a build \<Rightarrow> ('a, 'd, 'v) arrow \<Rightarrow> u64 \<Rightarrow> 'a Chunk \<Rightarrow> ChunkStoreChunkStats" where
  "stats_from_chunk B A stack_size c =
     \<lparr>stat_num_chunks = 1, stat_total_size_bytes = total_size_bytes B stack_size c,
      stat_num_rows = word_of_nat (num_rows c), stat_num_events = num_events_cumulative A c\<rparr>"

section \<open>Entering a chunk into the indices\<close>

text \<open>\<open>entry(key).or_default()\<close> for each key of a list, with the value changed in place.\<close>

definition entry_each :: "'x \<Rightarrow> ('v \<Rightarrow> 'x \<Rightarrow> 'x) \<Rightarrow> ('k \<times> 'v) list \<Rightarrow> ('k \<times> 'x) list \<Rightarrow> ('k \<times> 'x) list" where
  "entry_each d f = fold (\<lambda>(k, v) m. AList.update k (f v (or_default d (map_of m k))) m)"

definition index_with_component :: "('a, 'd, 'v) arrow \<Rightarrow> 'a Chunk \<Rightarrow> 'a ChunkStore \<Rightarrow> 'a ChunkStore" where
  "index_with_component A c s =
     (let m = temporal_chunk_ids_per_entity_per_component s;
          p = chunk_entity_path c;
          per_timeline = or_default [] (path_get p m)
      in s\<lparr>temporal_chunk_ids_per_entity_per_component :=
             path_put p (entry_each [] (entry_each index_default (index_add (chunk_id c)))
               (time_range_per_component A c) per_timeline) m\<rparr>)"

definition index_without_component :: "'a Chunk \<Rightarrow> 'a ChunkStore \<Rightarrow> 'a ChunkStore" where
  "index_without_component c s =
     (let m = temporal_chunk_ids_per_entity s;
          p = chunk_entity_path c;
          per_timeline = or_default [] (path_get p m)
      in s\<lparr>temporal_chunk_ids_per_entity :=
             path_put p (entry_each index_default (index_add (chunk_id c) \<circ> tc_time_range) (chunk_timelines c) per_timeline) m\<rparr>)"

definition insert_physical :: "'a Chunk \<Rightarrow> 'a ChunkStore \<Rightarrow> 'a ChunkStore" where
  "insert_physical c s =
     (let s = modify_lineage (chunk_id c) add_ref
            (s\<lparr>physical_chunks_per_chunk_id := ordered_put (chunk_id c) c (physical_chunks_per_chunk_id s)\<rparr>)
      in case row_id_range c of
           None \<Rightarrow> s
         | Some (min_row_id, _) \<Rightarrow>
             s\<lparr>physical_chunk_ids_per_min_row_id := insort_insert (min_row_id, chunk_id c) (physical_chunk_ids_per_min_row_id s)\<rparr>)"

section \<open>Taking a chunk out\<close>

text \<open>\<open>get_mut(key)\<close> for each key of a list; keys that are absent are skipped.\<close>

definition modify_each ::
  "('v \<Rightarrow> 'x \<Rightarrow> 'x \<times> bool) \<Rightarrow> ('k \<times> 'v) list \<Rightarrow> ('k \<times> 'x) list \<Rightarrow> ('k \<times> 'x) list \<times> bool" where
  "modify_each f kvs m0 = fold (\<lambda>(k, v) (m, b). case map_of m k of
       None \<Rightarrow> (m, b)
     | Some x \<Rightarrow> (case f v x of (x', b') \<Rightarrow> (AList.update k x' m, b \<or> b'))) kvs (m0, False)"

definition remove_chunk_from_virtual_indices :: "('a, 'd, 'v) arrow \<Rightarrow> 'a Chunk \<Rightarrow> 'a ChunkStore \<Rightarrow> 'a ChunkStore \<times> bool" where
  "remove_chunk_from_virtual_indices A c s =
     (let p = chunk_entity_path c;
          (with_component, b1) = (case path_get p (temporal_chunk_ids_per_entity_per_component s) of
             None \<Rightarrow> (temporal_chunk_ids_per_entity_per_component s, False)
           | Some per_timeline \<Rightarrow>
               (case modify_each (modify_each (index_remove (chunk_id c))) (time_range_per_component A c) per_timeline of
                  (per_timeline, b) \<Rightarrow> (path_put p per_timeline (temporal_chunk_ids_per_entity_per_component s), b)));
          (without_component, b2) = (case path_get p (temporal_chunk_ids_per_entity s) of
             None \<Rightarrow> (temporal_chunk_ids_per_entity s, False)
           | Some per_timeline \<Rightarrow>
               (case modify_each (index_remove (chunk_id c) \<circ> tc_time_range) (chunk_timelines c) per_timeline of
                  (per_timeline, b) \<Rightarrow> (path_put p per_timeline (temporal_chunk_ids_per_entity s), b)))
      in (s\<lparr>temporal_chunk_ids_per_entity_per_component := with_component, temporal_chunk_ids_per_entity := without_component\<rparr>,
          b1 \<or> b2))"

text \<open>
  The loop over the chunks: the deleted chunks in order, and the new store. \<open>exhausted n\<close> tells whether the
  budget is used up after \<open>n\<close> removals.
\<close>

fun remove_chunks_shallow ::
  "'a build \<Rightarrow> ('a, 'd, 'v) arrow \<Rightarrow> u64 \<Rightarrow> (nat \<Rightarrow> bool) \<Rightarrow> 'a Chunk list \<Rightarrow> 'a ChunkStore \<Rightarrow> 'a Chunk list \<times> 'a ChunkStore" where
  "remove_chunks_shallow B A stack_size exhausted [] s = ([], s)"
| "remove_chunks_shallow B A stack_size exhausted (c # cs) s =
     (let s = (case row_id_range c of
             None \<Rightarrow> s
           | Some (row_id_min, _) \<Rightarrow>
               s\<lparr>physical_chunk_ids_per_min_row_id := removeAll (row_id_min, chunk_id c) (physical_chunk_ids_per_min_row_id s)\<rparr>)
      in case physical s (chunk_id c) of
           None \<Rightarrow> remove_chunks_shallow B A stack_size exhausted cs s
         | Some chunk \<Rightarrow>
             let s = s\<lparr>physical_chunks_per_chunk_id := AList.delete (chunk_id c) (physical_chunks_per_chunk_id s)\<rparr>;
                 s = drop_lineage_reference (chunk_id chunk) s;
                 s = (if map_of (chunks_lineage s) (chunk_id chunk) = None
                      then fst (remove_chunk_from_virtual_indices A chunk s) else s);
                 s = s\<lparr>temporal_physical_chunks_stats :=
                        stats_sub (temporal_physical_chunks_stats s) (stats_from_chunk B A stack_size chunk)\<rparr>
             in if exhausted 0 then ([chunk], s)
                else apfst (Cons chunk) (remove_chunks_shallow B A stack_size (\<lambda>n. exhausted (Suc n)) cs s))"

fun remove_virtual :: "('a, 'd, 'v) arrow \<Rightarrow> 'a Chunk list \<Rightarrow> 'a ChunkStore \<Rightarrow> 'a Chunk list \<times> 'a ChunkStore" where
  "remove_virtual A [] s = ([], s)"
| "remove_virtual A (c # cs) s =
     (case remove_chunk_from_virtual_indices A c s of
        (s, b) \<Rightarrow> apfst (\<lambda>deleted. if b then c # deleted else deleted) (remove_virtual A cs s))"

definition remove_chunks_deep ::
  "'a build \<Rightarrow> ('a, 'd, 'v) arrow \<Rightarrow> u64 \<Rightarrow> 'a Chunk list \<Rightarrow> 'a ChunkStore \<Rightarrow> 'a Chunk list \<times> 'a ChunkStore" where
  "remove_chunks_deep B A stack_size cs s =
     (let (shallow, s) = remove_chunks_shallow B A stack_size (\<lambda>_. False) cs s;
          (deep, s) = remove_virtual A cs s
      in (deep @ filter (\<lambda>c. chunk_id c \<notin> chunk_id ` set deep) shallow, s))"

section \<open>Maps changed key by key\<close>

lemma entry_each_map:
  "distinct (map fst kvs) \<Longrightarrow> map_of (entry_each d f kvs m) k =
     (case map_of kvs k of None \<Rightarrow> map_of m k | Some v \<Rightarrow> Some (f v (or_default d (map_of m k))))"
proof (induction kvs arbitrary: m)
  case (Cons e kvs)
  obtain k' v where e: "e = (k', v)" by (cases e)
  have "map_of kvs k' = None" using Cons.prems by (simp add: e map_of_eq_None_iff)
  then show ?case
    using Cons.IH [of "AList.update k' (f v (or_default d (map_of m k'))) m"] Cons.prems by (simp add: e entry_each_def split: option.split)
qed (simp add: entry_each_def)

lemma modify_each_map:
  assumes "distinct (map fst kvs)"
  shows "map_of (fst (modify_each f kvs m)) k =
     (case map_of kvs k of None \<Rightarrow> map_of m k | Some v \<Rightarrow> map_option (\<lambda>x. fst (f v x)) (map_of m k))"
proof -
  let ?step = "\<lambda>(k, v) (m, b). case map_of m k of None \<Rightarrow> (m, b) | Some x \<Rightarrow> (case f v x of (x', b') \<Rightarrow> (AList.update k x' m, b \<or> b'))"
  have "map_of (fst (fold ?step kvs (m, b))) k =
     (case map_of kvs k of None \<Rightarrow> map_of m k | Some v \<Rightarrow> map_option (\<lambda>x. fst (f v x)) (map_of m k))" for b
    using assms
  proof (induction kvs arbitrary: m b)
    case (Cons e kvs)
    obtain k' v where e: "e = (k', v)" by (cases e)
    have none: "map_of kvs k' = None" using Cons.prems by (simp add: e map_of_eq_None_iff)
    show ?case
    proof (cases "map_of m k'")
      case None
      then show ?thesis using Cons none by (auto simp: e)
    next
      case (Some x)
      obtain x' b' where f: "f v x = (x', b')" by (cases "f v x")
      show ?thesis
        using Cons.IH [of "AList.update k' x' m" "b \<or> b'"] Cons.prems none Some f by (simp add: e split: option.split)
    qed
  qed simp
  then show ?thesis by (simp add: modify_each_def)
qed

section \<open>The indices afterwards\<close>

definition chunk_range :: "('a, 'd, 'v) arrow \<Rightarrow> 'a Chunk \<Rightarrow> string \<Rightarrow> string \<Rightarrow> AbsoluteTimeRange option" where
  "chunk_range A c timeline component =
     do { ranges \<leftarrow> map_of (time_range_per_component A c) timeline; map_of ranges component }"

lemma chunk_range_iff:
  "chunk_range A c timeline component = Some r \<longleftrightarrow>
     (\<exists>tc. map_of (chunk_timelines c) timeline = Some tc \<and>
       map_of (tc_time_range_per_component A tc (chunk_components c)) component = Some r)"
  by (auto simp: chunk_range_def time_range_per_component_def map_of_map bind_eq_Some_conv)

lemma distinct_map_filter_keys:
  "distinct (map fst xs) \<Longrightarrow> distinct (map fst (List.map_filter (\<lambda>(k, x). map_option (Pair k) (f x)) xs))"
proof (induction xs)
  case (Cons y xs)
  have "fst ` set (List.map_filter (\<lambda>(k, x). map_option (Pair k) (f x)) xs) \<subseteq> fst ` set xs"
    by (force simp: List.map_filter_def)
  then show ?case using Cons by (cases y) (auto simp: List.map_filter_simps split: option.splits)
qed (simp add: List.map_filter_simps)

lemma distinct_ranges:
  assumes "columns_ok A c"
  shows "distinct (map fst (time_range_per_component A c))"
    "map_of (time_range_per_component A c) timeline = Some ranges \<Longrightarrow> distinct (map fst ranges)"
proof -
  have d: "distinct (map fst (chunk_timelines c))" "distinct (map fst (chunk_components c))"
    using assms by (simp_all add: columns_ok_def timelines_ok_def components_ok_def)
  show "distinct (map fst (time_range_per_component A c))"
    using d(1) by (simp add: time_range_per_component_def comp_def case_prod_unfold)
  show "distinct (map fst ranges)" if "map_of (time_range_per_component A c) timeline = Some ranges"
    using that distinct_map_filter_keys [OF d(2)]
    by (auto simp: time_range_per_component_def map_of_map tc_time_range_per_component_def)
qed

lemma component_index_add:
  assumes "columns_ok A c"
  shows "component_index (index_with_component A c s) p timeline component =
    (case chunk_range A c timeline component of
       Some r \<Rightarrow> if path_eq (chunk_entity_path c) p
         then Some (index_add (chunk_id c) r (or_default index_default (component_index s p timeline component)))
         else component_index s p timeline component
     | None \<Rightarrow> component_index s p timeline component)"
proof (cases "path_eq (chunk_entity_path c) p")
  case True
  note cong = path_get_cong [OF True]
  show ?thesis
    using True distinct_ranges [OF assms]
    by (cases "path_get p (temporal_chunk_ids_per_entity_per_component s)"; cases "map_of (time_range_per_component A c) timeline")
       (auto simp: component_index_def component_indexes_def index_with_component_def Let_def path_get_put cong
          entry_each_map chunk_range_def or_default_def split: option.splits)
next
  case False
  then show ?thesis
    by (auto simp: component_index_def component_indexes_def index_with_component_def Let_def path_get_put split: option.splits)
qed

lemma timeline_index_add:
  assumes "columns_ok A c"
  shows "timeline_index (index_without_component c s) p timeline =
    (case map_of (chunk_timelines c) timeline of
       Some tc \<Rightarrow> if path_eq (chunk_entity_path c) p
         then Some (index_add (chunk_id c) (tc_time_range tc) (or_default index_default (timeline_index s p timeline)))
         else timeline_index s p timeline
     | None \<Rightarrow> timeline_index s p timeline)"
proof (cases "path_eq (chunk_entity_path c) p")
  case True
  note cong = path_get_cong [OF True]
  have "distinct (map fst (chunk_timelines c))" using assms by (simp add: columns_ok_def timelines_ok_def)
  then show ?thesis
    using True
    by (cases "path_get p (temporal_chunk_ids_per_entity s)")
       (auto simp: timeline_index_def index_without_component_def Let_def path_get_put cong entry_each_map split: option.splits)
next
  case False
  then show ?thesis
    by (auto simp: timeline_index_def index_without_component_def Let_def path_get_put split: option.splits)
qed

lemma component_index_remove:
  assumes "columns_ok A c"
  shows "component_index (fst (remove_chunk_from_virtual_indices A c s)) p timeline component =
    (case chunk_range A c timeline component of
       Some r \<Rightarrow> if path_eq (chunk_entity_path c) p
         then map_option (\<lambda>idx. fst (index_remove (chunk_id c) r idx)) (component_index s p timeline component)
         else component_index s p timeline component
     | None \<Rightarrow> component_index s p timeline component)"
proof (cases "path_eq (chunk_entity_path c) p")
  case True
  note cong = path_get_cong [OF True]
  show ?thesis
  proof (cases "path_get p (temporal_chunk_ids_per_entity_per_component s)")
    case None
    then show ?thesis
      by (auto simp: component_index_def component_indexes_def remove_chunk_from_virtual_indices_def Let_def cong
          case_prod_unfold split: option.splits)
  next
    case (Some m)
    then have "path_get p (temporal_chunk_ids_per_entity_per_component (fst (remove_chunk_from_virtual_indices A c s))) =
        Some (fst (modify_each (modify_each (index_remove (chunk_id c))) (time_range_per_component A c) m))"
      using True by (simp add: remove_chunk_from_virtual_indices_def Let_def cong path_get_put case_prod_unfold)
    then show ?thesis
      using True Some distinct_ranges [OF assms] 
      by (cases "map_of (time_range_per_component A c) timeline"; cases "map_of m timeline")
         (auto simp: component_index_def component_indexes_def modify_each_map chunk_range_def split: option.splits)
  qed
next
  case False
  then show ?thesis
    by (auto simp: component_index_def component_indexes_def remove_chunk_from_virtual_indices_def Let_def path_get_put
        case_prod_unfold split: option.splits)
qed

lemma timeline_index_remove:
  assumes "columns_ok A c"
  shows "timeline_index (fst (remove_chunk_from_virtual_indices A c s)) p timeline =
    (case map_of (chunk_timelines c) timeline of
       Some tc \<Rightarrow> if path_eq (chunk_entity_path c) p
         then map_option (\<lambda>idx. fst (index_remove (chunk_id c) (tc_time_range tc) idx)) (timeline_index s p timeline)
         else timeline_index s p timeline
     | None \<Rightarrow> timeline_index s p timeline)"
proof (cases "path_eq (chunk_entity_path c) p")
  case True
  note cong = path_get_cong [OF True]
  have d: "distinct (map fst (chunk_timelines c))" using assms by (simp add: columns_ok_def timelines_ok_def)
  show ?thesis
  proof (cases "path_get p (temporal_chunk_ids_per_entity s)")
    case None
    then show ?thesis
      by (auto simp: timeline_index_def remove_chunk_from_virtual_indices_def Let_def cong case_prod_unfold split: option.splits)
  next
    case (Some m)
    then have "path_get p (temporal_chunk_ids_per_entity (fst (remove_chunk_from_virtual_indices A c s))) =
        Some (fst (modify_each (index_remove (chunk_id c) \<circ> tc_time_range) (chunk_timelines c) m))"
      using True by (simp add: remove_chunk_from_virtual_indices_def Let_def cong path_get_put case_prod_unfold)
    then show ?thesis
      using True Some d by (auto simp: timeline_index_def modify_each_map split: option.splits)
  qed
next
  case False
  then show ?thesis
    by (auto simp: timeline_index_def remove_chunk_from_virtual_indices_def Let_def path_get_put
        case_prod_unfold split: option.splits)
qed

section \<open>Indices and entries\<close>

lemma indexes_add:
  assumes "indexes idx E L" "i \<notin> snd ` pairs (per_start_time (or_default index_default idx))" "range_ok r"
  shows "indexes (Some (index_add i r (or_default index_default idx))) (insert (i, r) E) (insert i L)"
proof -
  obtain es where es: "index_ok (or_default index_default idx) es" "{(i, r) \<in> es. i \<in> L} = E"
    "\<forall>(i, r) \<in> es. range_ok r" "\<forall>i r r'. (i, r) \<in> es \<longrightarrow> (i, r') \<in> es \<longrightarrow> r = r'"
    using assms(1) unfolding indexes_def by blast
  have fresh: "(i, r') \<notin> es" for r' using assms(2) es(1) by (force simp: index_ok_def)
  have "index_ok (index_add i r (or_default index_default idx)) (insert (i, r) es)" by (rule index_add_ok [OF es(1)])
  moreover have "{(j, r') \<in> insert (i, r) es. j \<in> insert i L} = insert (i, r) E" using es(2) fresh by auto
  ultimately show ?thesis
    unfolding indexes_def using es(3,4) assms(3) fresh by (intro exI [of _ "insert (i, r) es"]) auto
qed

lemma indexes_skip:
  assumes "indexes idx E L" "i \<notin> snd ` pairs (per_start_time (or_default index_default idx))"
  shows "indexes idx E (insert i L)"
proof -
  obtain es where es: "index_ok (or_default index_default idx) es" "{(i, r) \<in> es. i \<in> L} = E"
    "\<forall>(i, r) \<in> es. range_ok r" "\<forall>i r r'. (i, r) \<in> es \<longrightarrow> (i, r') \<in> es \<longrightarrow> r = r'"
    using assms(1) unfolding indexes_def by blast
  have "(i, r') \<notin> es" for r' using assms(2) es(1) by (force simp: index_ok_def)
  then have "{(j, r') \<in> es. j \<in> insert i L} = E" using es(2) by auto
  then show ?thesis unfolding indexes_def using es by blast
qed

lemma indexes_remove:
  assumes "indexes (Some idx) E L" "(i, r) \<in> E"
  shows "indexes (Some (fst (index_remove i r idx))) (E - {(i, r)}) (L - {i})"
proof -
  obtain es where es: "index_ok idx es" "{(i, r) \<in> es. i \<in> L} = E"
    "\<forall>(i, r) \<in> es. range_ok r" "\<forall>i r r'. (i, r) \<in> es \<longrightarrow> (i, r') \<in> es \<longrightarrow> r = r'"
    using assms(1) unfolding indexes_def by auto
  have ir: "(i, r) \<in> es" using assms(2) es(2) by auto
  then have uniq: "\<forall>(j, s) \<in> es. j = i \<longrightarrow> s = r" using es(4) by auto
  have "index_ok (fst (index_remove i r idx)) (es - {(i, r)})" by (rule index_remove_ok [OF es(1) uniq])
  moreover have "{(j, s) \<in> es - {(i, r)}. j \<in> L - {i}} = E - {(i, r)}" using es(2,4) ir by auto
  ultimately show ?thesis
    unfolding indexes_def using es(3,4) by (intro exI [of _ "es - {(i, r)}"]) auto
qed

lemma indexes_weaken:
  assumes "indexes idx E L" "L' \<subseteq> L"
  shows "indexes idx {(j, r) \<in> E. j \<in> L'} L'"
proof -
  obtain es where es: "index_ok (or_default index_default idx) es" "{(i, r) \<in> es. i \<in> L} = E"
    "\<forall>(i, r) \<in> es. range_ok r" "\<forall>i r r'. (i, r) \<in> es \<longrightarrow> (i, r') \<in> es \<longrightarrow> r = r'"
    using assms(1) unfolding indexes_def by blast
  have "{(j, r) \<in> es. j \<in> L'} = {(j, r) \<in> E. j \<in> L'}" using es(2) assms(2) by auto
  then show ?thesis unfolding indexes_def using es by blast
qed

lemma indexes_Some: "indexes idx E L \<Longrightarrow> (i, r) \<in> E \<Longrightarrow> \<exists>x. idx = Some x"
  by (cases idx) (auto simp: indexes_def index_ok_def index_default_def)

section \<open>What the indices track\<close>

definition unindexed :: "'a ChunkStore \<Rightarrow> ChunkId \<Rightarrow> bool" where
  "unindexed s i \<longleftrightarrow>
     (\<forall>p timeline. i \<notin> snd ` pairs (per_start_time (or_default index_default (timeline_index s p timeline)))) \<and>
     (\<forall>p timeline component. i \<notin> snd ` pairs (per_start_time (or_default index_default (component_index s p timeline component))))"

lemma index_frame [simp]:
  "timeline_index (index_with_component A c s) = timeline_index s"
  "component_index (index_without_component c s) = component_index s"
  "physical (index_with_component A c s) = physical s" "physical (index_without_component c s) = physical s"
  by (simp_all add: fun_eq_iff timeline_index_def component_index_def component_indexes_def index_with_component_def
      index_without_component_def Let_def)

lemma timeline_entries_add:
  assumes "P (chunk_id c) = None"
  shows "timeline_entries (P(chunk_id c \<mapsto> c)) p timeline =
    (case map_of (chunk_timelines c) timeline of
       Some tc \<Rightarrow> if path_eq (chunk_entity_path c) p then insert (chunk_id c, tc_time_range tc) (timeline_entries P p timeline)
                  else timeline_entries P p timeline
     | None \<Rightarrow> timeline_entries P p timeline)"
  using assms by (auto simp: timeline_entries_def split: option.splits if_splits)

lemma component_entries_add:
  assumes "P (chunk_id c) = None"
  shows "component_entries A (P(chunk_id c \<mapsto> c)) p timeline component =
    (case chunk_range A c timeline component of
       Some r \<Rightarrow> if path_eq (chunk_entity_path c) p then insert (chunk_id c, r) (component_entries A P p timeline component)
                  else component_entries A P p timeline component
     | None \<Rightarrow> component_entries A P p timeline component)"
proof -
  have "component_entries A (P(chunk_id c \<mapsto> c)) p timeline component =
      {(i, r). i = chunk_id c \<and> path_eq (chunk_entity_path c) p \<and> chunk_range A c timeline component = Some r} \<union>
      component_entries A P p timeline component"
    using assms by (auto simp: component_entries_def chunk_range_iff split: if_splits)
  then show ?thesis by (auto split: option.split)
qed

lemma entries_remove:
  "timeline_entries (P(i := None)) p timeline = {(j, r) \<in> timeline_entries P p timeline. j \<in> dom P - {i}}"
  "component_entries A (P(i := None)) p timeline component = {(j, r) \<in> component_entries A P p timeline component. j \<in> dom P - {i}}"
  by (auto simp: timeline_entries_def component_entries_def split: if_splits)

lemma tracks_add:
  assumes A: "arrow_laws A" and tr: "tracks A s P" and c: "columns_ok A c" "num_rows c \<noteq> 0"
    and new: "P (chunk_id c) = None" "unindexed s (chunk_id c)"
  shows "tracks A (index_without_component c (index_with_component A c s)) (P(chunk_id c \<mapsto> c))"
proof -
  have dom: "dom (P(chunk_id c \<mapsto> c)) = insert (chunk_id c) (dom P)" by auto
  have ok: "range_ok (tc_time_range tc)" if "map_of (chunk_timelines c) timeline = Some tc" for timeline tc
    using c(1) map_of_SomeD [OF that] by (auto simp: columns_ok_def timelines_ok_def tc_ok_def)
  have ok': "range_ok r" if "chunk_range A c timeline component = Some r" for timeline component r
    using that arrow_laws.component_range_spec(3) [OF A c] by (auto simp: chunk_range_iff)
  have idx: "indexes (timeline_index s p timeline) (timeline_entries P p timeline) (dom P)"
    "indexes (component_index s p timeline component) (component_entries A P p timeline component) (dom P)" for p timeline component
    using tr by (simp_all add: tracks_def)
  have fresh: "chunk_id c \<notin> snd ` pairs (per_start_time (or_default index_default (timeline_index s p timeline)))"
    "chunk_id c \<notin> snd ` pairs (per_start_time (or_default index_default (component_index s p timeline component)))" for p timeline component
    using new(2) by (simp_all add: unindexed_def)
  note add = indexes_add [OF idx(1) fresh(1)] indexes_add [OF idx(2) fresh(2)] indexes_skip [OF idx(1) fresh(1)] indexes_skip [OF idx(2) fresh(2)]
  have "indexes (timeline_index (index_without_component c (index_with_component A c s)) p timeline)
      (timeline_entries (P(chunk_id c \<mapsto> c)) p timeline) (insert (chunk_id c) (dom P))" for p timeline
    using ok [of timeline] add unfolding timeline_index_add [OF c(1)] timeline_entries_add [where P = P, OF new(1)] index_frame
    by (simp split: option.split)
  moreover have "indexes (component_index (index_without_component c (index_with_component A c s)) p timeline component)
      (component_entries A (P(chunk_id c \<mapsto> c)) p timeline component) (insert (chunk_id c) (dom P))" for p timeline component
    using ok' [of timeline component] add unfolding index_frame component_index_add [OF c(1)] component_entries_add [where P = P, OF new(1)]
    by (simp split: option.split)
  ultimately show ?thesis unfolding tracks_def dom by blast
qed

lemma tracks_weaken:
  assumes "tracks A s P"
  shows "tracks A s (P(i := None))"
proof -
  have "dom (P(i := None)) = dom P - {i}" by auto
  then show ?thesis
    using assms indexes_weaken [of _ _ "dom P" "dom P - {i}"] unfolding tracks_def entries_remove by simp
qed

lemma tracks_remove:
  assumes tr: "tracks A s P" and c: "P i = Some c" "chunk_id c = i" "columns_ok A c"
  shows "tracks A (fst (remove_chunk_from_virtual_indices A c s)) (P(i := None))"
proof -
  have dom: "dom (P(i := None)) = dom P - {i}" by auto
  have "indexes (timeline_index (fst (remove_chunk_from_virtual_indices A c s)) p timeline)
      (timeline_entries (P(i := None)) p timeline) (dom P - {i})" for p timeline
  proof (cases "\<exists>tc. map_of (chunk_timelines c) timeline = Some tc \<and> path_eq (chunk_entity_path c) p")
    case True
    then obtain tc where tc: "map_of (chunk_timelines c) timeline = Some tc" "path_eq (chunk_entity_path c) p" by blast
    let ?E = "timeline_entries P p timeline"
    have idx: "indexes (timeline_index s p timeline) ?E (dom P)" using tr by (simp add: tracks_def)
    have mem: "(i, tc_time_range tc) \<in> ?E" using tc c(1) by (auto simp: timeline_entries_def)
    obtain x where x: "timeline_index s p timeline = Some x" using indexes_Some [OF idx mem] by blast
    have "{(j, r) \<in> ?E. j \<in> dom P - {i}} = ?E - {(i, tc_time_range tc)}"
      using tc c(1) by (auto simp: timeline_entries_def)
    then show ?thesis
      using indexes_remove [OF idx [unfolded x] mem] tc c(2) x unfolding timeline_index_remove [OF c(3)] entries_remove by simp
  next
    case False
    then have "timeline_index (fst (remove_chunk_from_virtual_indices A c s)) p timeline = timeline_index s p timeline"
      unfolding timeline_index_remove [OF c(3)] by (auto split: option.split)
    then show ?thesis using tracks_weaken [OF tr, of i] by (simp add: tracks_def dom)
  qed
  moreover have "indexes (component_index (fst (remove_chunk_from_virtual_indices A c s)) p timeline component)
      (component_entries A (P(i := None)) p timeline component) (dom P - {i})" for p timeline component
  proof (cases "\<exists>r. chunk_range A c timeline component = Some r \<and> path_eq (chunk_entity_path c) p")
    case True
    then obtain r where r: "chunk_range A c timeline component = Some r" "path_eq (chunk_entity_path c) p" by blast
    let ?E = "component_entries A P p timeline component"
    have idx: "indexes (component_index s p timeline component) ?E (dom P)" using tr by (simp add: tracks_def)
    have mem: "(i, r) \<in> ?E" using r c(1) by (auto simp: component_entries_def chunk_range_iff)
    obtain x where x: "component_index s p timeline component = Some x" using indexes_Some [OF idx mem] by blast
    have "{(j, r) \<in> ?E. j \<in> dom P - {i}} = ?E - {(i, r)}"
      using r c(1) by (auto simp: component_entries_def chunk_range_iff)
    then show ?thesis
      using indexes_remove [OF idx [unfolded x] mem] r c(2) x unfolding component_index_remove [OF c(3)] entries_remove by simp
  next
    case False
    then have "component_index (fst (remove_chunk_from_virtual_indices A c s)) p timeline component = component_index s p timeline component"
      unfolding component_index_remove [OF c(3)] by (auto split: option.split)
    then show ?thesis using tracks_weaken [OF tr, of i] by (simp add: tracks_def dom)
  qed
  ultimately show ?thesis by (simp add: tracks_def dom)
qed

section \<open>Chunks that leave the indices\<close>

lemma index_ok_ids:
  "index_ok idx es \<Longrightarrow> snd ` pairs (per_start_time idx) = fst ` es" "index_ok idx es \<Longrightarrow> snd ` pairs (per_end_time idx) = fst ` es"
  by (simp_all add: index_ok_def image_image case_prod_unfold)

lemma index_remove_absent:
  assumes "index_ok idx es" "i \<notin> fst ` es"
  shows "index_ok (fst (index_remove i r idx)) es"
proof -
  have "pairs (per_start_time idx) - {(range_min r, i)} = pairs (per_start_time idx)"
    "pairs (per_end_time idx) - {(range_max r, i)} = pairs (per_end_time idx)"
    using assms(2) index_ok_ids [OF assms(1)] by force+
  then show ?thesis
    using assms(1) entry_remove [of "per_start_time idx" "range_min r" i] entry_remove [of "per_end_time idx" "range_max r" i]
    by (auto simp: index_ok_def index_remove_def Let_def case_prod_unfold)
qed

definition holds_id :: "ChunkIdSetPerTime option \<Rightarrow> ChunkId \<Rightarrow> bool" where
  "holds_id idx i \<longleftrightarrow> i \<in> snd ` pairs (per_start_time (or_default index_default idx))"

lemma unindexed_iff:
  "unindexed s i \<longleftrightarrow> (\<forall>p timeline. \<not> holds_id (timeline_index s p timeline) i) \<and>
     (\<forall>p timeline component. \<not> holds_id (component_index s p timeline component) i)"
  by (simp add: unindexed_def holds_id_def)

lemma holds_id_entries: "index_ok (or_default index_default idx) es \<Longrightarrow> holds_id idx i \<longleftrightarrow> i \<in> fst ` es"
  by (simp add: holds_id_def index_ok_ids)

lemma holds_id_indexes: "indexes idx E L \<Longrightarrow> i \<in> L \<Longrightarrow> holds_id idx i \<longleftrightarrow> (\<exists>r. (i, r) \<in> E)"
proof -
  assume "indexes idx E L" "i \<in> L"
  then obtain es where es: "index_ok (or_default index_default idx) es" "{(i, r) \<in> es. i \<in> L} = E" "i \<in> L"
    unfolding indexes_def by blast
  then show ?thesis using holds_id_entries [OF es(1), of i] by force
qed

lemma indexes_remove_ids:
  assumes "indexes idx E L"
  shows "holds_id (map_option (\<lambda>x. fst (index_remove i r x)) idx) j \<Longrightarrow> holds_id idx j"
    and "(i, r) \<in> E \<Longrightarrow> \<not> holds_id (map_option (\<lambda>x. fst (index_remove i r x)) idx) i"
    and "\<not> holds_id idx i \<Longrightarrow> indexes (map_option (\<lambda>x. fst (index_remove i r x)) idx) E L"
proof -
  obtain es where es: "index_ok (or_default index_default idx) es" "{(i, r) \<in> es. i \<in> L} = E"
    "\<forall>(i, r) \<in> es. range_ok r" "\<forall>i r r'. (i, r) \<in> es \<longrightarrow> (i, r') \<in> es \<longrightarrow> r = r'"
    using assms unfolding indexes_def by blast
  show "holds_id idx j" if "holds_id (map_option (\<lambda>x. fst (index_remove i r x)) idx) j"
    using that es(1) entry_remove [of "per_start_time (the idx)" "range_min r" i]
    by (cases idx) (auto simp: holds_id_def index_ok_def index_remove_def Let_def case_prod_unfold)
  show "\<not> holds_id (map_option (\<lambda>x. fst (index_remove i r x)) idx) i" if "(i, r) \<in> E"
  proof -
    note ir = that
    obtain x where x: "idx = Some x" using indexes_Some [OF assms ir] by blast
    have "(i, r) \<in> es" using ir es(2) by auto
    then have "index_ok (fst (index_remove i r x)) (es - {(i, r)})" "i \<notin> fst ` (es - {(i, r)})"
      using index_remove_ok [of x es i r] es(1,4) x by auto
    then show ?thesis using holds_id_entries [of "Some (fst (index_remove i r x))"] x by simp
  qed
  show "indexes (map_option (\<lambda>x. fst (index_remove i r x)) idx) E L" if "\<not> holds_id idx i"
    using index_remove_absent [of "the idx" es i r] holds_id_entries [OF es(1)] es that
    unfolding indexes_def by (cases idx) auto
qed

lemma remove_unindexes:
  assumes tr: "tracks A s P" and c: "columns_ok A c"
  shows "unindexed s j \<Longrightarrow> unindexed (fst (remove_chunk_from_virtual_indices A c s)) j"
    and "P (chunk_id c) = Some c \<Longrightarrow> unindexed (fst (remove_chunk_from_virtual_indices A c s)) (chunk_id c)"
    and "unindexed s (chunk_id c) \<Longrightarrow> tracks A (fst (remove_chunk_from_virtual_indices A c s)) P"
proof -
  have idx: "indexes (timeline_index s p timeline) (timeline_entries P p timeline) (dom P)"
    "indexes (component_index s p timeline component) (component_entries A P p timeline component) (dom P)" for p timeline component
    using tr by (simp_all add: tracks_def)
  note ids = indexes_remove_ids [OF idx(1)] indexes_remove_ids [OF idx(2)]
  show "unindexed (fst (remove_chunk_from_virtual_indices A c s)) j" if "unindexed s j"
    using that unfolding unindexed_iff timeline_index_remove [OF c] component_index_remove [OF c]
    by (auto split: option.split dest!: ids(1,4))
  show "tracks A (fst (remove_chunk_from_virtual_indices A c s)) P" if "unindexed s (chunk_id c)"
    using that idx unfolding tracks_def unindexed_iff timeline_index_remove [OF c] component_index_remove [OF c]
    by (auto split: option.split intro!: ids(3,6))
  show "unindexed (fst (remove_chunk_from_virtual_indices A c s)) (chunk_id c)" if P: "P (chunk_id c) = Some c"
  proof -
    have dom: "chunk_id c \<in> dom P" using P by blast
    have "\<not> holds_id (timeline_index (fst (remove_chunk_from_virtual_indices A c s)) p timeline) (chunk_id c)" for p timeline
      unfolding timeline_index_remove [OF c]
      using ids(2) [of "chunk_id c" _ p timeline] holds_id_indexes [OF idx(1) dom, of p timeline] P
      by (auto simp: timeline_entries_def split: option.split)
    moreover have "\<not> holds_id (component_index (fst (remove_chunk_from_virtual_indices A c s)) p timeline component) (chunk_id c)"
      for p timeline component
      unfolding component_index_remove [OF c]
      using ids(5) [of "chunk_id c" _ p timeline component] holds_id_indexes [OF idx(2) dom, of p timeline component] P
      by (auto simp: component_entries_def chunk_range_iff [symmetric] split: option.split)
    ultimately show ?thesis by (simp add: unindexed_iff)
  qed
qed

lemma indexes_add_ids:
  assumes "indexes idx E L" "holds_id (Some (index_add i r (or_default index_default idx))) j"
  shows "j = i \<or> holds_id idx j"
proof -
  obtain es where es: "index_ok (or_default index_default idx) es" using assms(1) unfolding indexes_def by blast
  show ?thesis
    using holds_id_entries [of "Some (index_add i r (or_default index_default idx))" "insert (i, r) es" j] index_add_ok [OF es, of i r]
      holds_id_entries [OF es, of j] assms(2) by auto
qed

lemma unindexed_add:
  assumes tr: "tracks A s P" and c: "columns_ok A c" and j: "j \<noteq> chunk_id c" "unindexed s j"
  shows "unindexed (index_without_component c (index_with_component A c s)) j"
proof -
  have idx: "indexes (timeline_index s p timeline) (timeline_entries P p timeline) (dom P)"
    "indexes (component_index s p timeline component) (component_entries A P p timeline component) (dom P)" for p timeline component
    using tr by (simp_all add: tracks_def)
  note ids = indexes_add_ids [OF idx(1)] indexes_add_ids [OF idx(2)]
  show ?thesis
    using j unfolding unindexed_iff timeline_index_add [OF c] index_frame component_index_add [OF c]
    by (auto split: option.split dest!: ids)
qed

end
