(* ===== verification/Store_Removal.thy ===== *)
theory Store_Removal
  imports Store_Write
begin

text \<open>
  The operations of \<^theory_text>\<open>Store_Write\<close> keep the invariant of the store: entering a chunk adds it, unloading keeps the indices as they are,
  deep removal leaves no trace, and the queries then see exactly the loaded chunks.
\<close>

section \<open>Frames\<close>

lemma tracks_cong:
  assumes "temporal_chunk_ids_per_entity_per_component s = temporal_chunk_ids_per_entity_per_component s'"
    "temporal_chunk_ids_per_entity s = temporal_chunk_ids_per_entity s'"
  shows "tracks A s = tracks A s'" "unindexed s = unindexed s'"
proof -
  have "timeline_index s = timeline_index s'" "component_index s = component_index s'"
    using assms by (simp_all add: fun_eq_iff timeline_index_def component_index_def component_indexes_def)
  then show "tracks A s = tracks A s'" "unindexed s = unindexed s'" by (simp_all add: fun_eq_iff tracks_def unindexed_def)
qed

lemma drop_lineage_frame:
  "physical_chunks_per_chunk_id (drop_lineage_reference i s) = physical_chunks_per_chunk_id s"
  "temporal_chunk_ids_per_entity_per_component (drop_lineage_reference i s) = temporal_chunk_ids_per_entity_per_component s"
  "temporal_chunk_ids_per_entity (drop_lineage_reference i s) = temporal_chunk_ids_per_entity s"
  "static_chunk_ids_per_entity (drop_lineage_reference i s) = static_chunk_ids_per_entity s"
proof -
  have more: "LineageDroppingCtx.more (drop_lineage_reference i s) = LineageDroppingCtx.more s"
    using drop_loop_shrinks [of s "[DropRef i]"] by (simp add: shrinks_def drop_lineage_reference_def)
  then show "physical_chunks_per_chunk_id (drop_lineage_reference i s) = physical_chunks_per_chunk_id s"
    "temporal_chunk_ids_per_entity_per_component (drop_lineage_reference i s) = temporal_chunk_ids_per_entity_per_component s"
    "temporal_chunk_ids_per_entity (drop_lineage_reference i s) = temporal_chunk_ids_per_entity s"
    "static_chunk_ids_per_entity (drop_lineage_reference i s) = static_chunk_ids_per_entity s"
    by (cases s; cases "drop_lineage_reference i s"; simp)+
qed

lemma modify_lineage_frame:
  "physical_chunks_per_chunk_id (modify_lineage i f s) = physical_chunks_per_chunk_id s"
  "temporal_chunk_ids_per_entity_per_component (modify_lineage i f s) = temporal_chunk_ids_per_entity_per_component s"
  "temporal_chunk_ids_per_entity (modify_lineage i f s) = temporal_chunk_ids_per_entity s"
  for s :: "'a ChunkStore"
  by (auto simp: modify_lineage_def split: option.split)

lemma insert_physical_frame:
  "physical_chunks_per_chunk_id (insert_physical c s) = ordered_put (chunk_id c) c (physical_chunks_per_chunk_id s)"
  "temporal_chunk_ids_per_entity_per_component (insert_physical c s) = temporal_chunk_ids_per_entity_per_component s"
  "temporal_chunk_ids_per_entity (insert_physical c s) = temporal_chunk_ids_per_entity s"
  by (auto simp: insert_physical_def Let_def modify_lineage_frame split: option.split)

lemma remove_frame:
  "physical_chunks_per_chunk_id (fst (remove_chunk_from_virtual_indices A c s)) = physical_chunks_per_chunk_id s"
  "path_keys (temporal_chunk_ids_per_entity s) \<Longrightarrow>
     path_keys (temporal_chunk_ids_per_entity (fst (remove_chunk_from_virtual_indices A c s)))"
  by (auto simp: remove_chunk_from_virtual_indices_def Let_def case_prod_unfold split: option.split)

section \<open>Entering\<close>

lemma store_ok_add:
  assumes A: "arrow_laws A" and ok: "store_ok A s" and c: "columns_ok A c" "chunk_is_sorted c" "\<not> chunk_is_empty c"
    and new: "physical s (chunk_id c) = None" "unindexed s (chunk_id c)"
  shows "store_ok A (insert_physical c (index_without_component c (index_with_component A c s)))" (is "store_ok A ?s")
    and "physical (insert_physical c (index_without_component c (index_with_component A c s))) = (physical s)(chunk_id c \<mapsto> c)"
proof -
  have phys: "physical_chunks_per_chunk_id ?s = ordered_put (chunk_id c) c (physical_chunks_per_chunk_id s)"
    by (simp add: insert_physical_frame index_with_component_def index_without_component_def Let_def)
  then show phys': "physical ?s = (physical s)(chunk_id c \<mapsto> c)" by simp
  have "num_rows c \<noteq> 0" using c(3) by (simp add: chunk_is_empty_def)
  then have "tracks A (index_without_component c (index_with_component A c s)) ((physical s)(chunk_id c \<mapsto> c))"
    using ok by (intro tracks_add [where P = "physical s", OF A _ c(1) _ new]) (simp_all add: store_ok_def)
  moreover have "loaded_ok A ?s"
    using ok c ordered_put_sorted [of "physical_chunks_per_chunk_id s" "chunk_id c" c]
    unfolding loaded_ok_def phys by (auto simp: store_ok_def loaded_ok_def)
  moreover have "path_keys (temporal_chunk_ids_per_entity ?s)"
    using ok by (simp add: store_ok_def insert_physical_frame index_with_component_def index_without_component_def Let_def)
  ultimately show "store_ok A ?s"
    unfolding store_ok_def phys' by (simp add: tracks_cong(1) [OF insert_physical_frame(2,3)])
qed

section \<open>Unloading\<close>

text \<open>
  With \<open>P\<close> the chunks that the indices track, loaded or not: what sweeping keeps. Chunks that are no longer tracked are in no index.
\<close>

definition sweep_ok :: "('a, 'd, 'v) arrow \<Rightarrow> 'a ChunkStore \<Rightarrow> (ChunkId \<Rightarrow> 'a Chunk option) \<Rightarrow> bool" where
  "sweep_ok A s P \<longleftrightarrow> loaded_ok A s \<and> path_keys (temporal_chunk_ids_per_entity s) \<and> tracks A s P \<and> physical s \<subseteq>\<^sub>m P"

lemma sweep_ok_store: "sweep_ok A s P \<Longrightarrow> store_ok A s"
proof -
  assume ok: "sweep_ok A s P"
  have sub: "physical s i = Some c \<Longrightarrow> P i = Some c" for i c using ok by (force simp: sweep_ok_def map_le_def)
  have "tracks A s (P |` dom (physical s))"
  proof -
    have "dom (P |` dom (physical s)) = dom (physical s)" using sub by (auto simp: restrict_map_def split: if_splits)
    moreover have "timeline_entries (P |` dom (physical s)) p timeline = {(j, r) \<in> timeline_entries P p timeline. j \<in> dom (physical s)}"
      "component_entries A (P |` dom (physical s)) p timeline component = {(j, r) \<in> component_entries A P p timeline component. j \<in> dom (physical s)}"
      for p timeline component
      by (auto simp: timeline_entries_def component_entries_def restrict_map_def split: if_splits)
    moreover have "dom (physical s) \<subseteq> dom P" using sub by auto
    ultimately show ?thesis
      using ok indexes_weaken [of _ _ "dom P" "dom (physical s)"] by (simp add: sweep_ok_def tracks_def)
  qed
  moreover have "P |` dom (physical s) = physical s"
    using sub by (auto simp: fun_eq_iff restrict_map_def) (metis option.exhaust)
  ultimately show ?thesis using ok by (simp add: store_ok_def sweep_ok_def)
qed

lemma loaded_ok_delete:
  assumes "loaded_ok A s" "physical_chunks_per_chunk_id s' = AList.delete i (physical_chunks_per_chunk_id s)"
  shows "loaded_ok A s'" "physical s' = (physical s)(i := None)"
  using assms delete_sorted [of "physical_chunks_per_chunk_id s" i] by (auto simp: loaded_ok_def fun_eq_iff)

text \<open>
  What a sweep does: the chunks tracked afterwards were tracked before, and one that is not tracked any more is in no index.
\<close>

definition swept ::
  "('a, 'd, 'v) arrow \<Rightarrow> 'a ChunkStore \<Rightarrow> (ChunkId \<Rightarrow> 'a Chunk option) \<Rightarrow> 'a ChunkStore \<Rightarrow> (ChunkId \<Rightarrow> 'a Chunk option) \<Rightarrow> bool" where
  "swept A s P s' P' \<longleftrightarrow> sweep_ok A s' P' \<and> P' \<subseteq>\<^sub>m P \<and> (\<forall>i. unindexed s i \<or> i \<in> dom P - dom P' \<longrightarrow> unindexed s' i)"

lemma swept_refl: "sweep_ok A s P \<Longrightarrow> swept A s P s P"
  by (simp add: swept_def)

lemma swept_trans: "swept A s P s' P' \<Longrightarrow> swept A s' P' s'' P'' \<Longrightarrow> swept A s P s'' P''"
  unfolding swept_def by (blast intro: map_le_trans)

lemma sweep_ok_frame:
  assumes "physical_chunks_per_chunk_id s = physical_chunks_per_chunk_id s'"
    "temporal_chunk_ids_per_entity_per_component s = temporal_chunk_ids_per_entity_per_component s'"
    "temporal_chunk_ids_per_entity s = temporal_chunk_ids_per_entity s'"
  shows "sweep_ok A s = sweep_ok A s'" "unindexed s = unindexed s'"
  using tracks_cong(1) [OF assms(2,3), where A = A] tracks_cong(2) [OF assms(2,3)] assms by (simp_all add: fun_eq_iff sweep_ok_def loaded_ok_def)

lemma swept_frame:
  assumes "physical_chunks_per_chunk_id s = physical_chunks_per_chunk_id t"
    "temporal_chunk_ids_per_entity_per_component s = temporal_chunk_ids_per_entity_per_component t"
    "temporal_chunk_ids_per_entity s = temporal_chunk_ids_per_entity t"
  shows "swept A s P s' P' = swept A t P s' P'" "swept A s' P' s P = swept A s' P' t P"
  unfolding swept_def by (simp_all add: sweep_ok_frame [OF assms])

text \<open>Taking a chunk that is not loaded out of the indices.\<close>

lemma remove_chunk_swept:
  assumes ok: "sweep_ok A s P" and c: "columns_ok A c" "physical s (chunk_id c) = None"
    and tracked: "P (chunk_id c) = Some c \<or> unindexed s (chunk_id c)"
  shows "swept A s P (fst (remove_chunk_from_virtual_indices A c s)) (P(chunk_id c := None))"
    and "unindexed (fst (remove_chunk_from_virtual_indices A c s)) (chunk_id c)"
proof -
  let ?s = "fst (remove_chunk_from_virtual_indices A c s)"
  have tr: "tracks A s P" and sub: "physical s \<subseteq>\<^sub>m P" using ok by (simp_all add: sweep_ok_def)
  note gone = remove_unindexes [OF tr c(1)]
  show gone': "unindexed ?s (chunk_id c)" using tracked gone(1,2) by blast
  have "tracks A ?s (P(chunk_id c := None))"
    using tracked tracks_remove [OF tr _ refl c(1)] tracks_weaken [OF gone(3)] by blast
  moreover have "loaded_ok A ?s" using ok by (simp add: sweep_ok_def loaded_ok_def remove_frame)
  moreover have "physical ?s \<subseteq>\<^sub>m P(chunk_id c := None)"
    using sub c(2) by (auto simp: remove_frame map_le_def)
  ultimately have "sweep_ok A ?s (P(chunk_id c := None))" using ok by (simp add: sweep_ok_def remove_frame)
  moreover have "P(chunk_id c := None) \<subseteq>\<^sub>m P" by (simp add: map_le_def)
  ultimately show "swept A s P ?s (P(chunk_id c := None))" using gone(1) gone' by (auto simp: swept_def)
qed

lemma delete_swept:
  assumes ok: "sweep_ok A s P" and t: "physical_chunks_per_chunk_id t = AList.delete i (physical_chunks_per_chunk_id s)"
    "temporal_chunk_ids_per_entity_per_component t = temporal_chunk_ids_per_entity_per_component s"
    "temporal_chunk_ids_per_entity t = temporal_chunk_ids_per_entity s"
  shows "swept A s P t P" "physical t = (physical s)(i := None)"
proof -
  show phys: "physical t = (physical s)(i := None)" using loaded_ok_delete(2) [where A = A, OF _ t(1)] ok by (simp add: sweep_ok_def)
  have "physical t \<subseteq>\<^sub>m P" using ok unfolding phys by (auto simp: sweep_ok_def map_le_def)
  then show "swept A s P t P"
    using ok loaded_ok_delete(1) [where A = A, OF _ t(1)] tracks_cong(1) [OF t(2,3), where A = A] tracks_cong(2) [OF t(2,3)] t(3) by (simp add: swept_def sweep_ok_def)
qed

lemma unload_swept:
  assumes ok: "sweep_ok A s P" and c: "physical s i = Some c"
    and t: "t = drop_lineage_reference (chunk_id c)
      (s\<lparr>physical_chunk_ids_per_min_row_id := ids, physical_chunks_per_chunk_id := AList.delete i (physical_chunks_per_chunk_id s)\<rparr>)"
    and u: "u = (if map_of (chunks_lineage t) (chunk_id c) = None then fst (remove_chunk_from_virtual_indices A c t) else t)"
  shows "\<exists>P'. swept A s P u P' \<and> dom P - dom P' \<subseteq> {i}" "physical u = (physical s)(i := None)"
proof -
  have c': "chunk_id c = i" "columns_ok A c" using loaded [OF _ c] ok by (auto simp: sweep_ok_def)
  have "P i = Some c" using ok c by (force simp: sweep_ok_def map_le_def)
  have st: "swept A s P t P" "physical t = (physical s)(i := None)"
    by (rule delete_swept [OF ok]; simp add: t drop_lineage_frame)+
  show "physical u = (physical s)(i := None)" by (simp add: u st(2) remove_frame)
  have "sweep_ok A t P" using st(1) by (simp add: swept_def)
  then have "swept A t P (fst (remove_chunk_from_virtual_indices A c t)) (P(i := None))"
    using remove_chunk_swept(1) [where A = A and s = t and c = c] c' st(2) \<open>P i = Some c\<close> by simp
  then have "swept A s P (fst (remove_chunk_from_virtual_indices A c t)) (P(i := None))" by (rule swept_trans [OF st(1)])
  then show "\<exists>P'. swept A s P u P' \<and> dom P - dom P' \<subseteq> {i}" using st(1) unfolding u by (auto intro: exI [of _ P] exI [of _ "P(i := None)"])
qed

lemma shallow_swept:
  assumes "sweep_ok A s P" "remove_chunks_shallow B A stack_size exhausted cs s = (deleted, s')"
  shows "(\<exists>P'. swept A s P s' P' \<and> dom P - dom P' \<subseteq> chunk_id ` set cs) \<and> physical s' = physical s |` (- chunk_id ` set deleted) \<and>
    (\<forall>c \<in> set deleted. physical s (chunk_id c) = Some c \<and> chunk_id c \<in> chunk_id ` set cs) \<and> distinct (map chunk_id deleted) \<and>
    ((\<forall>n. \<not> exhausted n) \<longrightarrow> physical s' = physical s |` (- chunk_id ` set cs))"
  using assms
proof (induction cs arbitrary: exhausted s P deleted s')
  case Nil
  then show ?case using swept_refl by auto
next
  case (Cons c cs)
  obtain ids where ids: "(case row_id_range c of None \<Rightarrow> s
      | Some (row_id_min, _) \<Rightarrow> s\<lparr>physical_chunk_ids_per_min_row_id := removeAll (row_id_min, chunk_id c) (physical_chunk_ids_per_min_row_id s)\<rparr>) =
      s\<lparr>physical_chunk_ids_per_min_row_id := ids\<rparr>"
    by (cases "row_id_range c") (auto intro: that [of "physical_chunk_ids_per_min_row_id s"] split: prod.split)
  show ?case
  proof (cases "physical s (chunk_id c)")
    case None
    have frame: "swept A (s\<lparr>physical_chunk_ids_per_min_row_id := ids\<rparr>) P s' P' = swept A s P s' P'" for P' by (rule swept_frame) simp_all
    have "sweep_ok A (s\<lparr>physical_chunk_ids_per_min_row_id := ids\<rparr>) P"
      using Cons.prems(1) sweep_ok_frame(1) [of "s\<lparr>physical_chunk_ids_per_min_row_id := ids\<rparr>" s A] by simp
    note IH = Cons.IH [OF this, of exhausted deleted s']
    have "physical s |` (- insert (chunk_id c) X) = physical s |` (- X)" for X
      using None by (auto simp: restrict_map_def fun_eq_iff)
    moreover obtain P' where "swept A s P s' P'" "dom P - dom P' \<subseteq> chunk_id ` set cs"
      using IH Cons.prems(2) None by (auto simp: ids frame)
    then have "\<exists>P'. swept A s P s' P' \<and> dom P - dom P' \<subseteq> chunk_id ` set (c # cs)" by (intro exI [of _ P'] conjI) auto
    ultimately show ?thesis using IH Cons.prems(2) None by (auto simp: ids)
  next
    case (Some d)
    define t where "t = drop_lineage_reference (chunk_id d)
      (s\<lparr>physical_chunk_ids_per_min_row_id := ids, physical_chunks_per_chunk_id := AList.delete (chunk_id c) (physical_chunks_per_chunk_id s)\<rparr>)"
    define u where "u = (if map_of (chunks_lineage t) (chunk_id d) = None then fst (remove_chunk_from_virtual_indices A d t) else t)"
    define v where "v = u\<lparr>temporal_physical_chunks_stats := stats_sub (temporal_physical_chunks_stats u) (stats_from_chunk B A stack_size d)\<rparr>"
    have d: "chunk_id d = chunk_id c" using loaded(1) [OF _ Some] Cons.prems(1) by (auto simp: sweep_ok_def)
    obtain P' where "swept A s P u P'" and sub: "dom P - dom P' \<subseteq> {chunk_id c}" and phys: "physical u = (physical s)(chunk_id c := None)"
      using unload_swept [OF Cons.prems(1) Some t_def u_def] by blast
    then have P': "swept A s P v P'" using swept_frame(2) [of v u A] by (simp add: v_def)
    have run: "remove_chunks_shallow B A stack_size exhausted (c # cs) s =
        (if exhausted 0 then ([d], v) else apfst (Cons d) (remove_chunks_shallow B A stack_size (\<lambda>n. exhausted (Suc n)) cs v))"
      using Some by (simp add: ids Let_def t_def u_def v_def)
    show ?thesis
    proof (cases "exhausted 0")
      case True
      have "\<exists>P'. swept A s P v P' \<and> dom P - dom P' \<subseteq> chunk_id ` set (c # cs)" using P' sub by (intro exI [of _ P'] conjI) auto
      moreover have "physical v = physical s |` (- {chunk_id c})" using phys by (auto simp: v_def restrict_map_def fun_eq_iff)
      ultimately show ?thesis using Cons.prems(2) True Some d unfolding run by auto
    next
      case False
      obtain ds where ds: "remove_chunks_shallow B A stack_size (\<lambda>n. exhausted (Suc n)) cs v = (ds, s')" "deleted = d # ds"
        using Cons.prems(2) False unfolding run by (cases "remove_chunks_shallow B A stack_size (\<lambda>n. exhausted (Suc n)) cs v") auto
      have "sweep_ok A v P'" using P' by (simp add: swept_def)
      note IH = Cons.IH [OF this ds(1)]
      have phys': "physical v = (physical s)(chunk_id c := None)" by (simp add: v_def phys)
      obtain P'' where "swept A v P' s' P''" "dom P' - dom P'' \<subseteq> chunk_id ` set cs" using IH by blast
      moreover from this have "dom P - dom P'' \<subseteq> chunk_id ` set (c # cs)" using sub unfolding list.set image_insert by blast
      ultimately have "\<exists>P''. swept A s P s' P'' \<and> dom P - dom P'' \<subseteq> chunk_id ` set (c # cs)" using swept_trans [OF P'] by blast
      moreover have "\<forall>x \<in> set ds. physical s (chunk_id x) = Some x \<and> chunk_id x \<noteq> chunk_id c \<and> chunk_id x \<in> chunk_id ` set cs"
        using IH unfolding phys' by (auto split: if_splits)
      moreover have "physical v |` (- X) = physical s |` (- insert (chunk_id c) X)" for X
        by (simp add: phys' restrict_map_def fun_eq_iff)
      ultimately show ?thesis using IH ds(2) Some d by auto
    qed
  qed
qed

section \<open>Deep removal\<close>

lemma remove_virtual_swept:
  assumes "sweep_ok A s P" "remove_virtual A cs s = (deleted, s')"
    and "\<forall>c \<in> set cs. columns_ok A c \<and> physical s (chunk_id c) = None \<and> (P (chunk_id c) = Some c \<or> unindexed s (chunk_id c))"
    and "\<forall>c \<in> set cs. \<forall>d \<in> set cs. chunk_id c = chunk_id d \<longrightarrow> c = d"
  shows "(\<exists>P'. swept A s P s' P' \<and> dom P - dom P' \<subseteq> chunk_id ` set cs) \<and> physical s' = physical s \<and> (\<forall>c \<in> set cs. unindexed s' (chunk_id c))"
  using assms
proof (induction cs arbitrary: s P deleted)
  case Nil
  then show ?case using swept_refl by auto
next
  case (Cons c cs)
  let ?t = "fst (remove_chunk_from_virtual_indices A c s)" and ?P = "P(chunk_id c := None)"
  have c: "columns_ok A c" "physical s (chunk_id c) = None" "P (chunk_id c) = Some c \<or> unindexed s (chunk_id c)"
    using Cons.prems(3) by auto
  have step: "swept A s P ?t ?P" "unindexed ?t (chunk_id c)" by (rule remove_chunk_swept [OF Cons.prems(1) c])+
  have keep: "unindexed s j \<Longrightarrow> unindexed ?t j" for j using step(1) by (simp add: swept_def)
  obtain ds where run: "remove_virtual A cs ?t = (ds, s')"
    using Cons.prems(2) by (cases "remove_virtual A cs ?t") (auto simp: case_prod_unfold)
  have ok: "sweep_ok A ?t ?P" using step(1) by (simp add: swept_def)
  have rest: "\<forall>d \<in> set cs. columns_ok A d \<and> physical ?t (chunk_id d) = None \<and> (?P (chunk_id d) = Some d \<or> unindexed ?t (chunk_id d))"
    using Cons.prems(3) keep step(2) by (auto simp: remove_frame)
  have IH: "(\<exists>P'. swept A ?t ?P s' P' \<and> dom ?P - dom P' \<subseteq> chunk_id ` set cs) \<and> physical s' = physical ?t \<and> (\<forall>c \<in> set cs. unindexed s' (chunk_id c))"
    by (rule Cons.IH [OF ok run rest]) (use Cons.prems(4) in simp)
  then obtain P' where P': "swept A ?t ?P s' P'" "dom ?P - dom P' \<subseteq> chunk_id ` set cs" by blast
  have "unindexed s' (chunk_id c)" using P'(1) step(2) by (simp add: swept_def)
  moreover have "dom P - dom P' \<subseteq> chunk_id ` set (c # cs)" using P'(2) by auto
  ultimately show ?case using IH swept_trans [OF step(1) P'(1)] by (auto simp: remove_frame)
qed

lemma deep_swept:
  assumes ok: "sweep_ok A s P" and run: "remove_chunks_deep B A stack_size cs s = (deleted, s')"
    and cs: "\<forall>c \<in> set cs. columns_ok A c \<and> P (chunk_id c) = Some c"
  shows "\<exists>P'. swept A s P s' P' \<and> dom P - dom P' \<subseteq> chunk_id ` set cs"
    "physical s' = physical s |` (- chunk_id ` set cs)" "\<forall>c \<in> set cs. unindexed s' (chunk_id c)"
proof -
  obtain shallow t where t: "remove_chunks_shallow B A stack_size (\<lambda>_. False) cs s = (shallow, t)" by (rule prod.exhaust)
  obtain deep where deep: "remove_virtual A cs t = (deep, s')" and "deleted = deep @ filter (\<lambda>c. chunk_id c \<notin> chunk_id ` set deep) shallow"
    using run t by (cases "remove_virtual A cs t") (auto simp: remove_chunks_deep_def)
  obtain Q where Q: "swept A s P t Q" and sub: "dom P - dom Q \<subseteq> chunk_id ` set cs" and phys: "physical t = physical s |` (- chunk_id ` set cs)"
    using shallow_swept [OF ok t] by auto
  have "Q (chunk_id c) = Some c \<or> unindexed t (chunk_id c)" if "c \<in> set cs" for c
  proof (cases "Q (chunk_id c)")
    case None
    have "chunk_id c \<in> dom P - dom Q" using cs that None by auto
    then show ?thesis using Q by (simp add: swept_def)
  next
    case (Some d)
    then have "P (chunk_id c) = Some d" using Q by (force simp: swept_def map_le_def)
    then show ?thesis using cs that Some by simp
  qed
  moreover have "\<forall>c \<in> set cs. \<forall>d \<in> set cs. chunk_id c = chunk_id d \<longrightarrow> c = d" using cs by (metis option.inject)
  moreover have "sweep_ok A t Q" using Q by (simp add: swept_def)
  ultimately have sw: "(\<exists>P'. swept A t Q s' P' \<and> dom Q - dom P' \<subseteq> chunk_id ` set cs) \<and> physical s' = physical t \<and> (\<forall>c \<in> set cs. unindexed s' (chunk_id c))"
    by (intro remove_virtual_swept [OF _ deep]) (use cs phys in auto)
  then obtain P' where "swept A t Q s' P'" "dom Q - dom P' \<subseteq> chunk_id ` set cs" by blast
  then show "\<exists>P'. swept A s P s' P' \<and> dom P - dom P' \<subseteq> chunk_id ` set cs" using swept_trans [OF Q] sub by (intro exI [of _ P'] conjI) blast+
  show "physical s' = physical s |` (- chunk_id ` set cs)" "\<forall>c \<in> set cs. unindexed s' (chunk_id c)"
    using phys sw by auto
qed

section \<open>The chunks by row id\<close>

text \<open>The loaded chunks are listed under their smallest row id, each once, and nothing else is.\<close>

definition row_ids_ok :: "'a ChunkStore \<Rightarrow> bool" where
  "row_ids_ok s \<longleftrightarrow> sorted (physical_chunk_ids_per_min_row_id s) \<and> distinct (physical_chunk_ids_per_min_row_id s) \<and>
     (\<forall>r i. (r, i) \<in> set (physical_chunk_ids_per_min_row_id s) \<longleftrightarrow>
        (\<exists>c. physical s i = Some c \<and> map_option fst (row_id_range c) = Some r))"

lemma row_ids_frame:
  assumes "physical_chunks_per_chunk_id s = physical_chunks_per_chunk_id t"
    "physical_chunk_ids_per_min_row_id s = physical_chunk_ids_per_min_row_id t"
  shows "row_ids_ok s = row_ids_ok t"
  using assms by (simp add: row_ids_ok_def)

lemma min_row_id_frame [simp]:
  "physical_chunk_ids_per_min_row_id (drop_lineage_reference i s) = physical_chunk_ids_per_min_row_id s"
  "physical_chunk_ids_per_min_row_id (modify_lineage i f s) = physical_chunk_ids_per_min_row_id s"
  "physical_chunk_ids_per_min_row_id (fst (remove_chunk_from_virtual_indices A c s)) = physical_chunk_ids_per_min_row_id s"
  "physical_chunk_ids_per_min_row_id (snd (remove_virtual A cs s)) = physical_chunk_ids_per_min_row_id s"
  "physical_chunks_per_chunk_id (snd (remove_virtual A cs s)) = physical_chunks_per_chunk_id s"
  "physical_chunk_ids_per_min_row_id (index_without_component c (index_with_component A c s)) = physical_chunk_ids_per_min_row_id s"
  for s :: "'a ChunkStore"
proof -
  show indices: "physical_chunk_ids_per_min_row_id (fst (remove_chunk_from_virtual_indices A c s)) = physical_chunk_ids_per_min_row_id s" for c s
    by (auto simp: remove_chunk_from_virtual_indices_def Let_def case_prod_unfold split: option.split)
  have more: "LineageDroppingCtx.more (drop_lineage_reference i s) = LineageDroppingCtx.more s"
    using drop_loop_shrinks [of s "[DropRef i]"] by (simp add: shrinks_def drop_lineage_reference_def)
  then show "physical_chunk_ids_per_min_row_id (drop_lineage_reference i s) = physical_chunk_ids_per_min_row_id s"
    by (cases s; cases "drop_lineage_reference i s"; simp)
  show "physical_chunk_ids_per_min_row_id (modify_lineage i f s) = physical_chunk_ids_per_min_row_id s"
    by (auto simp: modify_lineage_def split: option.split)
  show "physical_chunk_ids_per_min_row_id (snd (remove_virtual A cs s)) = physical_chunk_ids_per_min_row_id s"
    "physical_chunks_per_chunk_id (snd (remove_virtual A cs s)) = physical_chunks_per_chunk_id s"
    by (induction cs arbitrary: s) (auto simp: case_prod_unfold indices remove_frame)
  show "physical_chunk_ids_per_min_row_id (index_without_component c (index_with_component A c s)) = physical_chunk_ids_per_min_row_id s"
    by (simp add: index_with_component_def index_without_component_def Let_def)
qed

lemma row_ids_insert:
  assumes "row_ids_ok s" "physical s (chunk_id c) = None"
  shows "row_ids_ok (insert_physical c s)"
proof (cases "row_id_range c")
  case None
  then have "row_ids_ok (insert_physical c s) \<longleftrightarrow>
      row_ids_ok (s\<lparr>physical_chunks_per_chunk_id := ordered_put (chunk_id c) c (physical_chunks_per_chunk_id s)\<rparr>)"
    by (intro row_ids_frame) (simp_all add: insert_physical_def Let_def modify_lineage_frame)
  then show ?thesis using assms None by (auto simp: row_ids_ok_def)
next
  case (Some range)
  obtain mn mx where r: "row_id_range c = Some (mn, mx)" using Some by (cases range) auto
  have "physical_chunk_ids_per_min_row_id (insert_physical c s) = insort_insert (mn, chunk_id c) (physical_chunk_ids_per_min_row_id s)"
    by (simp add: insert_physical_def Let_def r)
  moreover have "physical (insert_physical c s) = (physical s)(chunk_id c \<mapsto> c)" by (simp add: insert_physical_frame)
  ultimately show ?thesis
    using assms r by (auto simp: row_ids_ok_def set_insort_insert sorted_insort_insert distinct_insort_insert)
qed

lemma row_ids_delete:
  assumes "row_ids_ok s" "physical s (chunk_id c) = None \<or> physical s (chunk_id c) = Some c"
    and "physical t = (physical s)(chunk_id c := None)"
    and "physical_chunk_ids_per_min_row_id t = (case row_id_range c of None \<Rightarrow> physical_chunk_ids_per_min_row_id s
      | Some (row_id_min, _) \<Rightarrow> removeAll (row_id_min, chunk_id c) (physical_chunk_ids_per_min_row_id s))"
  shows "row_ids_ok t"
  using assms
  by (auto simp: row_ids_ok_def sorted_filter [of id, simplified] removeAll_filter_not_eq split: option.splits)

lemma shallow_row_ids:
  assumes "row_ids_ok s" "\<forall>c \<in> set cs. physical s (chunk_id c) = None \<or> physical s (chunk_id c) = Some c"
    and "remove_chunks_shallow B A stack_size exhausted cs s = (deleted, s')"
  shows "row_ids_ok s'"
  using assms
proof (induction cs arbitrary: exhausted s deleted)
  case (Cons c cs)
  define t where "t = (case row_id_range c of None \<Rightarrow> s
      | Some (row_id_min, _) \<Rightarrow> s\<lparr>physical_chunk_ids_per_min_row_id := removeAll (row_id_min, chunk_id c) (physical_chunk_ids_per_min_row_id s)\<rparr>)"
  have ids: "physical_chunk_ids_per_min_row_id t = (case row_id_range c of None \<Rightarrow> physical_chunk_ids_per_min_row_id s
      | Some (row_id_min, _) \<Rightarrow> removeAll (row_id_min, chunk_id c) (physical_chunk_ids_per_min_row_id s))"
    "physical_chunks_per_chunk_id t = physical_chunks_per_chunk_id s"
    by (auto simp: t_def split: option.split)
  note rest = Cons.prems(2)
  show ?case
  proof (cases "physical s (chunk_id c)")
    case None
    then have "(physical s)(chunk_id c := None) = physical s" by (simp add: fun_upd_idem)
    then have "row_ids_ok t" by (intro row_ids_delete [OF Cons.prems(1) _ _ ids(1)]) (simp_all add: None ids(2))
    then show ?thesis using Cons.IH [of t exhausted deleted] Cons.prems(2,3) None by (simp add: t_def [symmetric] ids(2))
  next
    case (Some d)
    then have d: "d = c" using Cons.prems(2) by simp
    define u where "u = drop_lineage_reference (chunk_id c) (t\<lparr>physical_chunks_per_chunk_id := AList.delete (chunk_id c) (physical_chunks_per_chunk_id t)\<rparr>)"
    define v where "v = (if map_of (chunks_lineage u) (chunk_id c) = None then fst (remove_chunk_from_virtual_indices A c u) else u)"
    define w where "w = v\<lparr>temporal_physical_chunks_stats := stats_sub (temporal_physical_chunks_stats v) (stats_from_chunk B A stack_size c)\<rparr>"
    have w: "physical_chunk_ids_per_min_row_id w = physical_chunk_ids_per_min_row_id t" "physical w = (physical s)(chunk_id c := None)"
      by (simp_all add: w_def v_def u_def remove_frame drop_lineage_frame ids(2) fun_eq_iff)
    have ok: "row_ids_ok w"
      by (rule row_ids_delete [OF Cons.prems(1) _ w(2)]) (use Some d in \<open>simp_all add: w(1) ids(1)\<close>)
    have "remove_chunks_shallow B A stack_size exhausted (c # cs) s =
        (if exhausted 0 then ([c], w) else apfst (Cons c) (remove_chunks_shallow B A stack_size (\<lambda>n. exhausted (Suc n)) cs w))"
      using Some by (simp add: d t_def [symmetric] ids(2) Let_def u_def v_def w_def)
    moreover have "\<forall>c \<in> set cs. physical w (chunk_id c) = None \<or> physical w (chunk_id c) = Some c" using Cons.prems(2) by (simp add: w(2))
    ultimately show ?thesis
      using Cons.prems(3) ok Cons.IH [OF ok, of "\<lambda>n. exhausted (Suc n)"]
      by (cases "remove_chunks_shallow B A stack_size (\<lambda>n. exhausted (Suc n)) cs w") (auto split: if_splits)
  qed
qed simp

lemma deep_row_ids:
  assumes "row_ids_ok s" "\<forall>c \<in> set cs. physical s (chunk_id c) = None \<or> physical s (chunk_id c) = Some c"
    and "remove_chunks_deep B A stack_size cs s = (deleted, s')"
  shows "row_ids_ok s'"
proof -
  obtain shallow t where t: "remove_chunks_shallow B A stack_size (\<lambda>_. False) cs s = (shallow, t)" by (rule prod.exhaust)
  have "s' = snd (remove_virtual A cs t)" using assms(3) by (simp add: remove_chunks_deep_def t case_prod_unfold Let_def)
  then show ?thesis using shallow_row_ids [OF assms(1,2) t] row_ids_frame [of s' t] by simp
qed

end
