(* ===== verification/Store_Contract.thy ===== *)
theory Store_Contract
  imports Store_Removal
begin

text \<open>
  What the chunk store promises to its clients: its operations keep the invariant that ties the indices to the chunks,
  and its queries then answer about all the loaded chunks although they only look at those that the indices select.
\<close>

section \<open>A store with one chunk\<close>

definition demo_store :: "nat mem_array ChunkStore" where
  "demo_store = insert_physical demo_chunk (index_without_component demo_chunk (index_with_component mem_arrow demo_chunk
     (store_new \<lparr>enable_changelog = True, cfg_chunk_max_bytes = 0, cfg_chunk_max_rows = 0, cfg_chunk_max_rows_if_unsorted = 0\<rparr>)))"

lemma store_new_facts: "physical (store_new cfg) = Map.empty" "unindexed (store_new cfg) i"
  by (simp_all add: store_new_def unindexed_def timeline_index_def component_index_def component_indexes_def index_default_def pairs_def)

lemma demo_store_ok:
  "store_ok mem_arrow demo_store" "physical demo_store = [demo_id 9 \<mapsto> demo_chunk]"
proof -
  note add = store_ok_add [OF mem.arrow_laws_axioms store_new_ok demo_chunk_ok demo_chunk_sel(3,2)]
  have id: "chunk_id demo_chunk = demo_id 9" by (simp add: demo_chunk_def)
  show "store_ok mem_arrow demo_store" unfolding demo_store_def by (rule add) (simp_all add: store_new_facts)
  show "physical demo_store = [demo_id 9 \<mapsto> demo_chunk]"
    unfolding demo_store_def by (subst add) (simp_all add: store_new_facts id)
qed

lemma demo_store_static: "static_chunk_id demo_store p component = None"
  by (simp add: static_chunk_id_def demo_store_def insert_physical_def Let_def modify_lineage_def index_with_component_def
      index_without_component_def store_new_def split: option.split)

lemma demo_store_measurable: "measurable (component_index demo_store (chunk_entity_path demo_chunk) ''frame'' ''c'')"
  unfolding measurable_def by code_simp

lemma demo_times_in_store: "new_temporal (i64_of_int 3) \<in> store_times demo_store ''frame''"
proof -
  have "map_of (chunk_timelines demo_chunk) ''frame'' = Some demo_times" by (simp add: demo_chunk_def)
  moreover have "new_temporal (i64_of_int 3) \<in> set (column_times demo_times)" by (simp add: column_times_def demo_times_facts)
  ultimately show ?thesis by (auto simp: store_times_def chunk_times_on_def demo_store_ok)
qed

text \<open>A chunk that the store does not know yet.\<close>

definition demo_next :: "nat mem_array Chunk" where
  "demo_next = demo_late\<lparr>chunk_id := demo_id 7\<rparr>"

lemma demo_next_ok:
  "columns_ok mem_arrow demo_next" "chunk_is_sorted demo_next" "\<not> chunk_is_empty demo_next" "chunk_id demo_next = demo_id 7"
proof -
  show "columns_ok mem_arrow demo_next"
    using demo_late_ok(1) unfolding demo_next_def columns_ok_def by (simp add: num_rows_def)
qed (simp_all add: demo_next_def demo_late_def demo_chunk_def chunk_is_empty_def num_rows_def)

lemma demo_unindexed:
  assumes "i \<noteq> demo_id 9"
  shows "unindexed demo_store i"
proof -
  let ?s = "store_new \<lparr>enable_changelog = True, cfg_chunk_max_bytes = 0, cfg_chunk_max_rows = 0, cfg_chunk_max_rows_if_unsorted = 0\<rparr> :: nat mem_array ChunkStore"
  have id: "chunk_id demo_chunk = demo_id 9" by (simp add: demo_chunk_def)
  have "store_ok mem_arrow ?s" by (rule store_new_ok)
  then have "tracks mem_arrow ?s (physical ?s)" by (simp add: store_ok_def)
  then have "unindexed (index_without_component demo_chunk (index_with_component mem_arrow demo_chunk ?s)) i"
    by (rule unindexed_add [OF _ demo_chunk_ok]) (simp_all add: id assms store_new_facts)
  then show ?thesis
    unfolding demo_store_def by (simp add: tracks_cong(2) [OF insert_physical_frame(2,3)])
qed

lemma demo_next_new: "physical demo_store (demo_id 7) = None" "unindexed demo_store (demo_id 7)"
proof -
  have "demo_id 7 \<noteq> demo_id 9" by (simp add: demo_id_def)
  then show "physical demo_store (demo_id 7) = None" "unindexed demo_store (demo_id 7)" by (simp_all add: demo_store_ok demo_unindexed)
qed

section \<open>Queries\<close>

lemma from_chunk_ids_returns:
  assumes "mode \<noteq> PanicOnMissing"
  shows "\<exists>res s'. from_chunk_ids False s mode ids = Some (res, s')"
  using collect_chunks_eq [of mode ids "physical s"] assms by (simp add: from_chunk_ids_def)

lemma relevant_chunks_return:
  assumes "mode \<noteq> PanicOnMissing"
  shows "\<exists>res s'. latest_at_relevant_chunks False s mode query p component = Some (res, s')"
    "\<exists>res s'. range_relevant_chunks False A s mode rquery p component = Some (res, s')"
proof -
  note returns = from_chunk_ids_returns [OF assms, of s]
  show "\<exists>res s'. latest_at_relevant_chunks False s mode query p component = Some (res, s')"
    using returns unfolding latest_at_relevant_chunks_def by (cases "static_chunk_id s p component") simp_all
  show "\<exists>res s'. range_relevant_chunks False A s mode rquery p component = Some (res, s')"
  proof (cases "static_chunk_id s p component")
    case None
    obtain res s' where "from_chunk_ids False s mode
        (index_range rquery (case component_index s p (rq_timeline rquery) component of None \<Rightarrow> [] | Some idx \<Rightarrow> [idx])) = Some (res, s')"
      using returns by blast
    then show ?thesis using None by (simp add: range_relevant_chunks_def filter_chunks_def)
  qed (use returns in \<open>simp add: range_relevant_chunks_def\<close>)
qed

text \<open>The answer when the entity has static data for the component: the chunk that holds it, if it is loaded.\<close>

definition static_results :: "'a ChunkStore \<Rightarrow> ChunkTrackingMode \<Rightarrow> ChunkId \<Rightarrow> 'a QueryResults" where
  "static_results s mode i = (case physical s i of
     Some c \<Rightarrow> \<lparr>qr_chunks = [c], qr_missing_virtual = []\<rparr>
   | None \<Rightarrow> \<lparr>qr_chunks = [], qr_missing_virtual = (if mode = Ignore then [] else [i])\<rparr>)"

lemma static_relevant_chunks:
  assumes "static_chunk_id s p component = Some i" "mode \<noteq> PanicOnMissing"
  shows "\<exists>s'. latest_at_relevant_chunks False s mode query p component = Some (static_results s mode i, s')"
    "\<exists>s'. range_relevant_chunks False A s mode rquery p component = Some (static_results s mode i, s')"
  using assms by (cases mode; auto simp: latest_at_relevant_chunks_def range_relevant_chunks_def from_chunk_ids_def static_results_def
      split: option.split)+

text \<open>
  C4. A latest-at query on the store, in a release build and with a mode that reports missing chunks, returns. If the entity has static data for the component, the
  answer is the chunk that holds it, whatever the query time is and whatever temporal data there is. Otherwise, when the result is not partial, then for every
  row of any loaded chunk of the entity that is at or before the query time and has the component, one of the returned chunks
  answers the query with a row that is at least as recent, and that is itself such a row.
  The second part is about stores whose row ids are not zero and an index that is measurable: none of its intervals is longer than \<open>i64::MAX\<close>.
  A chunk in which the column of the component has only nulls makes its index unmeasurable, because it is entered
  with the inverted range; the search may then miss chunks.
\<close>

theorem store_latest_at_finds_latest:
  assumes "arrow_laws A" "store_ok A s" "time_ok at" "at \<noteq> STATIC"
    and "static_chunk_id s p component = None \<longrightarrow> measurable (component_index s p timeline component) \<and>
      (\<forall>i c. physical s i = Some c \<longrightarrow> (\<forall>r \<in> set (chunk_row_ids c). tuid_ZERO < r))"
    and "mode = Report \<or> mode = ReportTransient" "query = \<lparr>lq_timeline = Some timeline, lq_at = at\<rparr>"
  shows "\<exists>res s'. latest_at_relevant_chunks False s mode query p component = Some (res, s') \<and>
    (case static_chunk_id s p component of
       Some i \<Rightarrow> res = static_results s mode i
     | None \<Rightarrow>
         \<not> is_partial res \<longrightarrow>
         (\<forall>i c tc w. physical s i = Some c \<and> path_eq (chunk_entity_path c) p \<and> map_of (chunk_timelines c) timeline = Some tc \<and>
            w \<in> set (latest_candidates A c timeline at component) \<longrightarrow>
            (\<exists>d \<in> set (qr_chunks res). \<exists>u r. latest_at A new_id d query component = Some (Some u) \<and> rows A (unit_chunk u) = [r] \<and>
               r \<in> set (latest_candidates A d timeline at component) \<and> rw_key timeline w \<le> rw_key timeline r)))"
proof (cases "static_chunk_id s p component")
  case None
  obtain res s' where res: "latest_at_relevant_chunks False s mode query p component = Some (res, s')"
    using relevant_chunks_return(1) [of mode] assms(6) by blast
  have "mode \<noteq> Ignore" using assms(6) by auto
  then show ?thesis
    using latest_at_composes [OF assms(1-4) _ None _ assms(7) res] assms(5) None res by simp blast
next
  case (Some i)
  moreover have "mode \<noteq> PanicOnMissing" using assms(6) by auto
  ultimately show ?thesis using static_relevant_chunks(1) [of s p component i mode query] by simp
qed

theorem store_latest_at_finds_latest_witness:
  "\<exists>res s'. latest_at_relevant_chunks False demo_store Report \<lparr>lq_timeline = Some ''frame'', lq_at = time_MAX\<rparr>
      (chunk_entity_path demo_chunk) ''c'' = Some (res, s') \<and>
    (\<not> is_partial res \<longrightarrow> (\<exists>d \<in> set (qr_chunks res). \<exists>u r.
       latest_at mem_arrow (demo_id 8) d \<lparr>lq_timeline = Some ''frame'', lq_at = time_MAX\<rparr> ''c'' = Some (Some u) \<and>
       rows mem_arrow (unit_chunk u) = [r] \<and>
       rw_key ''frame'' (row_at mem_arrow demo_chunk 0) \<le> rw_key ''frame'' r))"
proof -
  have tc: "map_of (chunk_timelines demo_chunk) ''frame'' = Some demo_times" by (simp add: demo_chunk_def)
  have w: "row_at mem_arrow demo_chunk 0 \<in> set (latest_candidates mem_arrow demo_chunk ''frame'' time_MAX ''c'')"
    by (simp add: latest_candidates_def rows_def demo_chunk_sel demo_cells)
  have at: "time_MAX \<noteq> STATIC" by (simp add: time_MAX_def STATIC_def)
  have ids: "\<forall>i c. physical demo_store i = Some c \<longrightarrow> (\<forall>r \<in> set (chunk_row_ids c). tuid_ZERO < r)"
    using demo_ids by (simp add: demo_store_ok)
  show ?thesis
    using store_latest_at_finds_latest [where new_id = "demo_id 8" and s = demo_store and p = "chunk_entity_path demo_chunk" and component = "''c''"
        and timeline = "''frame''", OF mem.arrow_laws_axioms demo_store_ok(1) _ at _ disjI1 [OF refl] refl]
      demo_store_static demo_store_measurable ids demo_store_ok(2) tc w by fastforce
qed

lemma intersects_row:
  assumes "range_min r \<le> t" "t \<le> range_max r" "range_min q \<le> t" "t \<le> range_max q"
  shows "intersects r q"
  using assms by (auto simp: intersects_def)

text \<open>
  C5. A range query on the store, in a release build and with a mode that does not panic, returns. If the entity has static data for the component, the
  answer is the chunk that holds it, although its rows have no times. Otherwise it is exactly the loaded chunks of the entity whose times for the
  component intersect the queried range; in particular every loaded chunk with a row of the component in the range.
  The option to include extended bounds makes no difference: although the documentation promises the data just outside of the range, the chunks
  that hold only such data are filtered out again. The second part is about a measurable index, as for the latest-at query above.
\<close>

theorem store_range_exact:
  assumes "arrow_laws A" "store_ok A s" "range_ok (rq_range query)" "mode \<noteq> PanicOnMissing"
    and "static_chunk_id s p component = None \<longrightarrow> measurable (component_index s p (rq_timeline query) component)"
  shows "\<exists>res s'. range_relevant_chunks False A s mode query p component = Some (res, s') \<and>
    (case static_chunk_id s p component of
       Some i \<Rightarrow> res = static_results s mode i
     | None \<Rightarrow>
         (\<forall>c. c \<in> set (qr_chunks res) \<longleftrightarrow>
            (\<exists>i r. physical s i = Some c \<and> path_eq (chunk_entity_path c) p \<and>
               chunk_range A c (rq_timeline query) component = Some r \<and> intersects r (rq_range query))) \<and>
         (\<forall>i c tc w. physical s i = Some c \<and> path_eq (chunk_entity_path c) p \<and> map_of (chunk_timelines c) (rq_timeline query) = Some tc \<and>
            w \<in> set (rows A c) \<and> rw_cells w component \<noteq> None \<and> range_min (rq_range query) \<le> new_temporal (rw_time (rq_timeline query) w) \<and>
            new_temporal (rw_time (rq_timeline query) w) \<le> range_max (rq_range query) \<longrightarrow> c \<in> set (qr_chunks res)))"
proof (cases "static_chunk_id s p component")
  case (Some i)
  then show ?thesis using static_relevant_chunks(2) [of s p component i mode] assms(4) by simp
next
  case None
  obtain res s' where res: "range_relevant_chunks False A s mode query p component = Some (res, s')"
    using relevant_chunks_return(2) [OF assms(4)] by blast
  have s: "loaded_ok A s" using assms(2) by (simp add: store_ok_def)
  have "measurable (component_index s p (rq_timeline query) component)" using assms(5) None by simp
  note mem = range_composes [OF assms(1-3) None this res]
  have "(i, r) \<in> component_entries A (physical s) p (rq_timeline query) component \<longleftrightarrow>
      (\<exists>c. physical s i = Some c \<and> path_eq (chunk_entity_path c) p \<and> chunk_range A c (rq_timeline query) component = Some r)" for i r
    by (auto simp: component_entries_def chunk_range_iff)
  then have exact: "c \<in> set (qr_chunks res) \<longleftrightarrow> (\<exists>i r. physical s i = Some c \<and> path_eq (chunk_entity_path c) p \<and>
      chunk_range A c (rq_timeline query) component = Some r \<and> intersects r (rq_range query))" for c
    unfolding mem by (metis option.inject)
  have "c \<in> set (qr_chunks res)"
    if "physical s i = Some c" "path_eq (chunk_entity_path c) p" "map_of (chunk_timelines c) (rq_timeline query) = Some tc"
      "w \<in> set (rows A c)" "rw_cells w component \<noteq> None" "range_min (rq_range query) \<le> new_temporal (rw_time (rq_timeline query) w)"
      "new_temporal (rw_time (rq_timeline query) w) \<le> range_max (rq_range query)" for i c tc w
    unfolding mem using that(1)
    by (rule_tac arrow_laws.component_entry_row [OF assms(1) s that(1-5)]) (blast intro: intersects_row that(6,7))
  then show ?thesis using res exact unfolding None option.case by blast
qed

theorem store_range_exact_witness:
  "\<exists>res s'. range_relevant_chunks False mem_arrow demo_store Report (range_query_everything ''frame'')
      (chunk_entity_path demo_chunk) ''c'' = Some (res, s') \<and> demo_chunk \<in> set (qr_chunks res)"
proof -
  have q: "range_ok (rq_range (range_query_everything ''frame''))" "rq_timeline (range_query_everything ''frame'') = ''frame''"
    by (simp_all add: range_query_everything_def range_ok_def range_EVERYTHING_def time_MIN_def time_MAX_def STATIC_def)
  have tc: "map_of (chunk_timelines demo_chunk) ''frame'' = Some demo_times" by (simp add: demo_chunk_def)
  have w: "row_at mem_arrow demo_chunk 0 \<in> set (rows mem_arrow demo_chunk)" "rw_cells (row_at mem_arrow demo_chunk 0) ''c'' \<noteq> None"
    by (simp_all add: rows_def demo_chunk_sel demo_cells)
  have "range_min (rq_range (range_query_everything ''frame'')) \<le> new_temporal (rw_time ''frame'' (row_at mem_arrow demo_chunk 0)) \<and>
      new_temporal (rw_time ''frame'' (row_at mem_arrow demo_chunk 0)) \<le> range_max (rq_range (range_query_everything ''frame''))"
    by code_simp
  then show ?thesis
    using store_range_exact [OF mem.arrow_laws_axioms demo_store_ok(1) q(1), of Report "chunk_entity_path demo_chunk" "''c''"]
      demo_store_static demo_store_measurable demo_store_ok(2) tc w unfolding q(2) by fastforce
qed

text \<open>
  C39. The next and the previous time on a timeline are the nearest times, strictly after or before the given one, that any loaded chunk has,
  although the scan of the index stops early.
\<close>

theorem store_times_exact:
  assumes "store_ok A s" "time_ok t"
  shows "next_time_on_timeline s timeline t =
      (if {u \<in> store_times s timeline. t < u} = {} then None else Some (Min {u \<in> store_times s timeline. t < u})) \<and>
    prev_time_on_timeline s timeline t =
      (if {u \<in> store_times s timeline. u < t} = {} then None else Some (Max {u \<in> store_times s timeline. u < t}))"
proof -
  have fin: "finite (store_times s timeline)"
  proof -
    have "store_times s timeline = (\<Union>i \<in> dom (physical s). chunk_times_on s timeline i)"
      by (auto simp: store_times_def chunk_times_on_def)
    moreover have "finite (chunk_times_on s timeline i)" for i
    proof (rule finite_subset)
      show "chunk_times_on s timeline i \<subseteq> \<Union> {set (column_times tc) | tc c. physical s i = Some c \<and> map_of (chunk_timelines c) timeline = Some tc}"
        by (auto simp: chunk_times_on_def)
      show "finite (\<Union> {set (column_times tc) | tc c. physical s i = Some c \<and> map_of (chunk_timelines c) timeline = Some tc})"
        by (cases "physical s i"; cases "map_of (chunk_timelines (the (physical s i))) timeline") auto
    qed
    ultimately show ?thesis by (simp add: finite_dom_map_of)
  qed
  then have fins: "finite {u \<in> store_times s timeline. t < u}" "finite {u \<in> store_times s timeline. u < t}" by simp_all
  show ?thesis
    using time_on_timeline_best [OF assms, of timeline] fins
    by (auto simp: earliest.is_best_def latest.is_best_def intro!: Min_eqI [symmetric] Max_eqI [symmetric] split: option.splits)
qed

theorem store_times_exact_witness:
  "next_time_on_timeline demo_store ''frame'' (new_temporal (i64_of_int 1)) =
     Some (Min {u \<in> store_times demo_store ''frame''. new_temporal (i64_of_int 1) < u})"
proof -
  have "new_temporal (i64_of_int 1) < new_temporal (i64_of_int 3)" by code_simp
  then have "{u \<in> store_times demo_store ''frame''. new_temporal (i64_of_int 1) < u} \<noteq> {}" using demo_times_in_store by blast
  then show ?thesis using store_times_exact [OF demo_store_ok(1), of "new_temporal (i64_of_int 1)" "''frame''"] by simp
qed

text \<open>
  C40. Looking for the chunks furthest from a time by binary search on sorted time columns gives the same chunks in the same order as
  scanning all times.
\<close>

theorem furthest_chunks_fast_is_slow:
  assumes "store_ok A s"
  shows "find_temporal_chunks_furthest_from s timeline time = find_temporal_chunks_furthest_from_slow s timeline time"
  using assms furthest_fast_slow by (auto simp: store_ok_def)

theorem furthest_chunks_fast_is_slow_witness:
  "find_temporal_chunks_furthest_from demo_store ''frame'' time_MAX = find_temporal_chunks_furthest_from_slow demo_store ''frame'' time_MAX"
  by (rule furthest_chunks_fast_is_slow [OF demo_store_ok(1)])

section \<open>Changes\<close>

text \<open>
  C33. Entering a new temporal chunk, unloading chunks under any time budget and removing chunks for good keep the invariant of the store:
  the loaded chunks are sound and filed under their own ids, and the temporal indices list them exactly.
  Unloading takes exactly the reported chunks out of the physical ones; removal leaves none of the given chunks in any temporal index.
  All three keep the list by smallest row id in step as well: it stays sorted and without duplicates, and lists exactly the loaded chunks,
  each under the smallest of its row ids (for unloading, where the chunks given are the loaded ones).
  The static index, the statistics and the lineage are not part of this invariant.
\<close>

theorem store_changes_keep_invariant:
  assumes "arrow_laws A" "sweep_ok A s P" "columns_ok A c" "chunk_is_sorted c" "\<not> chunk_is_empty c"
    and "physical s (chunk_id c) = None" "unindexed s (chunk_id c)"
    and "remove_chunks_shallow B A stack_size exhausted cs s = (unloaded, s1)"
    and "remove_chunks_deep B A stack_size ds s = (removed, s2)" "\<forall>d \<in> set ds. columns_ok A d \<and> P (chunk_id d) = Some d"
  shows "store_ok A (insert_physical c (index_without_component c (index_with_component A c s))) \<and>
    physical (insert_physical c (index_without_component c (index_with_component A c s))) = (physical s)(chunk_id c \<mapsto> c) \<and>
    store_ok A s1 \<and> physical s1 = physical s |` (- chunk_id ` set unloaded) \<and>
    ((\<forall>n. \<not> exhausted n) \<longrightarrow> physical s1 = physical s |` (- chunk_id ` set cs)) \<and>
    store_ok A s2 \<and> physical s2 = physical s |` (- chunk_id ` set ds) \<and> (\<forall>d \<in> set ds. unindexed s2 (chunk_id d)) \<and>
    (row_ids_ok s \<longrightarrow> row_ids_ok (insert_physical c (index_without_component c (index_with_component A c s))) \<and> row_ids_ok s2 \<and>
       ((\<forall>c \<in> set cs. physical s (chunk_id c) = None \<or> physical s (chunk_id c) = Some c) \<longrightarrow> row_ids_ok s1))"
proof -
  have "store_ok A s" by (rule sweep_ok_store [OF assms(2)])
  note add = store_ok_add [OF assms(1) this assms(3-7)]
  have "store_ok A t" if "\<exists>Q. swept A s P t Q" for t using that sweep_ok_store by (auto simp: swept_def)
  moreover have "row_ids_ok (insert_physical c (index_without_component c (index_with_component A c s)))" if "row_ids_ok s"
    using that assms(6) row_ids_frame [of "index_without_component c (index_with_component A c s)" s]
    by (intro row_ids_insert) (simp_all add: index_with_component_def index_without_component_def Let_def)
  moreover have "row_ids_ok s2" if "row_ids_ok s"
  proof -
    have "physical s (chunk_id d) = None \<or> physical s (chunk_id d) = Some d" if "d \<in> set ds" for d
      using assms(2,10) that by (cases "physical s (chunk_id d)") (force simp: sweep_ok_def map_le_def)+
    then show ?thesis using deep_row_ids [OF that _ assms(9)] by blast
  qed
  ultimately show ?thesis
    using add shallow_swept [OF assms(2,8)] deep_swept [OF assms(2,9,10)] shallow_row_ids [OF _ _ assms(8)] by blast
qed

theorem store_changes_keep_invariant_witness:
  "store_ok mem_arrow (insert_physical demo_next (index_without_component demo_next (index_with_component mem_arrow demo_next demo_store))) \<and>
   physical (snd (remove_chunks_deep demo_build mem_arrow 0 [demo_chunk] demo_store)) = Map.empty \<and>
   unindexed (snd (remove_chunks_deep demo_build mem_arrow 0 [demo_chunk] demo_store)) (demo_id 9) \<and>
   row_ids_ok (snd (remove_chunks_deep demo_build mem_arrow 0 [demo_chunk] demo_store))"
proof -
  have ids: "row_ids_ok demo_store"
  proof -
    have "physical_chunk_ids_per_min_row_id demo_store = [(demo_id 1, demo_id 9)]" by code_simp
    moreover have "map_option fst (row_id_range demo_chunk) = Some (demo_id 1)" by code_simp
    ultimately show ?thesis by (auto simp: row_ids_ok_def demo_store_ok)
  qed
  have ok: "sweep_ok mem_arrow demo_store (physical demo_store)"
    using demo_store_ok(1) by (simp add: sweep_ok_def store_ok_def)
  have id: "chunk_id demo_chunk = demo_id 9" by (simp add: demo_chunk_def)
  obtain unloaded s1 where 1: "remove_chunks_shallow demo_build mem_arrow 0 (\<lambda>_. False) [demo_chunk] demo_store = (unloaded, s1)"
    by (rule prod.exhaust)
  obtain removed s2 where 2: "remove_chunks_deep demo_build mem_arrow 0 [demo_chunk] demo_store = (removed, s2)" by (rule prod.exhaust)
  show ?thesis
    using store_changes_keep_invariant [OF mem.arrow_laws_axioms ok demo_next_ok(1-3) _ _ 1 2] demo_next_new demo_next_ok(4) demo_chunk_ok ids
    by (simp add: 2 id demo_store_ok restrict_map_def fun_eq_iff)
qed

end
