(* ===== verification/Store_Gc.thy ===== *)
theory Store_Gc
  imports Store_Contract
begin

text \<open>
  Garbage collection of the chunk store (\<open>src/crates/store/dl_chunk_store/src/gc.rs\<close>): the choice of the chunks to drop, and the sweep. The clock is an
  oracle: \<open>mark_exhausted n\<close> and \<open>sweep_exhausted n\<close> tell whether the time budget of the phase is used up after \<open>n + 1\<close> chunks. How many bytes a
  floating point fraction of the store amounts to is a parameter. The deleted chunks stand for the events that are sent about them.
\<close>

section \<open>Statistics of the store\<close>

record ChunkStoreStats =
  static_chunks :: ChunkStoreChunkStats
  temporal_chunks :: ChunkStoreChunkStats

definition stats_total :: "ChunkStoreStats \<Rightarrow> ChunkStoreChunkStats" where
  "stats_total t = stats_add (static_chunks t) (temporal_chunks t)"

definition store_stats_sub :: "ChunkStoreStats \<Rightarrow> ChunkStoreStats \<Rightarrow> ChunkStoreStats" where
  "store_stats_sub a b = \<lparr>static_chunks = stats_sub (static_chunks a) (static_chunks b),
     temporal_chunks = stats_sub (temporal_chunks a) (temporal_chunks b)\<rparr>"

definition store_stats :: "'a ChunkStore \<Rightarrow> ChunkStoreStats" where
  "store_stats s = \<lparr>static_chunks = static_chunks_stats s, temporal_chunks = temporal_physical_chunks_stats s\<rparr>"

section \<open>Options\<close>

datatype 'f GarbageCollectionTarget = DropAtLeastBytes u64 | DropAtLeastFraction 'f | Everything

definition target_bytes_from_size :: "(u64 \<Rightarrow> 'f \<Rightarrow> u64) \<Rightarrow> 'f GarbageCollectionTarget \<Rightarrow> u64 \<Rightarrow> u64" where
  "target_bytes_from_size scale t total_size_before =
     (case t of DropAtLeastBytes n \<Rightarrow> n | DropAtLeastFraction p \<Rightarrow> scale total_size_before p | Everything \<Rightarrow> - 1)"

record 'f GarbageCollectionOptions =
  gc_target :: "'f GarbageCollectionTarget"
  protect_latest :: nat
  protected_time_ranges :: "(string \<times> AbsoluteTimeRange) list"
  protected_chunks :: "ChunkId set"
  furthest_from :: "(string \<times> TimeInt) option"
  perform_deep_deletions :: bool

definition gc_everything :: "'f GarbageCollectionOptions" where
  "gc_everything = \<lparr>gc_target = Everything, protect_latest = 0, protected_time_ranges = [], protected_chunks = {},
     furthest_from = None, perform_deep_deletions = False\<rparr>"

definition is_chunk_protected :: "'f GarbageCollectionOptions \<Rightarrow> 'a Chunk \<Rightarrow> bool" where
  "is_chunk_protected opts c \<longleftrightarrow> chunk_id c \<in> protected_chunks opts \<or>
     list_ex (\<lambda>(timeline, protected_time_range).
       case map_of (chunk_timelines c) timeline of
         None \<Rightarrow> False
       | Some time_column \<Rightarrow> intersects (tc_time_range time_column) protected_time_range) (protected_time_ranges opts)"

section \<open>Mark\<close>

definition all_component_indexes :: "'a ChunkStore \<Rightarrow> ChunkIdSetPerTime list" where
  "all_component_indexes s =
     concat (map (\<lambda>(_, per_timeline). concat (map (map snd \<circ> snd) per_timeline)) (temporal_chunk_ids_per_entity_per_component s))"

definition find_all_protected_physical_chunk_ids :: "'a ChunkStore \<Rightarrow> nat \<Rightarrow> ChunkId set" where
  "find_all_protected_physical_chunk_ids s target_count =
     (if target_count = 0 then {}
      else set (concat (map (\<lambda>idx.
             take target_count (filter (\<lambda>i. physical s i \<noteq> None)
               (concat (rev (map snd (per_start_time idx))) @ concat (rev (map snd (per_end_time idx))))))
           (all_component_indexes s))))"

text \<open>
  The loop that picks chunks: those picked, the bytes counted so far, and whether the loop returned because a limit was reached.
\<close>

fun mark_chunks ::
  "('a Chunk \<Rightarrow> u64) \<Rightarrow> u64 \<Rightarrow> (nat \<Rightarrow> bool) \<Rightarrow> 'a Chunk list \<Rightarrow> u64 \<Rightarrow> 'a Chunk list \<times> u64 \<times> bool" where
  "mark_chunks size_of target exhausted [] num_bytes_dropped = ([], num_bytes_dropped, False)"
| "mark_chunks size_of target exhausted (c # cs) num_bytes_dropped =
     (let num_bytes_dropped = num_bytes_dropped + size_of c in
      if exhausted 0 \<or> target \<le> num_bytes_dropped then ([c], num_bytes_dropped, True)
      else apfst (Cons c) (mark_chunks size_of target (\<lambda>n. exhausted (Suc n)) cs num_bytes_dropped))"

definition by_row_id :: "'f GarbageCollectionOptions \<Rightarrow> 'a ChunkStore \<Rightarrow> 'a Chunk list" where
  "by_row_id opts s =
     (let protected_chunk_ids = find_all_protected_physical_chunk_ids s (protect_latest opts) in
      filter (\<lambda>c. \<not> is_chunk_protected opts c)
        (filter (\<lambda>c. \<not> chunk_is_static c)
          (List.map_filter (physical s)
            (filter (\<lambda>i. i \<notin> protected_chunk_ids) (map snd (physical_chunk_ids_per_min_row_id s))))))"

definition gc_find_candidates ::
  "('a Chunk \<Rightarrow> u64) \<Rightarrow> (nat \<Rightarrow> bool) \<Rightarrow> 'f GarbageCollectionOptions \<Rightarrow> u64 \<Rightarrow> 'a ChunkStore \<Rightarrow> 'a Chunk list" where
  "gc_find_candidates size_of mark_exhausted opts target_bytes_to_drop s =
     (if target_bytes_to_drop = 0 then []
      else
        let (chunks_to_be_removed, num_bytes_dropped, reached) = (case furthest_from opts of
              None \<Rightarrow> ([], 0, False)
            | Some (timeline, time) \<Rightarrow>
                mark_chunks size_of target_bytes_to_drop (\<lambda>_. False)
                  (filter (\<lambda>c. \<not> is_chunk_protected opts c) (find_temporal_chunks_furthest_from s timeline time)) 0)
        in if reached then chunks_to_be_removed
           else if num_bytes_dropped < target_bytes_to_drop
           then chunks_to_be_removed @ fst (mark_chunks size_of target_bytes_to_drop mark_exhausted (by_row_id opts s) num_bytes_dropped)
           else chunks_to_be_removed)"

section \<open>Sweep\<close>

definition gc_drop_at_least_num_bytes ::
  "'a build \<Rightarrow> ('a, 'd, 'v) arrow \<Rightarrow> u64 \<Rightarrow> (nat \<Rightarrow> bool) \<Rightarrow> (nat \<Rightarrow> bool) \<Rightarrow> 'f GarbageCollectionOptions \<Rightarrow> u64 \<Rightarrow> 'a ChunkStore \<Rightarrow>
   'a Chunk list \<times> 'a ChunkStore" where
  "gc_drop_at_least_num_bytes B A stack_size mark_exhausted sweep_exhausted opts target_bytes_to_drop s =
     (let chunks_to_be_removed = gc_find_candidates (total_size_bytes B stack_size) mark_exhausted opts target_bytes_to_drop s;
          (deeply, shallowly) =
            (if perform_deep_deletions opts then (chunks_to_be_removed, [])
             else (filter (\<lambda>c. \<not> is_root_chunk s (chunk_id c)) chunks_to_be_removed,
                   filter (\<lambda>c. is_root_chunk s (chunk_id c)) chunks_to_be_removed));
          (dels1, s) = remove_chunks_shallow B A stack_size sweep_exhausted shallowly s;
          (dels2, s) = remove_chunks_deep B A stack_size deeply s
      in (dels1 @ dels2, s))"

definition gc ::
  "'a build \<Rightarrow> ('a, 'd, 'v) arrow \<Rightarrow> u64 \<Rightarrow> (u64 \<Rightarrow> 'f \<Rightarrow> u64) \<Rightarrow> (nat \<Rightarrow> bool) \<Rightarrow> (nat \<Rightarrow> bool) \<Rightarrow> 'f GarbageCollectionOptions \<Rightarrow> 'a ChunkStore \<Rightarrow>
   'a Chunk list \<times> ChunkStoreStats \<times> 'a ChunkStore" where
  "gc B A stack_size scale mark_exhausted sweep_exhausted opts s =
     (let s = s\<lparr>gc_id := gc_id s + 1\<rparr>;
          stats_before = store_stats s;
          target_bytes_to_drop = target_bytes_from_size scale (gc_target opts) (stat_total_size_bytes (stats_total stats_before));
          (diffs, s) = gc_drop_at_least_num_bytes B A stack_size mark_exhausted sweep_exhausted opts target_bytes_to_drop s
      in (diffs, store_stats_sub stats_before (store_stats s), s))"

section \<open>What is marked\<close>

lemma mark_chunks_prefix:
  assumes "mark_chunks size_of target exhausted cs n = (ds, m, reached)"
  shows "\<exists>k. ds = take k cs \<and> m = n + sum_list (map size_of ds) \<and>
    (if reached then ds \<noteq> [] \<and> (exhausted (length ds - 1) \<or> target \<le> m) else ds = cs) \<and>
    (\<forall>j < length ds - (if reached then 1 else 0). n + sum_list (map size_of (take (Suc j) ds)) < target)"
  using assms
proof (induction size_of target exhausted cs n arbitrary: ds m reached rule: mark_chunks.induct)
  case (2 size_of target exhausted c cs n)
  show ?case
  proof (cases "exhausted 0 \<or> target \<le> n + size_of c")
    case True
    then show ?thesis using "2.prems" by (auto simp: Let_def intro!: exI [of _ 1])
  next
    case False
    then obtain ds' where run: "mark_chunks size_of target (\<lambda>n. exhausted (Suc n)) cs (n + size_of c) = (ds', m, reached)" "ds = c # ds'"
      using "2.prems" by (cases "mark_chunks size_of target (\<lambda>n. exhausted (Suc n)) cs (n + size_of c)") (auto simp: Let_def)
    obtain k where k: "ds' = take k cs" "m = n + size_of c + sum_list (map size_of ds')"
      "if reached then ds' \<noteq> [] \<and> (exhausted (Suc (length ds' - 1)) \<or> target \<le> m) else ds' = cs"
      "\<forall>j < length ds' - (if reached then 1 else 0). n + size_of c + sum_list (map size_of (take (Suc j) ds')) < target"
      using "2.IH" [OF refl False run(1)] by blast
    have "n + sum_list (map size_of (take (Suc j) ds)) < target" if "j < length ds - (if reached then 1 else 0)" for j
      using that k(3,4) False run(2) by (cases j) (auto simp: not_le add.assoc split: if_splits)
    then show ?thesis using k run(2) by (auto simp: add.assoc intro!: exI [of _ "Suc k"])
  qed
qed auto

lemma marked_subset: "mark_chunks size_of target exhausted cs n = (ds, m, reached) \<Longrightarrow> set ds \<subseteq> set cs"
  using mark_chunks_prefix [of size_of target exhausted cs n ds m reached] by (auto dest: in_set_takeD)

lemma furthest_loaded:
  assumes "loaded_ok A s" "c \<in> set (find_temporal_chunks_furthest_from s timeline time)"
  shows "physical s (chunk_id c) = Some c" "\<not> chunk_is_static c"
proof -
  obtain i tc where "(i, c) \<in> set (physical_chunks_per_chunk_id s)" "map_of (chunk_timelines c) timeline = Some tc"
    using assms(2) by (auto simp: find_temporal_chunks_furthest_from_def furthest_first_def List.map_filter_def bind_eq_Some_conv split: option.splits)
  then show "physical s (chunk_id c) = Some c" "\<not> chunk_is_static c"
    using assms(1) by (auto simp: loaded_ok_def strict_sorted_iff chunk_is_static_def dest: map_of_is_SomeI)
qed

lemma by_row_id_loaded:
  assumes "loaded_ok A s" "c \<in> set (by_row_id opts s)"
  shows "physical s (chunk_id c) = Some c" "\<not> chunk_is_static c" "\<not> is_chunk_protected opts c"
    "chunk_id c \<notin> find_all_protected_physical_chunk_ids s (protect_latest opts)"
  using assms loaded(1) [OF assms(1)] by (auto simp: by_row_id_def Let_def set_map_filter_get)

lemma candidates_ok:
  assumes s: "loaded_ok A s" and c: "c \<in> set (gc_find_candidates size_of mark_exhausted opts target s)"
  shows "physical s (chunk_id c) = Some c \<and> \<not> chunk_is_static c \<and> \<not> is_chunk_protected opts c \<and>
    (furthest_from opts = None \<longrightarrow> chunk_id c \<notin> find_all_protected_physical_chunk_ids s (protect_latest opts))"
proof -
  have "(\<exists>timeline time. furthest_from opts = Some (timeline, time) \<and> c \<in> set (find_temporal_chunks_furthest_from s timeline time) \<and>
      \<not> is_chunk_protected opts c) \<or> c \<in> set (by_row_id opts s)"
  proof -
    obtain ds m reached where ds: "(case furthest_from opts of None \<Rightarrow> ([], 0, False)
        | Some (timeline, time) \<Rightarrow> mark_chunks size_of target (\<lambda>_. False)
            (filter (\<lambda>c. \<not> is_chunk_protected opts c) (find_temporal_chunks_furthest_from s timeline time)) 0) = (ds, m, reached)"
      by (metis prod.exhaust)
    obtain es n full where es: "mark_chunks size_of target mark_exhausted (by_row_id opts s) m = (es, n, full)" by (metis prod.exhaust)
    have "c \<in> set ds \<or> c \<in> set es" using c unfolding gc_find_candidates_def ds by (simp add: es split: if_splits)
    then show ?thesis using ds marked_subset [OF es] by (auto split: option.splits dest!: marked_subset)
  qed
  then show ?thesis using furthest_loaded [OF s, of c] by_row_id_loaded [OF s, of c opts] by (elim disjE exE conjE) simp_all
qed

section \<open>What is swept\<close>

lemma shallow_deleted:
  assumes "sweep_ok A s P" "remove_chunks_shallow B A stack_size exhausted cs s = (deleted, s')"
    and "\<forall>c \<in> set cs. physical s (chunk_id c) = Some c"
  shows "set deleted \<subseteq> set cs" "\<forall>n. \<not> exhausted n \<Longrightarrow> chunk_id ` set deleted = chunk_id ` set cs"
proof -
  note sw = shallow_swept [OF assms(1,2)]
  have "d \<in> set cs" if "d \<in> set deleted" for d
  proof -
    have d: "physical s (chunk_id d) = Some d" "chunk_id d \<in> chunk_id ` set cs" using sw that by blast+
    then obtain c where "c \<in> set cs" "chunk_id d = chunk_id c" by blast
    then show ?thesis using assms(3) d(1) by simp
  qed
  then show "set deleted \<subseteq> set cs" by blast
  assume "\<forall>n. \<not> exhausted n"
  then have "physical s |` (- chunk_id ` set cs) = physical s |` (- chunk_id ` set deleted)" using sw by metis
  then have "chunk_id c \<in> chunk_id ` set deleted" if "c \<in> set cs" for c
    using that assms(3) by (auto simp: restrict_map_def fun_eq_iff split: if_splits)
  then show "chunk_id ` set deleted = chunk_id ` set cs" using sw by blast
qed

lemma remove_virtual_deleted: "set (fst (remove_virtual A cs s)) \<subseteq> set cs"
  by (induction cs arbitrary: s) (auto simp: case_prod_unfold apfst_def map_prod_def split: if_splits prod.splits)

lemma deep_deleted:
  assumes "sweep_ok A s P" "remove_chunks_deep B A stack_size cs s = (deleted, s')"
    and "\<forall>c \<in> set cs. physical s (chunk_id c) = Some c"
  shows "set deleted \<subseteq> set cs" "chunk_id ` set deleted = chunk_id ` set cs"
proof -
  obtain shallow t where t: "remove_chunks_shallow B A stack_size (\<lambda>_. False) cs s = (shallow, t)" by (rule prod.exhaust)
  have deleted: "deleted = fst (remove_virtual A cs t) @ filter (\<lambda>c. chunk_id c \<notin> chunk_id ` set (fst (remove_virtual A cs t))) shallow"
    using assms(2) t by (simp add: remove_chunks_deep_def case_prod_unfold Let_def)
  show sub: "set deleted \<subseteq> set cs"
    using shallow_deleted(1) [OF assms(1) t assms(3)] remove_virtual_deleted [of A cs t] unfolding deleted by auto
  have "chunk_id ` set shallow \<subseteq> chunk_id ` set deleted" unfolding deleted by auto
  then show "chunk_id ` set deleted = chunk_id ` set cs" using sub shallow_deleted(2) [OF assms(1) t assms(3)] by blast
qed

lemma gc_drop_sweeps:
  assumes ok: "sweep_ok A s P"
    and run: "gc_drop_at_least_num_bytes B A stack_size mark_exhausted sweep_exhausted opts target s = (deleted, s')"
  defines "cs \<equiv> gc_find_candidates (total_size_bytes B stack_size) mark_exhausted opts target s"
  shows "\<exists>P'. swept A s P s' P'" "physical s' = physical s |` (- chunk_id ` set deleted)" "set deleted \<subseteq> set cs"
    "\<forall>n. \<not> sweep_exhausted n \<Longrightarrow> chunk_id ` set deleted = chunk_id ` set cs"
proof -
  define deep where "deep = (if perform_deep_deletions opts then cs else filter (\<lambda>c. \<not> is_root_chunk s (chunk_id c)) cs)"
  define shallow where "shallow = (if perform_deep_deletions opts then [] else filter (\<lambda>c. is_root_chunk s (chunk_id c)) cs)"
  have parts: "set cs = set shallow \<union> set deep" "chunk_id ` set shallow \<inter> chunk_id ` set deep = {}"
    by (auto simp: shallow_def deep_def)
  obtain ds1 s1 where 1: "remove_chunks_shallow B A stack_size sweep_exhausted shallow s = (ds1, s1)" by (rule prod.exhaust)
  obtain ds2 where 2: "remove_chunks_deep B A stack_size deep s1 = (ds2, s')" and deleted: "deleted = ds1 @ ds2"
    using run 1 by (cases "remove_chunks_deep B A stack_size deep s1")
      (auto simp: gc_drop_at_least_num_bytes_def cs_def [symmetric] shallow_def deep_def Let_def split: if_splits)
  have s: "loaded_ok A s" using ok by (simp add: sweep_ok_def)
  have loaded_cs: "\<forall>c \<in> set cs. physical s (chunk_id c) = Some c" using candidates_ok [OF s] unfolding cs_def by blast
  then have "\<forall>c \<in> set shallow. physical s (chunk_id c) = Some c" using parts(1) by blast
  note del1 = shallow_deleted [OF ok 1 this]
  obtain P1 where P1: "swept A s P s1 P1" and phys1: "physical s1 = physical s |` (- chunk_id ` set ds1)"
    using shallow_swept [OF ok 1] by blast
  have ok1: "sweep_ok A s1 P1" using P1 by (simp add: swept_def)
  have deep_loaded: "physical s1 (chunk_id c) = Some c" if "c \<in> set deep" for c
    using that del1(1) parts loaded_cs unfolding phys1 by (force simp: restrict_map_def)
  have "\<forall>c \<in> set deep. columns_ok A c \<and> P1 (chunk_id c) = Some c"
    using deep_loaded ok1 loaded(2) by (force simp: sweep_ok_def map_le_def)
  note sw2 = deep_swept [OF ok1 2 this]
  note del2 = deep_deleted [OF ok1 2] deep_loaded
  show "\<exists>P'. swept A s P s' P'" using swept_trans [OF P1] sw2(1) by blast
  show "set deleted \<subseteq> set cs" using del1(1) del2 parts(1) unfolding deleted by auto
  have ids2: "chunk_id ` set ds2 = chunk_id ` set deep" using del2 by blast
  show "physical s' = physical s |` (- chunk_id ` set deleted)"
    using sw2(2) ids2 unfolding phys1 deleted by (auto simp: restrict_map_def fun_eq_iff)
  show "chunk_id ` set deleted = chunk_id ` set cs" if "\<forall>n. \<not> sweep_exhausted n"
    using del1(2) [OF that] ids2 unfolding deleted parts(1) by (simp add: image_Un)
qed

section \<open>Guarantees\<close>

text \<open>Every loaded chunk is listed once among the chunks by row id.\<close>

definition min_ids_ok :: "'a ChunkStore \<Rightarrow> bool" where
  "min_ids_ok s \<longleftrightarrow> distinct (map snd (physical_chunk_ids_per_min_row_id s)) \<and>
     dom (physical s) \<subseteq> snd ` set (physical_chunk_ids_per_min_row_id s)"

text \<open>A store whose list by smallest row id is in step with the loaded chunks is one.\<close>

lemma row_ids_min_ids:
  assumes "row_ids_ok s" "loaded_ok A s"
  shows "min_ids_ok s"
proof -
  have ids: "(r, i) \<in> set (physical_chunk_ids_per_min_row_id s) \<longleftrightarrow> (\<exists>c. physical s i = Some c \<and> map_option fst (row_id_range c) = Some r)" for r i
    using assms(1) by (simp add: row_ids_ok_def)
  have "inj_on snd (set (physical_chunk_ids_per_min_row_id s))"
  proof (rule inj_onI)
    fix e e' assume e: "e \<in> set (physical_chunk_ids_per_min_row_id s)" "e' \<in> set (physical_chunk_ids_per_min_row_id s)" "snd e = snd e'"
    obtain r i where e1: "e = (r, i)" by (cases e)
    moreover obtain r' where e2: "e' = (r', i)" using e(3) e1 by (cases e') simp
    moreover have "r = r'" using ids [of r i] ids [of r' i] e(1,2) unfolding e1 e2 by auto
    ultimately show "e = e'" by simp
  qed
  then have "distinct (map snd (physical_chunk_ids_per_min_row_id s))" using assms(1) by (simp add: row_ids_ok_def distinct_map)
  moreover have "i \<in> snd ` set (physical_chunk_ids_per_min_row_id s)" if "physical s i = Some c" for i c
  proof -
    have "\<not> chunk_is_empty c" by (rule loaded(4) [OF assms(2) that])
    then have "row_id_range c \<noteq> None" by (simp add: row_id_range_def)
    then obtain r where "map_option fst (row_id_range c) = Some r" by auto
    then have "(r, i) \<in> set (physical_chunk_ids_per_min_row_id s)" using ids that by blast
    then show ?thesis by force
  qed
  ultimately show ?thesis by (auto simp: min_ids_ok_def)
qed

lemma set_by_row_id:
  assumes "loaded_ok A s" "min_ids_ok s"
  shows "set (by_row_id opts s) = {c. physical s (chunk_id c) = Some c \<and> \<not> chunk_is_static c \<and> \<not> is_chunk_protected opts c \<and>
      chunk_id c \<notin> find_all_protected_physical_chunk_ids s (protect_latest opts)}"
proof
  show "set (by_row_id opts s) \<subseteq> {c. physical s (chunk_id c) = Some c \<and> \<not> chunk_is_static c \<and> \<not> is_chunk_protected opts c \<and>
      chunk_id c \<notin> find_all_protected_physical_chunk_ids s (protect_latest opts)}"
    using by_row_id_loaded [OF assms(1)] by blast
  have "\<exists>e \<in> set (physical_chunk_ids_per_min_row_id s). snd e = i" if "physical s i = Some c" for i c
    using assms(2) that by (force simp: min_ids_ok_def)
  then show "{c. physical s (chunk_id c) = Some c \<and> \<not> chunk_is_static c \<and> \<not> is_chunk_protected opts c \<and>
      chunk_id c \<notin> find_all_protected_physical_chunk_ids s (protect_latest opts)} \<subseteq> set (by_row_id opts s)"
    by (auto simp: by_row_id_def Let_def set_map_filter_get) metis
qed

lemma distinct_map_filter_get:
  "distinct ids \<Longrightarrow> (\<And>i c. get i = Some c \<Longrightarrow> chunk_id c = i) \<Longrightarrow> distinct (List.map_filter get ids)"
  by (induction ids) (auto simp: List.map_filter_simps set_map_filter_get split: option.splits)

lemma distinct_by_row_id:
  assumes "loaded_ok A s" "min_ids_ok s"
  shows "distinct (by_row_id opts s)"
  unfolding by_row_id_def Let_def
  by (intro distinct_filter distinct_map_filter_get loaded(1) [OF assms(1)]) (use assms(2) in \<open>auto simp: min_ids_ok_def\<close>)

lemma gc_frame:
  "gc_find_candidates size_of mark_exhausted opts target (s\<lparr>gc_id := n\<rparr>) = gc_find_candidates size_of mark_exhausted opts target s"
  "sweep_ok A (s\<lparr>gc_id := n\<rparr>) = sweep_ok A s" "swept A (s\<lparr>gc_id := n\<rparr>) P s' P' = swept A s P s' P'"
  "store_stats (s\<lparr>gc_id := n\<rparr>) = store_stats s"
proof -
  have furthest: "find_temporal_chunks_furthest_from (s\<lparr>gc_id := n\<rparr>) timeline time = find_temporal_chunks_furthest_from s timeline time" for timeline time
    by (simp add: find_temporal_chunks_furthest_from_def furthest_first_def)
  have fields: "physical_chunks_per_chunk_id (s\<lparr>gc_id := n\<rparr>) = physical_chunks_per_chunk_id s"
    "physical_chunk_ids_per_min_row_id (s\<lparr>gc_id := n\<rparr>) = physical_chunk_ids_per_min_row_id s"
    "temporal_chunk_ids_per_entity_per_component (s\<lparr>gc_id := n\<rparr>) = temporal_chunk_ids_per_entity_per_component s"
    by simp_all
  have rest: "by_row_id opts (s\<lparr>gc_id := n\<rparr>) = by_row_id opts s"
    unfolding by_row_id_def find_all_protected_physical_chunk_ids_def all_component_indexes_def fields ..
  show "gc_find_candidates size_of mark_exhausted opts target (s\<lparr>gc_id := n\<rparr>) = gc_find_candidates size_of mark_exhausted opts target s"
    unfolding gc_find_candidates_def furthest rest ..
  show "sweep_ok A (s\<lparr>gc_id := n\<rparr>) = sweep_ok A s" by (rule sweep_ok_frame) simp_all
  show "swept A (s\<lparr>gc_id := n\<rparr>) P s' P' = swept A s P s' P'" by (rule swept_frame) simp_all
  show "store_stats (s\<lparr>gc_id := n\<rparr>) = store_stats s" by (simp add: store_stats_def)
qed

lemma gc_unfold:
  assumes "gc B A stack_size scale mark_exhausted sweep_exhausted opts s = (deleted, freed, s')"
  shows "gc_drop_at_least_num_bytes B A stack_size mark_exhausted sweep_exhausted opts
      (target_bytes_from_size scale (gc_target opts) (stat_total_size_bytes (stats_total (store_stats s)))) (s\<lparr>gc_id := gc_id s + 1\<rparr>) = (deleted, s')"
  using assms by (simp add: gc_def Let_def gc_frame case_prod_unfold prod_eq_iff)

text \<open>The ids of an index, from the latest start to the earliest.\<close>

lemma latest_starts:
  assumes "map_ok m" "\<forall>(t, i) \<in> pairs m. time i = t"
  shows "set (concat (rev (map snd m))) = snd ` pairs m" "distinct (concat (rev (map snd m)))"
    "sorted_wrt (\<lambda>i j. time j \<le> (time i :: TimeInt)) (concat (rev (map snd m)))"
proof -
  have "set (concat (rev (map snd m))) = snd ` pairs m \<and> distinct (concat (rev (map snd m))) \<and>
      sorted_wrt (\<lambda>i j. time j \<le> time i) (concat (rev (map snd m)))"
    using assms
  proof (induction m)
    case (Cons e m)
    obtain t ids where e: "e = (t, ids)" by (cases e)
    have m: "map_ok m" "\<forall>(u, i) \<in> pairs m. time i = u \<and> t < u" "\<forall>i \<in> set ids. time i = t" "sorted_wrt (<) ids"
      using Cons.prems unfolding e by (auto simp: pairs_def)
    then have IH: "set (concat (rev (map snd m))) = snd ` pairs m" "distinct (concat (rev (map snd m)))"
      "sorted_wrt (\<lambda>i j. time j \<le> time i) (concat (rev (map snd m)))" using Cons.IH by blast+
    have later: "t < time i" if "i \<in> snd ` pairs m" for i using m(2) that by force
    have "distinct ids" using m(4) by (simp add: strict_sorted_iff)
    moreover have "snd ` pairs m \<inter> set ids = {}" using later m(3) by fastforce
    moreover have "sorted_wrt (\<lambda>i j. time j \<le> time i) ids" using m(3) by (simp add: sorted_wrt_iff_nth_less)
    moreover have "\<forall>i \<in> snd ` pairs m. \<forall>j \<in> set ids. time j \<le> time i" using later m(3) by fastforce
    ultimately show ?case using IH by (auto simp: e sorted_wrt_append image_Un image_image)
  qed simp
  then show "set (concat (rev (map snd m))) = snd ` pairs m" "distinct (concat (rev (map snd m)))"
    "sorted_wrt (\<lambda>i j. time j \<le> time i) (concat (rev (map snd m)))" by blast+
qed

lemma not_taken:
  assumes "sorted_wrt R xs" "x \<in> set xs" "x \<notin> set (take n (xs @ ys))"
  shows "length (take n xs) = n" "\<forall>y \<in> set (take n xs). R y x"
proof -
  have "n < length xs"
  proof (rule ccontr)
    assume "\<not> n < length xs"
    then show False using assms(2,3) by simp
  qed
  then show "length (take n xs) = n" by simp
  have "x \<in> set (drop n xs)"
    using assms(2,3) \<open>n < length xs\<close> by (metis Un_iff append_take_drop_id set_append take_append UnI1)
  then show "\<forall>y \<in> set (take n xs). R y x"
    using assms(1) sorted_wrt_append [of R "take n xs" "drop n xs"] by simp
qed

lemma index_in_all:
  assumes "component_index s p timeline component = Some idx"
  shows "idx \<in> set (all_component_indexes s)"
proof -
  obtain per_timeline per_component where
    "path_get p (temporal_chunk_ids_per_entity_per_component s) = Some per_timeline"
    "map_of per_timeline timeline = Some per_component" "map_of per_component component = Some idx"
    using assms by (auto simp: component_index_def component_indexes_def bind_eq_Some_conv)
  from this(1) this(2,3) [THEN map_of_SomeD] obtain q where q:
    "(q, per_timeline) \<in> set (temporal_chunk_ids_per_entity_per_component s)" "(timeline, per_component) \<in> set per_timeline"
    "(component, idx) \<in> set per_component" by (blast dest: path_get_mem)
  have "idx \<in> set (concat (map (map snd \<circ> snd) per_timeline))" using q(2,3) by force
  then show ?thesis using q(1) unfolding all_component_indexes_def by force
qed

text \<open>
  For a chunk that is not among the latest \<open>n\<close> of one of its components, there are \<open>n\<close> loaded chunks
  among the latest ones that have the component and start no earlier.
\<close>

lemma latest_are_protected:
  assumes ok: "store_ok A s" and e: "(i, r) \<in> component_entries A (physical s) p timeline component"
    and i: "i \<notin> find_all_protected_physical_chunk_ids s n"
  shows "\<exists>ids. card ids = n \<and> ids \<subseteq> find_all_protected_physical_chunk_ids s n \<and>
    (\<forall>j \<in> ids. \<exists>r'. (j, r') \<in> component_entries A (physical s) p timeline component \<and> range_min r \<le> range_min r')"
proof -
  have "indexes (component_index s p timeline component) (component_entries A (physical s) p timeline component) (dom (physical s))"
    using ok by (simp add: store_ok_def tracks_def)
  moreover from this obtain idx where idx: "component_index s p timeline component = Some idx" using indexes_Some [OF _ e] by blast
  ultimately obtain es where es: "index_ok idx es" "{(j, r) \<in> es. j \<in> dom (physical s)} = component_entries A (physical s) p timeline component"
    "\<forall>j r r'. (j, r) \<in> es \<longrightarrow> (j, r') \<in> es \<longrightarrow> r = r'" by (auto simp: indexes_def)
  define start where "start j = range_min (THE r. (j, r) \<in> es)" for j
  have start: "start j = range_min r'" if "(j, r') \<in> es" for j r'
  proof -
    have "(THE r. (j, r) \<in> es) = r'" using that es(3) by blast
    then show ?thesis by (simp add: start_def)
  qed
  have m: "map_ok (per_start_time idx)" "pairs (per_start_time idx) = (\<lambda>(i, r). (range_min r, i)) ` es" using es(1) by (simp_all add: index_ok_def)
  have "\<forall>(t, j) \<in> pairs (per_start_time idx). start j = t" unfolding m(2) using start by auto
  note starts = latest_starts [OF m(1) this]
  let ?xs = "filter (\<lambda>j. physical s j \<noteq> None) (concat (rev (map snd (per_start_time idx))))"
    and ?ys = "filter (\<lambda>j. physical s j \<noteq> None) (concat (rev (map snd (per_end_time idx))))"
  have protected: "set (take n (?xs @ ?ys)) \<subseteq> find_all_protected_physical_chunk_ids s n"
    using index_in_all [OF idx] unfolding find_all_protected_physical_chunk_ids_def filter_append by auto
  have ir: "(i, r) \<in> es" "physical s i \<noteq> None" using e es(2) by auto
  have "snd ` (\<lambda>(i, r). (range_min r, i)) ` es = fst ` es" by (simp add: image_image case_prod_unfold)
  then have "set (concat (rev (map snd (per_start_time idx)))) = fst ` es" using starts(1) unfolding m(2) by simp
  then have xs: "set ?xs = {j \<in> fst ` es. physical s j \<noteq> None}" by simp
  have "i \<in> fst ` es" using ir(1) by force
  then have "i \<in> set ?xs" unfolding xs using ir(2) by simp
  moreover have "i \<notin> set (take n (?xs @ ?ys))" using i protected by blast
  moreover have "sorted_wrt (\<lambda>i j. start j \<le> start i) ?xs" using starts(3) by (rule sorted_wrt_filter)
  ultimately have taken: "length (take n ?xs) = n" "\<forall>j \<in> set (take n ?xs). start i \<le> start j" by (blast dest: not_taken)+
  have "distinct (take n ?xs)" using starts(2) by (simp add: distinct_take)
  then have "card (set (take n ?xs)) = n" using taken(1) distinct_card by metis
  moreover have "set (take n ?xs) \<subseteq> find_all_protected_physical_chunk_ids s n" using protected by simp
  moreover have "\<exists>r'. (j, r') \<in> component_entries A (physical s) p timeline component \<and> range_min r \<le> range_min r'" if "j \<in> set (take n ?xs)" for j
  proof -
    have "j \<in> fst ` es" "physical s j \<noteq> None" using in_set_takeD [OF that] unfolding xs by simp_all
    then obtain r' where r': "(j, r') \<in> es" "physical s j \<noteq> None" by force
    then have "(j, r') \<in> component_entries A (physical s) p timeline component" using es(2) by auto
    moreover have "range_min r \<le> range_min r'"
      using bspec [OF taken(2) that] unfolding start [OF ir(1)] start [OF r'(1)] .
    ultimately show ?thesis by blast
  qed
  ultimately show ?thesis by blast
qed

text \<open>
  C34. Garbage collection keeps the invariant of the store under any time budget, and takes exactly the reported chunks out of the
  loaded ones. It never drops a chunk that holds static data, that is protected by id or that touches a protected time range, also with
  \<open>furthest_from\<close>, although the documentation of that option says that the protected ranges are ignored then.
  Without \<open>furthest_from\<close>, a chunk is only dropped when, for each component that it has on a timeline,
  at least \<open>protect_latest\<close> loaded chunks of the entity are left that have the component and start no earlier. Latest is meant by the start of the chunk: where chunks
  overlap, a dropped one may hold the latest value of all, and a chunk whose column has only nulls counts as starting last.
\<close>

theorem gc_keeps_protected:
  assumes "sweep_ok A s P" "gc B A stack_size scale mark_exhausted sweep_exhausted opts s = (deleted, freed, s')"
  shows "store_ok A s' \<and> physical s' = physical s |` (- chunk_id ` set deleted) \<and>
    (\<forall>c \<in> set deleted. physical s (chunk_id c) = Some c \<and> \<not> chunk_is_static c \<and> \<not> is_chunk_protected opts c) \<and>
    (furthest_from opts = None \<longrightarrow>
       (\<forall>p timeline component i r. (i, r) \<in> component_entries A (physical s) p timeline component \<and> physical s' i = None \<longrightarrow>
          protect_latest opts \<le> card {j. \<exists>r'. (j, r') \<in> component_entries A (physical s') p timeline component \<and> range_min r \<le> range_min r'}))"
proof -
  have ok: "sweep_ok A (s\<lparr>gc_id := gc_id s + 1\<rparr>) P" using assms(1) by (simp add: gc_frame)
  note sweeps = gc_drop_sweeps [OF ok gc_unfold [OF assms(2)], unfolded gc_frame]
  have "loaded_ok A s" using assms(1) by (simp add: sweep_ok_def)
  note cands = candidates_ok [OF this, where opts = opts]
  have ok': "store_ok A s'" using sweeps(1) sweep_ok_store by (auto simp: swept_def)
  have phys: "physical s' = physical s |` (- chunk_id ` set deleted)" using sweeps(2) by simp
  have deleted: "\<forall>c \<in> set deleted. physical s (chunk_id c) = Some c \<and> \<not> chunk_is_static c \<and> \<not> is_chunk_protected opts c \<and>
      (furthest_from opts = None \<longrightarrow> chunk_id c \<notin> find_all_protected_physical_chunk_ids s (protect_latest opts))"
    using sweeps(3) cands unfolding subset_iff by auto
  have kept: "protect_latest opts \<le> card {j. \<exists>r'. (j, r') \<in> component_entries A (physical s') p timeline component \<and> range_min r \<le> range_min r'}"
    (is "_ \<le> card ?later")
    if latest: "furthest_from opts = None" and e: "(i, r) \<in> component_entries A (physical s) p timeline component" and gone: "physical s' i = None"
    for p timeline component i r
  proof -
    have survives: "j \<notin> chunk_id ` set deleted" if "j \<in> find_all_protected_physical_chunk_ids s (protect_latest opts)" for j
      using deleted latest that by auto
    have "physical s i \<noteq> None" using e by (auto simp: component_entries_def)
    then have "i \<in> chunk_id ` set deleted" using gone unfolding phys by (auto simp: restrict_map_def split: if_splits)
    then have "i \<notin> find_all_protected_physical_chunk_ids s (protect_latest opts)" using survives by blast
    from latest_are_protected [OF sweep_ok_store [OF assms(1)] e this] obtain ids where ids: "card ids = protect_latest opts"
      "ids \<subseteq> find_all_protected_physical_chunk_ids s (protect_latest opts)"
      "\<forall>j \<in> ids. \<exists>r'. (j, r') \<in> component_entries A (physical s) p timeline component \<and> range_min r \<le> range_min r'" by blast
    have sub: "ids \<subseteq> ?later"
    proof
      fix j assume j: "j \<in> ids"
      then obtain r' where r': "(j, r') \<in> component_entries A (physical s) p timeline component" "range_min r \<le> range_min r'" using ids(3) by blast
      have "physical s' j = physical s j" using survives ids(2) j unfolding phys by (auto simp: restrict_map_def)
      then have "(j, r') \<in> component_entries A (physical s') p timeline component" using r'(1) by (simp add: component_entries_def)
      then show "j \<in> ?later" using r'(2) by blast
    qed
    have fin: "finite ?later"
      by (rule finite_subset [of _ "dom (physical s')"]) (auto simp: component_entries_def finite_dom_map_of)
    show ?thesis using card_mono [OF fin sub] unfolding ids(1) .
  qed
  have "furthest_from opts = None \<longrightarrow>
       (\<forall>p timeline component i r. (i, r) \<in> component_entries A (physical s) p timeline component \<and> physical s' i = None \<longrightarrow>
          protect_latest opts \<le> card {j. \<exists>r'. (j, r') \<in> component_entries A (physical s') p timeline component \<and> range_min r \<le> range_min r'})"
    by (intro impI allI, elim conjE) (rule kept)
  then show ?thesis using ok' phys deleted by simp
qed

text \<open>
  C35. Without \<open>furthest_from\<close> and with enough time, garbage collection frees at least the target number of bytes, or else drops every
  loaded chunk that is not protected: whatever is left is static, protected by id, by time or as one of the latest.
\<close>

theorem gc_meets_target:
  assumes "sweep_ok A s P" "min_ids_ok s" "gc B A stack_size scale mark_exhausted sweep_exhausted opts s = (deleted, freed, s')"
    and "furthest_from opts = None" "\<forall>n. \<not> mark_exhausted n" "\<forall>n. \<not> sweep_exhausted n"
  shows "target_bytes_from_size scale (gc_target opts) (stat_total_size_bytes (stats_total (store_stats s)))
       \<le> (\<Sum>c \<in> set deleted. total_size_bytes B stack_size c) \<or>
    (\<forall>i c. physical s' i = Some c \<longrightarrow> chunk_is_static c \<or> is_chunk_protected opts c \<or>
       i \<in> find_all_protected_physical_chunk_ids s (protect_latest opts))"
    (is "?target \<le> _ \<or> _")
proof (cases "?target = 0")
  case False
  let ?size = "total_size_bytes B stack_size"
  have s: "loaded_ok A s" using assms(1) by (simp add: sweep_ok_def)
  have ok: "sweep_ok A (s\<lparr>gc_id := gc_id s + 1\<rparr>) P" using assms(1) by (simp add: gc_frame)
  note sweeps = gc_drop_sweeps [OF ok gc_unfold [OF assms(3)], unfolded gc_frame]
  obtain cs n reached where cs: "mark_chunks ?size ?target mark_exhausted (by_row_id opts s) 0 = (cs, n, reached)" by (metis prod.exhaust)
  have cands: "gc_find_candidates ?size mark_exhausted opts ?target s = cs"
    using False assms(4) cs by (simp add: gc_find_candidates_def word_gt_0)
  obtain k where k: "cs = take k (by_row_id opts s)" "n = 0 + sum_list (map ?size cs)"
    "if reached then cs \<noteq> [] \<and> (mark_exhausted (length cs - 1) \<or> ?target \<le> n) else cs = by_row_id opts s"
    using mark_chunks_prefix [OF cs] by blast
  have phys: "physical s (chunk_id c) = Some c" if "c \<in> set cs" for c
    using that by_row_id_loaded(1) [OF s, of c opts] unfolding k(1) by (blast dest: in_set_takeD)
  have inj: "inj_on chunk_id (set cs)" using phys by (metis inj_onI option.inject)
  have "set deleted \<subseteq> set cs" "chunk_id ` set deleted = chunk_id ` set cs"
    using sweeps(3) sweeps(4) assms(6) by (simp_all add: cands)
  then have deleted: "set deleted = set cs" using inj_on_image_eq_iff [OF inj] by blast
  have "distinct cs" unfolding k(1) using distinct_by_row_id [OF s assms(2)] by (rule distinct_take)
  then have sum: "n = (\<Sum>c \<in> set deleted. ?size c)" unfolding k(2) deleted by (simp add: sum_list_distinct_conv_sum_set)
  show ?thesis
  proof (cases reached)
    case True
    then show ?thesis using k(3) sum assms(5) by simp
  next
    case False
    then have all: "set deleted = set (by_row_id opts s)" using k(3) deleted by simp
    have "chunk_is_static c \<or> is_chunk_protected opts c \<or> i \<in> find_all_protected_physical_chunk_ids s (protect_latest opts)"
      if "physical s' i = Some c" for i c
    proof (rule ccontr)
      assume not: "\<not> (chunk_is_static c \<or> is_chunk_protected opts c \<or> i \<in> find_all_protected_physical_chunk_ids s (protect_latest opts))"
      have c: "physical s i = Some c" "i \<notin> chunk_id ` set deleted" using that sweeps(2) by (auto simp: restrict_map_def split: if_splits)
      then have "c \<in> set deleted" unfolding all set_by_row_id [OF s assms(2)] using not loaded(1) [OF s c(1)] by auto
      then show False using c(2) loaded(1) [OF s c(1)] by blast
    qed
    then show ?thesis by blast
  qed
qed simp

text \<open>
  When the pass that looks for the chunks furthest from a time does not reach the target, the pass by row id considers all chunks again: a
  chunk can be picked twice and its bytes counted twice, so that collection may stop although the target is not reached.
\<close>

definition demo_gc_options :: "unit GarbageCollectionOptions" where
  "demo_gc_options = gc_everything\<lparr>furthest_from := Some (''frame'', time_MAX)\<rparr>"

lemma gc_counts_chunks_twice:
  "map chunk_id (gc_find_candidates (\<lambda>_. 10) (\<lambda>_. False) demo_gc_options 20 demo_store) = [demo_id 9, demo_id 9]"
  by code_simp

lemma demo_min_ids: "min_ids_ok demo_store"
proof -
  have "physical_chunk_ids_per_min_row_id demo_store = [(demo_id 1, demo_id 9)]" by code_simp
  then show ?thesis by (simp add: min_ids_ok_def demo_store_ok)
qed

lemma demo_sweep_ok: "sweep_ok mem_arrow demo_store (physical demo_store)"
  using demo_store_ok(1) by (simp add: sweep_ok_def store_ok_def)

lemma demo_entry:
  obtains r where "(demo_id 9, r) \<in> component_entries mem_arrow (physical demo_store) (chunk_entity_path demo_chunk) ''frame'' ''c''"
proof -
  have "map_of (chunk_timelines demo_chunk) ''frame'' = Some demo_times" "loaded_ok mem_arrow demo_store"
    "row_at mem_arrow demo_chunk 0 \<in> set (rows mem_arrow demo_chunk)" "rw_cells (row_at mem_arrow demo_chunk 0) ''c'' \<noteq> None"
    "path_eq (chunk_entity_path demo_chunk) (chunk_entity_path demo_chunk)" "physical demo_store (demo_id 9) = Some demo_chunk"
    using demo_store_ok by (simp_all add: store_ok_def rows_def demo_chunk_sel demo_cells path_eq_def) (simp add: demo_chunk_def)
  then show thesis using mem.component_entry_row that by blast
qed

theorem gc_keeps_protected_witness:
  "store_ok mem_arrow (snd (snd (gc demo_build mem_arrow 0 (\<lambda>n (). n) (\<lambda>_. False) (\<lambda>_. False) (gc_everything\<lparr>protect_latest := 1\<rparr>) demo_store))) \<and>
   physical (snd (snd (gc demo_build mem_arrow 0 (\<lambda>n (). n) (\<lambda>_. False) (\<lambda>_. False) (gc_everything\<lparr>protect_latest := 1\<rparr>) demo_store))) (demo_id 9) \<noteq> None"
proof -
  let ?opts = "gc_everything\<lparr>protect_latest := 1\<rparr> :: unit GarbageCollectionOptions"
  obtain deleted freed s' where run: "gc demo_build mem_arrow 0 (\<lambda>n (). n) (\<lambda>_. False) (\<lambda>_. False) ?opts demo_store = (deleted, freed, s')"
    by (metis prod.exhaust)
  note kept = gc_keeps_protected [OF demo_sweep_ok run]
  obtain r where e: "(demo_id 9, r) \<in> component_entries mem_arrow (physical demo_store) (chunk_entity_path demo_chunk) ''frame'' ''c''"
    using demo_entry by blast
  have "physical s' (demo_id 9) \<noteq> None"
  proof
    assume gone: "physical s' (demo_id 9) = None"
    have "physical s' j = None" for j using kept gone by (cases "j = demo_id 9") (auto simp: demo_store_ok restrict_map_def)
    then have "component_entries mem_arrow (physical s') p timeline component = {}" for p timeline component by (simp add: component_entries_def)
    moreover have "furthest_from ?opts = None" "protect_latest ?opts = 1" by (simp_all add: gc_everything_def)
    ultimately have "(1 :: nat) \<le> card ({} :: ChunkId set)" using kept e gone by fastforce
    then show False by simp
  qed
  then show ?thesis using kept run by simp
qed

theorem gc_meets_target_witness:
  "physical (snd (snd (gc demo_build mem_arrow 0 (\<lambda>n (). n) (\<lambda>_. False) (\<lambda>_. False) gc_everything demo_store))) = Map.empty \<or>
   - 1 \<le> (\<Sum>c \<in> set (fst (gc demo_build mem_arrow 0 (\<lambda>n (). n) (\<lambda>_. False) (\<lambda>_. False) gc_everything demo_store)). total_size_bytes demo_build 0 c)"
proof -
  obtain deleted freed s' where run: "gc demo_build mem_arrow 0 (\<lambda>n (). n) (\<lambda>_. False) (\<lambda>_. False) gc_everything demo_store = (deleted, freed, s')"
    by (metis prod.exhaust)
  have "\<not> chunk_is_static demo_chunk" by (simp add: chunk_is_static_def demo_chunk_def)
  moreover have "physical s' \<subseteq>\<^sub>m physical demo_store"
    using gc_drop_sweeps(2) [where P = "physical demo_store", OF _ gc_unfold [OF run]] demo_sweep_ok by (auto simp: gc_frame map_le_def restrict_map_def split: if_splits)
  ultimately show ?thesis
    using gc_meets_target [OF demo_sweep_ok demo_min_ids run] run demo_store_ok(2)
    by (auto simp: gc_everything_def target_bytes_from_size_def is_chunk_protected_def find_all_protected_physical_chunk_ids_def map_le_def
        fun_eq_iff dom_def split: if_splits)
qed

end
