(* ===== verification/Store_Insert.thy ===== *)
theory Store_Insert
  imports Store_Gc
begin

text \<open>
  Insertion into the chunk store (\<open>src/crates/store/dl_chunk_store/src/writes.rs\<close>): a chunk is dropped, split, merged into
  the neighbour that earns the most points, or entered as it is; static chunks overwrite older ones component by component.
  An outcome is \<open>None\<close> when the code panics or does not return; otherwise it is an error or the differences, with the store as it is left behind.
  New ids come from a supply that is indexed by where they are drawn. The order in which the hash map of candidates is iterated is a parameter; the
  overwritten static chunks are visited in the order in which they were found. Of the errors and of the differences, those that insertion and removal produce are modelled.
\<close>

section \<open>Data\<close>

datatype ChunkStoreError = UnsortedChunk | ChunkStoreChunkError ChunkError

datatype ChunkDeletionReason =
    GarbageCollection | VirtualToPhysicalReplacement | DanglingSplitCleanup | Compaction | Overwrite | ExplicitDrop

datatype 'a ChunkStoreDiff =
    Addition "'a Chunk" "'a Chunk" "'a ChunkDirectLineageReport"
  | Deletion "'a Chunk" ChunkDeletionReason

type_synonym 'a outcome = "((ChunkStoreError, 'a ChunkStoreDiff list) result \<times> 'a ChunkStore) option"

type_synonym id_supply = "nat list \<Rightarrow> ChunkId"

record ('a, 'd, 'v) store_env =
  env_build :: "'a build"
  env_arrow :: "('a, 'd, 'v) arrow"
  env_stack_size :: u64
  env_order :: "(ChunkId \<times> u64) list \<Rightarrow> (ChunkId \<times> u64) list"

definition deletions :: "ChunkDeletionReason \<Rightarrow> 'a Chunk list \<Rightarrow> 'a ChunkStoreDiff list" where
  "deletions reason = map (\<lambda>c. Deletion c reason)"

definition is_transform_archetype :: "string option \<Rightarrow> bool" where
  "is_transform_archetype archetype \<longleftrightarrow>
     (case archetype of
        None \<Rightarrow> False
      | Some archetype \<Rightarrow> archetype = ''dalaran.archetypes.Transform3D'' \<or> archetype = ''dalaran.archetypes.Pinhole'')"

section \<open>Data that is there already\<close>

text \<open>The loop along the compactions that a chunk went into: does a loaded chunk hold its data?\<close>

partial_function (option) leaky_loaded ::
  "(ChunkId \<times> ChunkId) list \<Rightarrow> (ChunkId \<Rightarrow> bool) \<Rightarrow> ChunkId \<Rightarrow> bool option" where
  "leaky_loaded leaky is_loaded source_id =
     (case map_of leaky source_id of
        None \<Rightarrow> Some False
      | Some i \<Rightarrow> if is_loaded i then Some True else leaky_loaded leaky is_loaded i)"

section \<open>Splitting\<close>

definition split_config :: "'a ChunkStore \<Rightarrow> ChunkSplitConfig" where
  "split_config s = \<lparr>chunk_max_bytes = cfg_chunk_max_bytes (config s), chunk_max_rows = cfg_chunk_max_rows (config s),
     chunk_max_rows_if_unsorted = cfg_chunk_max_rows_if_unsorted (config s)\<rparr>"

definition split_with :: "('a, 'd, 'v) store_env \<Rightarrow> ChunkSplitConfig \<Rightarrow> (nat \<Rightarrow> ChunkId) \<Rightarrow> 'a Chunk \<Rightarrow> 'a Chunk list option" where
  "split_with E cfg ids c = split_chunk_if_needed (env_build E) (env_arrow E) ids (env_stack_size E) cfg c"

text \<open>One round over the pieces: a piece that descends from a compaction is dropped.\<close>

fun split_round ::
  "('a, 'd, 'v) store_env \<Rightarrow> ChunkSplitConfig \<Rightarrow> (ChunkId \<Rightarrow> bool option) \<Rightarrow> id_supply \<Rightarrow> nat \<Rightarrow> 'a Chunk list \<Rightarrow> 'a Chunk list option" where
  "split_round E cfg compacted ids k [] = Some []"
| "split_round E cfg compacted ids k (c # cs) =
     do { b \<leftarrow> compacted (chunk_id c);
          ps \<leftarrow> (if b then Some [] else split_with E cfg (\<lambda>j. ids [k, j]) c);
          rest \<leftarrow> split_round E cfg compacted ids (Suc k) cs;
          Some (ps @ rest) }"

partial_function (option) split_rounds ::
  "('a, 'd, 'v) store_env \<Rightarrow> ChunkSplitConfig \<Rightarrow> (ChunkId \<Rightarrow> bool option) \<Rightarrow> id_supply \<Rightarrow> nat \<Rightarrow> 'a Chunk list \<Rightarrow> 'a Chunk list option" where
  "split_rounds E cfg compacted ids r cs =
     do { cs' \<leftarrow> split_round E cfg compacted (\<lambda>p. ids (r # p)) 0 cs;
          if length cs' = length cs then Some cs' else split_rounds E cfg compacted ids (Suc r) cs' }"

definition compute_splits ::
  "('a, 'd, 'v) store_env \<Rightarrow> id_supply \<Rightarrow> 'a Chunk \<Rightarrow> 'a ChunkStore \<Rightarrow> 'a Chunk list option" where
  "compute_splits E ids c s =
     do { cs \<leftarrow> split_with E (split_config s) (\<lambda>j. ids [0, j]) c;
          split_rounds E (split_config s) (descends_from_a_compaction (debug_assertions (env_build E)) s) ids 1 cs }"

section \<open>Static data\<close>

text \<open>
  The loop over the components of a static chunk: the new owners of the components, and the chunks that lost one, with their first row id.
\<close>

definition cur_row_id_max :: "('a, 'd, 'v) arrow \<Rightarrow> 'a ChunkStore \<Rightarrow> ChunkId \<Rightarrow> string \<Rightarrow> RowId" where
  "cur_row_id_max A s i component =
     (case physical s i of
        None \<Rightarrow> tuid_ZERO
      | Some chunk \<Rightarrow> (case map_of (row_id_range_per_component A chunk) component of None \<Rightarrow> tuid_ZERO | Some (_, mx) \<Rightarrow> mx))"

fun own_component ::
  "('a, 'd, 'v) arrow \<Rightarrow> 'a ChunkStore \<Rightarrow> 'a Chunk \<Rightarrow> string \<times> 'a SerializedComponentColumn \<Rightarrow>
   (string \<times> ChunkId) list option \<times> (ChunkId \<times> RowId) list \<Rightarrow> (string \<times> ChunkId) list option \<times> (ChunkId \<times> RowId) list" where
  "own_component A s c (component, column) (owners, overwritten) =
     (if la_nulls A (col_list_array column) = Some [] then (owners, overwritten)
      else case map_of (row_id_range_per_component A c) component of
        None \<Rightarrow> (owners, overwritten)
      | Some (_, row_id_max_for_component) \<Rightarrow>
          let owners = or_default [] owners in
          case map_of owners component of
            None \<Rightarrow> (Some (AList.update component (chunk_id c) owners), overwritten)
          | Some cur_chunk_id \<Rightarrow>
              if cur_row_id_max A s cur_chunk_id component < row_id_max_for_component
              then (Some (AList.update component (chunk_id c) owners),
                    case Option.bind (physical s cur_chunk_id) row_id_range of
                      Some (cur_row_id_min_for_chunk, _) \<Rightarrow>
                        if is_transform_archetype (cd_archetype (col_descriptor column)) then overwritten
                        else AList.update cur_chunk_id cur_row_id_min_for_chunk overwritten
                    | None \<Rightarrow> overwritten)
              else (Some owners, overwritten))"

text \<open>The loop over the chunks that lost a component: those that own nothing any more are removed.\<close>

fun remove_overwritten ::
  "('a, 'd, 'v) store_env \<Rightarrow> (string \<times> ChunkId) list \<Rightarrow> (ChunkId \<times> RowId) list \<Rightarrow> 'a ChunkStore \<Rightarrow> ('a ChunkStoreDiff list \<times> 'a ChunkStore) option" where
  "remove_overwritten E owners [] s = Some ([], s)"
| "remove_overwritten E owners ((i, row_id_min) # rest) s =
     (if list_ex (\<lambda>(_, j). j = i) owners then remove_overwritten E owners rest s
      else if debug_assertions (env_build E) \<and> (row_id_min, i) \<notin> set (physical_chunk_ids_per_min_row_id s) then None
      else
        let s = s\<lparr>physical_chunk_ids_per_min_row_id := removeAll (row_id_min, i) (physical_chunk_ids_per_min_row_id s)\<rparr> in
        case physical s i of
          None \<Rightarrow> if debug_assertions (env_build E) then None else remove_overwritten E owners rest s
        | Some chunk \<Rightarrow>
            let s = drop_lineage_reference i (s\<lparr>physical_chunks_per_chunk_id := AList.delete i (physical_chunks_per_chunk_id s)\<rparr>);
                s = s\<lparr>static_chunks_stats :=
                       stats_sub (static_chunks_stats s) (stats_from_chunk (env_build E) (env_arrow E) (env_stack_size E) chunk)\<rparr>
            in map_option (apfst (Cons (Deletion chunk Overwrite))) (remove_overwritten E owners rest s))"

definition insert_static ::
  "('a, 'd, 'v) store_env \<Rightarrow> 'a Chunk \<Rightarrow> 'a ChunkDirectLineageReport \<Rightarrow> 'a ChunkStore \<Rightarrow> ('a ChunkStoreDiff list \<times> 'a ChunkStore) option" where
  "insert_static E c report s =
     (let p = chunk_entity_path c;
          (owners, overwritten) = fold (own_component (env_arrow E) s c) (chunk_components c) (path_get p (static_chunk_ids_per_entity s), []);
          s = (case owners of None \<Rightarrow> s | Some owners \<Rightarrow> s\<lparr>static_chunk_ids_per_entity := path_put p owners (static_chunk_ids_per_entity s)\<rparr>);
          s = s\<lparr>static_chunks_stats :=
                 stats_add (static_chunks_stats s) (stats_from_chunk (env_build E) (env_arrow E) (env_stack_size E) c)\<rparr>
      in case path_get p (static_chunk_ids_per_entity s) of
           None \<Rightarrow> if debug_assertions (env_build E) then None else Some ([Addition c c report], s)
         | Some per_component \<Rightarrow> map_option (apfst (Cons (Addition c c report))) (remove_overwritten E per_component overwritten s))"

section \<open>Compaction\<close>

definition below_thresholds :: "'a ChunkStore \<Rightarrow> u64 \<Rightarrow> u64 \<Rightarrow> bool \<Rightarrow> bool" where
  "below_thresholds s total_bytes total_rows all_sorted \<longleftrightarrow>
     total_bytes \<le> cfg_chunk_max_bytes (config s) \<and>
     (if all_sorted then total_rows \<le> cfg_chunk_max_rows (config s) else total_rows \<le> cfg_chunk_max_rows_if_unsorted (config s))"

text \<open>The points that a candidate earns per encounter; the code remembers them.\<close>

definition check_if_chunk_below_threshold ::
  "('a, 'd, 'v) store_env \<Rightarrow> 'a ChunkStore \<Rightarrow> 'a Chunk \<Rightarrow> ChunkId \<Rightarrow> u64 option" where
  "check_if_chunk_below_threshold E s c i =
     (case physical s i of
        None \<Rightarrow> Some 0
      | Some candidate \<Rightarrow>
          if chunk_id c = i then Some 0
          else if \<not> concatenable (env_arrow E) c candidate then Some 0
          else do { b \<leftarrow> descends_from_a_split (debug_assertions (env_build E)) s i;
                    Some (if b then 0
                          else if below_thresholds s
                              (total_size_bytes (env_build E) (env_stack_size E) c + total_size_bytes (env_build E) (env_stack_size E) candidate)
                              (word_of_nat (num_rows c + num_rows candidate)) (all_timelines_sorted candidate)
                          then word_of_nat (num_rows candidate) else 0) })"

fun award :: "(ChunkId \<Rightarrow> u64 option) \<Rightarrow> u64 \<Rightarrow> ChunkId list \<Rightarrow> (ChunkId \<times> u64) list \<Rightarrow> (ChunkId \<times> u64) list option" where
  "award points factor [] m = Some m"
| "award points factor (i # is) m =
     do { n \<leftarrow> points i; award points factor is (AList.update i (or_default 0 (map_of m i) + n * factor) m) }"

definition award_index ::
  "(ChunkId \<Rightarrow> u64 option) \<Rightarrow> AbsoluteTimeRange \<Rightarrow> ChunkIdSetPerTime \<Rightarrow> (ChunkId \<times> u64) list \<Rightarrow> (ChunkId \<times> u64) list option" where
  "award_index points r idx m =
     do { m \<leftarrow> award points 1 (case last_opt (filter (\<lambda>(t, _). t < range_min r) (per_start_time idx)) of None \<Rightarrow> [] | Some (_, is) \<Rightarrow> is) m;
          m \<leftarrow> award points 1 (case first (filter (\<lambda>(t, _). inc (range_max r) \<le> t) (per_start_time idx)) of None \<Rightarrow> [] | Some (_, is) \<Rightarrow> is) m;
          award points 2 (or_default [] (map_of (per_start_time idx) (range_min r))) m }"

fun award_all ::
  "(ChunkId \<Rightarrow> u64 option) \<Rightarrow> (AbsoluteTimeRange \<times> ChunkIdSetPerTime) list \<Rightarrow> (ChunkId \<times> u64) list \<Rightarrow> (ChunkId \<times> u64) list option" where
  "award_all points [] m = Some m"
| "award_all points ((r, idx) # rest) m = do { m \<leftarrow> award_index points r idx m; award_all points rest m }"

text \<open>The indices next to the chunk, in the order of the nested loops, with the range of the chunk in each.\<close>

definition neighbouring_indexes ::
  "('a, 'd, 'v) arrow \<Rightarrow> 'a Chunk \<Rightarrow> (string \<times> ChunkIdSetPerTimePerComponent) list \<Rightarrow> (AbsoluteTimeRange \<times> ChunkIdSetPerTime) list" where
  "neighbouring_indexes A c per_timeline =
     concat (map (\<lambda>(timeline, ranges). case map_of per_timeline timeline of
         None \<Rightarrow> []
       | Some per_component \<Rightarrow> List.map_filter (\<lambda>(component, r). map_option (Pair r) (map_of per_component component)) ranges)
       (time_range_per_component A c))"

fun find_map :: "('e \<Rightarrow> 'f option) \<Rightarrow> 'e list \<Rightarrow> 'f option" where
  "find_map f [] = None"
| "find_map f (x # xs) = (case f x of None \<Rightarrow> find_map f xs | Some y \<Rightarrow> Some y)"

definition find_and_elect_compaction_candidate ::
  "('a, 'd, 'v) store_env \<Rightarrow> 'a Chunk \<Rightarrow> 'a ChunkStore \<Rightarrow> 'a Chunk option option" where
  "find_and_elect_compaction_candidate E c s =
     do { b \<leftarrow> descends_from_a_split (debug_assertions (env_build E)) s (chunk_id c);
          if b \<or> \<not> below_thresholds s (total_size_bytes (env_build E) (env_stack_size E) c) (word_of_nat (num_rows c)) (all_timelines_sorted c)
          then Some None
          else case path_get (chunk_entity_path c) (temporal_chunk_ids_per_entity_per_component s) of
            None \<Rightarrow> Some None
          | Some per_timeline \<Rightarrow>
              do { candidates \<leftarrow> award_all (check_if_chunk_below_threshold E s c) (neighbouring_indexes (env_arrow E) c per_timeline) [];
                   Some (find_map (\<lambda>(i, _). physical s i)
                     (filter (\<lambda>(_, points). 0 < points) (rev (sort_key snd (env_order E candidates))))) } }"

section \<open>Temporal data\<close>

definition compaction_sources :: "'a Chunk \<Rightarrow> 'a Chunk \<Rightarrow> (ChunkId \<times> 'a Chunk) list" where
  "compaction_sources c elected = ordered_put (chunk_id elected) elected [(chunk_id c, c)]"

fun mark_leaky :: "bool \<Rightarrow> ChunkId \<Rightarrow> ChunkId list \<Rightarrow> 'a ChunkStore \<Rightarrow> 'a ChunkStore option" where
  "mark_leaky debug target [] s = Some s"
| "mark_leaky debug target (source_id # sources) s =
     (let found = map_of (leaky_compactions s) source_id \<noteq> None;
          s = s\<lparr>leaky_compactions := AList.update source_id target (leaky_compactions s)\<rparr>
      in do { overwrites \<leftarrow> (if debug \<and> found then leaky_loaded (leaky_compactions s) (\<lambda>i. physical s i \<noteq> None) source_id else Some False);
              if overwrites then None else mark_leaky debug target sources s })"

definition insert_temporal ::
  "('a, 'd, 'v) store_env \<Rightarrow> ChunkId \<Rightarrow> 'a Chunk \<Rightarrow> 'a ChunkDirectLineageReport \<Rightarrow> 'a ChunkStore \<Rightarrow>
   ((ChunkStoreError, 'a Chunk \<times> 'a ChunkStoreDiff list) result \<times> 'a ChunkStore) option" where
  "insert_temporal E new_id c report s =
     do { elected \<leftarrow> find_and_elect_compaction_candidate E c s;
          case (case elected of None \<Rightarrow> Ok c | Some elected \<Rightarrow> concat_and_sort (env_build E) (env_arrow E) new_id elected c) of
            Err Panicked \<Rightarrow> None
          | Err e \<Rightarrow> Some (Err (ChunkStoreChunkError e), s)
          | Ok chunk_or_compacted \<Rightarrow>
              let s = index_without_component chunk_or_compacted (index_with_component (env_arrow E) chunk_or_compacted s);
                  s = s\<lparr>temporal_physical_chunks_stats := stats_add (temporal_physical_chunks_stats s)
                         (stats_from_chunk (env_build E) (env_arrow E) (env_stack_size E) chunk_or_compacted)\<rparr>
              in case elected of
                None \<Rightarrow> Some (Ok (chunk_or_compacted, [Addition c chunk_or_compacted report]), s)
              | Some elected \<Rightarrow>
                  let srcs = compaction_sources c elected in
                  do { s \<leftarrow> mark_leaky (debug_assertions (env_build E)) (chunk_id chunk_or_compacted) (map fst srcs) s;
                       s \<leftarrow> insert_lineage_if_missing (debug_assertions (env_build E)) (chunk_id chunk_or_compacted) (ReportCompactedFrom srcs) s;
                       let s = snd (remove_chunks_deep (env_build E) (env_arrow E) (env_stack_size E) [elected] s);
                       Some (Ok (chunk_or_compacted, [Addition c chunk_or_compacted (ReportCompactedFrom srcs)]), s) } }"

section \<open>The whole insertion\<close>

text \<open>What happens to a chunk that is not split.\<close>

definition insert_whole ::
  "('a, 'd, 'v) store_env \<Rightarrow> ChunkId \<Rightarrow> 'a Chunk \<Rightarrow> 'a ChunkDirectLineageReport \<Rightarrow> 'a ChunkStoreDiff list \<Rightarrow> 'a ChunkStore \<Rightarrow> 'a outcome" where
  "insert_whole E new_id c report all_diffs s =
     (let s = s\<lparr>insert_id := insert_id s + 1\<rparr> in
      if chunk_is_static c
      then do { (diffs, s) \<leftarrow> insert_static E c report s; Some (Ok (all_diffs @ diffs), insert_physical c s) }
      else do { (result, s) \<leftarrow> insert_temporal E new_id c report s;
                Some (case result of
                    Err e \<Rightarrow> (Err e, s)
                  | Ok (chunk_after_processing, diffs) \<Rightarrow> (Ok (all_diffs @ diffs), insert_physical chunk_after_processing s)) })"

text \<open>The loop over the pieces of a split, each inserted by \<open>insert\<close>; an error ends it.\<close>

fun insert_each ::
  "(nat \<Rightarrow> 'a Chunk \<Rightarrow> 'a ChunkStore \<Rightarrow> 'a outcome) \<Rightarrow> nat \<Rightarrow> 'a Chunk list \<Rightarrow> 'a ChunkStoreDiff list \<Rightarrow> 'a ChunkStore \<Rightarrow> 'a outcome" where
  "insert_each ins k [] all_diffs s = Some (Ok all_diffs, s)"
| "insert_each ins k (c # cs) all_diffs s =
     do { (result, s) \<leftarrow> ins k c s;
          case result of
            Err e \<Rightarrow> Some (Err e, s)
          | Ok diffs \<Rightarrow> insert_each ins (Suc k) cs (all_diffs @ diffs) s }"

fun set_before :: "'a Chunk \<Rightarrow> 'a ChunkStoreDiff \<Rightarrow> 'a ChunkStoreDiff" where
  "set_before c (Addition _ a l) = Addition c a l"
| "set_before c (Deletion d r) = Deletion d r"

text \<open>
  The removals that precede an insertion: the virtual entry of a chunk of a manifest, and the pieces of an earlier split.
\<close>

definition remove_leftovers :: "('a, 'd, 'v) store_env \<Rightarrow> 'a Chunk \<Rightarrow> 'a ChunkStore \<Rightarrow> 'a ChunkStoreDiff list \<times> 'a ChunkStore" where
  "remove_leftovers E c s =
     (let remove = remove_chunks_deep (env_build E) (env_arrow E) (env_stack_size E);
          (dels1, s) = (case direct_lineage s (chunk_id c) of
             Some (RootFromManifest _) \<Rightarrow> apfst (deletions VirtualToPhysicalReplacement) (remove [c] s)
           | _ \<Rightarrow> ([], s));
          (dels2, s) = (case map_of (dangling_splits s) (chunk_id c) of
             None \<Rightarrow> ([], s)
           | Some split_chunk_ids \<Rightarrow>
               let s = s\<lparr>dangling_splits := AList.delete (chunk_id c) (dangling_splits s)\<rparr>
               in apfst (deletions DanglingSplitCleanup) (remove (List.map_filter (physical s) split_chunk_ids) s))
      in (dels1 @ dels2, s))"

text \<open>The insertion calls itself for the pieces of a split; \<open>fuel\<close> bounds the depth.\<close>

fun insert_chunk_impl ::
  "nat \<Rightarrow> ('a, 'd, 'v) store_env \<Rightarrow> id_supply \<Rightarrow> 'a Chunk \<Rightarrow> 'a ChunkDirectLineageReport \<Rightarrow> 'a ChunkStore \<Rightarrow> 'a outcome" where
  "insert_chunk_impl 0 E ids c report s = None"
| "insert_chunk_impl (Suc fuel) E ids c report s =
     (if chunk_is_empty c then Some (Ok [], s)
      else if chunk_components c = [] then Some (Ok [], s)
      else if physical s (chunk_id c) \<noteq> None then Some (Ok [], s)
      else if \<not> chunk_is_sorted c then Some (Err UnsortedChunk, s)
      else if warn_if_out_of_order (env_build E) c \<noteq> Ok () then None
      else
        do { there \<leftarrow> leaky_loaded (leaky_compactions s) (\<lambda>i. physical s i \<noteq> None) (chunk_id c);
             if there then Some (Ok [], s)
             else
               let (all_diffs, s) = remove_leftovers E c s;
                   debug = debug_assertions (env_build E)
               in do { s \<leftarrow> insert_lineage_if_missing debug (chunk_id c) report s;
                       chunk_descends_from_split \<leftarrow> descends_from_a_split debug s (chunk_id c);
                       chunk_descends_from_compaction \<leftarrow> descends_from_a_compaction debug s (chunk_id c);
                       split_chunks \<leftarrow> (if \<not> chunk_is_static c \<and> \<not> chunk_descends_from_split \<and> \<not> chunk_descends_from_compaction
                          then compute_splits E (\<lambda>p. ids (0 # p)) c s else Some []);
                       if 1 < length split_chunks
                       then
                         let s = s\<lparr>dangling_splits := AList.update (chunk_id c) (map chunk_id split_chunks) (dangling_splits s),
                                  split_on_ingest := List.insert (chunk_id c) (split_on_ingest s)\<rparr>
                         in insert_each (\<lambda>k split_chunk s. map_option (apfst (map_sum id (map (set_before c))))
                              (insert_chunk_impl fuel E (\<lambda>p. ids (1 # k # p)) split_chunk
                                (ReportSplitFrom c (filter (\<lambda>d. chunk_id d \<noteq> chunk_id split_chunk) split_chunks)) s)) 0 split_chunks all_diffs s
                       else insert_whole E (ids [2]) c report all_diffs s } })"

definition insert_chunk ::
  "nat \<Rightarrow> ('a, 'd, 'v) store_env \<Rightarrow> id_supply \<Rightarrow> 'a Chunk \<Rightarrow> 'a ChunkStore \<Rightarrow> 'a outcome" where
  "insert_chunk fuel E ids c s =
     (if \<not> is_root_chunk s (chunk_id c) then Some (Ok [], s)
      else insert_chunk_impl fuel E ids c ReportVolatile s)"

section \<open>Dropping an entity\<close>

definition forget_min_row_ids :: "ChunkId list \<Rightarrow> 'a ChunkStore \<Rightarrow> 'a ChunkStore" where
  "forget_min_row_ids ids s = fold (\<lambda>i s.
     case Option.bind (physical s i) row_id_range of
       None \<Rightarrow> s
     | Some (min_row_id, _) \<Rightarrow>
         s\<lparr>physical_chunk_ids_per_min_row_id := removeAll (min_row_id, i) (physical_chunk_ids_per_min_row_id s)\<rparr>) ids s"

definition drop_entity_path :: "('a, 'd, 'v) store_env \<Rightarrow> EntityPath \<Rightarrow> 'a ChunkStore \<Rightarrow> 'a ChunkStoreDiff list \<times> 'a ChunkStore" where
  "drop_entity_path E p s =
     (let s = s\<lparr>gc_id := gc_id s + 1\<rparr>;
          stats = stats_from_chunk (env_build E) (env_arrow E) (env_stack_size E);
          static_ids = sorted_list_of_set (set (map snd (or_default [] (path_get p (static_chunk_ids_per_entity s)))));
          s = forget_min_row_ids static_ids (s\<lparr>static_chunk_ids_per_entity := path_remove p (static_chunk_ids_per_entity s)\<rparr>);
          temporal_ids = sorted_list_of_set (set (concat (concat (map (map snd \<circ> per_start_time \<circ> snd)
             (or_default [] (path_get p (temporal_chunk_ids_per_entity s)))))));
          s = forget_min_row_ids temporal_ids
             (s\<lparr>temporal_chunk_ids_per_entity_per_component := path_remove p (temporal_chunk_ids_per_entity_per_component s),
                temporal_chunk_ids_per_entity := path_remove p (temporal_chunk_ids_per_entity s)\<rparr>);
          statics = List.map_filter (physical s) static_ids;
          s = s\<lparr>physical_chunks_per_chunk_id := fold AList.delete static_ids (physical_chunks_per_chunk_id s),
                static_chunks_stats := fold (\<lambda>c t. stats_sub t (stats c)) statics (static_chunks_stats s)\<rparr>;
          temporals = List.map_filter (physical s) temporal_ids;
          s = s\<lparr>physical_chunks_per_chunk_id := fold AList.delete temporal_ids (physical_chunks_per_chunk_id s),
                temporal_physical_chunks_stats := fold (\<lambda>c t. stats_sub t (stats c)) temporals (temporal_physical_chunks_stats s)\<rparr>
      in (deletions ExplicitDrop (statics @ temporals), s))"

end
