(* ===== verification/Store_Ingest.thy ===== *)
theory Store_Ingest
  imports Store_Insert "HOL-Library.Multiset"
begin

text \<open>
  What insertion does to the content of the store: whatever happens to a new temporal chunk on the way, be it splits or a
  merge with a neighbour, the rows of the loaded chunks afterwards are the rows before and those of the chunk.
\<close>

section \<open>The rows of the store\<close>

definition store_rows :: "('a, 'd, 'v) arrow \<Rightarrow> 'a ChunkStore \<Rightarrow> 'v row multiset" where
  "store_rows A s = (\<Sum>i \<in> dom (physical s). mset (rows A (the (physical s i))))"

lemma store_rows_add:
  assumes "physical s' = (physical s)(i \<mapsto> c)" "physical s i = None"
  shows "store_rows A s' = store_rows A s + mset (rows A c)"
proof -
  have "dom (physical s') = insert i (dom (physical s))" "i \<notin> dom (physical s)" using assms by auto
  moreover have "(\<Sum>j \<in> dom (physical s). mset (rows A (the (physical s' j)))) = store_rows A s"
    unfolding store_rows_def using assms by (intro sum.cong) (auto simp: domIff)
  ultimately show ?thesis
    using assms(1) by (simp add: store_rows_def finite_dom_map_of)
qed

lemma store_rows_remove:
  assumes "physical s' = (physical s)(i := None)" "physical s i = Some c"
  shows "store_rows A s = store_rows A s' + mset (rows A c)"
proof -
  have "physical s = (physical s')(i \<mapsto> c)" "physical s' i = None" using assms by (auto simp: fun_eq_iff)
  then show ?thesis by (rule store_rows_add)
qed

section \<open>Pieces\<close>

text \<open>A chunk that the store can take in, and a piece of it.\<close>

definition ingestible :: "('a, 'd, 'v) arrow \<Rightarrow> 'a Chunk \<Rightarrow> bool" where
  "ingestible A c \<longleftrightarrow> columns_ok A c \<and> chunk_is_sorted c \<and> \<not> chunk_is_empty c \<and> chunk_components c \<noteq> [] \<and> \<not> chunk_is_static c \<and>
     num_rows c < 2 ^ 64"

context arrow_laws
begin

lemma slice_ingestible:
  assumes c: "ingestible A c" and i: "i < num_rows c" "0 < n"
  shows "ingestible A (row_sliced_deep A new_id c i n)" "chunk_id (row_sliced_deep A new_id c i n) = new_id"
    "chunk_entity_path (row_sliced_deep A new_id c i n) = chunk_entity_path c"
    "num_rows (row_sliced_deep A new_id c i n) = min n (num_rows c - i)"
proof -
  let ?p = "row_sliced_deep A new_id c i n"
  have ok: "columns_ok A c" and sorted: "sorted (chunk_row_ids c)" using c unfolding ingestible_def columns_ok_def by blast+
  have rows: "rows A ?p = take n (drop i (rows A c))" unfolding row_sliced_deep_def by (rule row_sliced_rows [OF ok])
  show n: "num_rows ?p = min n (num_rows c - i)" using arg_cong [OF rows, of length] by (simp add: length_rows)
  have cols: "columns_ok A ?p" unfolding row_sliced_deep_def using row_sliced_picks(2) [OF ok] by (simp add: chunk_ok_def)
  have "chunk_row_ids ?p = take n (drop i (chunk_row_ids c))"
    using arg_cong [OF rows, of "map rw_id"] by (simp add: map_rw_id_rows take_map [symmetric] drop_map [symmetric])
  then have "chunk_is_sorted ?p" using cols sorted by (simp add: columns_ok_def sorted_wrt_take sorted_wrt_drop)
  moreover have ne: "\<not> min (i + n) (num_rows c) - i = 0" "\<not> num_rows c \<le> i" using i by auto
  then show "chunk_id ?p = new_id" "chunk_entity_path ?p = chunk_entity_path c"
    by (simp_all add: row_sliced_deep_def row_sliced_impl_def Let_def)
  have "chunk_timelines ?p \<noteq> []" using ne c by (simp add: row_sliced_deep_def row_sliced_impl_def Let_def ingestible_def chunk_is_static_def)
  moreover have "chunk_components ?p \<noteq> []"
  proof -
    have comps: "components_ok A (num_rows c) (chunk_components c)" using ok by (simp add: columns_ok_def)
    show ?thesis
      using ne c by (simp add: row_sliced_deep_def row_sliced_impl_def Let_def components_from_iter_map [OF comps] ingestible_def)
  qed
  moreover have "num_rows ?p < 2 ^ 64" "num_rows ?p \<noteq> 0" using n c i by (auto simp: ingestible_def)
  ultimately show "ingestible A ?p" using cols by (simp add: ingestible_def chunk_is_static_def chunk_is_empty_def)
qed

lemma split_loop_pieces:
  assumes c: "ingestible A c" and t: "0 < target_rows"
  shows "\<exists>ps. split_loop A ids c target_rows start k = Some ps \<and> concat (map (rows A) ps) = drop start (rows A c) \<and>
    (\<forall>p \<in> set ps. ingestible A p \<and> chunk_entity_path p = chunk_entity_path c) \<and> map chunk_id ps = map ids [k..<k + length ps] \<and>
    (start < num_rows c \<longrightarrow> ps \<noteq> [])"
proof (induction "num_rows c - start" arbitrary: start k rule: less_induct)
  case less
  show ?case
  proof (cases "start < num_rows c")
    case False
    then show ?thesis by (subst split_loop.simps) simp
  next
    case True
    let ?n = "min (num_rows c - start) target_rows"
    let ?p = "row_sliced_deep A (ids k) c start ?n"
    have ok: "columns_ok A c" using c by (simp add: ingestible_def)
    have pos: "0 < ?n" using True t by simp
    then have "num_rows c - (start + ?n) < num_rows c - start" using True by linarith
    from less [OF this, of "Suc k"] obtain ps where
      ps: "split_loop A ids c target_rows (start + ?n) (Suc k) = Some ps"
        "concat (map (rows A) ps) = drop (start + ?n) (rows A c)"
        "\<forall>p \<in> set ps. ingestible A p \<and> chunk_entity_path p = chunk_entity_path c" "map chunk_id ps = map ids [Suc k..<Suc k + length ps]" by blast
    have eq: "split_loop A ids c target_rows start k = Some (?p # ps)"
      using True ps(1) by (subst split_loop.simps) simp
    have "rows A ?p = take ?n (drop start (rows A c))"
      unfolding row_sliced_deep_def by (rule row_sliced_rows [OF ok])
    then have "rows A ?p @ drop (start + ?n) (rows A c) = drop start (rows A c)"
      by (metis add.commute append_take_drop_id drop_drop)
    moreover have "[k..<Suc (k + length ps)] = k # [Suc k..<Suc (k + length ps)]" by (simp add: upt_rec)
    ultimately show ?thesis using eq ps slice_ingestible [OF c True pos, of "ids k"] by auto
  qed
qed

lemma split_pieces:
  assumes c: "ingestible A c"
  shows "\<exists>ps. split_chunk_if_needed B A ids stack_size cfg c = Some ps \<and> concat (map (rows A) ps) = rows A c \<and>
    (\<forall>p \<in> set ps. ingestible A p \<and> chunk_entity_path p = chunk_entity_path c) \<and> ps \<noteq> [] \<and>
    (ps = [c] \<or> map chunk_id ps = map ids [0..<length ps])"
proof -
  have "0 < num_rows c" using c by (simp add: ingestible_def chunk_is_empty_def)
  moreover have "0 < unat (max w 1)" for w :: u64 by (auto simp: max_def word_le_nat_alt)
  ultimately have loop: "\<exists>ps. split_loop A ids c (unat (max w 1)) 0 0 = Some ps \<and> concat (map (rows A) ps) = rows A c \<and>
      (\<forall>p \<in> set ps. ingestible A p \<and> chunk_entity_path p = chunk_entity_path c) \<and> map chunk_id ps = map ids [0..<length ps] \<and> ps \<noteq> []" for w :: u64
    using split_loop_pieces [OF c, of "unat (max w 1)" ids 0 0] by auto
  have "split_chunk_if_needed B A ids stack_size cfg c = Some [c] \<or>
      (\<exists>w :: u64. split_chunk_if_needed B A ids stack_size cfg c = split_loop A ids c (unat (max w 1)) 0 0)"
  proof -
    have "x = y \<or> (\<exists>w. x = g w)" if "x = (if a then y else if b then y else g t)" for x y :: "'a Chunk list option" and g :: "u64 \<Rightarrow> 'a Chunk list option" and a b t
      using that by auto
    from this [where g = "\<lambda>w. split_loop A ids c (unat (max w 1)) 0 0", OF split_chunk_if_needed_def [of B A ids stack_size cfg c, unfolded Let_def]]
    show ?thesis .
  qed
  then show ?thesis using loop c by (elim disjE exE) auto
qed

end

section \<open>Rounds of splitting\<close>

text \<open>There are at most as many pieces as rows.\<close>

lemma pieces_bound:
  "\<forall>p \<in> set ps. ingestible A p \<Longrightarrow> length ps \<le> length (concat (map (rows A) ps))"
  by (induction ps) (auto simp: length_rows ingestible_def chunk_is_empty_def)

lemma split_with_pieces:
  fixes E :: "('a, 'd, 'v) store_env"
  assumes A: "arrow_laws (env_arrow E)" and inj: "inj_on f {..<num_rows c}" and c: "ingestible (env_arrow E) c"
  obtains ps where "split_with E cfg f c = Some ps" "concat (map (rows (env_arrow E)) ps) = rows (env_arrow E) c"
    "\<forall>p \<in> set ps. ingestible (env_arrow E) p \<and> chunk_entity_path p = chunk_entity_path c" "ps \<noteq> []" "distinct (map chunk_id ps)"
    "ps = [c] \<or> chunk_id ` set ps \<subseteq> f ` {..<num_rows c}"
proof -
  obtain ps where ps: "split_with E cfg f c = Some ps" "concat (map (rows (env_arrow E)) ps) = rows (env_arrow E) c"
    "\<forall>p \<in> set ps. ingestible (env_arrow E) p \<and> chunk_entity_path p = chunk_entity_path c" "ps \<noteq> []"
    "ps = [c] \<or> map chunk_id ps = map f [0..<length ps]"
    unfolding split_with_def using arrow_laws.split_pieces [OF A c] by blast
  have "length ps \<le> num_rows c" using pieces_bound [of ps "env_arrow E"] ps(2,3) by (simp add: length_rows)
  then have sub: "set [0..<length ps] \<subseteq> {..<num_rows c}" by auto
  have "distinct (map chunk_id ps) \<and> (ps = [c] \<or> chunk_id ` set ps \<subseteq> f ` {..<num_rows c})"
  proof (cases "ps = [c]")
    case False
    then have ids: "map chunk_id ps = map f [0..<length ps]" using ps(5) by blast
    have "distinct (map f [0..<length ps])" using inj_on_subset [OF inj sub] by (simp add: distinct_map)
    then have "distinct (map chunk_id ps)" by (simp only: ids)
    moreover have "set (map chunk_id ps) \<subseteq> f ` {..<num_rows c}" unfolding ids list.set_map using sub by (rule image_mono)
    then have "chunk_id ` set ps \<subseteq> f ` {..<num_rows c}" by (simp only: list.set_map)
    ultimately show ?thesis by blast
  qed simp
  then show thesis using ps(1-4) that by blast
qed

text \<open>The places where a round draws ids, for at most \<open>n\<close> rows and pieces.\<close>

definition round_paths :: "nat \<Rightarrow> nat list set" where
  "round_paths n = {[k, j] | k j. k < n \<and> j < n}"

lemma inj_pair: "inj_on ids (round_paths n) \<Longrightarrow> k < n \<Longrightarrow> j < n \<Longrightarrow> k' < n \<Longrightarrow> j' < n \<Longrightarrow> ids [k, j] = ids [k', j'] \<longleftrightarrow> k = k' \<and> j = j'"
  by (auto simp: round_paths_def dest!: inj_onD)

text \<open>What splitting keeps: the rows in order, and the pieces are sound chunks of the same entities with different ids.\<close>

definition pieces_of :: "('a, 'd, 'v) arrow \<Rightarrow> 'a Chunk list \<Rightarrow> 'a Chunk list \<Rightarrow> bool" where
  "pieces_of A ps qs \<longleftrightarrow> concat (map (rows A) qs) = concat (map (rows A) ps) \<and> length ps \<le> length qs \<and> distinct (map chunk_id qs) \<and>
     (\<forall>q \<in> set qs. ingestible A q \<and> (\<exists>p \<in> set ps. chunk_entity_path q = chunk_entity_path p))"

lemma pieces_trans: "pieces_of A ps qs \<Longrightarrow> pieces_of A qs rs \<Longrightarrow> pieces_of A ps rs"
  unfolding pieces_of_def by (auto; metis)

lemma split_round_pieces:
  fixes E :: "('a, 'd, 'v) store_env"
  assumes A: "arrow_laws (env_arrow E)" and inj: "inj_on ids (round_paths n)"
    and ps: "\<forall>p \<in> set ps. ingestible (env_arrow E) p \<and> num_rows p \<le> n" "k + length ps \<le> n"
    and old: "\<forall>p \<in> set ps. chunk_id p \<notin> ids ` round_paths n" "distinct (map chunk_id ps)" "\<forall>p \<in> set ps. compacted (chunk_id p) = Some False"
  shows "\<exists>qs. split_round E cfg compacted ids k ps = Some qs \<and> pieces_of (env_arrow E) ps qs \<and>
    (\<forall>q \<in> set qs. chunk_id q \<in> chunk_id ` set ps \<or> (\<exists>k' j. k \<le> k' \<and> k' < n \<and> j < n \<and> chunk_id q = ids [k', j]))"
  using ps old
proof (induction ps arbitrary: k)
  case (Cons p ps)
  let ?A = "env_arrow E"
  have "\<exists>qs. split_round E cfg compacted ids (Suc k) ps = Some qs \<and> pieces_of ?A ps qs \<and>
    (\<forall>q \<in> set qs. chunk_id q \<in> chunk_id ` set ps \<or> (\<exists>k' j. Suc k \<le> k' \<and> k' < n \<and> j < n \<and> chunk_id q = ids [k', j]))"
    using Cons.prems by (intro Cons.IH) auto
  then obtain qs where qs: "split_round E cfg compacted ids (Suc k) ps = Some qs" "pieces_of ?A ps qs"
    and ids_qs: "\<And>q. q \<in> set qs \<Longrightarrow> chunk_id q \<in> chunk_id ` set ps \<or> (\<exists>k' j. Suc k \<le> k' \<and> k' < n \<and> j < n \<and> chunk_id q = ids [k', j])" by blast
  have p: "ingestible ?A p" "num_rows p \<le> n" "k < n" "compacted (chunk_id p) = Some False" using Cons.prems by simp_all
  have "inj_on (\<lambda>j. ids [k, j]) {..<num_rows p}" using p(2,3) by (auto simp: inj_on_def inj_pair [OF inj])
  then obtain rs where rs: "split_with E cfg (\<lambda>j. ids [k, j]) p = Some rs" "concat (map (rows ?A) rs) = rows ?A p"
    "\<forall>r \<in> set rs. ingestible ?A r \<and> chunk_entity_path r = chunk_entity_path p" "rs \<noteq> []"
    "distinct (map chunk_id rs)" "rs = [p] \<or> chunk_id ` set rs \<subseteq> (\<lambda>j. ids [k, j]) ` {..<num_rows p}"
    using split_with_pieces [OF A _ p(1)] by metis
  have run: "split_round E cfg compacted ids k (p # ps) = Some (rs @ qs)" using qs(1) rs(1) p(4) by simp
  have ids_rs: "chunk_id r = chunk_id p \<or> (\<exists>j < n. chunk_id r = ids [k, j])" if "r \<in> set rs" for r
    using rs(6) that p(2) by (elim disjE) (auto dest!: subsetD [OF _ imageI] intro: less_le_trans)
  have apart: "chunk_id r \<noteq> chunk_id q" if r: "r \<in> set rs" and q: "q \<in> set qs" for r q
  proof -
    have 1: "chunk_id p \<notin> chunk_id ` set ps" using Cons.prems(4) by simp
    have 2: "chunk_id p \<noteq> ids [k', j]" if "k' < n" "j < n" for k' j using Cons.prems(3) that by (auto simp: round_paths_def)
    have 3: "ids [k', j] \<notin> chunk_id ` set ps" if "k' < n" "j < n" for k' j
    proof
      assume "ids [k', j] \<in> chunk_id ` set ps"
      then obtain p' where "p' \<in> set ps" "chunk_id p' = ids [k', j]" by auto
      then show False using Cons.prems(3) that by (auto simp: round_paths_def)
    qed
    show ?thesis
      using ids_rs [OF r]
    proof
      assume "chunk_id r = chunk_id p"
      then show ?thesis using ids_qs [OF q] 1 2 by (simp only:) (elim disjE exE conjE; metis)
    next
      assume "\<exists>j < n. chunk_id r = ids [k, j]"
      then obtain j where "j < n" "chunk_id r = ids [k, j]" by blast
      then show ?thesis using ids_qs [OF q] 3 [OF p(3)] p(3) by (elim disjE exE conjE; simp add: inj_pair [OF inj]; metis)
    qed
  qed
  have "distinct (map chunk_id (rs @ qs))" using rs(5) qs(2) apart by (auto simp: pieces_of_def)
  moreover have "length (p # ps) \<le> length (rs @ qs)" using qs(2) rs(4) by (cases rs) (auto simp: pieces_of_def)
  moreover have "\<forall>q \<in> set (rs @ qs). ingestible ?A q \<and> (\<exists>p' \<in> set (p # ps). chunk_entity_path q = chunk_entity_path p')"
    using rs(3) qs(2) by (auto simp: pieces_of_def)
  ultimately have "pieces_of ?A (p # ps) (rs @ qs)" using rs(2) qs(2) by (simp add: pieces_of_def)
  moreover have "\<forall>q \<in> set (rs @ qs). chunk_id q \<in> chunk_id ` set (p # ps) \<or> (\<exists>k' j. k \<le> k' \<and> k' < n \<and> j < n \<and> chunk_id q = ids [k', j])"
  proof
    fix q assume "q \<in> set (rs @ qs)"
    then show "chunk_id q \<in> chunk_id ` set (p # ps) \<or> (\<exists>k' j. k \<le> k' \<and> k' < n \<and> j < n \<and> chunk_id q = ids [k', j])"
      using ids_rs [of q] ids_qs [of q] p(3) by (auto intro: Suc_leD)
  qed
  ultimately show ?case using run by blast
qed (simp add: pieces_of_def)

text \<open>
  Every round adds pieces or is the last one, so the number of rounds is bounded by the number of rows; the first round is number 1, and
  the first split of all draws at \<open>[0, j]\<close>.
\<close>

definition split_paths :: "nat \<Rightarrow> nat list set" where
  "split_paths n = {[0, j] | j. j < n} \<union> {[r, k, j] | r k j. 1 \<le> r \<and> r \<le> n \<and> k < n \<and> j < n}"

lemma split_rounds_pieces:
  fixes E :: "('a, 'd, 'v) store_env"
  assumes A: "arrow_laws (env_arrow E)" and inj: "inj_on ids (split_paths n)" and new: "\<And>q. q \<in> split_paths n \<Longrightarrow> compacted (ids q) = Some False"
    and ps: "\<forall>p \<in> set ps. ingestible (env_arrow E) p" "distinct (map chunk_id ps)" "\<forall>p \<in> set ps. compacted (chunk_id p) = Some False"
    and n: "length (concat (map (rows (env_arrow E)) ps)) \<le> n" "1 \<le> r" "r \<le> length ps"
    and old: "\<forall>p \<in> set ps. \<forall>r' k j. r \<le> r' \<and> [r', k, j] \<in> split_paths n \<longrightarrow> chunk_id p \<noteq> ids [r', k, j]"
  shows "\<exists>qs. split_rounds E cfg compacted ids r ps = Some qs \<and> pieces_of (env_arrow E) ps qs \<and>
    chunk_id ` set qs \<subseteq> chunk_id ` set ps \<union> ids ` split_paths n"
  using ps n old
proof (induction "length (concat (map (rows (env_arrow E)) ps)) - length ps" arbitrary: r ps rule: less_induct)
  case less
  let ?A = "env_arrow E"
  have len: "length ps \<le> n" using pieces_bound [OF less.prems(1)] less.prems(4) by simp
  have paths: "[r, k, j] \<in> split_paths n" if "[k, j] \<in> round_paths n" for k j
    using that less.prems(5,6) len by (simp add: split_paths_def round_paths_def)
  have "inj_on (\<lambda>q. ids (r # q)) (round_paths n)"
    using inj paths by (auto simp: inj_on_def round_paths_def)
  moreover have "\<forall>p \<in> set ps. chunk_id p \<notin> (\<lambda>q. ids (r # q)) ` round_paths n"
    using less.prems(7) paths by (auto simp: round_paths_def)
  moreover have "\<forall>p \<in> set ps. ingestible ?A p \<and> num_rows p \<le> n"
  proof
    fix p assume p: "p \<in> set ps"
    have "length (rows ?A p) \<le> length (concat (map (rows ?A) ps))" using p by (auto simp: length_concat intro!: member_le_sum_list)
    then show "ingestible ?A p \<and> num_rows p \<le> n" using less.prems(1,4) p by (simp add: length_rows)
  qed
  ultimately have "\<exists>qs. split_round E cfg compacted (\<lambda>q. ids (r # q)) 0 ps = Some qs \<and> pieces_of ?A ps qs \<and>
    (\<forall>q \<in> set qs. chunk_id q \<in> chunk_id ` set ps \<or> (\<exists>k j. 0 \<le> k \<and> k < n \<and> j < n \<and> chunk_id q = ids [r, k, j]))"
    using len less.prems(2,3) by (intro split_round_pieces [OF A]) simp_all
  then obtain qs where qs: "split_round E cfg compacted (\<lambda>q. ids (r # q)) 0 ps = Some qs" "pieces_of ?A ps qs"
    and new_qs: "\<forall>q \<in> set qs. chunk_id q \<in> chunk_id ` set ps \<or> (\<exists>k j. 0 \<le> k \<and> k < n \<and> j < n \<and> chunk_id q = ids [r, k, j])"
    by (elim exE conjE) (rule that)
  have ids_qs: "chunk_id q \<in> chunk_id ` set ps \<or> (\<exists>k j. [r, k, j] \<in> split_paths n \<and> chunk_id q = ids [r, k, j])" if "q \<in> set qs" for q
    using bspec [OF new_qs that]
  proof
    assume "\<exists>k j. 0 \<le> k \<and> k < n \<and> j < n \<and> chunk_id q = ids [r, k, j]"
    then obtain k j where kj: "k < n" "j < n" "chunk_id q = ids [r, k, j]" by blast
    then have "[r, k, j] \<in> split_paths n" using paths by (simp add: round_paths_def)
    then show ?thesis using kj(3) by blast
  qed simp
  have ids: "chunk_id ` set qs \<subseteq> chunk_id ` set ps \<union> ids ` split_paths n" using ids_qs by blast
  show ?case
  proof (cases "length qs = length ps")
    case True
    then have "split_rounds E cfg compacted ids r ps = Some qs" using qs(1) by (subst split_rounds.simps) simp
    then show ?thesis using qs(2) ids by blast
  next
    case False
    have q: "\<forall>q \<in> set qs. ingestible ?A q" "distinct (map chunk_id qs)" "concat (map (rows ?A) qs) = concat (map (rows ?A) ps)" "length ps < length qs"
      using qs(2) False by (auto simp: pieces_of_def)
    have "length qs \<le> length (concat (map (rows ?A) qs))" by (rule pieces_bound [OF q(1)])
    then have "length (concat (map (rows ?A) qs)) - length qs < length (concat (map (rows ?A) ps)) - length ps"
      using q(3,4) by simp
    moreover have "\<forall>q \<in> set qs. compacted (chunk_id q) = Some False"
    proof
      fix q assume "q \<in> set qs"
      then show "compacted (chunk_id q) = Some False" using ids_qs [of q] less.prems(3) new by auto
    qed
    moreover have "chunk_id q \<noteq> ids [r', k, j]" if "q \<in> set qs" "Suc r \<le> r'" "[r', k, j] \<in> split_paths n" for q r' k j
      using ids_qs [OF that(1)]
    proof
      assume "chunk_id q \<in> chunk_id ` set ps"
      then obtain p where "p \<in> set ps" "chunk_id q = chunk_id p" by auto
      then show ?thesis using less.prems(7) that(2,3) by auto
    next
      assume "\<exists>k j. [r, k, j] \<in> split_paths n \<and> chunk_id q = ids [r, k, j]"
      then obtain k' j' where "[r, k', j'] \<in> split_paths n" "chunk_id q = ids [r, k', j']" by blast
      then show ?thesis using that(2,3) inj_onD [OF inj, of "[r, k', j']" "[r', k, j]"] by auto
    qed
    ultimately have "\<exists>ts. split_rounds E cfg compacted ids (Suc r) qs = Some ts \<and> pieces_of ?A qs ts \<and>
        chunk_id ` set ts \<subseteq> chunk_id ` set qs \<union> ids ` split_paths n"
      using q less.prems(4,6) by (intro less.hyps) auto
    then obtain ts where ts: "split_rounds E cfg compacted ids (Suc r) qs = Some ts" "pieces_of ?A qs ts"
      "chunk_id ` set ts \<subseteq> chunk_id ` set qs \<union> ids ` split_paths n" by blast
    have "split_rounds E cfg compacted ids r ps = Some ts" using qs(1) ts(1) False by (subst split_rounds.simps) simp
    moreover have "pieces_of ?A ps ts" using qs(2) ts(2) by (rule pieces_trans)
    ultimately show ?thesis using ts(3) ids by blast
  qed
qed

lemma compute_splits_pieces:
  fixes E :: "('a, 'd, 'v) store_env"
  assumes A: "arrow_laws (env_arrow E)" and inj: "inj_on ids (split_paths (num_rows c))"
    and c: "ingestible (env_arrow E) c" "chunk_id c \<notin> ids ` split_paths (num_rows c)"
    and comp: "\<And>i. i = chunk_id c \<or> i \<in> ids ` split_paths (num_rows c) \<Longrightarrow> descends_from_a_compaction (debug_assertions (env_build E)) s i = Some False"
  shows "\<exists>ps. compute_splits E ids c s = Some ps \<and> pieces_of (env_arrow E) [c] ps \<and>
    (1 < length ps \<longrightarrow> chunk_id ` set ps \<subseteq> ids ` split_paths (num_rows c))"
proof -
  let ?A = "env_arrow E" and ?cfg = "split_config s" and ?comp = "descends_from_a_compaction (debug_assertions (env_build E)) s"
  let ?n = "num_rows c" and ?ids = "ids ` split_paths (num_rows c)"
  have pos: "1 \<le> ?n" using c(1) by (simp add: ingestible_def chunk_is_empty_def)
  have rounds: "\<exists>qs. split_rounds E ?cfg ?comp ids r ps = Some qs \<and> pieces_of ?A [c] qs \<and> chunk_id ` set qs \<subseteq> chunk_id ` set ps \<union> ?ids"
    if ps: "pieces_of ?A [c] ps" "1 \<le> r" "r \<le> length ps"
      "\<forall>p \<in> set ps. chunk_id p = chunk_id c \<or> (\<exists>q \<in> split_paths ?n. (length q = 3 \<longrightarrow> hd q < r) \<and> chunk_id p = ids q)" for r ps
  proof -
    have comp': "\<forall>p \<in> set ps. ?comp (chunk_id p) = Some False" using ps(4) comp by blast
    have old: "chunk_id p \<noteq> ids [r', k, j]" if "p \<in> set ps" "r \<le> r'" "[r', k, j] \<in> split_paths ?n" for p r' k j
    proof
      assume eq: "chunk_id p = ids [r', k, j]"
      then have "chunk_id p \<noteq> chunk_id c" using that(3) c(2) by (metis imageI)
      then obtain q where q: "q \<in> split_paths ?n" "length q = 3 \<longrightarrow> hd q < r" "chunk_id p = ids q" using ps(4) \<open>p \<in> set ps\<close> by blast
      have "q = [r', k, j]" by (rule inj_onD [OF inj _ q(1) that(3)]) (use eq q(3) in simp)
      then show False using q(2) that(2) by simp
    qed
    have "\<exists>qs. split_rounds E ?cfg ?comp ids r ps = Some qs \<and> pieces_of ?A ps qs \<and> chunk_id ` set qs \<subseteq> chunk_id ` set ps \<union> ?ids"
      using ps(1-3) old by (intro split_rounds_pieces [OF A inj _ _ _ comp']) (auto simp: comp pieces_of_def length_rows)
    then show ?thesis using pieces_trans [OF ps(1)] by blast
  qed
  have "inj_on (\<lambda>j. ids [0, j]) {..<?n}" "inj_on (\<lambda>j. ids [1, 0, j]) {..<?n}"
  proof -
    have paths: "[0, j] \<in> split_paths ?n" "[1, 0, j] \<in> split_paths ?n" if "j < ?n" for j using that pos by (auto simp: split_paths_def)
    show "inj_on (\<lambda>j. ids [0, j]) {..<?n}" by (rule inj_onI) (use paths(1) inj_onD [OF inj] in blast)
    show "inj_on (\<lambda>j. ids [1, 0, j]) {..<?n}" by (rule inj_onI) (use paths(2) inj_onD [OF inj] in blast)
  qed
  note with_c = split_with_pieces [OF A this(1) c(1)] split_with_pieces [OF A this(2) c(1)]
  obtain ps where ps: "split_with E ?cfg (\<lambda>j. ids [0, j]) c = Some ps" "concat (map (rows ?A) ps) = rows ?A c"
    "\<forall>p \<in> set ps. ingestible ?A p \<and> chunk_entity_path p = chunk_entity_path c" "ps \<noteq> []" "distinct (map chunk_id ps)"
    "ps = [c] \<or> chunk_id ` set ps \<subseteq> (\<lambda>j. ids [0, j]) ` {..<?n}" by (rule with_c(1))
  have compute: "compute_splits E ids c s = split_rounds E ?cfg ?comp ids 1 ps" using ps(1) by (simp add: compute_splits_def)
  have "pieces_of ?A [c] ps" using ps(2-5) by (cases ps) (auto simp: pieces_of_def)
  show ?thesis
  proof (cases "ps = [c]")
    case False
    have paths: "[0, j] \<in> split_paths ?n" if "j < ?n" for j using that by (simp add: split_paths_def)
    have "\<exists>q \<in> split_paths ?n. (length q = 3 \<longrightarrow> hd q < 1) \<and> chunk_id p = ids q" if "p \<in> set ps" for p
    proof -
      have "chunk_id p \<in> (\<lambda>j. ids [0, j]) ` {..<?n}" using that False ps(6) by blast
      then obtain j where "j < ?n" "chunk_id p = ids [0, j]" by auto
      then show ?thesis using paths by (intro bexI [of _ "[0, j]"]) auto
    qed
    then have old: "\<forall>p \<in> set ps. chunk_id p = chunk_id c \<or> (\<exists>q \<in> split_paths ?n. (length q = 3 \<longrightarrow> hd q < 1) \<and> chunk_id p = ids q)"
      and sub: "chunk_id ` set ps \<subseteq> ?ids" by blast+
    have len: "1 \<le> length ps" using ps(4) by (cases ps) auto
    obtain qs where "split_rounds E ?cfg ?comp ids 1 ps = Some qs" "pieces_of ?A [c] qs" "chunk_id ` set qs \<subseteq> chunk_id ` set ps \<union> ?ids"
      using rounds [OF \<open>pieces_of ?A [c] ps\<close> order_refl len old] by (elim exE conjE) (rule that)
    moreover from this(3) have "chunk_id ` set qs \<subseteq> ?ids" using sub by blast
    ultimately show ?thesis unfolding compute by (intro exI [of _ qs] conjI impI)
  next
    case True
    obtain rs where rs: "split_with E ?cfg (\<lambda>j. ids [1, 0, j]) c = Some rs" "concat (map (rows ?A) rs) = rows ?A c"
      "\<forall>p \<in> set rs. ingestible ?A p \<and> chunk_entity_path p = chunk_entity_path c" "rs \<noteq> []" "distinct (map chunk_id rs)"
      "rs = [c] \<or> chunk_id ` set rs \<subseteq> (\<lambda>j. ids [1, 0, j]) ` {..<?n}" by (rule with_c(2))
    have round: "split_round E ?cfg ?comp (\<lambda>p. ids (1 # p)) 0 ps = Some rs" using rs(1) comp by (simp add: True)
    have pieces: "pieces_of ?A [c] rs" using rs(2-5) by (cases rs) (auto simp: pieces_of_def)
    show ?thesis
    proof (cases "length rs = 1")
      case len: True
      then have "compute_splits E ids c s = Some rs" unfolding compute using round by (subst split_rounds.simps) (simp add: True)
      then show ?thesis using pieces len by auto
    next
      case len: False
      then have "rs \<noteq> [c]" by auto
      have paths: "[1, 0, j] \<in> split_paths ?n" if "j < ?n" for j using that pos by (simp add: split_paths_def)
      have "\<exists>q \<in> split_paths ?n. (length q = 3 \<longrightarrow> hd q < Suc 1) \<and> chunk_id p = ids q" if "p \<in> set rs" for p
      proof -
        have "chunk_id p \<in> (\<lambda>j. ids [1, 0, j]) ` {..<?n}" using that \<open>rs \<noteq> [c]\<close> rs(6) by blast
        then obtain j where "j < ?n" "chunk_id p = ids [1, 0, j]" by auto
        then show ?thesis using paths by (intro bexI [of _ "[1, 0, j]"]) auto
      qed
      then have old: "\<forall>p \<in> set rs. chunk_id p = chunk_id c \<or> (\<exists>q \<in> split_paths ?n. (length q = 3 \<longrightarrow> hd q < Suc 1) \<and> chunk_id p = ids q)"
        and sub: "chunk_id ` set rs \<subseteq> ?ids" by blast+
      have len': "1 \<le> Suc 1" "Suc 1 \<le> length rs" using len rs(4) by (cases rs; simp add: Suc_le_eq)+
      obtain qs where "split_rounds E ?cfg ?comp ids (Suc 1) rs = Some qs" "pieces_of ?A [c] qs" "chunk_id ` set qs \<subseteq> chunk_id ` set rs \<union> ?ids"
        using rounds [OF pieces len' old] by (elim exE conjE) (rule that)
      moreover from this(3) have "chunk_id ` set qs \<subseteq> ?ids" using sub by blast
      moreover have "compute_splits E ids c s = split_rounds E ?cfg ?comp ids (Suc 1) rs"
        unfolding compute using round len by (subst split_rounds.simps) (simp add: True)
      ultimately show ?thesis by (intro exI [of _ qs] conjI impI) (rule trans)
    qed
  qed
qed

end
