(* ===== verification/Store_Insertion.thy ===== *)
theory Store_Insertion
  imports Store_Ingest
begin

text \<open>
  Insertion adds exactly the rows of the chunk: the steps of \<^theory_text>\<open>Store_Insert\<close> for a new temporal chunk, entered as it is,
  merged with a neighbour or split, and their composition.
\<close>

section \<open>New ids\<close>

text \<open>An id that the store knows nothing about.\<close>

definition fresh :: "'a ChunkStore \<Rightarrow> ChunkId \<Rightarrow> bool" where
  "fresh s i \<longleftrightarrow> physical s i = None \<and> unindexed s i \<and> direct_lineage s i = None \<and>
     map_of (leaky_compactions s) i = None \<and> map_of (dangling_splits s) i = None"

lemma leaky_loaded_fresh: "fresh s i \<Longrightarrow> leaky_loaded (leaky_compactions s) P i = Some False"
  by (subst leaky_loaded.simps) (simp add: fresh_def)

lemma remove_leftovers_fresh: "fresh s (chunk_id c) \<Longrightarrow> remove_leftovers E c s = ([], s)"
  by (simp add: fresh_def remove_leftovers_def)

lemma insert_lineage_new:
  fixes s :: "'a ChunkStore"
  assumes "direct_lineage s i = None"
  obtains g where "insert_lineage_if_missing debug i report s = Some (s\<lparr>chunks_lineage := g\<rparr>)" "g \<noteq> []"
    "direct_lineage (s\<lparr>chunks_lineage := g\<rparr>) = (direct_lineage s)(i \<mapsto> lineage_of_report report)"
proof -
  define from_manifest where "from_manifest = (case lineage_of_report report of
      SplitFrom j _ \<Rightarrow> descends_from_manifest s j | CompactedFrom js \<Rightarrow> list_ex (descends_from_manifest s) js
    | RootFromManifest _ \<Rightarrow> True | Volatile \<Rightarrow> False)"
  define t where "t = s\<lparr>chunks_lineage := AList.update i
      \<lparr>lineage = lineage_of_report report, ref_count = 0, manifest_descendant = from_manifest\<rparr> (chunks_lineage s)\<rparr>"
  define u where "u = fold (\<lambda>j. modify_lineage j add_ref) (iter_referenced_chunks (lineage_of_report report)) t"
  have new: "map_of (chunks_lineage s) i = None" using assms by (simp add: direct_lineage_def)
  have run: "insert_lineage_if_missing debug i report s = Some u"
    using new by (simp add: insert_lineage_if_missing_def Let_def u_def t_def from_manifest_def)
  have "u\<lparr>chunks_lineage := chunks_lineage u\<rparr> = t\<lparr>chunks_lineage := chunks_lineage u\<rparr>"
    unfolding u_def by (rule add_refs(4))
  then have u: "u = s\<lparr>chunks_lineage := chunks_lineage u\<rparr>" by (simp add: t_def)
  have look: "map_option lineage (map_of (chunks_lineage u) j) = map_option lineage (map_of (chunks_lineage t) j)" for j
    unfolding u_def add_refs(3) by (simp add: option.map_comp comp_def)
  have dir: "direct_lineage (s\<lparr>chunks_lineage := chunks_lineage u\<rparr>) = (direct_lineage s)(i \<mapsto> lineage_of_report report)"
    by (simp add: fun_eq_iff direct_lineage_def look t_def)
  then have "chunks_lineage u \<noteq> []" by (auto simp: direct_lineage_def fun_eq_iff dest!: spec [of _ i])
  then show thesis using that run dir u by metis
qed

lemma lineage_steps:
  assumes "direct_lineage s i = Some l"
  shows "descends_from_a_split False s i = Some (\<exists>j js. l = SplitFrom j js)"
    and "l = Volatile \<Longrightarrow> descends_from_a_compaction d s i = Some False"
    and "l = SplitFrom j js \<Longrightarrow> direct_lineage s j = Some Volatile \<Longrightarrow> descends_from_a_compaction d s i = Some False"
proof -
  have "chunks_lineage s \<noteq> []" using assms by (auto simp: direct_lineage_def)
  then obtain n where n: "length (chunks_lineage s) = Suc n" by (cases "chunks_lineage s") auto
  show "descends_from_a_split False s i = Some (\<exists>j js. l = SplitFrom j js)"
    using assms by (simp add: descends_from_a_split_def split: ChunkDirectLineage.split)
  show "l = Volatile \<Longrightarrow> descends_from_a_compaction d s i = Some False"
    "l = SplitFrom j js \<Longrightarrow> direct_lineage s j = Some Volatile \<Longrightarrow> descends_from_a_compaction d s i = Some False"
    using assms by (simp_all add: descends_from_a_compaction_def n)
qed

lemma compaction_unknown: "direct_lineage s i = None \<Longrightarrow> descends_from_a_compaction d s i = Some False"
  by (simp add: descends_from_a_compaction_def)

section \<open>Frames\<close>

lemma store_ok_frame:
  assumes "physical_chunks_per_chunk_id s = physical_chunks_per_chunk_id s'"
    "temporal_chunk_ids_per_entity_per_component s = temporal_chunk_ids_per_entity_per_component s'"
    "temporal_chunk_ids_per_entity s = temporal_chunk_ids_per_entity s'"
  shows "store_ok A s = store_ok A s'"
  using tracks_cong(1) [OF assms(2,3), where A = A] assms by (simp add: store_ok_def loaded_ok_def)

lemma insert_physical_lineage:
  "direct_lineage (insert_physical c s) = direct_lineage s" "leaky_compactions (insert_physical c s) = leaky_compactions s"
  "dangling_splits (insert_physical c s) = dangling_splits s"
  by (auto simp: fun_eq_iff direct_lineage_def insert_physical_def Let_def modify_lineage_def add_ref_def split: option.split)

lemma index_lineage [simp]:
  "chunks_lineage (index_without_component c (index_with_component A c s)) = chunks_lineage s"
  "leaky_compactions (index_without_component c (index_with_component A c s)) = leaky_compactions s"
  "dangling_splits (index_without_component c (index_with_component A c s)) = dangling_splits s"
  "physical_chunks_per_chunk_id (index_without_component c (index_with_component A c s)) = physical_chunks_per_chunk_id s"
  by (simp_all add: index_with_component_def index_without_component_def Let_def)

section \<open>Entering a chunk as it is\<close>

text \<open>What one insertion does to the rest of the store.\<close>

definition grows :: "('a, 'd, 'v) arrow \<Rightarrow> 'a ChunkStore \<Rightarrow> 'a Chunk \<Rightarrow> 'a ChunkStore \<Rightarrow> bool" where
  "grows A s c s' \<longleftrightarrow> store_ok A s' \<and> store_rows A s' = store_rows A s + mset (rows A c)"

lemma index_grows:
  assumes A: "arrow_laws A" and ok: "store_ok A s" and c: "ingestible A c"
    and new: "physical s (chunk_id c) = None" "unindexed s (chunk_id c)"
    and s': "s' = insert_physical c ((index_without_component c (index_with_component A c s))\<lparr>temporal_physical_chunks_stats := st\<rparr>)"
  shows "grows A s c s'" "j \<noteq> chunk_id c \<Longrightarrow> fresh s j \<Longrightarrow> fresh s' j" "direct_lineage s' = direct_lineage s"
proof -
  let ?t = "index_without_component c (index_with_component A c s)"
  have c': "columns_ok A c" "chunk_is_sorted c" "\<not> chunk_is_empty c" using c by (simp_all add: ingestible_def)
  have frame: "physical_chunks_per_chunk_id s' = physical_chunks_per_chunk_id (insert_physical c ?t)"
    "temporal_chunk_ids_per_entity_per_component s' = temporal_chunk_ids_per_entity_per_component (insert_physical c ?t)"
    "temporal_chunk_ids_per_entity s' = temporal_chunk_ids_per_entity (insert_physical c ?t)"
    by (simp_all add: s' insert_physical_frame)
  note add = store_ok_add [OF A ok c' new]
  have phys: "physical s' = (physical s)(chunk_id c \<mapsto> c)" using add(2) frame(1) by simp
  show "grows A s c s'"
    using add(1) store_ok_frame [OF frame, of A] store_rows_add [OF phys new(1), of A] by (simp add: grows_def)
  show dir: "direct_lineage s' = direct_lineage s"
    unfolding s' insert_physical_lineage by (simp add: fun_eq_iff direct_lineage_def)
  have "unindexed s' j" if "j \<noteq> chunk_id c" "unindexed s j" for j
  proof -
    have "unindexed s' = unindexed ?t" by (rule tracks_cong(2)) (simp_all add: frame insert_physical_frame)
    moreover have "unindexed ?t j" using ok by (intro unindexed_add [where P = "physical s", OF _ c'(1) that]) (simp add: store_ok_def)
    ultimately show ?thesis by simp
  qed
  then show "j \<noteq> chunk_id c \<Longrightarrow> fresh s j \<Longrightarrow> fresh s' j"
    unfolding fresh_def dir phys by (simp add: s' insert_physical_lineage)
qed


lemma insert_piece:
  fixes E :: "('a, 'd, 'v) store_env"
  assumes A: "arrow_laws (env_arrow E)" and B: "\<not> debug_assertions (env_build E)" "\<not> very_strict (env_build E)"
    and ok: "store_ok (env_arrow E) s" and p: "ingestible (env_arrow E) p" "fresh s (chunk_id p)"
    and c: "direct_lineage s (chunk_id c) = Some Volatile"
  obtains diffs s' where "insert_chunk_impl (Suc n) E ids p (ReportSplitFrom c siblings) s = Some (Ok diffs, s')"
    "grows (env_arrow E) s p s'" "\<And>j. j \<noteq> chunk_id p \<Longrightarrow> fresh s j \<Longrightarrow> fresh s' j" "direct_lineage s' (chunk_id c) = Some Volatile"
proof -
  let ?A = "env_arrow E"
  have p': "\<not> chunk_is_empty p" "chunk_components p \<noteq> []" "chunk_is_sorted p" "\<not> chunk_is_static p"
    using p(1) by (simp_all add: ingestible_def)
  have new: "physical s (chunk_id p) = None" "unindexed s (chunk_id p)" "direct_lineage s (chunk_id p) = None"
    using p(2) by (simp_all add: fresh_def)
  obtain g where g: "insert_lineage_if_missing False (chunk_id p) (ReportSplitFrom c siblings) s = Some (s\<lparr>chunks_lineage := g\<rparr>)"
    "direct_lineage (s\<lparr>chunks_lineage := g\<rparr>) = (direct_lineage s)(chunk_id p \<mapsto> SplitFrom (chunk_id c) (map chunk_id siblings))"
    using insert_lineage_new [OF new(3), of False "ReportSplitFrom c siblings"] by auto
  define s1 where "s1 = s\<lparr>chunks_lineage := g\<rparr>"
  define s2 where "s2 = s1\<lparr>insert_id := insert_id s1 + 1\<rparr>"
  have "chunk_id p \<noteq> chunk_id c" using c new(3) by auto
  then have l1: "direct_lineage s1 (chunk_id p) = Some (SplitFrom (chunk_id c) (map chunk_id siblings))" "direct_lineage s1 (chunk_id c) = Some Volatile"
    using c by (simp_all add: s1_def g(2))
  have dir: "direct_lineage s2 = direct_lineage s1" by (simp add: fun_eq_iff direct_lineage_def s2_def)
  define s3 where "s3 = (index_without_component p (index_with_component ?A p s2))\<lparr>temporal_physical_chunks_stats :=
    stats_add (temporal_physical_chunks_stats s2) (stats_from_chunk (env_build E) ?A (env_stack_size E) p)\<rparr>"
  have elect: "find_and_elect_compaction_candidate E p s2 = Some None"
    using B lineage_steps(1) [of s2 "chunk_id p"] l1(1) dir by (simp add: find_and_elect_compaction_candidate_def)
  then have "insert_temporal E (ids [2]) p (ReportSplitFrom c siblings) s2 = Some (Ok (p, [Addition p p (ReportSplitFrom c siblings)]), s3)"
    by (simp add: insert_temporal_def Let_def s3_def index_with_component_def index_without_component_def)
  then have "insert_whole E (ids [2]) p (ReportSplitFrom c siblings) [] s1 = Some (Ok [Addition p p (ReportSplitFrom c siblings)], insert_physical p s3)"
    using p'(4) by (simp add: insert_whole_def Let_def s2_def)
  moreover have "insert_chunk_impl (Suc n) E ids p (ReportSplitFrom c siblings) s = insert_whole E (ids [2]) p (ReportSplitFrom c siblings) [] s1"
    using p' new(1) B g(1) lineage_steps [OF l1(1)] l1(2)
    by (simp add: warn_if_out_of_order_def s1_def leaky_loaded_fresh [OF p(2)] remove_leftovers_fresh [OF p(2)])
  moreover have fr: "store_ok ?A s2" "physical s2 = physical s" "unindexed s2 = unindexed s"
    using ok store_ok_frame [of s2 s ?A] tracks_cong(2) [of s2 s] by (simp_all add: s1_def s2_def)
  moreover have fresh: "fresh s2 j" if "j \<noteq> chunk_id p" "fresh s j" for j
    using that fr(2,3) unfolding fresh_def dir by (simp add: s1_def s2_def g(2))
  moreover have "store_rows ?A s2 = store_rows ?A s" by (simp add: store_rows_def fr(2))
  moreover note index_grows [OF A fr(1) p(1) _ _ refl, where st = "stats_add (temporal_physical_chunks_stats s2) (stats_from_chunk (env_build E) ?A (env_stack_size E) p)", folded s3_def]
  ultimately show thesis using that l1(2) new(1,2) dir by (simp add: grows_def)
qed

lemma insert_pieces:
  fixes E :: "('a, 'd, 'v) store_env"
  assumes A: "arrow_laws (env_arrow E)" and B: "\<not> debug_assertions (env_build E)" "\<not> very_strict (env_build E)"
    and ok: "store_ok (env_arrow E) s" "\<forall>p \<in> set ps. ingestible (env_arrow E) p \<and> fresh s (chunk_id p)" "distinct (map chunk_id ps)"
    and c: "direct_lineage s (chunk_id c) = Some Volatile"
    and ins: "ins = (\<lambda>k p s. map_option (apfst (map_sum id (map (set_before c))))
      (insert_chunk_impl (Suc n) E (\<lambda>q. ids (1 # k # q)) p (ReportSplitFrom c (siblings p)) s))"
  shows "\<exists>diffs s'. insert_each ins k ps all s = Some (Ok diffs, s') \<and>
    store_ok (env_arrow E) s' \<and> store_rows (env_arrow E) s' = store_rows (env_arrow E) s + mset (concat (map (rows (env_arrow E)) ps))"
  using ok c
proof (induction ps arbitrary: k all s)
  case (Cons p ps)
  have "ingestible (env_arrow E) p" "fresh s (chunk_id p)" using Cons.prems(2) by simp_all
  then obtain diffs s' where p: "insert_chunk_impl (Suc n) E (\<lambda>q. ids (1 # k # q)) p (ReportSplitFrom c (siblings p)) s = Some (Ok diffs, s')"
    "grows (env_arrow E) s p s'" "\<And>j. j \<noteq> chunk_id p \<Longrightarrow> fresh s j \<Longrightarrow> fresh s' j" "direct_lineage s' (chunk_id c) = Some Volatile"
    using insert_piece [OF A B Cons.prems(1) _ _ Cons.prems(4)] by metis
  have "chunk_id p \<notin> chunk_id ` set ps" using Cons.prems(3) by simp
  then have "\<forall>q \<in> set ps. ingestible (env_arrow E) q \<and> fresh s' (chunk_id q)"
    using Cons.prems(2) p(3) by (metis imageI list.set_intros(2))
  moreover have "store_ok (env_arrow E) s'" using p(2) by (simp add: grows_def)
  moreover have "distinct (map chunk_id ps)" using Cons.prems(3) by simp
  ultimately have IH: "\<exists>ds t. insert_each ins (Suc k) ps (all @ map (set_before c) diffs) s' = Some (Ok ds, t) \<and>
    store_ok (env_arrow E) t \<and> store_rows (env_arrow E) t = store_rows (env_arrow E) s' + mset (concat (map (rows (env_arrow E)) ps))"
    using Cons.IH p(4) by blast
  have "ins k p s = Some (Ok (map (set_before c) diffs), s')" unfolding ins using p(1) by (simp del: insert_chunk_impl.simps)
  then show ?case using IH p(2) by (auto simp: grows_def add.assoc)
qed simp

section \<open>The elected candidate\<close>

text \<open>A candidate with points has passed the check.\<close>

definition earned :: "(ChunkId \<Rightarrow> u64 option) \<Rightarrow> (ChunkId \<times> u64) list \<Rightarrow> bool" where
  "earned points m \<longleftrightarrow> (\<forall>(i, v) \<in> set m. v \<noteq> 0 \<longrightarrow> points i \<noteq> Some 0)"

lemma earned_update:
  assumes "earned points m" "points i = Some n"
  shows "earned points (AList.update i (or_default 0 (map_of m i) + n * factor) m)"
proof -
  have "or_default 0 (map_of m i) + n * factor \<noteq> 0 \<longrightarrow> points i \<noteq> Some 0"
    using assms by (cases "map_of m i") (auto simp: earned_def dest!: map_of_SomeD)
  moreover have "set (AList.update i v m) \<subseteq> insert (i, v) (set m)" for v by (induction m) auto
  ultimately show ?thesis using assms(1) unfolding earned_def by blast
qed

lemma award_earned:
  assumes "\<And>i. points i \<noteq> None" "earned points m"
  shows "\<exists>m'. award points factor is m = Some m' \<and> earned points m'"
  using assms(2)
proof (induction "is" arbitrary: m)
  case (Cons i "is")
  then show ?case using assms(1) [of i] earned_update [OF Cons.prems] by auto
qed simp

lemma award_index_earned:
  assumes total: "\<And>i. points i \<noteq> None" and m: "earned points m"
  shows "\<exists>m'. award_index points r idx m = Some m' \<and> earned points m'"
proof -
  define before where "before = (case last_opt (filter (\<lambda>(t, _). t < range_min r) (per_start_time idx)) of None \<Rightarrow> [] | Some (_, is) \<Rightarrow> is)"
  define after where "after = (case first (filter (\<lambda>(t, _). inc (range_max r) \<le> t) (per_start_time idx)) of None \<Rightarrow> [] | Some (_, is) \<Rightarrow> is)"
  obtain m1 where m1: "award points 1 before m = Some m1" "earned points m1" using award_earned [OF total m] by blast
  obtain m2 where m2: "award points 1 after m1 = Some m2" "earned points m2" using award_earned [OF total m1(2)] by blast
  have "award_index points r idx m = award points 2 (or_default [] (map_of (per_start_time idx) (range_min r))) m2"
    unfolding award_index_def before_def [symmetric] after_def [symmetric] using m1(1) m2(1) by simp
  then show ?thesis using award_earned [OF total m2(2)] by simp
qed

lemma award_all_earned:
  assumes "\<And>i. points i \<noteq> None" "earned points m"
  shows "\<exists>m'. award_all points idxs m = Some m' \<and> earned points m'"
  using assms(2)
proof (induction idxs arbitrary: m)
  case (Cons x idxs)
  obtain r idx where x: "x = (r, idx)" by fastforce
  obtain m' where "award_index points r idx m = Some m'" "earned points m'"
    using award_index_earned [OF assms(1) Cons.prems] by blast
  then show ?case using Cons.IH [of m'] by (simp add: x)
qed simp

lemma find_map_Some: "find_map f xs = Some y \<Longrightarrow> \<exists>x \<in> set xs. f x = Some y"
  by (induction xs) (auto split: option.splits)

lemma elected_is_neighbour:
  assumes B: "\<not> debug_assertions (env_build E)" and order: "\<And>m. mset (env_order E m) = mset m"
  obtains elected where "find_and_elect_compaction_candidate E c s = Some elected"
    "\<And>e. elected = Some e \<Longrightarrow> \<exists>i. physical s i = Some e \<and> i \<noteq> chunk_id c \<and> concatenable (env_arrow E) c e"
proof -
  let ?points = "check_if_chunk_below_threshold E s c"
  have total: "?points i \<noteq> None" for i
    using B by (simp add: check_if_chunk_below_threshold_def descends_from_a_split_def split: option.split)
  have passed: "i \<noteq> chunk_id c \<and> concatenable (env_arrow E) c e" if "?points i \<noteq> Some 0" "physical s i = Some e" for i e
    using that by (auto simp: check_if_chunk_below_threshold_def split: if_splits)
  have set: "set (env_order E m) = set m" for m using order [of m] by (metis set_mset_mset)
  define candidates where "candidates per_timeline = award_all ?points (neighbouring_indexes (env_arrow E) c per_timeline) []" for per_timeline
  define elect where "elect m = find_map (\<lambda>(i, _). physical s i) (filter (\<lambda>(_, points). 0 < points) (rev (sort_key snd (env_order E m))))" for m
  have "earned ?points []" by (simp add: earned_def)
  then have cand: "\<exists>m. candidates per_timeline = Some m \<and> earned ?points m" for per_timeline
    unfolding candidates_def by (rule award_all_earned [OF total])
  have elected: "\<exists>i. physical s i = Some e \<and> i \<noteq> chunk_id c \<and> concatenable (env_arrow E) c e"
    if m: "earned ?points m" and e: "elect m = Some e" for m e
  proof -
    obtain i v where iv: "(i, v) \<in> set m" "0 < v" "physical s i = Some e"
      using find_map_Some [OF e [unfolded elect_def]] by (auto simp: set)
    then have "?points i \<noteq> Some 0" using m by (auto simp: earned_def)
    then show ?thesis using passed iv(3) by blast
  qed
  obtain b where b: "descends_from_a_split (debug_assertions (env_build E)) s (chunk_id c) = Some b" using B by (simp add: descends_from_a_split_def)
  have "find_and_elect_compaction_candidate E c s =
      (if b \<or> \<not> below_thresholds s (total_size_bytes (env_build E) (env_stack_size E) c) (word_of_nat (num_rows c)) (all_timelines_sorted c) then Some None
       else case path_get (chunk_entity_path c) (temporal_chunk_ids_per_entity_per_component s) of
            None \<Rightarrow> Some None | Some per_timeline \<Rightarrow> map_option elect (candidates per_timeline))"
    unfolding find_and_elect_compaction_candidate_def b candidates_def elect_def by (simp add: map_conv_bind_option comp_def split: option.split)
  then have "find_and_elect_compaction_candidate E c s = Some None \<or>
      (\<exists>m. find_and_elect_compaction_candidate E c s = Some (elect m) \<and> earned ?points m)"
    using cand by (auto split: option.splits if_splits)
  then show thesis using that elected by (metis option.distinct(1))
qed

section \<open>Merging\<close>

lemma concat_and_sort_id:
  assumes "concat_and_sort B A new_id l r = Ok c" "\<not> chunk_is_empty l" "\<not> chunk_is_empty r"
  shows "chunk_id c = new_id"
proof -
  have unsorted: "chunk_id d = new_id" if "concatenated_unsorted A new_id x y = Ok d" "{x, y} = {l, r}" for x y d
    using that assms(2,3) by (auto simp: concatenated_unsorted_def row_id_range_def Let_def doubleton_eq_iff try_bind_Ok_iff split: if_splits option.splits)
  show ?thesis
    using assms(1) unsorted [of l r] unsorted [of r l]
    by (auto simp: concat_and_sort_def Let_def sort_by_row_ids_if_needed_def shuffle_with_def debug_checked_def ok_or_def try_bind_Ok_iff
      split: if_splits option.splits bind_splits sum.splits)
qed

text \<open>The elected chunk and the new one are replaced by their merge.\<close>

lemma loaded_ok_put:
  assumes "loaded_ok A s" "columns_ok A c" "chunk_is_sorted c" "\<not> chunk_is_empty c"
    and "physical_chunks_per_chunk_id s' = ordered_put (chunk_id c) c (physical_chunks_per_chunk_id s)"
  shows "loaded_ok A s'"
  using assms ordered_put_sorted [of "physical_chunks_per_chunk_id s" "chunk_id c" c] by (auto simp: loaded_ok_def)

lemma replace_grows:
  assumes A: "arrow_laws A" and ok: "store_ok A s" and e: "physical s i = Some e"
    and cc: "columns_ok A cc" "chunk_is_sorted cc" "\<not> chunk_is_empty cc" and rows: "mset (rows A cc) = mset (rows A e) + mset (rows A c)"
    and new: "physical s (chunk_id cc) = None" "unindexed s (chunk_id cc)"
    and t: "physical_chunks_per_chunk_id t = physical_chunks_per_chunk_id s"
      "temporal_chunk_ids_per_entity_per_component t = temporal_chunk_ids_per_entity_per_component (index_without_component cc (index_with_component A cc s))"
      "temporal_chunk_ids_per_entity t = temporal_chunk_ids_per_entity (index_without_component cc (index_with_component A cc s))"
  shows "grows A s c (insert_physical cc (snd (remove_chunks_deep B A stack_size [e] t)))"
proof -
  let ?P = "(physical s)(chunk_id cc \<mapsto> cc)"
  obtain deleted u where u: "remove_chunks_deep B A stack_size [e] t = (deleted, u)" by (rule prod.exhaust)
  let ?v = "insert_physical cc u"
  have s: "loaded_ok A s" "tracks A s (physical s)" "path_keys (temporal_chunk_ids_per_entity s)" using ok by (simp_all add: store_ok_def)
  have e': "chunk_id e = i" "columns_ok A e" using loaded [OF s(1) e] by simp_all
  have ne: "i \<noteq> chunk_id cc" using e new(1) by auto
  have "num_rows cc \<noteq> 0" using cc(3) by (simp add: chunk_is_empty_def)
  then have "tracks A t ?P" unfolding tracks_cong(1) [OF t(2,3)] by (intro tracks_add [OF A s(2) cc(1) _ new])
  moreover have "loaded_ok A t" using s(1) t(1) by (simp add: loaded_ok_def)
  moreover have "path_keys (temporal_chunk_ids_per_entity t)"
    using s(3) t(3) by (simp add: index_with_component_def index_without_component_def Let_def)
  moreover have "physical t \<subseteq>\<^sub>m ?P" using new(1) t(1) by (auto simp: map_le_def)
  ultimately have sw: "sweep_ok A t ?P" by (simp add: sweep_ok_def)
  have "\<forall>c \<in> set [e]. columns_ok A c \<and> ?P (chunk_id c) = Some c" using e e' ne by simp
  note deep = deep_swept [OF sw u this]
  have one: "chunk_id ` set [e] = {i}" using e' by simp
  obtain Q where Q: "swept A t ?P u Q" "dom ?P - dom Q \<subseteq> {i}" using deep(1) unfolding one by blast
  have phys_u: "physical u = (physical s)(i := None)" using deep(2) e' t(1) by (auto simp: restrict_map_def fun_eq_iff)
  have phys: "physical ?v = (physical u)(chunk_id cc \<mapsto> cc)" by (simp add: insert_physical_frame)
  have uok: "sweep_ok A u Q" "Q \<subseteq>\<^sub>m ?P" using Q(1) by (simp_all add: swept_def)
  have "chunk_id cc \<in> dom Q" using Q(2) ne by auto
  then have "Q (chunk_id cc) = Some cc" using uok(2) by (auto simp: map_le_def)
  then have "physical ?v \<subseteq>\<^sub>m Q" using uok(1) unfolding phys by (auto simp: sweep_ok_def map_le_def)
  moreover have "tracks A ?v Q" using uok(1) tracks_cong(1) [OF insert_physical_frame(2,3), of A cc u] by (simp add: sweep_ok_def)
  moreover have "loaded_ok A ?v" using uok(1) by (intro loaded_ok_put [OF _ cc insert_physical_frame(1)]) (simp add: sweep_ok_def)
  moreover have "path_keys (temporal_chunk_ids_per_entity ?v)" using uok(1) by (simp add: sweep_ok_def insert_physical_frame)
  ultimately have "store_ok A ?v" by (intro sweep_ok_store) (simp add: sweep_ok_def)
  moreover have "store_rows A ?v = store_rows A u + mset (rows A cc)" by (rule store_rows_add [OF phys]) (simp add: phys_u new(1))
  moreover have "store_rows A s = store_rows A u + mset (rows A e)" by (rule store_rows_remove [OF phys_u e])
  ultimately show ?thesis by (simp add: grows_def u rows add.assoc)
qed

lemma mark_leaky_release: "\<exists>l. mark_leaky False target is s = Some (s\<lparr>leaky_compactions := l\<rparr>)"
proof (induction "is" arbitrary: s)
  case Nil
  show ?case by (auto intro: exI [of _ "leaky_compactions s"])
next
  case (Cons i "is")
  from Cons [of "s\<lparr>leaky_compactions := AList.update i target (leaky_compactions s)\<rparr>"] show ?case by (auto simp: Let_def)
qed

text \<open>The columns that merging the chunk with a loaded one would pad are packed, if the two can be merged at all.\<close>

definition mergeable :: "('a, 'd, 'v) arrow \<Rightarrow> 'a ChunkStore \<Rightarrow> 'a Chunk \<Rightarrow> bool" where
  "mergeable A s c \<longleftrightarrow> (\<forall>(i, e) \<in> set (physical_chunks_per_chunk_id s).
     concatenable A c e \<longrightarrow> pads_packed A c e \<and> pads_packed A e c)"

lemma insert_temporal_grows:
  fixes E :: "('a, 'd, 'v) store_env"
  assumes A: "arrow_laws (env_arrow E)" and B: "\<not> debug_assertions (env_build E)" "\<not> very_strict (env_build E)"
    and order: "\<And>m. mset (env_order E m) = mset m" and ok: "store_ok (env_arrow E) s" and c: "ingestible (env_arrow E) c"
    and new: "physical s (chunk_id c) = None" "unindexed s (chunk_id c)" "fresh s new_id" and pads: "mergeable (env_arrow E) s c"
  shows "\<exists>after diffs t. insert_temporal E new_id c report s = Some (Ok (after, diffs), t) \<and>
    grows (env_arrow E) s c (insert_physical after t)"
proof -
  let ?A = "env_arrow E"
  obtain elected where elect: "find_and_elect_compaction_candidate E c s = Some elected"
    and elected: "\<And>e. elected = Some e \<Longrightarrow> \<exists>i. physical s i = Some e \<and> i \<noteq> chunk_id c \<and> concatenable ?A c e"
    using elected_is_neighbour [OF B(1) order, of c s] by blast
  define st where "st d = stats_add (temporal_physical_chunks_stats s) (stats_from_chunk (env_build E) ?A (env_stack_size E) d)" for d
  define indexed where "indexed d = (index_without_component d (index_with_component ?A d s))\<lparr>temporal_physical_chunks_stats := st d\<rparr>" for d
  have stats: "temporal_physical_chunks_stats (index_without_component d (index_with_component ?A d s)) = temporal_physical_chunks_stats s" for d
    by (simp add: index_with_component_def index_without_component_def Let_def)
  show ?thesis
  proof (cases elected)
    case None
    have "insert_temporal E new_id c report s = Some (Ok (c, [Addition c c report]), indexed c)"
      using elect by (simp add: None insert_temporal_def Let_def indexed_def st_def stats)
    moreover have "grows ?A s c (insert_physical c (indexed c))" by (rule index_grows(1) [OF A ok c new(1,2)]) (simp add: indexed_def)
    ultimately show ?thesis by blast
  next
    case (Some e)
    obtain i where i: "physical s i = Some e" "concatenable ?A c e" using elected [OF Some] by blast
    have "loaded_ok ?A s" using ok by (simp add: store_ok_def)
    note e = loaded(2,4) [OF this i(1)]
    have c': "columns_ok ?A c" "\<not> chunk_is_empty c" using c by (simp_all add: ingestible_def)
    have "pads_packed ?A e c" "pads_packed ?A c e" using pads map_of_SomeD [OF i(1)] i(2) by (auto simp: mergeable_def)
    moreover have "heap_unset (env_build E) e" "heap_unset (env_build E) c" using B(1) by (simp_all add: heap_unset_def)
    moreover have "concatenable ?A e c" using i(2) arrow_laws.concatenable_sym [OF A e(1) c'(1)] by simp
    ultimately obtain cc where cc: "concat_and_sort (env_build E) ?A new_id e c = Ok cc" "columns_ok ?A cc" "chunk_is_sorted cc"
      "mset (rows ?A cc) = mset (rows ?A e) + mset (rows ?A c)"
      using concat_and_sort_result [OF A e(1) c'(1), of "env_build E" new_id] B(2) by (auto split: if_splits)
    have id: "chunk_id cc = new_id" by (rule concat_and_sort_id [OF cc(1) e(2) c'(2)])
    have "\<not> chunk_is_empty cc" using arg_cong [OF cc(4), of size] e(2) by (simp add: chunk_is_empty_def length_rows)
    define srcs where "srcs = compaction_sources c e"
    obtain l where l: "mark_leaky False new_id (map fst srcs) (indexed cc) = Some ((indexed cc)\<lparr>leaky_compactions := l\<rparr>)"
      using mark_leaky_release by blast
    have "direct_lineage ((indexed cc)\<lparr>leaky_compactions := l\<rparr>) new_id = None"
      using new(3) by (simp add: fresh_def direct_lineage_def indexed_def)
    then obtain g where g: "insert_lineage_if_missing False new_id (ReportCompactedFrom srcs) ((indexed cc)\<lparr>leaky_compactions := l\<rparr>) =
        Some ((indexed cc)\<lparr>leaky_compactions := l, chunks_lineage := g\<rparr>)"
      by (rule insert_lineage_new) auto
    define t where "t = (indexed cc)\<lparr>leaky_compactions := l, chunks_lineage := g\<rparr>"
    have "insert_temporal E new_id c report s = Some (Ok (cc, [Addition c cc (ReportCompactedFrom srcs)]),
        snd (remove_chunks_deep (env_build E) ?A (env_stack_size E) [e] t))"
      using elect cc(1) B(1) l g by (simp add: Some insert_temporal_def Let_def indexed_def st_def stats id srcs_def t_def)
    moreover have "grows ?A s c (insert_physical cc (snd (remove_chunks_deep (env_build E) ?A (env_stack_size E) [e] t)))"
      using new(3) cc \<open>\<not> chunk_is_empty cc\<close> id by (intro replace_grows [OF A ok i(1)]) (simp_all add: t_def indexed_def fresh_def)
    ultimately show ?thesis by blast
  qed
qed

section \<open>The whole insertion\<close>

text \<open>The places where inserting a chunk of \<open>n\<close> rows may draw new ids: for pieces, and for a merge.\<close>

definition id_paths :: "nat \<Rightarrow> nat list set" where
  "id_paths n = insert [2] ((#) 0 ` split_paths n)"

lemma insert_new_chunk:
  fixes E :: "('a, 'd, 'v) store_env"
  assumes A: "arrow_laws (env_arrow E)" and B: "\<not> debug_assertions (env_build E)" "\<not> very_strict (env_build E)"
    and order: "\<And>m. mset (env_order E m) = mset m" and ok: "store_ok (env_arrow E) s"
    and c: "ingestible (env_arrow E) c" "fresh s (chunk_id c)" "mergeable (env_arrow E) s c"
    and ids: "inj_on ids (id_paths (num_rows c))" "\<And>q. q \<in> id_paths (num_rows c) \<Longrightarrow> fresh s (ids q) \<and> ids q \<noteq> chunk_id c"
  shows "\<exists>diffs s'. insert_chunk (Suc (Suc n)) E ids c s = Some (Ok diffs, s') \<and> grows (env_arrow E) s c s'"
proof -
  let ?A = "env_arrow E" and ?ids = "\<lambda>q. ids (0 # q)"
  have c': "\<not> chunk_is_empty c" "chunk_components c \<noteq> []" "chunk_is_sorted c" "\<not> chunk_is_static c"
    using c(1) by (simp_all add: ingestible_def)
  have new: "physical s (chunk_id c) = None" "unindexed s (chunk_id c)" "direct_lineage s (chunk_id c) = None"
    using c(2) by (simp_all add: fresh_def)
  obtain g where g: "insert_lineage_if_missing False (chunk_id c) (ReportVolatile :: 'a ChunkDirectLineageReport) s = Some (s\<lparr>chunks_lineage := g\<rparr>)"
    "direct_lineage (s\<lparr>chunks_lineage := g\<rparr>) = (direct_lineage s)(chunk_id c \<mapsto> Volatile)"
    using insert_lineage_new [OF new(3), of False "ReportVolatile :: 'a ChunkDirectLineageReport"] by auto
  define s1 where "s1 = s\<lparr>chunks_lineage := g\<rparr>"
  have l1: "direct_lineage s1 (chunk_id c) = Some Volatile" by (simp add: s1_def g(2))
  have fresh1: "fresh s1 j" if "fresh s j" "j \<noteq> chunk_id c" for j
    using that tracks_cong(2) [of s1 s] by (simp add: fresh_def s1_def g(2))
  have rows1: "store_rows ?A s1 = store_rows ?A s" "store_ok ?A s1" using ok store_ok_frame [of s1 s ?A] by (simp_all add: store_rows_def s1_def)
  have paths: "0 # q \<in> id_paths (num_rows c)" if "q \<in> split_paths (num_rows c)" for q using that by (simp add: id_paths_def)
  have inj: "inj_on ?ids (split_paths (num_rows c))"
  proof (rule inj_onI)
    fix p q assume "p \<in> split_paths (num_rows c)" "q \<in> split_paths (num_rows c)" "?ids p = ?ids q"
    then show "p = q" using inj_onD [OF ids(1), of "0 # p" "0 # q"] paths by simp
  qed
  have away: "chunk_id c \<notin> ?ids ` split_paths (num_rows c)" using ids(2) paths by fastforce
  have "descends_from_a_compaction (debug_assertions (env_build E)) s1 i = Some False"
    if "i = chunk_id c \<or> i \<in> ?ids ` split_paths (num_rows c)" for i
    using that
  proof
    assume "i \<in> ?ids ` split_paths (num_rows c)"
    then obtain q where "q \<in> split_paths (num_rows c)" "i = ids (0 # q)" by blast
    then have "fresh s1 i" using fresh1 ids(2) paths by simp
    then show ?thesis by (simp add: fresh_def compaction_unknown)
  qed (simp add: lineage_steps(2) [OF l1 refl])
  from compute_splits_pieces [OF A inj c(1) away this] obtain ps where ps: "compute_splits E ?ids c s1 = Some ps" "pieces_of ?A [c] ps"
    "1 < length ps \<longrightarrow> chunk_id ` set ps \<subseteq> ?ids ` split_paths (num_rows c)" by blast
  define s2 where "s2 = s1\<lparr>dangling_splits := AList.update (chunk_id c) (map chunk_id ps) (dangling_splits s1),
    split_on_ingest := List.insert (chunk_id c) (split_on_ingest s1)\<rparr>"
  define ins where "ins = (\<lambda>k p s. map_option (apfst (map_sum id (map (set_before c))))
      (insert_chunk_impl (Suc n) E (\<lambda>q. ids (1 # k # q)) p (ReportSplitFrom c (filter (\<lambda>d. chunk_id d \<noteq> chunk_id p) ps)) s))"
  have "is_root_chunk s (chunk_id c)" by (simp add: is_root_chunk_def new(3))
  then have run: "insert_chunk (Suc (Suc n)) E ids c s =
      (if 1 < length ps then insert_each ins 0 ps [] s2 else insert_whole E (ids [2]) c ReportVolatile [] s1)"
    using c' new(1) B g(1) lineage_steps [OF l1] ps(1)
    by (simp add: insert_chunk_def insert_chunk_impl.simps(2) [of "Suc n"] warn_if_out_of_order_def s1_def leaky_loaded_fresh [OF c(2)]
      remove_leftovers_fresh [OF c(2)] ins_def s2_def Let_def del: insert_chunk_impl.simps)
  show ?thesis
  proof (cases "1 < length ps")
    case True
    have "fresh s2 (chunk_id p)" if "p \<in> set ps" for p
    proof -
      have "chunk_id p \<in> ?ids ` split_paths (num_rows c)" by (rule subsetD [OF mp [OF ps(3) True] imageI [OF that]])
      then obtain q where q: "q \<in> split_paths (num_rows c)" "chunk_id p = ids (0 # q)" by auto
      then have "fresh s1 (chunk_id p)" "chunk_id p \<noteq> chunk_id c" using fresh1 ids(2) paths by simp_all
      then show ?thesis using tracks_cong(2) [of s2 s1] by (simp add: fresh_def s2_def direct_lineage_def)
    qed
    moreover have "direct_lineage s2 (chunk_id c) = Some Volatile" using l1 by (simp add: s2_def direct_lineage_def)
    moreover have "store_ok ?A s2" "store_rows ?A s2 = store_rows ?A s1"
      using rows1(2) store_ok_frame [of s2 s1 ?A] by (simp_all add: s2_def store_rows_def)
    moreover have "\<forall>p \<in> set ps. ingestible ?A p" "distinct (map chunk_id ps)" "concat (map (rows ?A) ps) = rows ?A c"
      using ps(2) by (auto simp: pieces_of_def)
    ultimately show ?thesis
      using insert_pieces [OF A B, of s2 ps c, OF _ _ _ _ ins_def, of 0 "[]"] rows1(1) True by (simp add: run grows_def)
  next
    case False
    define s3 where "s3 = s1\<lparr>insert_id := insert_id s1 + 1\<rparr>"
    have fr: "store_ok ?A s3" "store_rows ?A s3 = store_rows ?A s1" "physical s3 = physical s" "unindexed s3 = unindexed s"
      using rows1(2) store_ok_frame [of s3 s1 ?A] tracks_cong(2) [of s3 s] by (simp_all add: s3_def s1_def store_rows_def)
    have "[2] \<in> id_paths (num_rows c)" by (simp add: id_paths_def)
    then have "fresh s1 (ids [2])" using fresh1 ids(2) by blast
    then have "fresh s3 (ids [2])" using tracks_cong(2) [of s3 s1] by (simp add: fresh_def s3_def direct_lineage_def)
    moreover have "mergeable ?A s3 c" using c(3) by (simp add: mergeable_def s3_def s1_def)
    ultimately obtain after diffs t where t: "insert_temporal E (ids [2]) c ReportVolatile s3 = Some (Ok (after, diffs), t)"
      "grows ?A s3 c (insert_physical after t)"
      using insert_temporal_grows [OF A B order fr(1) c(1), of "ids [2]" ReportVolatile] new(1,2) by (auto simp: fr(3,4))
    have "insert_whole E (ids [2]) c ReportVolatile [] s1 = Some (Ok diffs, insert_physical after t)"
      using t(1) c'(4) by (simp add: insert_whole_def Let_def s3_def)
    then show ?thesis using t(2) False rows1(1) fr(2) by (simp add: run grows_def)
  qed
qed

text \<open>
  C3. Inserting a new temporal chunk into a sound store always returns, and a depth of two is enough. A chunk without rows or without components
  changes nothing, and one whose row ids are not sorted is refused with an error and changes nothing. Every other one is taken in: the store is sound
  afterwards, and the rows of its loaded chunks are the rows from before and the rows of the chunk, each as often as
  it occurs, whether the chunk is entered as it is, split into pieces or merged with a neighbour. This is the build without debug assertions that does
  not check contents very strictly. The
  chunk is sound and not static, its id and the ids drawn on the way are new, and for every loaded chunk that it could be merged with, the columns that the merge would pad are
  packed: padding a column that is not packed loses its cells. The order in which the candidates are iterated does not matter.
\<close>

theorem insert_adds_rows:
  fixes E :: "('a, 'd, 'v) store_env"
  assumes "arrow_laws (env_arrow E)" "\<not> debug_assertions (env_build E)" "\<not> very_strict (env_build E)" "\<And>m. mset (env_order E m) = mset m"
    and "store_ok (env_arrow E) s" "columns_ok (env_arrow E) c" "\<not> chunk_is_static c" "num_rows c < 2 ^ 64"
    and "fresh s (chunk_id c)" "mergeable (env_arrow E) s c"
    and "inj_on ids (id_paths (num_rows c))" "\<And>q. q \<in> id_paths (num_rows c) \<Longrightarrow> fresh s (ids q) \<and> ids q \<noteq> chunk_id c"
  shows "if chunk_is_empty c \<or> chunk_components c = [] then insert_chunk (Suc (Suc n)) E ids c s = Some (Ok [], s)
    else if \<not> chunk_is_sorted c then insert_chunk (Suc (Suc n)) E ids c s = Some (Err UnsortedChunk, s)
    else \<exists>diffs s'. insert_chunk (Suc (Suc n)) E ids c s = Some (Ok diffs, s') \<and> store_ok (env_arrow E) s' \<and>
      store_rows (env_arrow E) s' = store_rows (env_arrow E) s + mset (rows (env_arrow E) c)"
proof -
  have new: "physical s (chunk_id c) = None" "is_root_chunk s (chunk_id c)"
    using assms(9) by (simp_all add: fresh_def is_root_chunk_def)
  have "\<exists>diffs s'. insert_chunk (Suc (Suc n)) E ids c s = Some (Ok diffs, s') \<and> grows (env_arrow E) s c s'"
    if "\<not> chunk_is_empty c" "chunk_components c \<noteq> []" "chunk_is_sorted c"
    by (rule insert_new_chunk [OF assms(1-5) _ assms(9-12)]) (use assms(6-8) that in \<open>simp add: ingestible_def\<close>)
  then show ?thesis using new by (auto simp: grows_def insert_chunk_def)
qed

definition demo_env :: "(nat mem_array, unit, nat) store_env" where
  "demo_env = \<lparr>env_build = demo_build\<lparr>debug_assertions := False\<rparr>, env_arrow = mem_arrow, env_stack_size = 0, env_order = id\<rparr>"

definition demo_supply :: id_supply where
  "demo_supply q = demo_id (10 + word_of_nat (length q))"

lemma demo_fresh:
  assumes "i \<noteq> demo_id 9"
  shows "fresh demo_store i"
proof -
  have "direct_lineage demo_store i = None" "map_of (leaky_compactions demo_store) i = None" "map_of (dangling_splits demo_store) i = None"
    unfolding demo_store_def insert_physical_lineage index_lineage by (simp_all add: direct_lineage_def store_new_def)
  then show ?thesis using assms demo_unindexed [OF assms] by (simp add: fresh_def demo_store_ok)
qed

theorem insert_adds_rows_witness:
  "\<exists>diffs s'. insert_chunk 2 demo_env demo_supply demo_next demo_store = Some (Ok diffs, s') \<and> store_ok mem_arrow s' \<and>
     store_rows mem_arrow s' = store_rows mem_arrow demo_store + mset (rows mem_arrow demo_next)"
proof -
  have n: "num_rows demo_next = 1" by (simp add: demo_next_def demo_late_def num_rows_def)
  have paths: "id_paths 1 = {[2], [0, 0, 0], [0, Suc 0, 0, 0]}" by (auto simp: id_paths_def split_paths_def)
  have ids: "demo_supply [2] = demo_id 11" "demo_supply [0, 0, 0] = demo_id 13" "demo_supply [0, Suc 0, 0, 0] = demo_id 14"
    by (simp_all add: demo_supply_def)
  have inj: "inj_on demo_supply (id_paths (num_rows demo_next))" unfolding n paths by (simp add: ids demo_id_def)
  have new: "fresh demo_store (demo_supply q) \<and> demo_supply q \<noteq> chunk_id demo_next" if "q \<in> id_paths (num_rows demo_next)" for q
    using that unfolding n paths demo_next_ok by (auto simp: ids demo_id_def intro!: demo_fresh)
  have small: "num_rows demo_next < 2 ^ 64" by (simp add: n)
  have taken: "\<not> chunk_is_empty demo_next" "chunk_components demo_next \<noteq> []" "chunk_is_sorted demo_next" "\<not> chunk_is_static demo_next"
    using demo_next_ok by (simp_all add: chunk_is_static_def demo_next_def demo_late_def)
  have "mergeable mem_arrow demo_store demo_next"
  proof -
    have "pads_packed mem_arrow demo_next demo_chunk \<and> pads_packed mem_arrow demo_chunk demo_next"
      using demo_late_ok(4,5) by (simp add: pads_packed_def demo_next_def)
    moreover have "physical_chunks_per_chunk_id demo_store = [(demo_id 9, demo_chunk)]" by code_simp
    ultimately show ?thesis by (simp add: mergeable_def)
  qed
  moreover have "fresh demo_store (chunk_id demo_next)" unfolding demo_next_ok by (rule demo_fresh) (simp add: demo_id_def)
  ultimately show ?thesis
    using insert_adds_rows [of demo_env demo_store demo_next demo_supply 0] mem.arrow_laws_axioms demo_store_ok(1) inj new taken demo_next_ok n small
    by (simp add: demo_env_def demo_build_def numeral_2_eq_2)
qed

end
