(* ===== verification/Spec2Isabelle.thy ===== *)
theory Spec2Isabelle
  imports Dlr_Stream Time_Range Tuid Short_Names Data_Path Filter_Queries Chunk_Auto Chunk_Rows Store_Insertion
begin

text \<open>
  A verification development for Dalaran, a store and viewer for multimodal logs.

  \<^bold>\<open>The program.\<close> Clients log components of entities at points of several timelines. An entity is named by a path
  (\<open>dl_log_types/src/path\<close>), a point in time by a \<open>TimeInt\<close> (\<open>dl_log_types/src/index\<close>), a row by a time based
  identifier (\<open>dl_tuid\<close>). Rows are batched into chunks (\<open>dl_chunk\<close>): row ids, one time column per timeline and one
  nullable list column per component, all in Arrow memory. Chunks are queried, sliced, merged and split by the
  store above them, and travel as frames of a binary stream (\<open>dl_log_encoding\<close>) that is written by the encoder and
  read by a push based decoder that may be fed any cut of the bytes. Filters over entity paths
  select what a view shows.

  \<^bold>\<open>The theories\<close>, from the bottom up, each with the files it translates (below \<open>src/crates\<close>):

  \<^item> \<^theory_text>\<open>Prelude\<close>, \<^theory_text>\<open>Bytes\<close>: machine integers (\<open>u8\<close> to \<open>u64\<close> as words, \<open>i64\<close> as a word under the signed order, with
    saturating arithmetic), results as sums, little and big endian bytes; the simp collections of the development.
  \<^item> \<^theory_text>\<open>Non_Min\<close>, \<^theory_text>\<open>Time_Int\<close>, \<^theory_text>\<open>Time_Range\<close>: \<open>NonMinI64\<close>, \<open>TimeInt\<close>, \<open>AbsoluteTimeRange\<close>, relative ranges, timelines. Bit
    level encodings are exact, temporal arithmetic is clamped arithmetic and never produces the static
    time, range operations are set operations.
  \<^item> \<^theory_text>\<open>Tuid\<close>: identifiers, their order, text forms and the generator (\<open>utils/dl_tuid\<close>, \<open>row_id.rs\<close>).
  \<^item> \<^theory_text>\<open>Spans\<close>, \<^theory_text>\<open>Crate_Version\<close>: spans and the version of a stream, with its four byte and text forms.
  \<^item> \<^theory_text>\<open>Dlr_Frames\<close>, \<^theory_text>\<open>Byte_Buffer\<close>, \<^theory_text>\<open>Dlr_Decoder\<close>, \<^theory_text>\<open>Dlr_Encoder\<close>, \<^theory_text>\<open>Dlr_Stream\<close>: the log stream (\<open>dl_log_encoding/src/dlr\<close>).
    Frame codecs satisfy the locales \<open>frame_codec\<close> and \<open>canonical_codec\<close>, the buffer the locale \<open>byte_source\<close>, in
    which the decoder is shown to depend only on the bytes received and not on how they were cut. Encoding and decoding
    is a round trip for concatenated streams; the decoder's assertions never fire.
  \<^item> \<^theory_text>\<open>Path_Part\<close>, \<^theory_text>\<open>Entity_Path\<close>, \<^theory_text>\<open>Path_Parse\<close>, \<^theory_text>\<open>Data_Path\<close>, \<^theory_text>\<open>Short_Names\<close>: escaping, printing and parsing of paths, strictly and
    forgivingly, prefix relations, and short names that are unique (\<open>entity_path_part.rs\<close>, \<open>entity_path.rs\<close>,
    \<open>parse_path.rs\<close>, \<open>data_path.rs\<close>, \<open>component_path.rs\<close>). Paths are compared by hash in the source; the properties assume
    that the hash function, which is a parameter, does not collide on the paths at hand.
  \<^item> \<^theory_text>\<open>BTree_Map\<close>, \<^theory_text>\<open>Path_Filter\<close>, \<^theory_text>\<open>Filter_Semantics\<close>, \<^theory_text>\<open>Filter_Queries\<close>: filters (\<open>entity_path_filter.rs\<close>) as ordered maps of rules
    (locale \<open>ord_key\<close> for the key orders), against the reading that the most specific rule decides. Rules are
    parsed without the cache of the forgiving parser, which \<^theory_text>\<open>Path_Parse\<close> shows to make no difference.
  \<^item> \<^theory_text>\<open>Arrow_Array\<close>: the Arrow kernels that the chunks use, as records of operations with the laws
    \<open>kernel_laws\<close> and \<open>arrow_laws\<close> that their documentation promises, an implementation in memory that satisfies them, and the helpers of
    \<open>dl_arrow_util/src/arrays.rs\<close> on top.
  \<^item> \<^theory_text>\<open>Time_Column\<close>, \<^theory_text>\<open>Chunk\<close>, \<^theory_text>\<open>Chunk_Slice\<close>, \<^theory_text>\<open>Chunk_Query\<close>, \<^theory_text>\<open>Chunk_Merge\<close>, \<^theory_text>\<open>Chunk_Stats\<close>, \<^theory_text>\<open>Chunk_Auto\<close>, \<^theory_text>\<open>Chunk_Rows\<close>: chunks
    (\<open>dl_chunk/src\<close>: \<open>chunk.rs\<close>, \<open>slice.rs\<close>, \<open>shuffle.rs\<close>, \<open>latest_at.rs\<close>, \<open>range.rs\<close>, \<open>merge.rs\<close>, \<open>split.rs\<close>). The abstract content
    of a chunk is its list of rows (\<open>rows\<close> in \<^theory_text>\<open>Chunk\<close>: id, time per timeline, cell per component). Queries, merges,
    splits, filters, sorts and counts are shown to be the corresponding operations on that list, and to keep the
    invariant \<open>columns_ok\<close> that the sanity check tests.
  \<^item> \<^theory_text>\<open>Store_Index\<close>, \<^theory_text>\<open>Store_Lineage\<close>, \<^theory_text>\<open>Hash_Map\<close>: the parts of the chunk store (\<open>dl_chunk_store/src\<close>): the ids of chunks by
    start and end time (\<open>ChunkIdSetPerTime\<close>), shown to refine a set of intervals, and where chunks come from (\<open>lineage.rs\<close>), with exact
    reference counts and searches that return.
  \<^item> \<^theory_text>\<open>Chunk_Store\<close>, \<^theory_text>\<open>Store_Query\<close>: the state of the store (\<open>store.rs\<close>, schema and entity tree left out) and the queries of \<open>query.rs\<close>. The
    invariant \<open>store_ok\<close> says that the loaded chunks are sound and that the indices track them; stale entries are allowed. What queries
    need of an index is the locale \<open>chunk_index\<close> (interpreted as \<open>per_time\<close>); the searches for the nearest time are proved once in \<open>best_of\<close> (interpreted
    as \<open>earliest\<close> and \<open>latest\<close>).
  \<^item> \<^theory_text>\<open>Store_Write\<close>, \<^theory_text>\<open>Store_Removal\<close>, \<^theory_text>\<open>Store_Contract\<close>: entering, unloading and removing chunks (\<open>writes.rs\<close>, \<open>gc.rs\<close>, \<open>stats.rs\<close>), that they keep the invariant
    (\<open>swept\<close> composes removals) and the list of chunks by smallest row id (\<open>row_ids_ok\<close>), and what queries then promise: static data comes first, and otherwise
    latest-at finds the latest row of all loaded chunks and range queries miss no row, where the index is measurable.
  \<^item> \<^theory_text>\<open>Store_Gc\<close>: garbage collection (\<open>gc.rs\<close>). Protected and static chunks stay, as do for every component as many of the chunks that start last as asked for, and
    with enough time the target is met.
  \<^item> \<^theory_text>\<open>Store_Insert\<close>, \<^theory_text>\<open>Store_Ingest\<close>, \<^theory_text>\<open>Store_Insertion\<close>: the whole of \<open>insert_chunk\<close> and \<open>drop_entity_path\<close> (\<open>writes.rs\<close>). Inserting a new temporal chunk
    returns, refuses unsorted row ids, and otherwise keeps the invariant and adds exactly its rows to those of the store, whether it is entered, split or merged with a neighbour.

  \<^bold>\<open>Modelling.\<close> Structs are records and enums datatypes with the constructors of the source; an error is \<open>Err\<close> of a sum, a
  panic is \<open>None\<close> (or the error \<open>Panicked\<close>), including the assertions of debug builds, which the record \<open>build\<close> switches on.
  Hash maps are association lists in some iteration order. Loops are structural recursions or folds; the binary
  search, the tokenizers and the escape parsers have termination measures; the loops of the decoder and of the split are
  partial functions, whose results are proved to exist. The recursion of the insertion takes its depth as fuel: pieces of a split are not split
  again, so that a depth of two is enough, which is proved; the searches along the lineage take as many levels as there are entries. Time
  budgets are predicates that tell after how many chunks the time is up. Fresh identifiers,
  hash functions, protobuf codecs, compression, memory accounting and the Arrow kernels are code outside of
  the repository: they are arguments, and what is relied on is a hypothesis or a locale with an instance.

  \<^bold>\<open>Not modelled.\<close> Of the chunk store, the virtual insertion of a manifest, the schema, the entity tree, and events with their subscribers; above
  it, the query caches and dataframes, and of the chunks the batcher: they rest on Arrow record batches, locks and threads. Left out for good are floating point times (\<open>fixed\<close>), calendar formatting (\<open>jiff\<close>), network services, the viewer, video
  decoding, importers of third-party formats, the generated types and the code generator: I/O, user interface or
  third-party code. The manifest lists every part with its status, and the findings where code and documentation disagree.
\<close>

end
